(* ===== verification/Ondas_Prelude.thy ===== *)
theory Ondas_Prelude
  imports
    Main
    "HOL-Library.Word"
    "HOL-Library.Char_ord"
    "HOL-Library.List_Lexorder"
    "HOL-Library.Product_Lexorder"
    "HOL-Library.Multiset"
begin

text \<open>
  Shared vocabulary of the development: the machine integers of the Rust sources, the
  two results every fallible or interruptible operation has (\<open>Result\<close> as a sum with
  the error on the left, \<open>ControlFlow\<close> as \<open>flow\<close>), byte and character predicates of
  the Rust standard library, and the list facts that several components use.

  A byte slice and a \<open>str\<close> are both a \<open>string\<close>, a list of \<open>char\<close>, each \<open>char\<close>
  one byte. A \<open>usize\<close> count or index is a \<open>nat\<close>; a \<open>u32\<close> width and a \<open>u64\<close> tick or
  count are words, so that their bounds and their checked arithmetic are visible.
\<close>

section \<open>Machine integers\<close>

type_synonym u8 = "8 word"
type_synonym u32 = "32 word"
type_synonym u64 = "64 word"

text \<open>\<open>checked_add\<close> and \<open>checked_sub\<close> of Rust's unsigned integers.\<close>

definition checked_add :: "'a::len word \<Rightarrow> 'a word \<Rightarrow> 'a word option" where
  "checked_add a b = (if unat a + unat b < 2 ^ LENGTH('a) then Some (a + b) else None)"

definition checked_sub :: "'a::len word \<Rightarrow> 'a word \<Rightarrow> 'a word option" where
  "checked_sub a b = (if b \<le> a then Some (a - b) else None)"

lemma checked_add_Some_unat:
  "checked_add a b = Some c \<Longrightarrow> unat c = unat a + unat b"
  by (auto simp: checked_add_def unat_word_ariths split: if_splits)

lemma checked_add_None_iff:
  fixes a b :: "'a::len word"
  shows "checked_add a b = None \<longleftrightarrow> 2 ^ LENGTH('a) \<le> unat a + unat b"
  by (auto simp: checked_add_def)

lemma checked_add_zero [simp]: "checked_add 0 b = Some b" "checked_add b 0 = Some b"
  by (simp_all add: checked_add_def unsigned_less)

lemma checked_sub_Some_iff:
  "checked_sub a b = Some c \<longleftrightarrow> b \<le> a \<and> c = a - b"
  by (auto simp: checked_sub_def)

lemma checked_sub_Some_unat:
  "checked_sub a b = Some c \<Longrightarrow> unat c = unat a - unat b"
  by (simp add: checked_sub_Some_iff unat_sub)

lemma unat_u32_less: "unat (x :: u32) < 2 ^ 32"
proof -
  have "unat x < 2 ^ LENGTH(32)" by (rule unsigned_less)
  then show ?thesis by simp
qed

lemma unat_u64_less: "unat (x :: u64) < 2 ^ 64"
proof -
  have "unat x < 2 ^ LENGTH(64)" by (rule unsigned_less)
  then show ?thesis by simp
qed

section \<open>Results and control flow\<close>

text \<open>
  \<open>ControlFlow<B>\<close>: a visitor goes on or stops with a value. \<open>and_then\<close> is the \<open>?\<close>
  operator: the error leaves at once, the value goes to the rest of the function.
\<close>

datatype 'b flow = Continue | Break 'b

definition and_then :: "'e + 'a \<Rightarrow> ('a \<Rightarrow> 'e + 'b) \<Rightarrow> 'e + 'b" where
  "and_then r f = (case r of Inl e \<Rightarrow> Inl e | Inr x \<Rightarrow> f x)"

lemma and_then_simps [simp]:
  "and_then (Inl e) f = Inl e"
  "and_then (Inr x) f = f x"
  by (simp_all add: and_then_def)

lemma and_then_Inr_iff [simp]:
  "and_then r f = Inr y \<longleftrightarrow> (\<exists>x. r = Inr x \<and> f x = Inr y)"
  by (cases r) auto

lemma and_then_Inl_iff:
  "and_then r f = Inl e \<longleftrightarrow> r = Inl e \<or> (\<exists>x. r = Inr x \<and> f x = Inl e)"
  by (cases r) auto

lemma and_then_cong [fundef_cong]:
  "r = r' \<Longrightarrow> (\<And>x. r' = Inr x \<Longrightarrow> f x = f' x) \<Longrightarrow> and_then r f = and_then r' f'"
  by (cases r') auto

definition ok_or :: "'e \<Rightarrow> 'a option \<Rightarrow> 'e + 'a" where
  "ok_or e x = (case x of None \<Rightarrow> Inl e | Some a \<Rightarrow> Inr a)"

lemma ok_or_simps [simp]:
  "ok_or e None = Inl e"
  "ok_or e (Some a) = Inr a"
  by (simp_all add: ok_or_def)

lemma ok_or_Inr_iff [simp]: "ok_or e x = Inr a \<longleftrightarrow> x = Some a"
  by (cases x) simp_all

section \<open>Bytes\<close>

text \<open>
  The byte predicates of the standard library: \<open>u8::is_ascii_whitespace\<close> (space, tab,
  line feed, form feed and carriage return), \<open>is_ascii\<close>, \<open>is_ascii_digit\<close>,
  \<open>to_ascii_lowercase\<close> and the decimal rendering of an unsigned number.
\<close>

definition byte :: "char \<Rightarrow> nat" where
  "byte c = of_char c"

definition is_ascii :: "char \<Rightarrow> bool" where
  "is_ascii c = (byte c < 128)"

definition is_ascii_whitespace :: "char \<Rightarrow> bool" where
  "is_ascii_whitespace c = (byte c \<in> {9, 10, 12, 13, 32})"

definition is_ascii_digit :: "char \<Rightarrow> bool" where
  "is_ascii_digit c = (48 \<le> byte c \<and> byte c \<le> 57)"

definition is_ascii_uppercase :: "char \<Rightarrow> bool" where
  "is_ascii_uppercase c = (65 \<le> byte c \<and> byte c \<le> 90)"

definition is_ascii_alphabetic :: "char \<Rightarrow> bool" where
  "is_ascii_alphabetic c = (65 \<le> byte c \<and> byte c \<le> 90 \<or> 97 \<le> byte c \<and> byte c \<le> 122)"

definition to_ascii_lowercase :: "char \<Rightarrow> char" where
  "to_ascii_lowercase c = (if is_ascii_uppercase c then char_of (byte c + 32) else c)"

lemma byte_less_256 [simp]: "byte c < 256"
  by (simp add: byte_def)

lemma byte_char_of [simp]: "n < 256 \<Longrightarrow> byte (char_of n) = n"
  by (simp add: byte_def of_char_of)

lemma byte_eq_iff [simp]: "byte c = byte d \<longleftrightarrow> c = d"
  by (simp add: byte_def)

lemma char_of_byte [simp]: "char_of (byte c) = c"
  by (simp add: byte_def)

lemma not_uppercase_lowercase [simp]: "\<not> is_ascii_uppercase (to_ascii_lowercase c)"
  by (auto simp: to_ascii_lowercase_def is_ascii_uppercase_def)

lemma to_ascii_lowercase_id [simp]:
  "\<not> is_ascii_uppercase c \<Longrightarrow> to_ascii_lowercase c = c"
  by (simp add: to_ascii_lowercase_def)

lemma to_ascii_lowercase_idem [simp]:
  "to_ascii_lowercase (to_ascii_lowercase c) = to_ascii_lowercase c"
  by simp

fun show_nat :: "nat \<Rightarrow> string" where
  "show_nat n =
    (if n < 10 then [char_of (48 + n)] else show_nat (n div 10) @ [char_of (48 + n mod 10)])"

declare show_nat.simps [simp del]

section \<open>Lists\<close>

text \<open>
  \<open>partition_point p xs\<close> is Rust's binary search: for a list whose elements satisfying
  \<open>p\<close> come first, the number of those elements. The library halves the interval; on a
  partitioned list that is the length of the longest prefix that satisfies \<open>p\<close>, which
  \<open>halving_correct\<close> proves for the halving loop itself.
\<close>

function halving :: "('a \<Rightarrow> bool) \<Rightarrow> 'a list \<Rightarrow> nat \<Rightarrow> nat \<Rightarrow> nat" where
  "halving p xs lo hi =
    (if lo < hi then
       let mid = lo + (hi - lo) div 2
       in if p (xs ! mid) then halving p xs (mid + 1) hi else halving p xs lo mid
     else lo)"
  by pat_completeness auto
termination
  by (relation "measure (\<lambda>(p, xs, lo, hi). hi - lo)") auto

declare halving.simps [simp del]

definition partition_point :: "('a \<Rightarrow> bool) \<Rightarrow> 'a list \<Rightarrow> nat" where
  "partition_point p xs = halving p xs 0 (length xs)"

lemma nth_update_any: "i < length xs \<Longrightarrow> xs[k := x] ! i = (if k = i then x else xs ! i)"
  by (cases "k < length xs") (auto simp: nth_list_update)

definition partitioned :: "('a \<Rightarrow> bool) \<Rightarrow> 'a list \<Rightarrow> bool" where
  "partitioned p xs \<longleftrightarrow> (\<forall>x \<in> set (dropWhile p xs). \<not> p x)"

lemma partitioned_nth:
  assumes "partitioned p xs" and "i < length xs"
  shows "p (xs ! i) \<longleftrightarrow> i < length (takeWhile p xs)"
proof
  assume "i < length (takeWhile p xs)"
  then show "p (xs ! i)"
    by (metis nth_mem set_takeWhileD takeWhile_nth)
next
  assume p: "p (xs ! i)"
  show "i < length (takeWhile p xs)"
  proof (rule ccontr)
    let ?k = "length (takeWhile p xs)"
    assume "\<not> i < ?k"
    then have "xs ! i = dropWhile p xs ! (i - ?k)"
      using length_takeWhile_le [of p xs] by (simp add: dropWhile_eq_drop not_less)
    moreover have "i - ?k < length (dropWhile p xs)"
      using assms(2) \<open>\<not> i < ?k\<close> by (simp add: dropWhile_eq_drop)
    ultimately have "xs ! i \<in> set (dropWhile p xs)" by simp
    with assms(1) p show False by (simp add: partitioned_def)
  qed
qed

lemma halving_correct:
  assumes "partitioned p xs" and "lo \<le> length (takeWhile p xs)"
    and "length (takeWhile p xs) \<le> hi" and "hi \<le> length xs"
  shows "halving p xs lo hi = length (takeWhile p xs)"
  using assms
proof (induction p xs lo hi rule: halving.induct)
  case (1 p xs lo hi)
  let ?mid = "lo + (hi - lo) div 2"
  show ?case
  proof (cases "lo < hi")
    case True
    then have mid: "?mid < hi" "?mid < length xs" using "1.prems"(4) by auto
    show ?thesis
    proof (cases "p (xs ! ?mid)")
      case p: True
      then have "?mid < length (takeWhile p xs)"
        using partitioned_nth [OF "1.prems"(1) mid(2)] by simp
      with True p "1.IH"(1) [OF True refl p] "1.prems" show ?thesis
        by (simp add: halving.simps [of p xs lo hi] Let_def)
    next
      case p: False
      then have "length (takeWhile p xs) \<le> ?mid"
        using partitioned_nth [OF "1.prems"(1) mid(2)] by simp
      with True p "1.IH"(2) [OF True refl p] "1.prems" mid show ?thesis
        by (simp add: halving.simps [of p xs lo hi] Let_def)
    qed
  next
    case False
    with "1.prems" show ?thesis by (simp add: halving.simps [of p xs lo hi])
  qed
qed

lemma partition_point_takeWhile:
  "partitioned p xs \<Longrightarrow> partition_point p xs = length (takeWhile p xs)"
  unfolding partition_point_def by (rule halving_correct) (auto simp: length_takeWhile_le)

lemma partitioned_simps [simp]:
  "partitioned p []"
  "partitioned p (x # xs) \<longleftrightarrow> (if p x then partitioned p xs else \<forall>y \<in> set xs. \<not> p y)"
  by (simp_all add: partitioned_def)

lemma partitioned_sorted_wrt:
  assumes "sorted_wrt r xs" and down: "\<And>x y. r x y \<Longrightarrow> p y \<Longrightarrow> p x"
  shows "partitioned p xs"
  using assms(1)
proof (induction xs)
  case Nil
  show ?case by simp
next
  case (Cons x xs)
  then have "partitioned p xs" and "\<forall>y \<in> set xs. r x y" by simp_all
  then show ?case using down by (metis partitioned_simps(2))
qed

lemma takeWhile_filter_partitioned:
  "partitioned p xs \<Longrightarrow> takeWhile p xs = filter p xs"
proof (induction xs)
  case Nil
  show ?case by simp
next
  case (Cons x xs)
  show ?case
  proof (cases "p x")
    case True
    with Cons show ?thesis by simp
  next
    case False
    with Cons.prems have "filter p xs = []"
      by (simp add: filter_empty_conv)
    with False show ?thesis by simp
  qed
qed


text \<open>
  \<open>sort_unstable_by_key\<close>: a permutation sorted by the key; elements of equal keys come in
  any order. Stable sorting is one such function.
\<close>

locale unstable_sort =
  fixes sort_by :: "('a \<Rightarrow> 'k::linorder) \<Rightarrow> 'a list \<Rightarrow> 'a list"
  assumes mset_sort_by: "mset (sort_by key xs) = mset xs"
    and sorted_sort_by: "sorted (map key (sort_by key xs))"
begin

lemma set_sort_by: "set (sort_by key xs) = set xs"
  using mset_sort_by by (rule mset_eq_setD)

lemma length_sort_by: "length (sort_by key xs) = length xs"
  using mset_sort_by by (rule mset_eq_length)

lemma last_sort_by:
  assumes "xs \<noteq> []" and "x \<in> set xs"
  shows "key x \<le> key (last (sort_by key xs))"
proof -
  have ne: "sort_by key xs \<noteq> []" using assms(1) length_sort_by [of key xs] by auto
  then have "sort_by key xs = butlast (sort_by key xs) @ [last (sort_by key xs)]" by simp
  then have "sorted (map key (butlast (sort_by key xs) @ [last (sort_by key xs)]))"
    using sorted_sort_by [of key xs] by simp
  then have "\<forall>y \<in> set (butlast (sort_by key xs)). key y \<le> key (last (sort_by key xs))"
    by (simp add: sorted_append)
  moreover have "x \<in> set (butlast (sort_by key xs) @ [last (sort_by key xs)])"
    using assms(2) ne by (simp add: set_sort_by)
  ultimately show ?thesis by auto
qed

end

interpretation stable_sort: unstable_sort sort_key
  by unfold_locales simp_all

end
