(* ===== verification/Ondas_Value.thy ===== *)
theory Ondas_Value
  imports Ondas_Prelude
begin

text \<open>
  \<^verbatim>\<open>src/src/value.rs\<close>: the nine logic states, bit vectors as validated ASCII digits
  (most significant first) and waveform values. A borrowed view and its owned copy hold
  the same data, so \<open>ValueRef\<close> and \<open>Value\<close> are one type \<open>wave_value\<close>, and \<open>BitsRef\<close> and
  \<open>Bits\<close> are one type \<open>bits\<close>; \<open>bits_to_owned\<close> and \<open>value_to_owned\<close> are the
  copies, which lower the case of the digits. A binary64 is its bit pattern, which is all
  the sources read of it. Rust's panics are \<open>None\<close> here.
\<close>

section \<open>Logic states\<close>

datatype logic = Zero | One | X | Z | H | U | W | L | DontCare

definition logic_from_ascii :: "char \<Rightarrow> logic option" where
  "logic_from_ascii b =
    (let c = to_ascii_lowercase b in
     if c = CHR ''0'' then Some Zero
     else if c = CHR ''1'' then Some One
     else if c = CHR ''x'' then Some X
     else if c = CHR ''z'' then Some Z
     else if c = CHR ''h'' then Some H
     else if c = CHR ''u'' then Some U
     else if c = CHR ''w'' then Some W
     else if c = CHR ''l'' then Some L
     else if c = CHR ''-'' then Some DontCare
     else None)"

definition is_logic_byte :: "char \<Rightarrow> bool" where
  "is_logic_byte b \<longleftrightarrow> to_ascii_lowercase b \<in> set ''01xzhuwl-''"

lemma is_logic_byte_iff: "is_logic_byte b \<longleftrightarrow> (\<exists>l. logic_from_ascii b = Some l)"
  unfolding is_logic_byte_def logic_from_ascii_def Let_def by (simp only: set_simps) auto

lemma logic_from_ascii_eq_iff:
  assumes "is_logic_byte a" and "is_logic_byte b"
  shows "logic_from_ascii a = logic_from_ascii b \<longleftrightarrow> to_ascii_lowercase a = to_ascii_lowercase b"
  using assms unfolding is_logic_byte_def logic_from_ascii_def Let_def
  by (simp only: set_simps insert_iff empty_iff) (elim disjE; simp)

lemma logic_from_ascii_lowercase [simp]:
  "logic_from_ascii (to_ascii_lowercase b) = logic_from_ascii b"
  by (simp add: logic_from_ascii_def)

lemma is_logic_byte_lowercase [simp]: "is_logic_byte (to_ascii_lowercase b) = is_logic_byte b"
  by (simp add: is_logic_byte_def)

section \<open>Bit vectors\<close>

type_synonym bits = string

definition bits_from_ascii :: "string \<Rightarrow> bits option" where
  "bits_from_ascii bytes =
    (if \<not> length bytes < 2 ^ 32 then None
     else if list_all is_logic_byte bytes then Some bytes else None)"

definition bits_ok :: "bits \<Rightarrow> bool" where
  "bits_ok b \<longleftrightarrow> length b < 2 ^ 32 \<and> list_all is_logic_byte b"

lemma bits_from_ascii_Some_iff: "bits_from_ascii bytes = Some b \<longleftrightarrow> b = bytes \<and> bits_ok bytes"
  by (auto simp: bits_from_ascii_def bits_ok_def)

definition bits_eq :: "bits \<Rightarrow> bits \<Rightarrow> bool" where
  "bits_eq a b \<longleftrightarrow> map to_ascii_lowercase a = map to_ascii_lowercase b"

definition bits_width :: "bits \<Rightarrow> u32" where
  "bits_width b = word_of_nat (length b)"

text \<open>\<open>BitsRef::slice\<close>: both subtractions and the range index panic out of range.\<close>

definition bits_slice :: "bits \<Rightarrow> u32 \<Rightarrow> u32 \<Rightarrow> bits option" where
  "bits_slice b msb lsb =
    (if length b < unat lsb \<or> length b < unat msb + 1 then None
     else
       let stop = length b - unat lsb; start = length b - unat msb - 1
       in if stop < start then None else Some (take (stop - start) (drop start b)))"

definition bits_bit :: "bits \<Rightarrow> u32 \<Rightarrow> logic option" where
  "bits_bit b index =
    (if length b < unat index then None
     else if length b - unat index < 1 then None
     else logic_from_ascii (b ! (length b - unat index - 1)))"

fun collect_logic :: "string \<Rightarrow> logic list option" where
  "collect_logic [] = Some []"
| "collect_logic (b # bs) =
    (case logic_from_ascii b of
       None \<Rightarrow> None
     | Some l \<Rightarrow> map_option ((#) l) (collect_logic bs))"

definition iter_msb :: "bits \<Rightarrow> logic list option" where
  "iter_msb b = collect_logic b"

definition iter_lsb :: "bits \<Rightarrow> logic list option" where
  "iter_lsb b = collect_logic (rev b)"

definition bits_to_owned :: "bits \<Rightarrow> bits" where
  "bits_to_owned b = map to_ascii_lowercase b"

definition bits_from_validated_ascii :: "string \<Rightarrow> bits" where
  "bits_from_validated_ascii bytes = map to_ascii_lowercase bytes"

text \<open>
  \<open>Display\<close> writes the digits at once when none is upper case, and otherwise in lowered
  chunks of 256 bytes.
\<close>

function display_chunks :: "bits \<Rightarrow> string" where
  "display_chunks b =
    (if b = [] then [] else map to_ascii_lowercase (take 256 b) @ display_chunks (drop 256 b))"
  by pat_completeness auto
termination
  by (relation "measure length") auto

declare display_chunks.simps [simp del]

definition bits_display :: "bits \<Rightarrow> string" where
  "bits_display b =
    (if \<not> list_ex is_ascii_uppercase b then b else display_chunks b)"

lemma display_chunks_lowers: "display_chunks b = map to_ascii_lowercase b"
proof (induction b rule: display_chunks.induct)
  case (1 b)
  show ?case
  proof (cases "b = []")
    case True
    then show ?thesis by (simp add: display_chunks.simps)
  next
    case False
    then have "display_chunks b =
        map to_ascii_lowercase (take 256 b) @ map to_ascii_lowercase (drop 256 b)"
      using 1 by (simp add: display_chunks.simps [of b])
    then show ?thesis by (simp flip: map_append)
  qed
qed

lemma map_lowercase_id: "\<not> list_ex is_ascii_uppercase b \<Longrightarrow> map to_ascii_lowercase b = b"
  by (induction b) auto

lemma bits_display_lowers: "bits_display b = map to_ascii_lowercase b"
  by (simp add: bits_display_def display_chunks_lowers map_lowercase_id)

lemma bits_to_owned_eq [simp]:
  "bits_eq (bits_to_owned a) b = bits_eq a b"
  "bits_eq a (bits_to_owned b) = bits_eq a b"
  by (simp_all add: bits_eq_def bits_to_owned_def o_def)

lemma bits_eq_refl [simp]: "bits_eq a a"
  by (simp add: bits_eq_def)

lemma bits_eq_sym: "bits_eq a b \<longleftrightarrow> bits_eq b a"
  by (auto simp: bits_eq_def)

lemma bits_eq_trans: "bits_eq a b \<Longrightarrow> bits_eq b c \<Longrightarrow> bits_eq a c"
  by (simp add: bits_eq_def)

lemma bits_eq_length: "bits_eq a b \<Longrightarrow> length a = length b"
  unfolding bits_eq_def by (rule map_eq_imp_length_eq)

lemma length_bits_to_owned [simp]: "length (bits_to_owned b) = length b"
  by (simp add: bits_to_owned_def)

lemma bits_ok_to_owned [simp]: "bits_ok (bits_to_owned b) = bits_ok b"
  by (simp add: bits_ok_def bits_to_owned_def list_all_iff)

lemma bits_to_owned_idem [simp]: "bits_to_owned (bits_to_owned b) = bits_to_owned b"
  by (simp add: bits_to_owned_def o_def)

lemma bits_slice_Some_iff:
  "bits_slice b msb lsb = Some c \<longleftrightarrow>
    unat msb < length b \<and> unat lsb \<le> unat msb + 1 \<and>
    c = take (unat msb + 1 - unat lsb) (drop (length b - unat msb - 1) b)"
  by (auto simp: bits_slice_def Let_def)

lemma bits_slice_length:
  "bits_slice b msb lsb = Some c \<Longrightarrow> length c = unat msb + 1 - unat lsb"
  by (auto simp: bits_slice_Some_iff)

lemma bits_slice_to_owned:
  "bits_slice (bits_to_owned b) msb lsb = map_option bits_to_owned (bits_slice b msb lsb)"
  by (simp add: bits_slice_def bits_to_owned_def Let_def take_map drop_map)

lemma bits_bit_eq:
  "bits_bit b i = (if unat i < length b then logic_from_ascii (rev b ! unat i) else None)"
  by (auto simp: bits_bit_def rev_nth diff_diff_add)

lemma collect_logic_map:
  "list_all is_logic_byte b \<Longrightarrow> collect_logic b = Some (map (the \<circ> logic_from_ascii) b)"
  by (induction b) (auto simp: is_logic_byte_iff)

section \<open>Values\<close>

datatype wave_value = VBits bits | VReal u64 | VString string | VEvent u64

fun same_value :: "wave_value \<Rightarrow> wave_value \<Rightarrow> bool" where
  "same_value (VBits a) (VBits b) = bits_eq a b"
| "same_value (VReal a) (VReal b) = (a = b)"
| "same_value (VString a) (VString b) = (a = b)"
| "same_value (VEvent a) (VEvent b) = (a = b)"
| "same_value _ _ = False"

fun value_to_owned :: "wave_value \<Rightarrow> wave_value" where
  "value_to_owned (VBits b) = VBits (bits_to_owned b)"
| "value_to_owned (VReal r) = VReal r"
| "value_to_owned (VString s) = VString s"
| "value_to_owned (VEvent n) = VEvent n"

fun is_event_value :: "wave_value \<Rightarrow> bool" where
  "is_event_value (VEvent _) = True"
| "is_event_value _ = False"

lemma same_value_refl [simp]: "same_value v v"
  by (cases v) simp_all

lemma same_value_sym: "same_value v w \<longleftrightarrow> same_value w v"
  by (cases v; cases w) (auto simp: bits_eq_sym)

lemma same_value_trans: "same_value u v \<Longrightarrow> same_value v w \<Longrightarrow> same_value u w"
  by (cases u; cases v; cases w) (auto intro: bits_eq_trans)

lemma same_value_to_owned [simp]:
  "same_value (value_to_owned v) w = same_value v w"
  "same_value v (value_to_owned w) = same_value v w"
  by (cases v; cases w; simp)+

lemma value_to_owned_idem [simp]: "value_to_owned (value_to_owned v) = value_to_owned v"
  by (cases v) simp_all

lemma is_event_value_to_owned [simp]: "is_event_value (value_to_owned v) = is_event_value v"
  by (cases v) simp_all

text \<open>Owned values are canonical: the representation identity is equality there.\<close>

lemma value_to_owned_eq_iff: "value_to_owned v = value_to_owned w \<longleftrightarrow> same_value v w"
  by (cases v; cases w) (auto simp: bits_eq_def bits_to_owned_def)

section \<open>Properties\<close>

text \<open>
  Equality of bit vectors is exactly equal width and equal logic state at every
  position, the nine states pairwise distinct, whatever the case of the stored digits.
\<close>

theorem bits_eq_iff_width_and_states:
  assumes "bits_ok a" and "bits_ok b"
  shows "bits_eq a b \<longleftrightarrow>
    bits_width a = bits_width b \<and> (\<forall>i. bits_bit a i = bits_bit b i)"
proof
  assume eq: "bits_eq a b"
  have "logic_from_ascii (rev a ! i) = logic_from_ascii (rev b ! i)" if "i < length a" for i
  proof -
    have "map to_ascii_lowercase (rev a) = map to_ascii_lowercase (rev b)"
      using eq by (simp add: bits_eq_def flip: rev_map)
    then have "to_ascii_lowercase (rev a ! i) = to_ascii_lowercase (rev b ! i)"
      using that bits_eq_length [OF eq] by (metis length_rev nth_map)
    then show ?thesis by (metis logic_from_ascii_lowercase)
  qed
  with eq show "bits_width a = bits_width b \<and> (\<forall>i. bits_bit a i = bits_bit b i)"
    by (simp add: bits_width_def bits_bit_eq bits_eq_length)
next
  assume h: "bits_width a = bits_width b \<and> (\<forall>i. bits_bit a i = bits_bit b i)"
  have len: "length a = length b"
  proof -
    have "unat (word_of_nat (length a) :: u32) = unat (word_of_nat (length b) :: u32)"
      using h by (simp add: bits_width_def)
    with assms show ?thesis by (simp add: bits_ok_def unat_of_nat take_bit_nat_eq_self)
  qed
  have "to_ascii_lowercase (rev a ! i) = to_ascii_lowercase (rev b ! i)" if i: "i < length a" for i
  proof -
    from i assms(1) have "unat (word_of_nat i :: u32) = i"
      by (simp add: bits_ok_def unat_of_nat take_bit_nat_eq_self)
    with h i len have "logic_from_ascii (rev a ! i) = logic_from_ascii (rev b ! i)"
      by (metis bits_bit_eq)
    moreover have "is_logic_byte (rev a ! i)" "is_logic_byte (rev b ! i)"
      using assms i len by (simp_all add: bits_ok_def list_all_length rev_nth)
    ultimately show ?thesis by (simp add: logic_from_ascii_eq_iff)
  qed
  with len have "map to_ascii_lowercase (rev a) = map to_ascii_lowercase (rev b)"
    by (intro nth_equalityI) simp_all
  then show "bits_eq a b" by (simp add: bits_eq_def flip: rev_map)
qed

theorem bits_eq_iff_width_and_states_witness:
  "bits_eq ''01xZ'' ''01Xz'' \<longleftrightarrow>
    bits_width ''01xZ'' = bits_width ''01Xz'' \<and> (\<forall>i. bits_bit ''01xZ'' i = bits_bit ''01Xz'' i)"
proof -
  have "bits_ok ''01xZ''" "bits_ok ''01Xz''"
    by (simp_all add: bits_ok_def is_logic_byte_def to_ascii_lowercase_def is_ascii_uppercase_def byte_def
        char_of_eq_iff)
  then show ?thesis by (rule bits_eq_iff_width_and_states)
qed

end
