(* ===== verification/Ondas_Signal.thy ===== *)
theory Ondas_Signal
  imports Ondas_Value
begin

text \<open>
  The signal handles of \<^verbatim>\<open>src/src/hierarchy.rs\<close>: storage encodings, whole and sliced
  handles, HDL ranges, the check that a handle belongs to a hierarchy, and
  \<^verbatim>\<open>project\<close> of \<^verbatim>\<open>src/src/query/engine.rs\<close>, which applies a sliced handle to a value.
  \<open>valid_handle\<close> is the invariant the query engine relies on; slicing preserves it.
\<close>

section \<open>Encodings, handles and ranges\<close>

datatype encoding = Bits u32 | Real | String | Event | Unsupported

record signal =
  sig_source :: u64
  sig_index :: nat
  sig_computed :: bool
  sig_base_encoding :: encoding
  sig_encoding :: encoding
  sig_lsb :: u32

type_synonym i64 = "64 word"

record bit_range =
  range_msb :: i64
  range_lsb :: i64

datatype slice_error =
  HdlRangeWidthMismatch bit_range u32
| HdlOutOfBounds bit_range i64 i64
| HdlDirectionMismatch bit_range i64 i64
| NotBits
| InvalidRange u32 u32
| OutOfBounds u32 u32 u32

definition encoding_width :: "encoding \<Rightarrow> u32 option" where
  "encoding_width e = (case e of Bits w \<Rightarrow> Some w | _ \<Rightarrow> None)"

definition signal_width :: "signal \<Rightarrow> u32 option" where
  "signal_width s = (case sig_encoding s of Bits w \<Rightarrow> Some w | _ \<Rightarrow> None)"

definition signal_base :: "signal \<Rightarrow> signal" where
  "signal_base s = s\<lparr>sig_encoding := sig_base_encoding s, sig_lsb := 0\<rparr>"

definition is_slice :: "signal \<Rightarrow> bool" where
  "is_slice s \<longleftrightarrow> s \<noteq> signal_base s"

definition signal_slice :: "signal \<Rightarrow> u32 \<Rightarrow> u32 \<Rightarrow> slice_error + signal" where
  "signal_slice s msb lsb =
    (case signal_width s of
       None \<Rightarrow> Inl NotBits
     | Some width \<Rightarrow>
         if msb < lsb then Inl (InvalidRange msb lsb)
         else if width \<le> msb then Inl (OutOfBounds width msb lsb)
         else Inr (s\<lparr>sig_encoding := Bits (msb - lsb + 1), sig_lsb := sig_lsb s + lsb\<rparr>))"

section \<open>Validation\<close>

text \<open>
  \<open>Hierarchy::validate_encoding\<close>: the handle's source, its base encoding as the
  hierarchy stores it, and the projection inside the base width, with \<open>checked_add\<close>.
\<close>

definition valid_handle :: "u64 \<Rightarrow> encoding option \<Rightarrow> signal \<Rightarrow> bool" where
  "valid_handle source encoding s \<longleftrightarrow>
    sig_source s = source \<and>
    encoding = Some (sig_base_encoding s) \<and>
    (case (sig_base_encoding s, sig_encoding s) of
       (Bits base, Bits width) \<Rightarrow>
         (width > 0 \<or> s = signal_base s) \<and>
         (case checked_add (sig_lsb s) width of Some stop \<Rightarrow> stop \<le> base | None \<Rightarrow> False)
     | (base, current) \<Rightarrow> base = current \<and> sig_lsb s = 0)"

definition in_base :: "signal \<Rightarrow> bool" where
  "in_base s \<longleftrightarrow> valid_handle (sig_source s) (Some (sig_base_encoding s)) s"

lemma valid_handle_in_base: "valid_handle source encoding s \<Longrightarrow> in_base s"
  by (simp add: valid_handle_def in_base_def)

lemma signal_base_simps [simp]:
  "sig_source (signal_base s) = sig_source s"
  "sig_index (signal_base s) = sig_index s"
  "sig_computed (signal_base s) = sig_computed s"
  "sig_base_encoding (signal_base s) = sig_base_encoding s"
  "sig_encoding (signal_base s) = sig_base_encoding s"
  "sig_lsb (signal_base s) = 0"
  "signal_base (signal_base s) = signal_base s"
  by (simp_all add: signal_base_def)

lemma is_slice_base [simp]: "\<not> is_slice (signal_base s)"
  by (simp add: is_slice_def)

lemma is_slice_iff: "is_slice s \<longleftrightarrow> sig_encoding s \<noteq> sig_base_encoding s \<or> sig_lsb s \<noteq> 0"
  by (cases s) (auto simp: is_slice_def signal_base_def)

lemma in_base_bits:
  assumes "sig_base_encoding s = Bits base" and "sig_encoding s = Bits width"
  shows "in_base s \<longleftrightarrow> (width > 0 \<or> s = signal_base s) \<and> unat (sig_lsb s) + unat width \<le> unat base"
proof -
  have "unat (sig_lsb s) + unat width < 2 ^ 32"
    if "unat (sig_lsb s) + unat width \<le> unat base"
    using that unat_u32_less [of base] by simp
  moreover have "unat stop = unat (sig_lsb s) + unat width"
    if "checked_add (sig_lsb s) width = Some stop" for stop
    using that by (rule checked_add_Some_unat)
  ultimately show ?thesis
    using assms
    by (auto simp: in_base_def valid_handle_def word_le_nat_alt checked_add_None_iff
        split: option.splits)
qed

lemma in_base_slice_encoding:
  assumes "in_base s" and "is_slice s"
  obtains base width where "sig_base_encoding s = Bits base" and "sig_encoding s = Bits width"
    and "0 < width" and "unat (sig_lsb s) + unat width \<le> unat base"
proof (cases "sig_base_encoding s")
  case (Bits base)
  show ?thesis
  proof (cases "sig_encoding s")
    case enc: (Bits width)
    with Bits assms show ?thesis
      by (intro that [of base width]) (auto simp: in_base_bits is_slice_def)
  qed (use Bits assms in \<open>simp_all add: in_base_def valid_handle_def\<close>)
qed (use assms in \<open>auto simp: in_base_def valid_handle_def is_slice_iff\<close>)

lemma signal_slice_Inr_iff:
  "signal_slice s msb lsb = Inr r \<longleftrightarrow>
    (\<exists>width. sig_encoding s = Bits width \<and> lsb \<le> msb \<and> msb < width \<and>
      r = s\<lparr>sig_encoding := Bits (msb - lsb + 1), sig_lsb := sig_lsb s + lsb\<rparr>)"
  by (auto simp: signal_slice_def signal_width_def not_less not_le split: encoding.splits)

lemma unat_slice_width:
  fixes msb lsb width :: u32
  assumes "lsb \<le> msb" and "msb < width"
  shows "unat (msb - lsb + 1) = unat msb - unat lsb + 1"
proof -
  have "unat (msb - lsb) + 1 < 2 ^ 32"
    using assms unat_u32_less [of width] by (simp add: unat_sub word_less_nat_alt)
  then have "unat (msb - lsb + 1) = unat (msb - lsb) + 1"
    by (simp add: unat_word_ariths)
  with assms(1) show ?thesis by (simp add: unat_sub)
qed

lemma signal_slice_in_base:
  assumes ok: "in_base s" and slice: "signal_slice s msb lsb = Inr r"
  shows "in_base r \<and> unat (sig_lsb r) = unat (sig_lsb s) + unat lsb"
proof -
  from slice obtain width where enc: "sig_encoding s = Bits width" and le: "lsb \<le> msb"
    and less: "msb < width"
    and r: "r = s\<lparr>sig_encoding := Bits (msb - lsb + 1), sig_lsb := sig_lsb s + lsb\<rparr>"
    by (auto simp: signal_slice_Inr_iff)
  from ok enc obtain base where base: "sig_base_encoding s = Bits base"
    by (cases "sig_base_encoding s") (auto simp: in_base_def valid_handle_def)
  from ok base enc have bound: "unat (sig_lsb s) + unat width \<le> unat base"
    by (simp add: in_base_bits)
  have nat: "unat lsb \<le> unat msb" "unat msb < unat width"
    using le less by (simp_all add: word_le_nat_alt word_less_nat_alt)
  have "unat (sig_lsb s) + unat lsb < 2 ^ 32"
    using bound nat unat_u32_less [of base] by simp
  then have lsb: "unat (sig_lsb r) = unat (sig_lsb s) + unat lsb"
    by (simp add: r unat_word_ariths)
  have width: "unat (msb - lsb + 1) = unat msb - unat lsb + 1"
    by (rule unat_slice_width [OF le less])
  then have "0 < msb - lsb + 1" by (simp add: word_less_nat_alt)
  moreover have "unat (sig_lsb r) + unat (msb - lsb + 1) \<le> unat base"
    using lsb width bound nat by simp
  ultimately show ?thesis
    using lsb base r by (simp add: in_base_bits)
qed

section \<open>Projection of a value by a handle\<close>

text \<open>
  \<open>None\<close> is a panic: the \<open>expect("bit projection")\<close> or a slice outside the value.
\<close>

definition project :: "wave_value \<Rightarrow> signal \<Rightarrow> wave_value option" where
  "project v s =
    (case v of
       VBits b \<Rightarrow>
         if is_slice s then
           (case signal_width s of
              None \<Rightarrow> None
            | Some width \<Rightarrow>
                map_option VBits (bits_slice b (sig_lsb s + width - 1) (sig_lsb s)))
         else Some v
     | _ \<Rightarrow> Some v)"

lemma project_not_slice [simp]: "\<not> is_slice s \<Longrightarrow> project v s = Some v"
  by (cases v) (simp_all add: project_def)

lemma unat_project_msb:
  fixes lsb width base :: u32
  assumes "0 < width" and "unat lsb + unat width \<le> unat base"
  shows "unat (lsb + width - 1) = unat lsb + unat width - 1"
proof -
  have "unat lsb + unat width < 2 ^ 32" using assms(2) unat_u32_less [of base] by simp
  then have add: "unat (lsb + width) = unat lsb + unat width" by (simp add: unat_word_ariths)
  from assms(1) have pos: "0 < unat width" by (simp add: word_less_nat_alt)
  with add have "1 \<le> lsb + width" by (simp add: word_le_nat_alt)
  with add show ?thesis by (simp add: unat_sub)
qed

text \<open>On a value of the base width the projection succeeds and selects the handle's bits.\<close>

lemma project_slice:
  assumes "in_base s" and "is_slice s" and enc: "sig_encoding s = Bits width"
    and base: "sig_base_encoding s = Bits base" and len: "length b = unat base"
  shows "project (VBits b) s =
    Some (VBits (take (unat width) (drop (length b - unat (sig_lsb s) - unat width) b)))"
proof -
  from assms have pos: "0 < width" and bound: "unat (sig_lsb s) + unat width \<le> unat base"
    by (auto simp: in_base_bits is_slice_def)
  let ?msb = "sig_lsb s + width - 1"
  have msb: "unat ?msb = unat (sig_lsb s) + unat width - 1"
    by (rule unat_project_msb [OF pos bound])
  have posn: "0 < unat width" using pos by (simp add: word_less_nat_alt)
  have "bits_slice b ?msb (sig_lsb s) =
    Some (take (unat width) (drop (length b - unat (sig_lsb s) - unat width) b))"
    unfolding bits_slice_Some_iff msb using posn bound len by (simp add: diff_diff_eq)
  then show ?thesis using assms by (simp add: project_def signal_width_def)
qed

text \<open>
  The values of a signal of some encoding: what every reader promises, and all that the
  projection and the engine need.
\<close>

fun value_has_encoding :: "wave_value \<Rightarrow> encoding \<Rightarrow> bool" where
  "value_has_encoding (VBits b) (Bits w) \<longleftrightarrow> bits_ok b \<and> length b = unat w"
| "value_has_encoding (VReal _) Real \<longleftrightarrow> True"
| "value_has_encoding (VString s) String \<longleftrightarrow> list_all is_ascii s"
| "value_has_encoding (VEvent _) Event \<longleftrightarrow> True"
| "value_has_encoding _ _ \<longleftrightarrow> False"

lemma value_has_encoding_to_owned [simp]:
  "value_has_encoding (value_to_owned v) e = value_has_encoding v e"
  by (cases v; cases e) simp_all

lemma value_has_Bits_iff: "value_has_encoding v (Bits w) \<longleftrightarrow>
    (\<exists>b. v = VBits b \<and> bits_ok b \<and> length b = unat w)"
  by (cases v) auto

lemma project_has_encoding:
  assumes "in_base s" and "value_has_encoding v (sig_base_encoding s)"
  obtains w where "project v s = Some w" and "value_has_encoding w (sig_encoding s)"
proof (cases "is_slice s")
  case False
  then have "sig_encoding s = sig_base_encoding s" by (simp add: is_slice_iff)
  with False assms(2) show ?thesis by (intro that [of v]) simp_all
next
  case True
  with assms(1) obtain base width where enc: "sig_base_encoding s = Bits base"
      "sig_encoding s = Bits width" and bound: "unat (sig_lsb s) + unat width \<le> unat base"
    by (rule in_base_slice_encoding)
  from assms(2) enc obtain b where v: "v = VBits b" and ok: "bits_ok b"
    and len: "length b = unat base"
    by (auto simp: value_has_Bits_iff)
  let ?c = "take (unat width) (drop (length b - unat (sig_lsb s) - unat width) b)"
  have "project v s = Some (VBits ?c)"
    unfolding v by (rule project_slice [OF assms(1) True enc(2,1) len])
  moreover have "bits_ok ?c"
    using ok unat_u32_less [of width] by (auto simp: bits_ok_def list_all_iff dest: in_set_takeD in_set_dropD)
  moreover have "length ?c = unat width" using len bound by simp
  ultimately have "value_has_encoding (VBits ?c) (sig_encoding s)" using enc by simp
  with \<open>project v s = Some (VBits ?c)\<close> show ?thesis by (rule that)
qed

section \<open>HDL ranges\<close>

definition abs_diff :: "i64 \<Rightarrow> i64 \<Rightarrow> u64" where
  "abs_diff a b = word_of_int \<bar>sint a - sint b\<bar>"

text \<open>\<open>BitRange::width\<close>; \<open>None\<close> is the panic of a range of \<open>2^64\<close> elements.\<close>

definition range_width :: "bit_range \<Rightarrow> u64 option" where
  "range_width r = checked_add (abs_diff (range_msb r) (range_lsb r)) 1"

definition range_slice ::
    "bit_range \<Rightarrow> signal \<Rightarrow> i64 \<Rightarrow> i64 \<Rightarrow> slice_error + signal" where
  "range_slice r s msb lsb =
    (case signal_width s of
       None \<Rightarrow> Inl NotBits
     | Some width \<Rightarrow>
         if \<bar>sint (range_msb r) - sint (range_lsb r)\<bar> + 1 \<noteq> uint width then
           Inl (HdlRangeWidthMismatch r width)
         else
           let low = min (sint (range_msb r)) (sint (range_lsb r));
               high = max (sint (range_msb r)) (sint (range_lsb r))
           in if \<not> (low \<le> sint msb \<and> sint msb \<le> high) \<or> \<not> (low \<le> sint lsb \<and> sint lsb \<le> high)
              then Inl (HdlOutOfBounds r msb lsb)
              else
                let left = ucast (abs_diff msb (range_lsb r)) :: u32;
                    right = ucast (abs_diff lsb (range_lsb r)) :: u32
                in if left < right then Inl (HdlDirectionMismatch r msb lsb)
                   else signal_slice s left right)"

lemma uint_ucast_abs_diff:
  assumes "\<bar>sint a - sint b\<bar> < 2 ^ 32"
  shows "uint (ucast (abs_diff a b) :: u32) = \<bar>sint a - sint b\<bar>"
  using assms by (simp add: abs_diff_def unsigned_ucast_eq uint_word_of_int take_bit_int_eq_self)

lemma project_window:
  assumes ok: "in_base s" and enc: "sig_encoding s = Bits width"
    and base: "sig_base_encoding s = Bits base" and len: "length b = unat base"
  shows "project (VBits b) s =
    Some (VBits (take (unat width) (drop (length b - unat (sig_lsb s) - unat width) b)))"
proof (cases "is_slice s")
  case True
  then show ?thesis by (rule project_slice [OF ok _ enc base len])
next
  case False
  then have "base = width" "sig_lsb s = 0" using enc base by (auto simp: is_slice_iff)
  with False len show ?thesis by simp
qed

lemma rev_window_nth:
  assumes "i < w" and "l + w \<le> length b"
  shows "rev (take w (drop (length b - l - w) b)) ! i = rev b ! (l + i)"
  using assms by (simp add: rev_nth nth_append min_def)

text \<open>
  C40: slicing a handle that passes validation never leaves its base: the result passes
  validation again, and on any value of the base width it selects exactly the bits
  \<open>lsb .. msb\<close> of what the sliced handle selects. In particular nested slices compose
  and the unchecked \<open>u32\<close> addition of the offsets does not wrap.
\<close>

theorem signal_slice_selects:
  assumes "in_base s" and "sig_base_encoding s = Bits base" and "length b = unat base"
    and slice: "signal_slice s msb lsb = Inr r"
  shows "in_base r \<and>
    (\<exists>c d. project (VBits b) s = Some (VBits c) \<and> project (VBits b) r = Some (VBits d) \<and>
      length d = unat msb - unat lsb + 1 \<and>
      (\<forall>i < length d. bits_bit d (word_of_nat i) = bits_bit c (lsb + word_of_nat i)))"
proof -
  from slice obtain width where enc: "sig_encoding s = Bits width" and le: "lsb \<le> msb"
    and less: "msb < width" and encr: "sig_encoding r = Bits (msb - lsb + 1)"
    and baser: "sig_base_encoding r = Bits base"
    using assms(2) by (auto simp: signal_slice_Inr_iff)
  have r: "in_base r" and lsbr: "unat (sig_lsb r) = unat (sig_lsb s) + unat lsb"
    using signal_slice_in_base [OF assms(1) slice] by simp_all
  have w: "unat (msb - lsb + 1) = unat msb - unat lsb + 1" by (rule unat_slice_width [OF le less])
  have bound: "unat (sig_lsb s) + unat width \<le> unat base"
    using assms(1,2) enc by (simp add: in_base_bits)
  have nat: "unat lsb \<le> unat msb" "unat msb < unat width"
    using le less by (simp_all add: word_le_nat_alt word_less_nat_alt)
  let ?c = "take (unat width) (drop (length b - unat (sig_lsb s) - unat width) b)"
  let ?d = "take (unat (msb - lsb + 1))
    (drop (length b - unat (sig_lsb r) - unat (msb - lsb + 1)) b)"
  have lenc: "length ?c = unat width" using bound assms(3) by simp
  have lend: "length ?d = unat msb - unat lsb + 1" using bound nat assms(3) lsbr w by simp
  have "bits_bit ?d (word_of_nat i) = bits_bit ?c (lsb + word_of_nat i)"
    if i: "i < unat msb - unat lsb + 1" for i
  proof -
    have iw: "unat (word_of_nat i :: u32) = i"
      using i nat unat_u32_less [of width] by (simp add: unat_of_nat take_bit_nat_eq_self)
    have "unat lsb + i < 2 ^ 32" using i nat unat_u32_less [of width] by simp
    then have li: "unat (lsb + word_of_nat i) = unat lsb + i"
      by (simp add: unat_word_ariths iw)
    have "rev ?d ! i = rev b ! (unat (sig_lsb r) + i)"
      using i nat bound assms(3) lsbr w by (intro rev_window_nth) simp_all
    moreover have "rev ?c ! (unat lsb + i) = rev b ! (unat (sig_lsb s) + (unat lsb + i))"
      using i nat bound assms(3) by (intro rev_window_nth) simp_all
    moreover have "unat lsb + i < unat width" using i nat by linarith
    ultimately show ?thesis
      unfolding bits_bit_eq iw li lenc lend using i lsbr by (simp add: add.assoc)
  qed
  with lend have bits: "\<forall>i < length ?d. bits_bit ?d (word_of_nat i) = bits_bit ?c (lsb + word_of_nat i)"
    by presburger
  have "project (VBits b) s = Some (VBits ?c)"
    by (rule project_window [OF assms(1) enc assms(2,3)])
  moreover have "project (VBits b) r = Some (VBits ?d)"
    by (rule project_window [OF r encr baser assms(3)])
  ultimately show ?thesis using r lend bits by blast
qed

text \<open>
  A concrete handle: bits 6 down to 2 of a nine-bit signal, sliced again to 3 down to 1.
\<close>

definition sample_handle :: signal where
  "sample_handle = \<lparr>sig_source = 1, sig_index = 0, sig_computed = False,
     sig_base_encoding = Bits 9, sig_encoding = Bits 5, sig_lsb = 2\<rparr>"

lemma sample_handle_in_base: "in_base sample_handle"
  by (simp add: sample_handle_def in_base_bits)

theorem signal_slice_selects_witness:
  "signal_slice sample_handle 3 1 = Inr (sample_handle\<lparr>sig_encoding := Bits 3, sig_lsb := 3\<rparr>) \<and>
   in_base (sample_handle\<lparr>sig_encoding := Bits 3, sig_lsb := 3\<rparr>) \<and>
   (\<exists>c d. project (VBits ''01xzhuwl-'') sample_handle = Some (VBits c) \<and>
      project (VBits ''01xzhuwl-'') (sample_handle\<lparr>sig_encoding := Bits 3, sig_lsb := 3\<rparr>)
        = Some (VBits d) \<and>
      length d = 3 \<and>
      (\<forall>i < length d. bits_bit d (word_of_nat i) = bits_bit c (1 + word_of_nat i)))"
proof -
  have slice: "signal_slice sample_handle 3 1 =
      Inr (sample_handle\<lparr>sig_encoding := Bits 3, sig_lsb := 3\<rparr>)"
    by (simp add: signal_slice_def signal_width_def sample_handle_def)
  have base: "sig_base_encoding sample_handle = Bits 9" by (simp add: sample_handle_def)
  have len: "length ''01xzhuwl-'' = unat (9 :: u32)" by simp
  show ?thesis
    using slice signal_slice_selects [OF sample_handle_in_base base len slice] by simp
qed

lemma range_slice_Inr_iff:
  "range_slice r s msb lsb = Inr q \<longleftrightarrow>
    (\<exists>width. sig_encoding s = Bits width \<and>
      \<bar>sint (range_msb r) - sint (range_lsb r)\<bar> + 1 = uint width \<and>
      (\<forall>h \<in> {sint msb, sint lsb}. min (sint (range_msb r)) (sint (range_lsb r)) \<le> h \<and>
         h \<le> max (sint (range_msb r)) (sint (range_lsb r))) \<and>
      (ucast (abs_diff lsb (range_lsb r)) :: u32) \<le> ucast (abs_diff msb (range_lsb r)) \<and>
      signal_slice s (ucast (abs_diff msb (range_lsb r))) (ucast (abs_diff lsb (range_lsb r))) = Inr q)"
  by (auto simp: range_slice_def signal_width_def Let_def not_less split: encoding.splits)

lemma int_unat: "int (unat w) = uint w"
  by simp

lemma hdl_inside:
  fixes m hi lo :: int
  assumes "min hi lo \<le> m" "m \<le> max hi lo"
  shows "\<bar>m - lo\<bar> \<le> \<bar>hi - lo\<bar>"
  using assms by (cases "lo \<le> hi") (simp_all add: min_def max_def split: if_splits)

lemma hdl_distance:
  fixes m l hi lo h :: int
  assumes "min hi lo \<le> m" "m \<le> max hi lo" "min hi lo \<le> l" "l \<le> max hi lo"
    and "\<bar>l - lo\<bar> \<le> \<bar>m - lo\<bar>" and "min m l \<le> h" "h \<le> max m l"
  shows "\<bar>h - lo\<bar> = \<bar>l - lo\<bar> + \<bar>h - l\<bar>"
proof (cases "lo \<le> hi")
  case True
  with assms have "lo \<le> l" "l \<le> h" by (simp_all add: min_def max_def split: if_splits)
  then show ?thesis by simp
next
  case False
  with assms have "l \<le> lo" "h \<le> l" by (simp_all add: min_def max_def split: if_splits)
  then show ?thesis by simp
qed

text \<open>
  An HDL slice selects by source index: a request inside the declared range and in
  its direction yields a valid handle whose bit for HDL index \<open>h\<close>, at distance
  \<open>|h - lsb|\<close> from its right end, is the bit at distance \<open>|h - range_lsb|\<close> of the signal.
\<close>

theorem range_slice_selects:
  assumes "in_base s" and slice: "range_slice r s msb lsb = Inr q"
  shows "in_base q \<and>
    int (unat (sig_lsb q)) = int (unat (sig_lsb s)) + \<bar>sint lsb - sint (range_lsb r)\<bar> \<and>
    (\<exists>width. sig_encoding q = Bits width \<and> uint width = \<bar>sint msb - sint lsb\<bar> + 1) \<and>
    (\<forall>h. min (sint msb) (sint lsb) \<le> h \<and> h \<le> max (sint msb) (sint lsb) \<longrightarrow>
      \<bar>h - sint (range_lsb r)\<bar> = \<bar>sint lsb - sint (range_lsb r)\<bar> + \<bar>h - sint lsb\<bar>)"
proof -
  let ?lo = "sint (range_lsb r)" and ?hi = "sint (range_msb r)"
  let ?left = "ucast (abs_diff msb (range_lsb r)) :: u32"
  let ?right = "ucast (abs_diff lsb (range_lsb r)) :: u32"
  from slice obtain width where enc: "sig_encoding s = Bits width"
    and width: "\<bar>?hi - ?lo\<bar> + 1 = uint width"
    and inside: "min ?hi ?lo \<le> sint msb" "sint msb \<le> max ?hi ?lo"
      "min ?hi ?lo \<le> sint lsb" "sint lsb \<le> max ?hi ?lo"
    and le: "?right \<le> ?left" and s: "signal_slice s ?left ?right = Inr q"
    by (auto simp: range_slice_Inr_iff)
  have "uint width < 2 ^ 32" using uint_lt2p [of width] by simp
  then have small: "\<bar>sint msb - ?lo\<bar> < 2 ^ 32" "\<bar>sint lsb - ?lo\<bar> < 2 ^ 32"
    using width hdl_inside [OF inside(1,2)] hdl_inside [OF inside(3,4)] by simp_all
  have left: "uint ?left = \<bar>sint msb - ?lo\<bar>" and right: "uint ?right = \<bar>sint lsb - ?lo\<bar>"
    using small by (simp_all add: uint_ucast_abs_diff)
  from le have "uint ?right \<le> uint ?left" by (simp only: word_le_def)
  then have dist: "\<bar>sint lsb - ?lo\<bar> \<le> \<bar>sint msb - ?lo\<bar>" unfolding left right .
  have dir: "\<bar>h - ?lo\<bar> = \<bar>sint lsb - ?lo\<bar> + \<bar>h - sint lsb\<bar>"
    if "min (sint msb) (sint lsb) \<le> h" "h \<le> max (sint msb) (sint lsb)" for h
    using hdl_distance [OF inside dist that] .
  obtain w where encq: "sig_encoding q = Bits w" and w: "w = ?left - ?right + 1"
    and less: "?left < width"
    using s enc by (auto simp: signal_slice_Inr_iff)
  have unat_w: "unat w = unat ?left - unat ?right + 1"
    unfolding w by (rule unat_slice_width [OF le less])
  have "unat ?right \<le> unat ?left" using le by (simp only: word_le_nat_alt)
  then have "int (unat w) = int (unat ?left) - int (unat ?right) + 1"
    unfolding unat_w by linarith
  then have "uint w = \<bar>sint msb - ?lo\<bar> - \<bar>sint lsb - ?lo\<bar> + 1"
    by (simp only: int_unat left right)
  also have "\<dots> = \<bar>sint msb - sint lsb\<bar> + 1" using dir [of "sint msb"] by simp
  finally have width_q: "uint w = \<bar>sint msb - sint lsb\<bar> + 1" .
  have "in_base q" and "unat (sig_lsb q) = unat (sig_lsb s) + unat ?right"
    using signal_slice_in_base [OF assms(1) s] by simp_all
  moreover from this(2)
  have "int (unat (sig_lsb q)) = int (unat (sig_lsb s)) + int (unat ?right)" by (simp only: of_nat_add)
  then have "int (unat (sig_lsb q)) = int (unat (sig_lsb s)) + \<bar>sint lsb - ?lo\<bar>"
    by (simp only: int_unat [of ?right] right)
  ultimately show ?thesis using encq width_q dir by blast
qed

theorem range_slice_selects_witness:
  "range_slice \<lparr>range_msb = - 3, range_lsb = 1\<rparr> sample_handle (- 2) 0 =
     Inr (sample_handle\<lparr>sig_encoding := Bits 3, sig_lsb := 3\<rparr>) \<and>
   in_base (sample_handle\<lparr>sig_encoding := Bits 3, sig_lsb := 3\<rparr>)"
proof -
  have slice: "range_slice \<lparr>range_msb = - 3, range_lsb = 1\<rparr> sample_handle (- 2) 0 =
      Inr (sample_handle\<lparr>sig_encoding := Bits 3, sig_lsb := 3\<rparr>)"
    by (simp add: range_slice_def signal_slice_def signal_width_def sample_handle_def abs_diff_def)
  show ?thesis using slice range_slice_selects [OF sample_handle_in_base slice] by blast
qed

end
