(* ===== verification/Ondas_Time.thy ===== *)
theory Ondas_Time
  imports Ondas_Prelude
begin

text \<open>
  \<^verbatim>\<open>src/src/time.rs\<close>: absolute ticks, inclusive ranges, recorded spans and the exact
  tick duration. \<open>Time\<close> is a newtype over \<open>u64\<close> with the derived order, so it is a
  datatype of its own with a \<open>linorder\<close> instance; \<open>covers\<close> is the set of ticks a
  range denotes, against which \<open>range_is_empty\<close> and the queries are stated.
\<close>

section \<open>Ticks\<close>

datatype time = Time (ticks: u64)

instantiation time :: linorder
begin

definition less_eq_time :: "time \<Rightarrow> time \<Rightarrow> bool" where
  "less_eq_time a b \<longleftrightarrow> ticks a \<le> ticks b"

definition less_time :: "time \<Rightarrow> time \<Rightarrow> bool" where
  "less_time a b \<longleftrightarrow> ticks a < ticks b"

instance
  by standard (auto simp: less_eq_time_def less_time_def time.expand)

end

lemma time_le_iff [simp]: "Time a \<le> Time b \<longleftrightarrow> a \<le> b"
  by (simp add: less_eq_time_def)

lemma time_less_iff [simp]: "Time a < Time b \<longleftrightarrow> a < b"
  by (simp add: less_time_def)

definition time_zero :: time where
  "time_zero = Time 0"

definition time_max :: time where
  "time_max = Time (- 1)"

lemma time_zero_le [simp]: "time_zero \<le> t"
  by (cases t) (simp add: time_zero_def)

lemma time_le_max [simp]: "t \<le> time_max"
  by (cases t) (simp add: time_max_def)

lemma not_less_time_zero [simp]: "\<not> t < time_zero"
  by (simp add: not_less)

text \<open>
  The predecessor tick \<open>ticks().checked_sub(1).map(Time::from_ticks)\<close> of the query
  session: it exists exactly from tick one on, and nothing lies between it and the tick.
\<close>

definition time_pred :: "time \<Rightarrow> time option" where
  "time_pred t = map_option Time (checked_sub (ticks t) 1)"

lemma one_le_word_iff: "(1::u64) \<le> b \<longleftrightarrow> 0 < unat b"
  by (simp add: word_le_nat_alt Suc_le_eq)

lemma unat_pred: "(1::u64) \<le> b \<Longrightarrow> unat (b - 1) = unat b - 1"
  by (simp add: unat_sub)

lemma time_pred_None_iff [simp]: "time_pred t = None \<longleftrightarrow> t = time_zero"
  by (cases t) (auto simp: time_pred_def checked_sub_def time_zero_def one_le_word_iff unat_eq_0)

lemma time_pred_zero [simp]: "time_pred time_zero = None"
  by simp

lemma time_pred_less: "time_pred t = Some p \<Longrightarrow> p < t"
  by (cases t)
    (auto simp: time_pred_def checked_sub_Some_iff word_less_nat_alt unat_pred one_le_word_iff)

lemma time_pred_greatest: "time_pred t = Some p \<Longrightarrow> q < t \<longleftrightarrow> q \<le> p"
  by (cases t; cases q)
    (auto simp: time_pred_def checked_sub_Some_iff word_less_nat_alt word_le_nat_alt unat_pred
      one_le_word_iff)

section \<open>Spans and ranges\<close>

record time_span =
  span_first :: time
  span_last :: time

record time_range =
  range_start :: time
  range_end :: "time option"

definition time_range_from :: "time \<Rightarrow> time_range" where
  "time_range_from start = \<lparr>range_start = start, range_end = None\<rparr>"

definition time_range_all :: time_range where
  "time_range_all = time_range_from time_zero"

definition time_range_closed :: "time \<Rightarrow> time \<Rightarrow> time_range" where
  "time_range_closed start stop = \<lparr>range_start = start, range_end = Some stop\<rparr>"

definition time_range_point :: "time \<Rightarrow> time_range" where
  "time_range_point t = time_range_closed t t"

definition range_is_empty :: "time_range \<Rightarrow> bool" where
  "range_is_empty r =
    (case range_end r of
       Some stop \<Rightarrow> ticks (range_start r) > ticks stop
     | None \<Rightarrow> False)"

lemma range_is_empty_order:
  "range_is_empty r \<longleftrightarrow> (case range_end r of Some e \<Rightarrow> e < range_start r | None \<Rightarrow> False)"
  by (simp add: range_is_empty_def less_time_def split: option.split)

text \<open>The ticks a range denotes: both bounds included, no end bound when it is absent.\<close>

definition covers :: "time_range \<Rightarrow> time \<Rightarrow> bool" where
  "covers r t \<longleftrightarrow> range_start r \<le> t \<and> (case range_end r of Some e \<Rightarrow> t \<le> e | None \<Rightarrow> True)"

lemma range_is_empty_iff: "range_is_empty r \<longleftrightarrow> (\<forall>t. \<not> covers r t)"
proof (cases "range_end r")
  case None
  then have "covers r (range_start r)" by (simp add: covers_def)
  with None show ?thesis by (auto simp: range_is_empty_def)
next
  case (Some e)
  show ?thesis
  proof
    assume "range_is_empty r"
    then have "e < range_start r" using Some by (simp add: range_is_empty_def less_time_def)
    then show "\<forall>t. \<not> covers r t" using Some by (auto simp: covers_def)
  next
    assume none: "\<forall>t. \<not> covers r t"
    have "e < range_start r"
    proof (rule ccontr)
      assume "\<not> e < range_start r"
      with Some have "covers r e" by (simp add: covers_def not_less)
      with none show False by blast
    qed
    then show "range_is_empty r" using Some by (simp add: range_is_empty_def less_time_def)
  qed
qed

lemma covers_point [simp]: "covers (time_range_point t) u \<longleftrightarrow> u = t"
  by (auto simp: covers_def time_range_point_def time_range_closed_def)

lemma range_fields [simp]:
  "range_start (time_range_from s) = s" "range_end (time_range_from s) = None"
  "range_start (time_range_closed s e) = s" "range_end (time_range_closed s e) = Some e"
  "range_start (time_range_point t) = t" "range_end (time_range_point t) = Some t"
  by (simp_all add: time_range_from_def time_range_closed_def time_range_point_def)

section \<open>Tick duration\<close>

datatype time_unit =
  Second | Millisecond | Microsecond | Nanosecond | Picosecond | Femtosecond | Attosecond
  | Zeptosecond

record timescale =
  ts_factor :: u32
  ts_unit :: time_unit

definition timescale_new :: "u32 \<Rightarrow> time_unit \<Rightarrow> timescale" where
  "timescale_new factor unit = \<lparr>ts_factor = factor, ts_unit = unit\<rparr>"

end
