(* ===== verification/Ondas_Error.thy ===== *)
theory Ondas_Error
  imports Ondas_Signal Ondas_Time
begin

text \<open>
  \<^verbatim>\<open>src/src/error.rs\<close>: the error categories, plus \<open>ascii_string\<close> of
  \<^verbatim>\<open>src/src/value.rs\<close>, the one check every reader applies to string samples. The payload
  of an I/O error is its diagnostic text. \<open>Panic\<close> is no constructor of the source: it is
  the value of a definition at an input where the Rust code would panic, so that a
  theorem about a \<open>Result\<close> also says that the code does not panic.
\<close>

datatype format = Vcd | Fst | Ghw | Fsdb | Wlf | Wdb | Shm

datatype input_kind = File | InMemory

record path_error =
  pe_offset :: nat
  pe_message :: string

datatype path_format_error = NotRepresentable string

type_synonym hierarchy_path = "string list"

datatype composition_error =
  Empty
| EmptyPart nat signal
| PartNotBits nat signal
| WidthOverflow

datatype lookup_error =
  InvalidPath path_error
| NotFound hierarchy_path
| Ambiguous hierarchy_path nat
| NoSignal hierarchy_path
| InvalidSlice slice_error

datatype error =
  InvalidComposition composition_error
| Io string
| UnknownFormat
| UnknownBackend string
| NoBackend format
| BackendUnavailable string string
| BackendDoesNotSupport string format
| UnsupportedInput string input_kind
| UnsupportedFeature format string string string
| Malformed format string string
| NonAsciiString format string time
| InvalidSelectionIndex nat nat
| InvalidQueryTime time time
| TraceCoverage time time_range
| InvalidSignal signal
| UnsupportedSignal signal
| Backend string string string
| Panic string

definition ascii_string :: "string \<Rightarrow> format \<Rightarrow> string \<Rightarrow> time \<Rightarrow> error + string" where
  "ascii_string bytes format backend time =
    (if \<not> list_all is_ascii bytes then Inl (NonAsciiString format backend time)
     else Inr bytes)"

text \<open>A string sample is accepted exactly when all its bytes are ASCII, unchanged.\<close>

theorem ascii_string_exact:
  "ascii_string bytes format backend time =
    (if list_all (\<lambda>b. byte b < 128) bytes then Inr bytes
     else Inl (NonAsciiString format backend time))"
  by (auto simp: ascii_string_def list_all_iff is_ascii_def)

text \<open>\<open>Hierarchy::validate_encoding\<close> of \<^verbatim>\<open>src/src/hierarchy.rs\<close> with its error.\<close>

definition validate_encoding :: "u64 \<Rightarrow> signal \<Rightarrow> encoding option \<Rightarrow> error + nat" where
  "validate_encoding source s encoding =
    (if valid_handle source encoding s then Inr (sig_index s) else Inl (InvalidSignal s))"

end
