(* ===== verification/Ondas_Slot.thy ===== *)
theory Ondas_Slot
  imports Ondas_Error
begin

text \<open>
  The per-entry state of the query engine, \<^verbatim>\<open>src/src/query/engine.rs\<close> and
  \<^verbatim>\<open>src/src/query/engine/composition.rs\<close>: a slot holds the state entering a tick, the
  last value written in the tick and the tick's event count; computations derive the
  slots of compositions and of their slices; \<open>complete_tick\<close> shows a finished tick to a
  visitor and commits it.

  A visitor is a function that threads its own state \<open>'s\<close> and returns
  \<open>Result<ControlFlow<B>>\<close>. The engine commits only the slots in its list of active
  slots. \<open>active_ok\<close> is the invariant of that list, and under it committing the active
  slots is the same as committing every slot (\<open>complete_tick_map\<close>).
\<close>

section \<open>States, samples and slots\<close>

record state =
  st_value :: wave_value
  st_changed_at :: "time option"

datatype sample =
  Missing (sample_signal: signal)
| SampleValue (sample_signal: signal) (sample_value: wave_value) (sample_changed_at: "time option")
| SampleEvent (sample_signal: signal) (sample_occurrences: u64)

record slot =
  slot_state :: "state option"
  slot_pending :: "wave_value option"
  slot_changed :: bool
  slot_events :: u64

definition slot_default :: slot where
  "slot_default =
    \<lparr>slot_state = None, slot_pending = None, slot_changed = False, slot_events = 0\<rparr>"

definition slot_sample :: "slot \<Rightarrow> signal \<Rightarrow> time option \<Rightarrow> sample" where
  "slot_sample slot s time =
    (if sig_encoding s = Event then
       SampleEvent s (if time \<noteq> None then slot_events slot else 0)
     else
       let state = slot_state slot;
           now = (case time of Some _ \<Rightarrow> slot_pending slot | None \<Rightarrow> None);
           val = (case now of Some v \<Rightarrow> Some v | None \<Rightarrow> map_option st_value state)
       in case val of
            Some v \<Rightarrow> SampleValue s v
              (case state of
                 None \<Rightarrow> None
               | Some st \<Rightarrow>
                   if slot_changed slot then
                     (case time of Some t \<Rightarrow> Some t | None \<Rightarrow> st_changed_at st)
                   else st_changed_at st)
          | None \<Rightarrow> Missing s)"

definition update_state :: "state option \<Rightarrow> wave_value \<Rightarrow> time \<Rightarrow> state option \<times> bool" where
  "update_state state v time =
    (if (case state of Some previous \<Rightarrow> same_value (st_value previous) v | None \<Rightarrow> False)
     then (state, False)
     else (Some \<lparr>st_value = v, st_changed_at = map_option (\<lambda>_. time) state\<rparr>, True))"

definition validate_indices :: "nat \<Rightarrow> nat list \<Rightarrow> error + unit" where
  "validate_indices len indices =
    (case find (\<lambda>index. len \<le> index) indices of
       Some index \<Rightarrow> Inl (InvalidSelectionIndex index len)
     | None \<Rightarrow> Inr ())"

lemma validate_indices_Inr_iff [simp]:
  "validate_indices len indices = Inr u \<longleftrightarrow> (\<forall>i \<in> set indices. i < len)"
proof (cases "find (\<lambda>index. len \<le> index) indices")
  case None
  then have "\<forall>i \<in> set indices. i < len" by (auto simp: find_None_iff not_le)
  with None show ?thesis by (simp add: validate_indices_def)
next
  case (Some i)
  then have "i \<in> set indices" and "len \<le> i" by (auto simp: find_Some_iff)
  then have "\<not> (\<forall>i \<in> set indices. i < len)" using leD by blast
  with Some show ?thesis by (simp add: validate_indices_def)
qed

section \<open>Computed slots\<close>

datatype computation =
  Concat nat "(nat \<times> u32) list" u32
| Slice nat nat signal

definition current :: "slot \<Rightarrow> wave_value option" where
  "current slot =
    (case slot_pending slot of
       Some v \<Rightarrow> Some v
     | None \<Rightarrow> map_option st_value (slot_state slot))"

text \<open>The digits of one operand: its current bits, or X for an operand never observed.\<close>

fun concat_bytes :: "slot list \<Rightarrow> (nat \<times> u32) list \<Rightarrow> bool \<times> string" where
  "concat_bytes slots [] = (False, [])"
| "concat_bytes slots ((input, width) # inputs) =
    (let (observed, bytes) = concat_bytes slots inputs
     in case current (slots ! input) of
          Some (VBits b) \<Rightarrow> (True, b @ bytes)
        | _ \<Rightarrow> (observed, replicate (unat width) (CHR ''x'') @ bytes))"

definition set_computed :: "nat \<Rightarrow> wave_value \<Rightarrow> slot list \<Rightarrow> nat list \<Rightarrow> slot list \<times> nat list" where
  "set_computed k v slots active =
    (slots[k := (slots ! k)\<lparr>slot_pending := Some v\<rparr>],
     if slot_pending (slots ! k) = None then active @ [k] else active)"

text \<open>\<open>Computation::complete\<close>; \<open>None\<close> is a panic of the projection.\<close>

fun computation_complete ::
    "computation \<Rightarrow> slot list \<Rightarrow> nat list \<Rightarrow> (slot list \<times> nat list) option" where
  "computation_complete (Concat k inputs width) slots active =
    (if \<not> list_ex (\<lambda>(input, _). slot_pending (slots ! input) \<noteq> None) inputs then
       Some (slots, active)
     else
       let (observed, bytes) = concat_bytes slots inputs
       in if \<not> observed then Some (slots, active)
          else Some (set_computed k (VBits (bits_from_validated_ascii bytes)) slots active))"
| "computation_complete (Slice k input s) slots active =
    (case slot_pending (slots ! input) of
       None \<Rightarrow> Some (slots, active)
     | Some v \<Rightarrow>
         (case project v s of
            None \<Rightarrow> None
          | Some w \<Rightarrow> Some (set_computed k (value_to_owned w) slots active)))"

fun complete_all ::
    "computation list \<Rightarrow> slot list \<Rightarrow> nat list \<Rightarrow> (slot list \<times> nat list) option" where
  "complete_all [] slots active = Some (slots, active)"
| "complete_all (c # cs) slots active =
    (case computation_complete c slots active of
       None \<Rightarrow> None
     | Some (slots', active') \<Rightarrow> complete_all cs slots' active')"

section \<open>Completing a tick\<close>

definition differs :: "state option \<Rightarrow> wave_value \<Rightarrow> bool" where
  "differs state v \<longleftrightarrow>
    \<not> (case state of Some st \<Rightarrow> same_value (st_value st) v | None \<Rightarrow> False)"

definition mark_changed :: "slot \<Rightarrow> slot" where
  "mark_changed slot = slot\<lparr>slot_changed :=
    (case slot_pending slot of Some v \<Rightarrow> differs (slot_state slot) v | None \<Rightarrow> False)\<rparr>"

definition commit_slot :: "time \<Rightarrow> slot \<Rightarrow> slot" where
  "commit_slot time slot =
    \<lparr>slot_state =
       (case slot_pending slot of
          Some v \<Rightarrow>
            if slot_changed slot then
              Some \<lparr>st_value = v, st_changed_at = map_option (\<lambda>_. time) (slot_state slot)\<rparr>
            else slot_state slot
        | None \<Rightarrow> slot_state slot),
     slot_pending = None, slot_changed = False, slot_events = 0\<rparr>"

definition modify :: "('a \<Rightarrow> 'a) \<Rightarrow> nat \<Rightarrow> 'a list \<Rightarrow> 'a list" where
  "modify f i xs = xs[i := f (xs ! i)]"

type_synonym ('s, 'b) tick_visitor =
  "'s \<Rightarrow> time \<Rightarrow> slot list \<Rightarrow> 's \<times> (error + 'b flow)"

definition complete_tick ::
    "computation list \<Rightarrow> slot list \<Rightarrow> nat list \<Rightarrow> time \<Rightarrow> time option \<Rightarrow>
     ('s, 'b) tick_visitor \<Rightarrow> 's \<Rightarrow> slot list \<times> nat list \<times> 's \<times> (error + 'b flow)" where
  "complete_tick computations slots active time visit_from visitor s =
    (case complete_all computations slots active of
       None \<Rightarrow> (slots, active, s, Inl (Panic ''projection''))
     | Some (slots1, active1) \<Rightarrow>
         let slots2 = fold (modify mark_changed) active1 slots1;
             (s', flow) =
               (if (case visit_from of None \<Rightarrow> True | Some start \<Rightarrow> start \<le> time)
                then visitor s time slots2 else (s, Inr Continue))
         in case flow of
              Inr Continue \<Rightarrow> (fold (modify (commit_slot time)) active1 slots2, [], s', flow)
            | _ \<Rightarrow> (slots2, active1, s', flow))"

section \<open>The list of active slots\<close>

definition clean :: "slot \<Rightarrow> bool" where
  "clean slot \<longleftrightarrow> slot_pending slot = None \<and> \<not> slot_changed slot \<and> slot_events slot = 0"

definition active_ok :: "slot list \<Rightarrow> nat list \<Rightarrow> bool" where
  "active_ok slots active \<longleftrightarrow>
    set active \<subseteq> {..<length slots} \<and>
    (\<forall>i < length slots. i \<notin> set active \<longrightarrow> clean (slots ! i))"

lemma length_modify [simp]: "length (modify f i xs) = length xs"
  by (simp add: modify_def)

lemma length_fold_modify [simp]: "length (fold (modify f) is xs) = length xs"
  by (induction "is" arbitrary: xs) simp_all

lemma fold_modify_nth:
  assumes idem: "\<And>x. f (f x) = f x" and "i < length xs"
  shows "fold (modify f) is xs ! i = (if i \<in> set is then f (xs ! i) else xs ! i)"
  using assms(2)
proof (induction "is" arbitrary: xs)
  case Nil
  then show ?case by simp
next
  case (Cons j js)
  from Cons.prems have "modify f j xs ! i = (if i = j then f (xs ! i) else xs ! i)"
    by (auto simp: modify_def)
  with Cons.IH [of "modify f j xs"] Cons.prems show ?case by (auto simp: idem)
qed

lemma fold_modify_map:
  assumes "\<And>x. f (f x) = f x" and "\<And>i. i < length xs \<Longrightarrow> i \<notin> set is \<Longrightarrow> f (xs ! i) = xs ! i"
  shows "fold (modify f) is xs = map f xs"
  using assms by (intro nth_equalityI) (simp_all add: fold_modify_nth)

lemma slot_update_fields [simp]:
  "slot_state (mark_changed c) = slot_state c"
  "slot_pending (mark_changed c) = slot_pending c"
  "slot_events (mark_changed c) = slot_events c"
  "slot_pending (commit_slot t c) = None"
  "slot_changed (commit_slot t c) = False"
  "slot_events (commit_slot t c) = 0"
  by (simp_all add: mark_changed_def commit_slot_def)

lemma mark_changed_idem [simp]: "mark_changed (mark_changed c) = mark_changed c"
  by (cases "slot_pending c") (simp_all add: mark_changed_def)

lemma commit_slot_clean [simp]: "clean (commit_slot t c)"
  by (simp add: clean_def)

lemma clean_mark_changed [simp]: "clean c \<Longrightarrow> mark_changed c = c"
  by (cases c) (simp add: clean_def mark_changed_def)

lemma clean_commit_slot [simp]: "clean c \<Longrightarrow> commit_slot t c = c"
  by (cases c) (simp add: clean_def commit_slot_def)

lemma commit_slot_idem: "commit_slot t (commit_slot t c) = commit_slot t c"
  by simp

lemma active_ok_mark: "active_ok slots active \<Longrightarrow> fold (modify mark_changed) active slots = map mark_changed slots"
  by (rule fold_modify_map) (auto simp: active_ok_def)

lemma active_ok_map_mark: "active_ok slots active \<Longrightarrow> active_ok (map mark_changed slots) active"
  by (auto simp: active_ok_def)

lemma active_ok_commit:
  "active_ok slots active \<Longrightarrow> fold (modify (commit_slot t)) active slots = map (commit_slot t) slots"
  by (rule fold_modify_map) (auto simp: active_ok_def)

lemma set_computed_active:
  assumes "active_ok slots active" and "k < length slots"
    and "set_computed k v slots active = (slots', active')"
  shows "active_ok slots' active' \<and> length slots' = length slots"
proof -
  have "k \<in> set active'"
    using assms by (auto simp: set_computed_def active_ok_def clean_def split: if_splits)
  with assms show ?thesis
    by (auto simp: set_computed_def active_ok_def nth_list_update split: if_splits)
qed

fun computation_slot :: "computation \<Rightarrow> nat" where
  "computation_slot (Concat k _ _) = k"
| "computation_slot (Slice k _ _) = k"

fun computation_inputs :: "computation \<Rightarrow> nat list" where
  "computation_inputs (Concat _ inputs _) = map fst inputs"
| "computation_inputs (Slice _ input _) = [input]"

lemma computation_complete_active:
  assumes "active_ok slots active" and "computation_slot c < length slots"
    and "computation_complete c slots active = Some (slots', active')"
  shows "active_ok slots' active' \<and> length slots' = length slots"
  using assms
  by (cases c) (auto simp: Let_def split: if_splits option.splits prod.splits dest: set_computed_active)

lemma complete_all_active:
  assumes "active_ok slots active" and "\<forall>c \<in> set cs. computation_slot c < length slots"
    and "complete_all cs slots active = Some (slots', active')"
  shows "active_ok slots' active' \<and> length slots' = length slots"
  using assms
proof (induction cs arbitrary: slots active)
  case Nil
  then show ?case by simp
next
  case (Cons c cs)
  from Cons.prems(3) obtain s1 a1 where c: "computation_complete c slots active = Some (s1, a1)"
    and rest: "complete_all cs s1 a1 = Some (slots', active')"
    by (auto split: option.splits)
  have "active_ok s1 a1 \<and> length s1 = length slots"
    using Cons.prems(1,2) c by (intro computation_complete_active) auto
  with Cons.IH [OF _ _ rest] Cons.prems(2) show ?case by simp
qed

text \<open>What a computation does to the slots does not depend on the list of active slots.\<close>

lemma computation_complete_slots:
  "map_option fst (computation_complete c slots active) =
   map_option fst (computation_complete c slots active2)"
  by (cases c) (auto simp: set_computed_def Let_def split: option.splits prod.splits)

lemma complete_all_slots:
  "map_option fst (complete_all cs slots active) = map_option fst (complete_all cs slots active2)"
proof (induction cs arbitrary: slots active active2)
  case Nil
  then show ?case by simp
next
  case (Cons c cs)
  show ?case
    using computation_complete_slots [of c slots active active2] Cons
    by (auto split: option.splits prod.splits)
qed

definition computed :: "computation list \<Rightarrow> slot list \<Rightarrow> slot list option" where
  "computed cs slots = map_option fst (complete_all cs slots [])"

lemma complete_all_computed:
  "map_option fst (complete_all cs slots active) = computed cs slots"
  unfolding computed_def by (rule complete_all_slots)

lemma complete_all_None_iff: "complete_all cs slots active = None \<longleftrightarrow> computed cs slots = None"
  unfolding complete_all_computed [of cs slots active, symmetric] by simp

lemma complete_all_SomeD:
  "complete_all cs slots active = Some (slots', active') \<Longrightarrow> computed cs slots = Some slots'"
  using complete_all_computed [of cs slots active] by simp

definition visited :: "time option \<Rightarrow> ('s, 'b) tick_visitor \<Rightarrow> 's \<Rightarrow> time \<Rightarrow> slot list \<Rightarrow>
    's \<times> (error + 'b flow)" where
  "visited visit_from visitor s time slots =
    (if (case visit_from of None \<Rightarrow> True | Some start \<Rightarrow> start \<le> time)
     then visitor s time slots else (s, Inr Continue))"

lemma complete_tick_computed:
  assumes ok: "active_ok slots active" and range: "\<forall>c \<in> set cs. computation_slot c < length slots"
    and some: "computed cs slots = Some slots1"
  shows "snd (snd (complete_tick cs slots active time start visitor s)) =
      visited start visitor s time (map mark_changed slots1)"
    and "snd (visited start visitor s time (map mark_changed slots1)) = Inr Continue \<Longrightarrow>
      complete_tick cs slots active time start visitor s =
        (map (commit_slot time) (map mark_changed slots1), [],
         visited start visitor s time (map mark_changed slots1))"
proof -
  from some obtain active1 where all: "complete_all cs slots active = Some (slots1, active1)"
    using complete_all_None_iff [of cs slots active] complete_all_SomeD [of cs slots active]
    by (cases "complete_all cs slots active") auto
  then have ok1: "active_ok slots1 active1"
    using complete_all_active [OF ok range] by simp
  note eqs = active_ok_mark [OF ok1] active_ok_commit [OF active_ok_map_mark [OF ok1]]
  show "snd (snd (complete_tick cs slots active time start visitor s)) =
      visited start visitor s time (map mark_changed slots1)"
    by (auto simp: complete_tick_def all Let_def eqs visited_def
        split: prod.splits sum.splits flow.splits)
  show "complete_tick cs slots active time start visitor s =
        (map (commit_slot time) (map mark_changed slots1), [],
         visited start visitor s time (map mark_changed slots1))"
    if "snd (visited start visitor s time (map mark_changed slots1)) = Inr Continue"
    using that by (auto simp: complete_tick_def all Let_def eqs visited_def
        split: prod.splits sum.splits flow.splits)
qed

lemma complete_tick_panic:
  "computed cs slots = None \<Longrightarrow>
    complete_tick cs slots active time start visitor s =
      (slots, active, s, Inl (Panic ''projection''))"
  using complete_all_None_iff [of cs slots active] by (simp add: complete_tick_def)

text \<open>
  Committing the active slots only is committing all of them: a completed tick shows
  the visitor every slot marked against its entering state, and continues with every
  slot committed and no slot active.
\<close>

theorem complete_tick_map:
  assumes "active_ok slots active" and "\<forall>c \<in> set cs. computation_slot c < length slots"
    and "computed cs slots = Some slots1"
    and "visitor s time (map mark_changed slots1) = (s', Inr Continue)" and "start \<le> time"
  shows "complete_tick cs slots active time (Some start) visitor s =
    (map (commit_slot time) (map mark_changed slots1), [], s', Inr Continue)"
  using complete_tick_computed(2) [OF assms(1-3), of "Some start" visitor s time] assms(4,5)
  by (simp add: visited_def)

theorem complete_tick_map_witness:
  "complete_tick [] [slot_default, slot_default\<lparr>slot_pending := Some (VReal 1)\<rparr>] [1] (Time 4)
      (Some (Time 3)) (\<lambda>s t m. (s @ [t], Inr (Continue :: unit flow))) [] =
    (map (commit_slot (Time 4)) (map mark_changed [slot_default, slot_default\<lparr>slot_pending := Some (VReal 1)\<rparr>]),
     [], [Time 4], Inr Continue)"
proof -
  let ?slots = "[slot_default, slot_default\<lparr>slot_pending := Some (VReal 1)\<rparr>]"
  have "active_ok ?slots [1]"
    by (auto simp: active_ok_def clean_def slot_default_def less_Suc_eq)
  moreover have "\<forall>c \<in> set []. computation_slot c < length ?slots" by simp
  moreover have "computed [] ?slots = Some ?slots" by (simp add: computed_def)
  ultimately show ?thesis by (rule complete_tick_map) simp_all
qed

end
