(* ===== verification/Ondas_Traversal.thy ===== *)
theory Ondas_Traversal
  imports Ondas_Engine
begin

text \<open>
  What a traversal promises, and the proof that \<open>read_ticks_from\<close> keeps it. The
  reader's notifications are grouped into ticks (\<open>group_notes\<close>); \<open>snapshots\<close> computes
  the slot vector of every completed tick with no list of active slots and no early
  stop; \<open>visit_all\<close> shows the vectors to a visitor. The refinement \<open>feed_spec\<close> states
  that the engine's incremental loop, with its active list, its pending tick and its
  early returns, is exactly that composition.
\<close>

section \<open>Ticks\<close>

type_synonym tick = "time \<times> (nat \<times> wave_value) list"

text \<open>
  The completed ticks of a list of notifications, the tick left unfinished at its end,
  and the error that cut the list short. The first argument is the tick in progress.
\<close>

fun group_notes :: "tick option \<Rightarrow> notification list \<Rightarrow> tick list \<times> tick option \<times> error option" where
  "group_notes cur [] = ([], cur, None)"
| "group_notes None (TickDone t # ns) = group_notes None ns"
| "group_notes (Some tk) (TickDone t # ns) =
    (let (tks, rest) = group_notes None ns in (tk # tks, rest))"
| "group_notes None (Observed b (Inl e) t p # ns) = ([], None, Some e)"
| "group_notes None (Observed b (Inr v) t p # ns) = group_notes (Some (t, [(b, v)])) ns"
| "group_notes (Some (t', rs)) (Observed b (Inl e) t p # ns) =
    (if t' = t then ([], Some (t', rs), Some e) else ([(t', rs)], None, Some e))"
| "group_notes (Some (t', rs)) (Observed b (Inr v) t p # ns) =
    (if t' = t then group_notes (Some (t', rs @ [(b, v)])) ns
     else let (tks, rest) = group_notes (Some (t, [(b, v)])) ns in ((t', rs) # tks, rest))"

fun store :: "signal list \<Rightarrow> string \<Rightarrow> wave_value \<Rightarrow> nat list \<Rightarrow> slot list \<Rightarrow> error + slot list" where
  "store retained backend v [] slots = Inr slots"
| "store retained backend v (i # is) slots =
    and_then (record_slot backend v (retained ! i) (slots ! i))
      (\<lambda>slot'. store retained backend v is (slots[i := slot']))"

fun store_all :: "selection \<Rightarrow> string \<Rightarrow> (nat \<times> wave_value) list \<Rightarrow> slot list \<Rightarrow> error + slot list" where
  "store_all sel backend [] slots = Inr slots"
| "store_all sel backend ((b, v) # rs) slots =
    (case sel_groups sel b of
       None \<Rightarrow> Inl (Panic ''unselected base'')
     | Some is \<Rightarrow>
         and_then (store (sel_retained sel) backend v is slots) (store_all sel backend rs))"

text \<open>One completed tick: the records stored, the computed slots derived, all marked.\<close>

definition complete_slots :: "selection \<Rightarrow> slot list \<Rightarrow> error + slot list" where
  "complete_slots sel slots =
    and_then (ok_or (Panic ''projection'') (computed (sel_computations sel) slots))
      (\<lambda>slots'. Inr (map mark_changed slots'))"

definition tick_slots ::
    "selection \<Rightarrow> string \<Rightarrow> (nat \<times> wave_value) list \<Rightarrow> slot list \<Rightarrow> error + slot list" where
  "tick_slots sel backend rs slots =
    and_then (store_all sel backend rs slots) (complete_slots sel)"

fun snapshots ::
    "selection \<Rightarrow> string \<Rightarrow> slot list \<Rightarrow> tick list \<Rightarrow> (time \<times> slot list) list \<times> (error + slot list)" where
  "snapshots sel backend slots [] = ([], Inr slots)"
| "snapshots sel backend slots ((t, rs) # tks) =
    (case tick_slots sel backend rs slots of
       Inl e \<Rightarrow> ([], Inl e)
     | Inr m \<Rightarrow>
         let (ss, out) = snapshots sel backend (map (commit_slot t) m) tks
         in ((t, m) # ss, out))"

fun visit_all ::
    "time option \<Rightarrow> ('s, 'b) tick_visitor \<Rightarrow> 's \<Rightarrow> (time \<times> slot list) list \<Rightarrow> 's \<times> (error + 'b flow)" where
  "visit_all start visitor s [] = (s, Inr Continue)"
| "visit_all start visitor s ((t, m) # ss) =
    (let (s', flow) = visited start visitor s t m
     in if continues flow then visit_all start visitor s' ss else (s', flow))"

section \<open>The outcome of a traversal\<close>

text \<open>
  \<open>outcome_of\<close> gives the visitor's state, the early outcome of the traversal if it has
  one, and otherwise the slots that entered the unfinished tick.
\<close>

definition outcome_of ::
    "selection \<Rightarrow> string \<Rightarrow> time option \<Rightarrow> ('s, 'b) tick_visitor \<Rightarrow> 's \<Rightarrow> slot list \<Rightarrow>
     tick list \<times> tick option \<times> error option \<Rightarrow> 's \<times> (error + 'b flow) option" where
  "outcome_of sel backend start visitor s slots grouped =
    (let (tks, unfinished, err) = grouped;
         (ss, out) = snapshots sel backend slots tks;
         (s', flow) = visit_all start visitor s ss
     in (s',
         if \<not> continues flow then Some flow
         else case out of
           Inl e \<Rightarrow> Some (Inl e)
         | Inr entering \<Rightarrow>
             (case (case unfinished of Some (t, rs) \<Rightarrow> store_all sel backend rs entering
                    | None \<Rightarrow> Inr entering) of
                Inl e \<Rightarrow> Some (Inl e)
              | Inr _ \<Rightarrow> map_option Inl err)))"

lemma continues_iff [simp]: "continues flow \<longleftrightarrow> flow = Inr Continue"
  by (cases flow rule: continues.cases) simp_all

lemma store_all_append:
  "store_all sel backend (rs @ rs') slots =
   and_then (store_all sel backend rs slots) (store_all sel backend rs')"
proof (induction rs arbitrary: slots)
  case Nil
  then show ?case by simp
next
  case (Cons r rs)
  then show ?case
    by (cases r) (auto simp: and_then_def split: option.splits sum.splits)
qed

lemma length_store: "store retained backend v is slots = Inr slots' \<Longrightarrow> length slots' = length slots"
  by (induction "is" arbitrary: slots) auto

lemma length_store_all: "store_all sel backend rs slots = Inr slots' \<Longrightarrow> length slots' = length slots"
  by (induction sel backend rs slots rule: store_all.induct)
    (auto split: option.splits dest: length_store)

text \<open>The incremental form keeps the slots of the plain one and its active list is right.\<close>

lemma record_slot_active:
  assumes "active_ok slots active" and "i < length slots"
    and "record_slot backend v s (slots ! i) = Inr c"
  shows "active_ok (slots[i := c])
    (if slot_pending (slots ! i) = None \<and> slot_events (slots ! i) = 0 \<and> v \<noteq> VEvent 0
     then active @ [i] else active)"
proof (cases "i \<in> set active")
  case True
  with assms(1) show ?thesis by (auto simp: active_ok_def nth_list_update)
next
  case False
  with assms(1,2) have "clean (slots ! i)" by (auto simp: active_ok_def)
  moreover from this have "v = VEvent 0 \<Longrightarrow> c = slots ! i"
    using assms(3) by (simp add: record_slot_def)
  ultimately show ?thesis
    using assms(1,2) by (auto simp: active_ok_def nth_list_update clean_def)
qed

lemma apply_record_store:
  assumes "active_ok slots active" and "\<forall>i \<in> set is. i < length slots"
  shows "case apply_record retained backend v is slots active of
      Inl e \<Rightarrow> store retained backend v is slots = Inl e
    | Inr (slots', active') \<Rightarrow> store retained backend v is slots = Inr slots' \<and> active_ok slots' active'"
  using assms
proof (induction "is" arbitrary: slots active)
  case Nil
  then show ?case by simp
next
  case (Cons i js)
  show ?case
  proof (cases "record_slot backend v (retained ! i) (slots ! i)")
    case (Inl e)
    then show ?thesis by (simp add: Let_def)
  next
    case (Inr c)
    have "i < length slots" using Cons.prems(2) by simp
    from Cons.IH [OF record_slot_active [OF Cons.prems(1) this Inr]] Cons.prems(2) Inr
    show ?thesis by (auto simp: Let_def split: sum.splits if_splits)
  qed
qed

text \<open>A selection whose groups and computations stay inside its slots.\<close>

definition sel_ok :: "selection \<Rightarrow> nat \<Rightarrow> bool" where
  "sel_ok sel n \<longleftrightarrow>
    (\<forall>b is. sel_groups sel b = Some is \<longrightarrow> (\<forall>i \<in> set is. i < n)) \<and>
    (\<forall>c \<in> set (sel_computations sel).
       computation_slot c < n \<and> (\<forall>i \<in> set (computation_inputs c). i < n))"

text \<open>
  The invariant of the loop: with no tick in progress every slot is clean; with one, the
  slots are the entering ones with the records of the tick stored.
\<close>

definition run_inv ::
    "selection \<Rightarrow> string \<Rightarrow> slot list \<Rightarrow> tick option \<Rightarrow> 's run \<Rightarrow> bool" where
  "run_inv sel backend entering cur r \<longleftrightarrow>
    sel_ok sel (length entering) \<and>
    active_ok (run_slots r) (run_active r) \<and>
    run_pending r = map_option fst cur \<and>
    (case cur of Some (t, rs) \<Rightarrow> store_all sel backend rs entering | None \<Rightarrow> Inr entering)
      = Inr (run_slots r)"

lemma run_inv_length: "run_inv sel backend entering cur r \<Longrightarrow> length (run_slots r) = length entering"
  by (auto simp: run_inv_def split: option.splits dest: length_store_all)


section \<open>The engine's loop refines the specification\<close>

lemma visited_complete_tick:
  assumes "run_inv sel backend entering cur r"
  shows "case complete_slots sel (run_slots r) of
      Inl e \<Rightarrow> \<exists>r'. finish_pending sel start visitor r t = (r', Inl e) \<and> run_visitor r' = run_visitor r
    | Inr m \<Rightarrow>
        (case visited start visitor (run_visitor r) t m of
           (s', flow) \<Rightarrow>
             \<exists>r'. finish_pending sel start visitor r t = (r', flow) \<and> run_visitor r' = s' \<and>
               (flow = Inr Continue \<longrightarrow>
                 r' = r\<lparr>run_slots := map (commit_slot t) m, run_active := [], run_visitor := s'\<rparr>))"
proof -
  have ok: "active_ok (run_slots r) (run_active r)"
    using assms by (simp add: run_inv_def)
  have range: "\<forall>c \<in> set (sel_computations sel). computation_slot c < length (run_slots r)"
    using assms run_inv_length [OF assms] by (simp add: run_inv_def sel_ok_def)
  show ?thesis
  proof (cases "computed (sel_computations sel) (run_slots r)")
    case None
    then show ?thesis
      by (simp add: complete_slots_def finish_pending_def complete_tick_panic)
  next
    case (Some slots1)
    note ct = complete_tick_computed [OF ok range Some, where time = t and start = start and visitor = visitor and s = "run_visitor r"]
    obtain s' flow where v: "visited start visitor (run_visitor r) t (map mark_changed slots1) = (s', flow)"
      by fastforce
    with ct(1) obtain c1 c2 where
      ct1: "complete_tick (sel_computations sel) (run_slots r) (run_active r) t start visitor
          (run_visitor r) = (c1, c2, s', flow)"
      by (metis prod.collapse)
    have "flow = Inr Continue \<Longrightarrow> c1 = map (commit_slot t) (map mark_changed slots1) \<and> c2 = []"
      using ct(2) v ct1 by simp
    with v ct1 Some show ?thesis
      by (simp add: complete_slots_def finish_pending_def)
  qed
qed

lemma finish_pending_cases:
  assumes inv: "run_inv sel backend entering (Some (t, rs)) r"
  shows "case tick_slots sel backend rs entering of
      Inl e \<Rightarrow> \<exists>r'. finish_pending sel start visitor r t = (r', Inl e) \<and> run_visitor r' = run_visitor r
    | Inr m \<Rightarrow>
        (case visited start visitor (run_visitor r) t m of
           (s', flow) \<Rightarrow>
             \<exists>r'. finish_pending sel start visitor r t = (r', flow) \<and> run_visitor r' = s' \<and>
               (flow = Inr Continue \<longrightarrow>
                 run_inv sel backend (map (commit_slot t) m) None (r'\<lparr>run_pending := None\<rparr>) \<and>
                 run_pending r' = Some t \<and> run_considered r' = run_considered r))"
proof -
  have stored: "store_all sel backend rs entering = Inr (run_slots r)"
    and sel: "sel_ok sel (length entering)" and pending: "run_pending r = Some t"
    using inv by (simp_all add: run_inv_def)
  have ts: "tick_slots sel backend rs entering = complete_slots sel (run_slots r)"
    by (simp add: tick_slots_def stored)
  show ?thesis
  proof (cases "complete_slots sel (run_slots r)")
    case (Inl e)
    then show ?thesis using visited_complete_tick [OF inv, of start visitor t] ts by simp
  next
    case (Inr m)
    have len: "length m = length entering"
    proof -
      from Inr obtain slots1 where c: "computed (sel_computations sel) (run_slots r) = Some slots1"
        and m: "m = map mark_changed slots1"
        by (auto simp: complete_slots_def)
      from c obtain active1 where
        "complete_all (sel_computations sel) (run_slots r) (run_active r) = Some (slots1, active1)"
        using complete_all_None_iff [of "sel_computations sel" "run_slots r" "run_active r"]
          complete_all_SomeD [of "sel_computations sel" "run_slots r" "run_active r"]
        by (cases "complete_all (sel_computations sel) (run_slots r) (run_active r)") auto
      from complete_all_active [OF _ _ this] inv run_inv_length [OF inv]
      have "length slots1 = length (run_slots r)"
        by (simp add: run_inv_def sel_ok_def)
      with m run_inv_length [OF inv] show ?thesis by simp
    qed
    obtain s' flow where v: "visited start visitor (run_visitor r) t m = (s', flow)" by fastforce
    with visited_complete_tick [OF inv, of start visitor t] Inr obtain r' where
      r': "finish_pending sel start visitor r t = (r', flow)" "run_visitor r' = s'"
        "flow = Inr Continue \<longrightarrow>
           r' = r\<lparr>run_slots := map (commit_slot t) m, run_active := [], run_visitor := s'\<rparr>"
      by auto
    have "run_inv sel backend (map (commit_slot t) m) None (r'\<lparr>run_pending := None\<rparr>) \<and>
        run_pending r' = Some t \<and> run_considered r' = run_considered r" if "flow = Inr Continue"
      using r'(3) that sel len pending by (simp add: run_inv_def active_ok_def)
    with Inr v r' ts show ?thesis by auto
  qed
qed


lemma consider_checkpoint_fields [simp]:
  "run_slots (consider_checkpoint src start t p r) = run_slots r"
  "run_active (consider_checkpoint src start t p r) = run_active r"
  "run_pending (consider_checkpoint src start t p r) = run_pending r"
  "run_visitor (consider_checkpoint src start t p r) = run_visitor r"
  by (simp_all add: consider_checkpoint_def split: option.splits)

lemma observe_value_cases:
  assumes sel: "sel_ok sel (length entering)" and ok: "active_ok (run_slots r) (run_active r)"
    and stored: "store_all sel (src_backend src) rs entering = Inr (run_slots r)"
  shows "case store_all sel (src_backend src) (rs @ [(b, v)]) entering of
      Inl e \<Rightarrow> \<exists>r'. observe_value src sel start r b v t p = (r', Some (Inl e)) \<and>
        run_visitor r' = run_visitor r
    | Inr _ \<Rightarrow> \<exists>r'. observe_value src sel start r b v t p = (r', None) \<and>
        run_visitor r' = run_visitor r \<and>
        run_inv sel (src_backend src) entering (Some (t, rs @ [(b, v)])) r'"
proof (cases "sel_groups sel b")
  case None
  then show ?thesis by (simp add: store_all_append stored observe_value_def)
next
  case (Some js)
  have bound: "\<forall>i \<in> set js. i < length (run_slots r)"
    using sel Some length_store_all [OF stored] by (simp add: sel_ok_def)
  have ap: "case apply_record (sel_retained sel) (src_backend src) v js (run_slots r) (run_active r) of
      Inl e \<Rightarrow> store (sel_retained sel) (src_backend src) v js (run_slots r) = Inl e
    | Inr (slots', active') \<Rightarrow>
        store (sel_retained sel) (src_backend src) v js (run_slots r) = Inr slots' \<and>
        active_ok slots' active'"
    by (rule apply_record_store [OF ok bound])
  show ?thesis
  proof (cases "apply_record (sel_retained sel) (src_backend src) v js (run_slots r) (run_active r)")
    case (Inl e)
    with ap Some show ?thesis by (simp add: store_all_append stored observe_value_def Let_def)
  next
    case (Inr sa)
    with ap Some show ?thesis
      by (cases sa)
        (auto simp: store_all_append stored observe_value_def Let_def run_inv_def sel)
  qed
qed

text \<open>A tick in progress stays the head of the grouping.\<close>

lemma group_notes_prefix:
  "(\<exists>rs' err. group_notes (Some (t, rs)) ns = ([], Some (t, rs @ rs'), err)) \<or>
   (\<exists>rs' tks rest. group_notes (Some (t, rs)) ns = ((t, rs @ rs') # tks, rest))"
proof (induction ns arbitrary: rs)
  case Nil
  then show ?case by simp
next
  case (Cons n ns)
  show ?case
  proof (cases n)
    case (TickDone u)
    then show ?thesis by (simp split: prod.split)
  next
    case (Observed b obs u p)
    show ?thesis
    proof (cases "u = t")
      case True
      then show ?thesis
        using Observed Cons.IH [of "rs @ [(b, projr obs)]"] by (cases obs) auto
    next
      case False
      then show ?thesis using Observed by (cases obs) (auto split: prod.split)
    qed
  qed
qed

lemma outcome_of_Cons:
  "outcome_of sel backend start visitor s entering ((t, rs) # tks, rest) =
    (case tick_slots sel backend rs entering of
       Inl e \<Rightarrow> (s, Some (Inl e))
     | Inr m \<Rightarrow>
         (case visited start visitor s t m of
            (s', flow) \<Rightarrow>
              if flow = Inr Continue
              then outcome_of sel backend start visitor s' (map (commit_slot t) m) (tks, rest)
              else (s', Some flow)))"
  by (cases rest) (auto simp: outcome_of_def Let_def split: sum.split prod.split)

lemma outcome_of_failed_store:
  assumes "store_all sel backend rs entering = Inl e"
  shows "outcome_of sel backend start visitor s entering (group_notes (Some (t, rs)) ns) =
    (s, Some (Inl e))"
proof -
  have fail: "store_all sel backend (rs @ rs') entering = Inl e" for rs'
    using assms by (simp add: store_all_append)
  from group_notes_prefix [of t rs ns] show ?thesis
  proof (elim disjE exE)
    fix rs' err
    assume g: "group_notes (Some (t, rs)) ns = ([], Some (t, rs @ rs'), err)"
    show ?thesis unfolding g by (simp add: outcome_of_def fail)
  next
    fix rs' tks rest
    assume g: "group_notes (Some (t, rs)) ns = ((t, rs @ rs') # tks, rest)"
    show ?thesis unfolding g by (simp add: outcome_of_Cons tick_slots_def fail)
  qed
qed

text \<open>The slots that entered the unfinished tick, where no tick failed.\<close>

definition entering_last :: "selection \<Rightarrow> string \<Rightarrow> slot list \<Rightarrow> tick list \<Rightarrow> slot list" where
  "entering_last sel backend entering tks = projr (snd (snapshots sel backend entering tks))"

lemma entering_last_simps [simp]:
  "entering_last sel backend entering [] = entering"
  "tick_slots sel backend rs entering = Inr m \<Longrightarrow>
    entering_last sel backend entering ((t, rs) # tks) =
      entering_last sel backend (map (commit_slot t) m) tks"
  by (simp_all add: entering_last_def split: prod.split)

lemma feed_spec:
  fixes visitor :: "('s, 'b) tick_visitor"
  assumes "run_inv sel (src_backend src) entering cur r"
    and "group_notes cur ns = (tks, unfinished, err)"
  shows "\<exists>r' stop. feed src sel start visitor r ns = (r', stop) \<and>
    outcome_of sel (src_backend src) start visitor (run_visitor r) entering (tks, unfinished, err) =
      (run_visitor r', stop) \<and>
    (stop = None \<longrightarrow> err = None \<and>
      run_inv sel (src_backend src) (entering_last sel (src_backend src) entering tks) unfinished r')"
  using assms
proof (induction ns arbitrary: cur r entering tks unfinished err)
  case Nil
  then show ?case
    by (auto simp: outcome_of_def run_inv_def split: option.splits)
next
  case (Cons n ns)
  let ?b = "src_backend src"
  note inv = Cons.prems(1) and grp = Cons.prems(2)
  show ?case
  proof (cases n)
    case (TickDone t)
    show ?thesis
    proof (cases cur)
      case None
      with inv have "run_pending r = None" by (simp add: run_inv_def)
      with None TickDone Cons.IH [OF inv [unfolded None]] grp show ?thesis by simp
    next
      case (Some tk)
      obtain t0 rs where tk: "tk = (t0, rs)" by fastforce
      obtain tks' where g: "group_notes None ns = (tks', unfinished, err)" and tks: "tks = tk # tks'"
        using grp Some TickDone by (auto split: prod.splits)
      have pend: "run_pending r = Some t0" using inv Some tk by (simp add: run_inv_def)
      note fin = finish_pending_cases [OF inv [unfolded Some tk], of start visitor]
      show ?thesis
      proof (cases "tick_slots sel ?b rs entering")
        case (Inl e)
        with fin pend TickDone tks tk show ?thesis by (auto simp: outcome_of_Cons)
      next
        case (Inr m)
        obtain s' flow where v: "visited start visitor (run_visitor r) t0 m = (s', flow)" by fastforce
        with fin Inr obtain r1 where r1: "finish_pending sel start visitor r t0 = (r1, flow)"
          "run_visitor r1 = s'"
          "flow = Inr Continue \<longrightarrow>
             run_inv sel ?b (map (commit_slot t0) m) None (r1\<lparr>run_pending := None\<rparr>)"
          by auto
        show ?thesis
        proof (cases "flow = Inr Continue")
          case True
          with Cons.IH [OF r1(3) [rule_format, OF True] g] Inr v r1 pend TickDone tks tk
          show ?thesis by (simp add: outcome_of_Cons)
        next
          case False
          with Inr v r1 pend TickDone tks tk show ?thesis by (simp add: outcome_of_Cons)
        qed
      qed
    qed
  next
    case (Observed b obs t p)
    have tail: "\<exists>r' stop. (case observe_value src sel start r1 b v t p of
          (r1, Some outcome) \<Rightarrow> (r1, Some outcome)
        | (r1, None) \<Rightarrow> feed src sel start visitor r1 ns) = (r', stop) \<and>
        outcome_of sel ?b start visitor (run_visitor r1) entering1 (tks1, unfinished, err) =
          (run_visitor r', stop) \<and>
        (stop = None \<longrightarrow> err = None \<and>
          run_inv sel ?b (entering_last sel ?b entering1 tks1) unfinished r')"
      if sel: "sel_ok sel (length entering1)" "active_ok (run_slots r1) (run_active r1)"
        "store_all sel ?b rs1 entering1 = Inr (run_slots r1)"
        and g: "group_notes (Some (t, rs1 @ [(b, v)])) ns = (tks1, unfinished, err)"
      for v r1 entering1 rs1 tks1
    proof (cases "store_all sel ?b (rs1 @ [(b, v)]) entering1")
      case (Inl e)
      with observe_value_cases [OF sel, of start b v t p] obtain r2 where
        r2: "observe_value src sel start r1 b v t p =
            (r2, Some (Inl e) :: (error + 'b flow) option)" "run_visitor r2 = run_visitor r1"
        by auto
      from outcome_of_failed_store [OF Inl, of start visitor "run_visitor r1" t ns] g r2
      show ?thesis by auto
    next
      case (Inr slots')
      with observe_value_cases [OF sel, of start b v t p] obtain r2 where
        r2: "observe_value src sel start r1 b v t p = (r2, None :: (error + 'b flow) option)"
          "run_visitor r2 = run_visitor r1"
        "run_inv sel ?b entering1 (Some (t, rs1 @ [(b, v)])) r2" by auto
      from Cons.IH [OF r2(3) g] r2 show ?thesis by simp
    qed
    show ?thesis
    proof (cases cur)
      case None
      with inv have r: "run_pending r = None" "sel_ok sel (length entering)"
        "active_ok (run_slots r) (run_active r)" "store_all sel ?b [] entering = Inr (run_slots r)"
        by (auto simp: run_inv_def)
      show ?thesis
      proof (cases obs)
        case (Inl e)
        with None Observed grp r show ?thesis by (auto simp: outcome_of_def)
      next
        case (Inr v)
        from grp None Observed Inr have "group_notes (Some (t, [] @ [(b, v)])) ns = (tks, unfinished, err)"
          by simp
        from tail [OF r(2-4) this] show ?thesis using Observed Inr r(1) by simp
      qed
    next
      case (Some tk)
      obtain t0 rs where tk: "tk = (t0, rs)" by fastforce
      have r: "run_pending r = Some t0" "sel_ok sel (length entering)"
        "active_ok (run_slots r) (run_active r)" "store_all sel ?b rs entering = Inr (run_slots r)"
        using inv Some tk by (simp_all add: run_inv_def)
      show ?thesis
      proof (cases "t0 = t")
        case True
        show ?thesis
        proof (cases obs)
          case (Inl e)
          with True Some tk Observed grp r show ?thesis by (auto simp: outcome_of_def)
        next
          case (Inr v)
          from grp Some tk True Observed Inr
          have "group_notes (Some (t, rs @ [(b, v)])) ns = (tks, unfinished, err)" by simp
          from tail [OF r(2-4) this] show ?thesis using Observed Inr r(1) True by simp
        qed
      next
        case False
        have later: "tks = (t0, rs) # tl tks"
          using grp Some tk False Observed by (cases obs) (auto split: prod.splits)
        note fin = finish_pending_cases [OF inv [unfolded Some tk], of start visitor]
        show ?thesis
        proof (cases "tick_slots sel ?b rs entering")
          case (Inl e)
          with fin r(1) False Observed show ?thesis
            by (subst later) (auto simp: outcome_of_Cons)
        next
          case (Inr m)
          obtain s' flow where v: "visited start visitor (run_visitor r) t0 m = (s', flow)" by fastforce
          with fin Inr obtain r1 where r1: "finish_pending sel start visitor r t0 = (r1, flow)"
            "run_visitor r1 = s'"
            "flow = Inr Continue \<longrightarrow>
               run_inv sel ?b (map (commit_slot t0) m) None (r1\<lparr>run_pending := None\<rparr>)"
            by auto
          show ?thesis
          proof (cases "flow = Inr Continue")
            case cont: True
            with r1(3) have e1: "sel_ok sel (length (map (commit_slot t0) m))"
              "active_ok (run_slots r1) (run_active r1)"
              "store_all sel ?b [] (map (commit_slot t0) m) = Inr (run_slots r1)"
              unfolding run_inv_def using cont by (auto simp del: length_map)
            show ?thesis
            proof (cases obs)
              case (Inl e)
              with cont v r1 r(1) False Observed grp Some tk Inr show ?thesis
                by (auto simp: outcome_of_Cons) (simp add: outcome_of_def)?
            next
              case obs: (Inr w)
              from grp Some tk False Observed obs
              have "group_notes (Some (t, [] @ [(b, w)])) ns = (tl tks, unfinished, err)"
                by (auto split: prod.splits)
              from tail [OF e1 this] show ?thesis
                using Observed obs r(1) False cont v r1 Inr
                by (subst later, subst later) (simp add: outcome_of_Cons)
            qed
          next
            case stop: False
            with Inr v r1 r(1) False Observed show ?thesis
              by (subst later) (auto simp: outcome_of_Cons)
          qed
        qed
      qed
    qed
  qed
qed

end
