(* ===== verification/Ondas_Replay.thy ===== *)
theory Ondas_Replay
  imports Ondas_Traversal
begin

text \<open>
  The retained snapshots of a selection. \<open>tick_reader\<close> is the contract between the
  engine and a reader: notification times are ordered and bounded by the end tick, a read
  to an earlier end is a prefix, and a position resumes the read exactly where it was
  taken. \<open>replay_ok\<close> is what a retained snapshot means. \<open>read_ticks_from_refines\<close>
  shows that a traversal with any valid snapshots has the result of a traversal from the
  beginning with none, and leaves valid snapshots behind.
\<close>

section \<open>Order of notifications\<close>

fun note_time :: "notification \<Rightarrow> time" where
  "note_time (Observed b v t p) = t"
| "note_time (TickDone t) = t"

fun is_tick_done :: "notification \<Rightarrow> bool" where
  "is_tick_done (TickDone t) = True"
| "is_tick_done (Observed b v t p) = False"

definition before_note :: "notification \<Rightarrow> notification \<Rightarrow> bool" where
  "before_note m n \<longleftrightarrow> note_time m \<le> note_time n \<and> (is_tick_done m \<longrightarrow> note_time m < note_time n)"

definition ordered_notes :: "notification list \<Rightarrow> bool" where
  "ordered_notes ns \<longleftrightarrow> sorted_wrt before_note ns"

lemma ordered_notes_simps [simp]:
  "ordered_notes []"
  "ordered_notes (n # ns) \<longleftrightarrow> (\<forall>m \<in> set ns. before_note n m) \<and> ordered_notes ns"
  by (simp_all add: ordered_notes_def)

lemma ordered_notes_append [simp]:
  "ordered_notes (ms @ ns) \<longleftrightarrow>
    ordered_notes ms \<and> ordered_notes ns \<and> (\<forall>m \<in> set ms. \<forall>n \<in> set ns. before_note m n)"
  by (simp add: ordered_notes_def sorted_wrt_append)

fun unfinished_ticks :: "tick option \<Rightarrow> tick list" where
  "unfinished_ticks None = []"
| "unfinished_ticks (Some tk) = [tk]"

lemma sorted_unfinished_ticks [simp]: "sorted_wrt r (map f (unfinished_ticks u))"
  by (cases u) simp_all

lemma group_notes_lower:
  assumes "group_notes cur ns = (tks, unfinished, err)"
    and "\<forall>n \<in> set ns. P (note_time n)" and "\<forall>tk \<in> set (unfinished_ticks cur). P (fst tk)"
  shows "\<forall>tk \<in> set (tks @ unfinished_ticks unfinished). P (fst tk)"
  using assms
proof (induction cur ns arbitrary: tks rule: group_notes.induct)
  case (3 tk t ns)
  then obtain tks' where g: "group_notes None ns = (tks', unfinished, err)" and tks: "tks = tk # tks'"
    by (auto split: prod.splits)
  from "3.IH" [OF g] "3.prems" tks show ?case by auto
next
  case (7 t' rs b v t p ns)
  show ?case
  proof (cases "t' = t")
    case True
    with 7 show ?thesis by simp
  next
    case False
    with "7.prems"(1) obtain tks' where
      g: "group_notes (Some (t, [(b, v)])) ns = (tks', unfinished, err)" and tks: "tks = (t', rs) # tks'"
      by (auto split: prod.splits)
    from "7.IH"(2) [OF False g] "7.prems" tks show ?thesis by auto
  qed
qed (auto split: if_splits)

lemma group_notes_increasing:
  assumes "group_notes cur ns = (tks, unfinished, err)" and "ordered_notes ns"
    and "\<forall>tk \<in> set (unfinished_ticks cur). \<forall>n \<in> set ns. fst tk \<le> note_time n"
  shows "sorted_wrt (<) (map fst (tks @ unfinished_ticks unfinished))"
  using assms
proof (induction cur ns arbitrary: tks rule: group_notes.induct)
  case (3 tk t ns)
  then obtain tks' where g: "group_notes None ns = (tks', unfinished, err)" and tks: "tks = tk # tks'"
    by (auto split: prod.splits)
  have "fst tk < note_time n" if "n \<in> set ns" for n
  proof -
    have "fst tk \<le> t" using "3.prems"(3) by simp
    also have "t < note_time n" using "3.prems"(2) that by (simp add: before_note_def)
    finally show ?thesis .
  qed
  then have "\<forall>u \<in> set (tks' @ unfinished_ticks unfinished). fst tk < fst u"
    using group_notes_lower [OF g, of "\<lambda>u. fst tk < u"] by simp
  moreover have "sorted_wrt (<) (map fst (tks' @ unfinished_ticks unfinished))"
    using "3.IH" [OF g] "3.prems"(2) by simp
  ultimately show ?case using tks by auto
next
  case (7 t' rs b v t p ns)
  show ?case
  proof (cases "t' = t")
    case True
    with 7 show ?thesis by simp
  next
    case False
    then have less: "t' < t" using "7.prems"(3) by (simp add: order_le_neq_trans)
    from False "7.prems"(1) obtain tks' where
      g: "group_notes (Some (t, [(b, v)])) ns = (tks', unfinished, err)" and tks: "tks = (t', rs) # tks'"
      by (auto split: prod.splits)
    have later: "\<forall>n \<in> set ns. t \<le> note_time n" using "7.prems"(2) by (simp add: before_note_def)
    then have "\<forall>u \<in> set (tks' @ unfinished_ticks unfinished). t' < fst u"
      using group_notes_lower [OF g, of "\<lambda>u. t' < u"] less by (simp add: less_le_trans)
    moreover have "sorted_wrt (<) (map fst (tks' @ unfinished_ticks unfinished))"
      using "7.IH"(2) [OF False g] "7.prems"(2) later by simp
    ultimately show ?thesis using tks by auto
  qed
qed (auto simp: before_note_def split: if_splits)

lemma group_notes_append:
  assumes "group_notes cur0 xs = (tks0, cur, None)"
  shows "group_notes cur0 (xs @ ys) = (case group_notes cur ys of (tks, rest) \<Rightarrow> (tks0 @ tks, rest))"
  using assms
proof (induction cur0 xs arbitrary: tks0 rule: group_notes.induct)
  case (3 tk t ns)
  then show ?case by (auto split: prod.splits)
next
  case (7 t' rs b v t p ns)
  then show ?case by (auto split: prod.splits if_splits)
qed (auto split: if_splits prod.splits)

text \<open>A record of a later tick closes the tick in progress.\<close>

lemma group_notes_next:
  assumes "\<forall>tk \<in> set (unfinished_ticks cur). fst tk \<noteq> t"
  shows "group_notes cur (Observed b v t p # ys) =
    (case group_notes None (Observed b v t p # ys) of (tks, rest) \<Rightarrow> (unfinished_ticks cur @ tks, rest))"
proof (cases cur)
  case None
  then show ?thesis by (simp split: prod.split)
next
  case (Some tk)
  with assms show ?thesis by (cases tk; cases v) (simp_all split: prod.split)
qed

lemma group_notes_quiet:
  assumes "group_notes cur ns = (tks, None, err)" and "\<forall>u. TickDone u \<notin> set ns"
    and "err = None"
  shows "cur = None \<and> ns = [] \<and> tks = []"
proof -
  have "unfinished \<noteq> None"
    if "group_notes cur ns = (tks, unfinished, None)" "\<forall>u. TickDone u \<notin> set ns"
      "cur \<noteq> None \<or> ns \<noteq> []" for cur ns tks and unfinished :: "tick option"
    using that
  proof (induction cur ns arbitrary: tks rule: group_notes.induct)
    case (7 t' rs b v t p ns)
    then show ?case by (auto split: prod.splits if_splits)
  qed (auto split: if_splits prod.splits)
  from this [of cur ns tks None] assms have "cur = None" "ns = []" by blast+
  with assms(1) show ?thesis by simp
qed


section \<open>The contract of a resumable reader\<close>

locale tick_reader =
  fixes read :: "signal list \<Rightarrow> time \<Rightarrow> position option \<Rightarrow>
    notification list \<times> (error + position option)"
  assumes read_ordered: "ordered_notes (fst (read bases stop None))"
    and read_bounded: "n \<in> set (fst (read bases stop None)) \<Longrightarrow> note_time n \<le> stop"
    and read_prefix: "read bases stop None = (xs, Inr q) \<Longrightarrow> earlier \<le> stop \<Longrightarrow>
      \<exists>q'. read bases earlier None = (filter (\<lambda>n. note_time n \<le> earlier) xs, Inr q')"
    and read_clock: "Observed b v t (Some p) \<in> set (fst (read bases stop None)) \<Longrightarrow>
      position_time p = t"
    and read_record: "read bases stop None = (xs @ Observed b v t (Some p) # ys, out) \<Longrightarrow>
      t \<le> stop' \<Longrightarrow>
      \<exists>ys' out'. read bases stop' None = (xs @ Observed b v t (Some p) # ys', out') \<and>
        read bases stop' (Some p) = (Observed b v t (Some p) # ys', out')"
    and read_resume: "read bases stop None = (xs, Inr (Some p)) \<Longrightarrow> stop \<le> stop' \<Longrightarrow>
      \<exists>ys' out'. read bases stop' None = (xs @ ys', out') \<and>
        read bases stop' (Some p) = (ys', out')"
    and read_untimed: "read bases stop None = (xs, Inr (Some p)) \<Longrightarrow> TickDone t \<notin> set xs"
    and read_untimed_record: "Observed b v t (Some p) \<in> set (fst (read bases stop None)) \<Longrightarrow>
      TickDone u \<notin> set (fst (read bases stop None))"

section \<open>Resume points\<close>

text \<open>
  \<open>pre\<close> is what a read from the beginning notifies before the position: the completed
  ticks \<open>tks0\<close>, which leave the slots \<open>entering\<close>, and the tick in progress \<open>cur\<close>. A
  position taken at the first record of a later tick holds no tick in progress; \<open>lim\<close>
  is then the time of that record.
\<close>

definition first_ok :: "time option \<Rightarrow> notification list \<Rightarrow> bool" where
  "first_ok lim ys \<longleftrightarrow>
    (case lim of None \<Rightarrow> True | Some t \<Rightarrow> \<exists>b v p zs. ys = Observed b v t p # zs)"

definition aligned ::
    "notification list \<Rightarrow> tick list \<Rightarrow> tick option \<Rightarrow> time option \<Rightarrow> bool" where
  "aligned pre tks0 cur lim \<longleftrightarrow>
    (\<forall>ys. first_ok lim ys \<longrightarrow>
      group_notes None (pre @ ys) = (case group_notes cur ys of (tks, rest) \<Rightarrow> (tks0 @ tks, rest)))"

definition default_slots :: "selection \<Rightarrow> slot list" where
  "default_slots sel = replicate (length (sel_retained sel)) slot_default"

definition stored_slots :: "selection \<Rightarrow> string \<Rightarrow> tick option \<Rightarrow> slot list \<Rightarrow> error + slot list" where
  "stored_slots sel backend cur entering =
    (case cur of Some (t, rs) \<Rightarrow> store_all sel backend rs entering | None \<Rightarrow> Inr entering)"

definition resume_point ::
    "source \<Rightarrow> selection \<Rightarrow> time \<Rightarrow> position option \<Rightarrow> notification list \<Rightarrow> tick list \<Rightarrow> tick option \<Rightarrow>
     time option \<Rightarrow> slot list \<Rightarrow> bool" where
  "resume_point src sel lower pos pre tks0 cur lim entering \<longleftrightarrow>
    (\<forall>stop \<ge> lower. \<exists>ys out.
       src_read src (sel_bases sel) stop None = (pre @ ys, out) \<and>
       src_read src (sel_bases sel) stop pos = (ys, out) \<and> first_ok lim ys) \<and>
    aligned pre tks0 cur lim \<and>
    snd (snapshots sel (src_backend src) (default_slots sel) tks0) = Inr entering"

definition replay_ok :: "source \<Rightarrow> selection \<Rightarrow> replay \<Rightarrow> bool" where
  "replay_ok src sel rp \<longleftrightarrow>
    (\<exists>pre tks0 cur lim entering.
       resume_point src sel (rp_end rp) (Some (rp_position rp)) pre tks0 cur lim entering \<and>
       stored_slots sel (src_backend src) cur entering = Inr (rp_slots rp) \<and>
       rp_time rp = map_option fst cur \<and>
       (\<forall>tk \<in> set tks0. fst tk < rp_start rp))"

lemma replay_okI:
  assumes "resume_point src sel (rp_end rp) (Some (rp_position rp)) pre tks0 cur lim entering"
    and "stored_slots sel (src_backend src) cur entering = Inr (rp_slots rp)"
    and "rp_time rp = map_option fst cur" and "\<forall>tk \<in> set tks0. fst tk < rp_start rp"
  shows "replay_ok src sel rp"
  using assms unfolding replay_ok_def by blast

definition caches_ok :: "source \<Rightarrow> selection \<Rightarrow> bool" where
  "caches_ok src sel \<longleftrightarrow>
    (\<forall>rp. sel_replay sel = Some rp \<longrightarrow> replay_ok src sel rp) \<and>
    (\<forall>rp. sel_checkpoint sel = Some rp \<longrightarrow> replay_ok src sel rp)"

text \<open>The beginning of the recording is a resume point.\<close>

lemma resume_point_cold:
  "resume_point src sel lower None [] [] None None (default_slots sel)"
  by (simp add: resume_point_def aligned_def first_ok_def split: prod.split)

lemma aligned_append:
  assumes "aligned pre tks0 cur lim" and "first_ok lim (xs @ ys)"
    and "group_notes cur xs = (tks, unfinished, None)"
  shows "group_notes None (pre @ xs @ ys) =
    (case group_notes unfinished ys of (tks', rest) \<Rightarrow> (tks0 @ tks @ tks', rest))"
  using assms group_notes_append [OF assms(3), of ys]
  by (simp add: aligned_def split: prod.splits)

lemma snapshots_append:
  "snapshots sel backend slots (tks @ tks') =
    (case snapshots sel backend slots tks of
       (ss, Inl e) \<Rightarrow> (ss, Inl e)
     | (ss, Inr slots') \<Rightarrow> (case snapshots sel backend slots' tks' of (ss', out) \<Rightarrow> (ss @ ss', out)))"
  by (induction sel backend slots tks rule: snapshots.induct)
    (auto split: sum.splits prod.splits)

lemma snapshots_times:
  "snapshots sel backend slots tks = (ss, out) \<Longrightarrow> (t, m) \<in> set ss \<Longrightarrow> t \<in> fst ` set tks"
proof (induction tks arbitrary: slots ss)
  case Nil
  then show ?case by simp
next
  case (Cons tk tks)
  then show ?case by (cases tk) (fastforce split: sum.splits prod.splits)
qed

lemma visit_all_append:
  "visit_all start visitor s (ss @ ss') =
    (case visit_all start visitor s ss of
       (s', flow) \<Rightarrow> if flow = Inr Continue then visit_all start visitor s' ss' else (s', flow))"
  by (induction start visitor s ss rule: visit_all.induct) (auto split: prod.split)

lemma visit_all_skip:
  "\<forall>x \<in> set ss. fst x < begin \<Longrightarrow> visit_all (Some begin) visitor s ss = (s, Inr Continue)"
  by (induction ss) (auto simp: visited_def)

text \<open>Ticks before the start of the traversal do not show in its outcome.\<close>

lemma outcome_of_append:
  assumes "snd (snapshots sel backend slots tks0) = Inr entering"
    and "tks0 = [] \<or> (\<exists>begin. start = Some begin \<and> (\<forall>tk \<in> set tks0. fst tk < begin))"
  shows "outcome_of sel backend start visitor s slots (tks0 @ tks, rest) =
    outcome_of sel backend start visitor s entering (tks, rest)"
proof -
  obtain ss0 where ss0: "snapshots sel backend slots tks0 = (ss0, Inr entering)"
    using assms(1) by (cases "snapshots sel backend slots tks0") auto
  have skip: "visit_all start visitor s ss0 = (s, Inr Continue)"
    using assms(2)
  proof (elim disjE exE conjE)
    assume "tks0 = []"
    with ss0 show ?thesis by auto
  next
    fix t
    assume "start = Some t" and "\<forall>tk \<in> set tks0. fst tk < t"
    with snapshots_times [OF ss0] show ?thesis by (fastforce intro!: visit_all_skip)
  qed
  show ?thesis
    by (cases rest)
      (auto simp: outcome_of_def snapshots_append ss0 visit_all_append skip split: prod.splits)
qed


section \<open>Well-formed slot vectors\<close>

text \<open>Between ticks and inside one, no slot is marked as changed.\<close>

definition unmarked :: "nat \<Rightarrow> slot list \<Rightarrow> bool" where
  "unmarked n slots \<longleftrightarrow> length slots = n \<and> (\<forall>c \<in> set slots. \<not> slot_changed c)"

lemma unmarked_nth: "unmarked n slots \<Longrightarrow> i < n \<Longrightarrow> \<not> slot_changed (slots ! i)"
  by (simp add: unmarked_def)

lemma unmarked_update: "unmarked n slots \<Longrightarrow> \<not> slot_changed c \<Longrightarrow> unmarked n (slots[i := c])"
  using set_update_subset_insert [of slots i c] by (auto simp: unmarked_def)

lemma unmarked_default [simp]: "unmarked (length (sel_retained sel)) (default_slots sel)"
  by (simp add: unmarked_def default_slots_def slot_default_def)

lemma record_slot_fields:
  "record_slot backend v s c = Inr c' \<Longrightarrow> slot_changed c' = slot_changed c \<and> slot_state c' = slot_state c"
  by (auto simp: record_slot_def split: wave_value.splits option.splits)

lemma unmarked_store:
  assumes "store retained backend v is slots = Inr slots'" and "unmarked n slots" and "\<forall>i \<in> set is. i < n"
  shows "unmarked n slots'"
  using assms
proof (induction "is" arbitrary: slots)
  case Nil
  then show ?case by simp
next
  case (Cons i js)
  then obtain c where "record_slot backend v (retained ! i) (slots ! i) = Inr c"
    and rest: "store retained backend v js (slots[i := c]) = Inr slots'" by auto
  with Cons.prems(2,3) have "\<not> slot_changed c"
    using unmarked_nth [OF Cons.prems(2), of i] by (auto dest: record_slot_fields)
  with Cons.IH [OF rest] Cons.prems(2,3) show ?case by (simp add: unmarked_update)
qed

lemma unmarked_store_all:
  assumes "store_all sel backend rs slots = Inr slots'" and "unmarked n slots" and "sel_ok sel n"
  shows "unmarked n slots'"
  using assms
proof (induction rs arbitrary: slots)
  case Nil
  then show ?case by simp
next
  case (Cons r rs)
  then obtain js slots1 where "sel_groups sel (fst r) = Some js"
    and "store (sel_retained sel) backend (snd r) js slots = Inr slots1"
    and "store_all sel backend rs slots1 = Inr slots'"
    by (cases r) (auto split: option.splits)
  with Cons.IH [of slots1] Cons.prems(2,3) show ?case by (auto simp: sel_ok_def dest: unmarked_store)
qed

lemma length_computation_complete:
  "computation_complete c slots active = Some (slots', active') \<Longrightarrow> length slots' = length slots"
  by (cases c) (auto simp: set_computed_def Let_def split: if_splits option.splits prod.splits)

lemma length_complete_all:
  "complete_all cs slots active = Some (slots', active') \<Longrightarrow> length slots' = length slots"
  by (induction cs slots active rule: complete_all.induct)
    (auto split: option.splits dest: length_computation_complete)

lemma length_computed: "computed cs slots = Some slots' \<Longrightarrow> length slots' = length slots"
  by (auto simp: computed_def dest: length_complete_all)

lemma length_tick_slots: "tick_slots sel backend rs slots = Inr m \<Longrightarrow> length m = length slots"
  by (auto simp: tick_slots_def complete_slots_def dest!: length_store_all length_computed)

lemma unmarked_snapshots:
  "snd (snapshots sel backend slots tks) = Inr slots' \<Longrightarrow> unmarked n slots \<Longrightarrow> unmarked n slots'"
proof (induction tks arbitrary: slots)
  case Nil
  then show ?case by simp
next
  case (Cons tk tks)
  obtain t rs where tk: "tk = (t, rs)" by fastforce
  with Cons.prems(1) obtain m where m: "tick_slots sel backend rs slots = Inr m"
    by (auto split: sum.splits)
  with Cons.prems(1) tk have "snd (snapshots sel backend (map (commit_slot t) m) tks) = Inr slots'"
    by (auto split: prod.splits)
  moreover have "unmarked n (map (commit_slot t) m)"
    using Cons.prems(2) length_tick_slots [OF m] by (auto simp: unmarked_def)
  ultimately show ?case by (rule Cons.IH)
qed

lemma initially_active_ok: "unmarked n slots \<Longrightarrow> active_ok slots (initially_active slots)"
  by (auto simp: active_ok_def initially_active_def clean_def unmarked_def word_gt_0)

lemma resume_run_inv:
  assumes "sel_ok sel (length (sel_retained sel))"
    and "resume_point src sel lower pos pre tks0 cur lim entering"
    and "stored_slots sel (src_backend src) cur entering = Inr slots"
  shows "run_inv sel (src_backend src) entering cur
    \<lparr>run_slots = slots, run_active = initially_active slots, run_pending = map_option fst cur,
     run_checkpoint = cp, run_considered = considered, run_visitor = s\<rparr>"
proof -
  let ?n = "length (sel_retained sel)"
  have e: "unmarked ?n entering"
    using assms(2) unmarked_default by (auto simp: resume_point_def intro: unmarked_snapshots)
  then have "unmarked ?n slots"
    using assms(1,3) by (auto simp: stored_slots_def split: option.splits dest: unmarked_store_all)
  with e show ?thesis
    using assms(1,3) by (simp add: run_inv_def stored_slots_def unmarked_def initially_active_ok)
qed

section \<open>Taking a checkpoint\<close>

lemma feed_snoc:
  "feed src sel start visitor r (ns @ [n]) =
    (case feed src sel start visitor r ns of
       (r1, None) \<Rightarrow> consume src sel start visitor r1 n
     | (r1, Some outcome) \<Rightarrow> (r1, Some outcome))"
  by (induction src sel start visitor r ns rule: feed.induct) (auto split: prod.splits option.splits)

text \<open>
  A checkpoint is considered at the first record at or after the start whose preceding
  tick lies before it, after that tick has been committed.
\<close>

lemma consume_checkpoint:
  fixes visitor :: "('s, 'b) tick_visitor"
  assumes inv: "run_inv sel (src_backend src) entering cur r"
    and step: "consume src sel start visitor r n = (r', None)"
    and new: "run_checkpoint r' \<noteq> run_checkpoint r" "run_checkpoint r' = Some cp"
  obtains b v t p begun entering' where "n = Observed b (Inr v) t (Some p)" and "start = Some begun"
    and "begun \<le> t" and "\<forall>tk \<in> set (unfinished_ticks cur). fst tk < begun"
    and "snd (snapshots sel (src_backend src) entering (unfinished_ticks cur)) = Inr entering'"
    and "cp = \<lparr>rp_position = p, rp_start = begun, rp_end = position_time p, rp_time = None,
               rp_slots = entering'\<rparr>"
proof -
  have fin: "run_checkpoint r1 = run_checkpoint r \<and> run_pending r1 = run_pending r"
    if "finish_pending sel start visitor r t = (r1, flow)" for t r1 flow
    using that by (auto simp: finish_pending_def split: prod.splits)
  show thesis
  proof (cases n)
    case (TickDone t)
    with step new fin show thesis by (auto split: option.splits prod.splits if_splits)
  next
    case (Observed b obs t q)
    from step Observed obtain r1 where
      r1: "(case run_pending r of
          Some previous \<Rightarrow> if previous \<noteq> t then finish_pending sel start visitor r previous
            else (r, Inr Continue)
        | None \<Rightarrow> (r, Inr Continue)) = (r1, Inr Continue)"
      by (auto split: prod.splits if_splits)
    with step Observed obtain v where v: "obs = Inr v"
      and ob: "observe_value src sel start r1 b v t q = (r', None :: (error + 'b flow) option)"
      by (cases obs) auto
    have r1_fields: "run_checkpoint r1 = run_checkpoint r" "run_pending r1 = run_pending r"
      using r1 fin by (auto split: option.splits if_splits)
    have cp: "run_checkpoint r' = run_checkpoint (consider_checkpoint src start t q r1)"
      using ob by (auto simp: observe_value_def Let_def split: option.splits sum.splits prod.splits)
    with new r1_fields obtain begun p where taken: "start = Some begun" "q = Some p" "begun \<le> t"
      "case run_pending r of None \<Rightarrow> True | Some previous \<Rightarrow> previous < begun"
      "cp = \<lparr>rp_position = p, rp_start = begun, rp_end = position_time p, rp_time = None,
             rp_slots = run_slots r1\<rparr>"
      by (auto simp: consider_checkpoint_def split: option.splits if_splits)
    have pending: "run_pending r = map_option fst cur"
      using inv by (simp add: run_inv_def)
    have "snd (snapshots sel (src_backend src) entering (unfinished_ticks cur)) = Inr (run_slots r1)"
    proof (cases cur)
      case None
      with inv r1 pending show ?thesis by (auto simp: run_inv_def)
    next
      case (Some tk)
      obtain t0 rs where tk: "tk = (t0, rs)" by fastforce
      with Some pending taken have fp: "finish_pending sel start visitor r t0 = (r1, Inr Continue)"
        using r1 by (auto split: if_splits)
      with finish_pending_cases [OF inv [unfolded Some tk], of start visitor]
      obtain m where m: "tick_slots sel (src_backend src) rs entering = Inr m"
        and "run_inv sel (src_backend src) (map (commit_slot t0) m) None (r1\<lparr>run_pending := None\<rparr>)"
        by (auto split: sum.splits prod.splits)
      then show ?thesis using Some tk by (simp add: run_inv_def)
    qed
    moreover have "\<forall>tk \<in> set (unfinished_ticks cur). fst tk < begun"
      using taken(4) pending by (cases cur) auto
    ultimately show thesis using that taken Observed v by blast
  qed
qed


lemma feed_checkpoint:
  assumes inv: "run_inv sel (src_backend src) entering cur r"
    and "feed src sel start visitor r ns = (r', None)"
    and "run_checkpoint r' = Some cp"
  shows "run_checkpoint r = Some cp \<or>
    (\<exists>xs b v t p ys tks unfinished begun entering'.
       ns = xs @ Observed b (Inr v) t (Some p) # ys \<and> group_notes cur xs = (tks, unfinished, None) \<and>
       start = Some begun \<and> begun \<le> t \<and> (\<forall>tk \<in> set (unfinished_ticks unfinished). fst tk < begun) \<and>
       snd (snapshots sel (src_backend src) entering (tks @ unfinished_ticks unfinished)) = Inr entering' \<and>
       cp = \<lparr>rp_position = p, rp_start = begun, rp_end = position_time p, rp_time = None,
             rp_slots = entering'\<rparr>)"
  using assms(2,3)
proof (induction ns arbitrary: r' rule: rev_induct)
  case Nil
  then show ?case by simp
next
  case (snoc n ns)
  from snoc.prems(1) obtain r1 where r1: "feed src sel start visitor r ns = (r1, None)"
    and step: "consume src sel start visitor r1 n = (r', None)"
    by (auto simp: feed_snoc split: prod.splits option.splits)
  show ?case
  proof (cases "run_checkpoint r' = run_checkpoint r1")
    case True
    with snoc.IH [OF r1] snoc.prems(2) show ?thesis by fastforce
  next
    case False
    obtain tks unfinished err where g: "group_notes cur ns = (tks, unfinished, err)"
      by (cases "group_notes cur ns") auto
    from feed_spec [OF inv g, of start visitor] r1
    have err: "err = None" and inv1: "run_inv sel (src_backend src)
        (entering_last sel (src_backend src) entering tks) unfinished r1"
      and out: "outcome_of sel (src_backend src) start visitor (run_visitor r) entering
        (tks, unfinished, err) = (run_visitor r1, None)"
      by auto
    from out obtain ss entering1 where ss: "snapshots sel (src_backend src) entering tks = (ss, Inr entering1)"
      by (auto simp: outcome_of_def Let_def split: prod.splits sum.splits if_splits)
    then have last: "entering_last sel (src_backend src) entering tks = entering1"
      by (simp add: entering_last_def)
    from consume_checkpoint [OF inv1 step False snoc.prems(2)]
    obtain b v t p begun entering' where new: "n = Observed b (Inr v) t (Some p)"
      "start = Some begun" "begun \<le> t" "\<forall>tk \<in> set (unfinished_ticks unfinished). fst tk < begun"
      "snd (snapshots sel (src_backend src) entering1 (unfinished_ticks unfinished)) = Inr entering'"
      "cp = \<lparr>rp_position = p, rp_start = begun, rp_end = position_time p, rp_time = None,
             rp_slots = entering'\<rparr>"
      unfolding last .
    have "snd (snapshots sel (src_backend src) entering (tks @ unfinished_ticks unfinished)) = Inr entering'"
      using new(5) by (auto simp: snapshots_append ss split: prod.split)
    with new g err show ?thesis by blast
  qed
qed

section \<open>The selection's caches\<close>

lemma caches_irrelevant [simp]:
  "store_all (sel\<lparr>sel_replay := a, sel_checkpoint := c\<rparr>) backend rs slots = store_all sel backend rs slots"
  by (induction sel backend rs slots rule: store_all.induct)
    (auto split: option.splits intro!: and_then_cong)

lemma snapshots_caches [simp]:
  "snapshots (sel\<lparr>sel_replay := a, sel_checkpoint := c\<rparr>) backend slots tks = snapshots sel backend slots tks"
  by (induction sel backend slots tks rule: snapshots.induct)
    (auto simp: tick_slots_def complete_slots_def cong: and_then_cong split: sum.splits)

lemma replay_ok_caches [simp]:
  "replay_ok src (sel\<lparr>sel_replay := a, sel_checkpoint := c\<rparr>) rp = replay_ok src sel rp"
  by (simp add: replay_ok_def resume_point_def stored_slots_def default_slots_def cong: option.case_cong)

context tick_reader
begin

lemma point_sorted:
  assumes "aligned pre tks0 cur lim" and "first_ok lim xs" and "group_notes cur xs = (tks, unfinished, err)"
    and "read bases stop None = (pre @ xs @ ys, out)"
  shows "sorted_wrt (<) (map fst (tks0 @ tks @ unfinished_ticks unfinished))"
proof -
  have "group_notes None (pre @ xs) = (tks0 @ tks, unfinished, err)"
    using assms(1-3) by (simp add: aligned_def)
  moreover have "ordered_notes (pre @ xs)"
    using read_ordered [of bases stop] assms(4) by simp
  ultimately show ?thesis using group_notes_increasing by fastforce
qed

text \<open>Completed ticks lie before the tick in progress.\<close>

lemma point_before:
  assumes "aligned pre tks0 cur lim" and "first_ok lim (xs @ ys)"
    and "group_notes cur xs = (tks, unfinished, None)"
    and "read bases stop None = (pre @ xs @ ys, out)"
    and "\<forall>u. TickDone u \<notin> set xs" and "\<forall>tk \<in> set tks0. fst tk < low"
  shows "\<forall>tk \<in> set (tks0 @ tks). fst tk < low \<or> (\<exists>tk' \<in> set (unfinished_ticks unfinished). fst tk < fst tk')"
proof (cases "xs = []")
  case True
  with assms(3,6) show ?thesis by simp
next
  case False
  then have "first_ok lim xs" using assms(2) by (cases xs) (auto simp: first_ok_def split: option.splits)
  from point_sorted [OF assms(1) this assms(3,4)] False show ?thesis
    using group_notes_quiet [of cur xs tks None] assms(3,5)
    by (cases unfinished) (auto simp: sorted_wrt_append)
qed


text \<open>A checkpoint taken in a read from a resume point is a valid snapshot.\<close>

lemma checkpoint_point:
  assumes point: "resume_point src sel lower pos pre tks0 cur lim entering0"
    and src: "read = src_read src" and bases: "bases = sel_bases sel"
    and heard: "read bases stop None = (pre @ xs @ Observed b (Inr v) t (Some p) # ys, out)"
    and first: "first_ok lim (xs @ Observed b (Inr v) t (Some p) # ys)"
    and grp: "group_notes cur xs = (tks, unfinished, None)"
    and before: "\<forall>tk \<in> set tks0. fst tk < begun" "\<forall>tk \<in> set (unfinished_ticks unfinished). fst tk < begun"
    and le: "begun \<le> t"
    and snap: "snd (snapshots sel (src_backend src) entering0 (tks @ unfinished_ticks unfinished)) = Inr entering'"
  shows "replay_ok src sel \<lparr>rp_position = p, rp_start = begun, rp_end = position_time p, rp_time = None,
           rp_slots = entering'\<rparr>"
proof -
  let ?n = "Observed b (Inr v) t (Some p)"
  have "?n \<in> set (fst (read bases stop None))" using heard by simp
  then have clock: "position_time p = t" and untimed: "\<forall>u. TickDone u \<notin> set xs"
    using read_clock [of b "Inr v" t p bases stop] read_untimed_record [of b "Inr v" t p bases stop] heard
    by auto
  have al: "aligned pre tks0 cur lim" using point by (simp add: resume_point_def)
  have firsts: "first_ok lim (xs @ zs)" if "first_ok (Some t) zs" for zs
    using first that by (cases xs) (auto simp: first_ok_def split: option.splits)
  have "tk \<in> set (unfinished_ticks unfinished) \<Longrightarrow> fst tk \<noteq> t" for tk
    using before(2) le by auto
  then have closing: "group_notes unfinished zs = (case group_notes None zs of (ts, rest) \<Rightarrow>
      (unfinished_ticks unfinished @ ts, rest))" if "first_ok (Some t) zs" for zs
    using that group_notes_next [of unfinished t] by (auto simp: first_ok_def)
  have "aligned (pre @ xs) (tks0 @ tks @ unfinished_ticks unfinished) None (Some t)"
    unfolding aligned_def
  proof (intro allI impI)
    fix zs assume zs: "first_ok (Some t) zs"
    show "group_notes None ((pre @ xs) @ zs) = (case group_notes None zs of (ts, rest) \<Rightarrow>
        ((tks0 @ tks @ unfinished_ticks unfinished) @ ts, rest))"
      using aligned_append [OF al firsts [OF zs] grp] closing [OF zs] by (simp split: prod.split)
  qed
  moreover have "\<exists>zs out. src_read src (sel_bases sel) stop' None = ((pre @ xs) @ zs, out) \<and>
      src_read src (sel_bases sel) stop' (Some p) = (zs, out) \<and> first_ok (Some t) zs"
    if "position_time p \<le> stop'" for stop'
    using read_record [of bases stop "pre @ xs" b "Inr v" t p ys out stop'] heard that clock src bases
    by (auto simp: first_ok_def)
  moreover have "snd (snapshots sel (src_backend src) (default_slots sel)
      (tks0 @ tks @ unfinished_ticks unfinished)) = Inr entering'"
    using point snap by (cases "snapshots sel (src_backend src) (default_slots sel) tks0")
      (auto simp: resume_point_def snapshots_append split: prod.split)
  ultimately have "resume_point src sel (position_time p) (Some p) (pre @ xs)
      (tks0 @ tks @ unfinished_ticks unfinished) None (Some t) entering'"
    unfolding resume_point_def by blast
  moreover have "\<forall>tk \<in> set (tks0 @ tks @ unfinished_ticks unfinished). fst tk < begun"
  proof -
    have near: "fst tk < begun" if "fst tk < begun \<or> (\<exists>tk' \<in> set (unfinished_ticks unfinished). fst tk < fst tk')"
      for tk :: tick
      using that before(2) less_trans by blast
    from heard have "read bases stop None = (pre @ xs @ (?n # ys), out)" by simp
    from point_before [OF al first grp this untimed before(1)] near before(2) show ?thesis
      by (metis Un_iff append_assoc set_append)
  qed
  ultimately show ?thesis 
    by (intro replay_okI [where ?tks0.0 = "tks0 @ tks @ unfinished_ticks unfinished" and cur = None
          and entering = entering']) (simp_all add: stored_slots_def)
qed

text \<open>The position after a completed read is a resume point for every later end.\<close>

lemma end_point:
  assumes point: "resume_point src sel lower pos pre tks0 cur lim entering0"
    and src: "read = src_read src" and bases: "bases = sel_bases sel" and "lower \<le> stop"
    and heard: "read bases stop None = (pre @ ys, Inr (Some p))" and first: "first_ok lim ys"
    and grp: "group_notes cur ys = (tks, unfinished, None)"
    and before: "\<forall>tk \<in> set tks0. fst tk < low"
    and snap: "snd (snapshots sel (src_backend src) entering0 tks) = Inr entering'"
    and stored: "stored_slots sel (src_backend src) unfinished entering' = Inr slots"
  shows "replay_ok src sel \<lparr>rp_position = p,
           rp_start = (case map_option fst unfinished of Some t \<Rightarrow> t | None \<Rightarrow> low),
           rp_end = stop, rp_time = map_option fst unfinished, rp_slots = slots\<rparr>"
proof -
  have al: "aligned pre tks0 cur lim" using point by (simp add: resume_point_def)
  have firsts: "first_ok lim (ys @ zs)" for zs
    using first by (cases ys) (auto simp: first_ok_def split: option.splits)
  have untimed: "\<forall>u. TickDone u \<notin> set ys" using read_untimed [OF heard] by simp
  have "aligned (pre @ ys) (tks0 @ tks) unfinished None"
    using aligned_append [OF al firsts grp] by (simp add: aligned_def)
  moreover have "\<exists>zs out. src_read src (sel_bases sel) stop' None = ((pre @ ys) @ zs, out) \<and>
      src_read src (sel_bases sel) stop' (Some p) = (zs, out) \<and> first_ok None zs"
    if "stop \<le> stop'" for stop'
    using read_resume [OF heard that] src bases by (auto simp: first_ok_def)
  moreover have "snd (snapshots sel (src_backend src) (default_slots sel) (tks0 @ tks)) = Inr entering'"
    using point snap by (cases "snapshots sel (src_backend src) (default_slots sel) tks0")
      (auto simp: resume_point_def snapshots_append split: prod.split)
  ultimately have "resume_point src sel stop (Some p) (pre @ ys) (tks0 @ tks) unfinished None entering'"
    unfolding resume_point_def by blast
  moreover have "\<forall>tk \<in> set (tks0 @ tks). fst tk <
      (case map_option fst unfinished of Some t \<Rightarrow> t | None \<Rightarrow> low)"
  proof (cases unfinished)
    case None
    then show ?thesis using group_notes_quiet [OF grp [unfolded None] untimed] before by simp
  next
    case (Some tk)
    from point_sorted [OF al first grp, of bases stop "[]" "Inr (Some p)"] heard Some show ?thesis
      by (auto simp: sorted_wrt_append bases)
  qed
  ultimately show ?thesis using stored
    by (intro replay_okI [where ?tks0.0 = "tks0 @ tks" and cur = unfinished and entering = entering'])
      simp_all
qed

end

end
