(* ===== verification/Ondas_ReadTicks.thy ===== *)
theory Ondas_ReadTicks
  imports Ondas_Replay
begin

text \<open>
  The correctness of \<open>read_ticks_from\<close>. \<open>reference_traversal\<close> is one read from the
  beginning with no retained snapshot: completed ticks from the start on are shown to the
  visitor, the last tick counts as completed only when the read succeeded.
\<close>

definition final_ticks ::
    "tick list \<times> tick option \<times> error option \<Rightarrow> error + position option \<Rightarrow>
     tick list \<times> tick option \<times> error option" where
  "final_ticks grouped out =
    (case (grouped, out) of
       ((tks, unfinished, None), Inr _) \<Rightarrow> (tks @ unfinished_ticks unfinished, None, None)
     | _ \<Rightarrow> grouped)"

definition reference_traversal ::
    "source \<Rightarrow> selection \<Rightarrow> time option \<Rightarrow> time \<Rightarrow> ('s, 'b) tick_visitor \<Rightarrow> 's \<Rightarrow>
     's \<times> (error + 'b flow)" where
  "reference_traversal src sel start stop visitor s =
    (let (ns, out) = src_read src (sel_bases sel) stop None;
         (s', result) = outcome_of sel (src_backend src) start visitor s (default_slots sel)
           (final_ticks (group_notes None ns) out)
     in (s', case result of
               Some flow \<Rightarrow> flow
             | None \<Rightarrow> (case out of Inl e \<Rightarrow> Inl e | Inr _ \<Rightarrow> Inr Continue)))"

definition reference_slots :: "source \<Rightarrow> selection \<Rightarrow> time \<Rightarrow> slot list" where
  "reference_slots src sel stop =
    (let (ns, out) = src_read src (sel_bases sel) stop None
     in entering_last sel (src_backend src) (default_slots sel)
          (fst (final_ticks (group_notes None ns) out)))"

lemma outcome_of_stopped:
  "outcome_of sel backend start visitor s slots (tks, unfinished, None) = (s', Some flow) \<Longrightarrow>
    outcome_of sel backend start visitor s slots (tks @ unfinished_ticks unfinished, None, None) =
      (s', Some flow)"
proof (induction tks arbitrary: s slots)
  case Nil
  then show ?case
    by (cases unfinished) (auto simp: outcome_of_def tick_slots_def Let_def split: sum.splits)
next
  case (Cons tk tks)
  then show ?case
    by (cases tk) (auto simp: outcome_of_Cons split: sum.splits prod.splits if_splits)
qed

lemma outcome_of_continue:
  "outcome_of sel backend start visitor s slots (tks, unfinished, err) = (s', None) \<Longrightarrow>
    err = None \<and>
    snd (snapshots sel backend slots tks) = Inr (entering_last sel backend slots tks) \<and>
    outcome_of sel backend start visitor s slots (tks @ tks', rest) =
      outcome_of sel backend start visitor s' (entering_last sel backend slots tks) (tks', rest)"
proof (induction tks arbitrary: s slots)
  case Nil
  then show ?case
    by (cases unfinished) (auto simp: outcome_of_def Let_def split: sum.splits)
next
  case (Cons tk tks)
  obtain t rs where tk: "tk = (t, rs)" by fastforce
  with Cons.prems obtain m s1 where m: "tick_slots sel backend rs slots = Inr m"
    and v: "visited start visitor s t m = (s1, Inr Continue)"
    and rest: "outcome_of sel backend start visitor s1 (map (commit_slot t) m) (tks, unfinished, err)
      = (s', None)"
    by (auto simp: outcome_of_Cons split: sum.splits prod.splits if_splits)
  from Cons.IH [OF rest] m v tk show ?case
    by (auto simp: outcome_of_Cons split: prod.split)
qed

lemma entering_last_append:
  "snd (snapshots sel backend slots tks) = Inr slots' \<Longrightarrow>
    entering_last sel backend slots (tks @ tks') = entering_last sel backend slots' tks'"
  by (cases "snapshots sel backend slots tks")
    (auto simp: entering_last_def snapshots_append split: prod.split)

context tick_reader
begin

lemma traverse_from_point:
  fixes visitor :: "('s, 'b) tick_visitor"
  assumes src: "read = src_read src" and ok: "sel_ok sel (length (sel_retained sel))"
    and point: "resume_point src sel lower pos pre tks0 cur lim entering"
    and stored: "stored_slots sel (src_backend src) cur entering = Inr slots"
    and le: "lower \<le> stop"
    and skip: "tks0 = [] \<or> (\<exists>b. start = Some b \<and> low \<le> b)"
    and low: "\<forall>tk \<in> set tks0. fst tk < low"
    and heard: "src_read src (sel_bases sel) stop pos = (ns, out)"
    and fed: "feed src sel start visitor
      \<lparr>run_slots = slots, run_active = initially_active slots, run_pending = map_option fst cur,
       run_checkpoint = cp, run_considered = considered, run_visitor = s\<rparr> ns = (r, stopped)"
  shows "(\<forall>flow. stopped = Some flow \<longrightarrow>
      reference_traversal src sel start stop visitor s = (run_visitor r, flow)) \<and>
    (stopped = None \<longrightarrow>
      (\<forall>c. run_checkpoint r = Some c \<longrightarrow> cp = Some c \<or> replay_ok src sel c) \<and>
      (\<forall>e. out = Inl e \<longrightarrow>
        reference_traversal src sel start stop visitor s = (run_visitor r, Inl e)) \<and>
      (\<forall>p. out = Inr p \<longrightarrow>
        (\<forall>q. p = Some q \<longrightarrow> replay_ok src sel
          \<lparr>rp_position = q, rp_start = (case run_pending r of Some t \<Rightarrow> t | None \<Rightarrow> low),
           rp_end = stop, rp_time = run_pending r, rp_slots = run_slots r\<rparr>) \<and>
        (\<exists>r' flow. (case run_pending r of
             Some t \<Rightarrow> finish_pending sel start visitor r t
           | None \<Rightarrow> (r, Inr Continue)) = (r', flow) \<and>
           reference_traversal src sel start stop visitor s = (run_visitor r', flow) \<and>
           (flow = Inr Continue \<longrightarrow> run_slots r' = reference_slots src sel stop))))"
proof -
  let ?b = "src_backend src"
  let ?r0 = "\<lparr>run_slots = slots, run_active = initially_active slots, run_pending = map_option fst cur,
       run_checkpoint = cp, run_considered = considered, run_visitor = s\<rparr>"
  have inv0: "run_inv sel ?b entering cur ?r0" by (rule resume_run_inv [OF ok point stored])
  from point le heard have full: "src_read src (sel_bases sel) stop None = (pre @ ns, out)"
    and first: "first_ok lim ns" and al: "aligned pre tks0 cur lim"
    and snap0: "snd (snapshots sel ?b (default_slots sel) tks0) = Inr entering"
    by (auto simp: resume_point_def)
  obtain tks unfinished err where g: "group_notes cur ns = (tks, unfinished, err)"
    by (cases "group_notes cur ns") auto
  have gfull: "group_notes None (pre @ ns) = (tks0 @ tks, unfinished, err)"
    using al first g by (simp add: aligned_def)
  have skip': "tks0 = [] \<or> (\<exists>b. start = Some b \<and> (\<forall>tk \<in> set tks0. fst tk < b))"
    using skip low by fastforce
  note append = outcome_of_append [OF snap0 skip', of visitor s]
  have o: "outcome_of sel ?b start visitor s (default_slots sel) (tks0 @ tks, unfinished, err) =
      (run_visitor r, stopped)"
    and fin: "stopped = None \<longrightarrow> err = None \<and>
      run_inv sel ?b (entering_last sel ?b entering tks) unfinished r"
    using feed_spec [OF inv0 g, of start visitor] fed by (auto simp: append)
  have refr: "reference_traversal src sel start stop visitor s =
      (case outcome_of sel ?b start visitor s (default_slots sel)
          (final_ticks (tks0 @ tks, unfinished, err) out) of
         (s', Some flow) \<Rightarrow> (s', flow)
       | (s', None) \<Rightarrow> (s', case out of Inl e \<Rightarrow> Inl e | Inr _ \<Rightarrow> Inr Continue))"
    by (simp add: reference_traversal_def full gfull split: prod.split option.split)
  have stop_case: "reference_traversal src sel start stop visitor s = (run_visitor r, flow)"
    if "stopped = Some flow" for flow
  proof (cases "err = None \<and> (\<exists>p. out = Inr p)")
    case True
    with o that have "outcome_of sel ?b start visitor s (default_slots sel)
        ((tks0 @ tks) @ unfinished_ticks unfinished, None, None) = (run_visitor r, Some flow)"
      by (intro outcome_of_stopped) simp
    with True show ?thesis by (auto simp: refr final_ticks_def)
  next
    case False
    then have "final_ticks (tks0 @ tks, unfinished, err) out = (tks0 @ tks, unfinished, err)"
      by (cases err; cases out) (auto simp: final_ticks_def)
    with o that show ?thesis by (simp add: refr)
  qed
  have go: "(\<forall>c. run_checkpoint r = Some c \<longrightarrow> cp = Some c \<or> replay_ok src sel c) \<and>
      (\<forall>e. out = Inl e \<longrightarrow>
        reference_traversal src sel start stop visitor s = (run_visitor r, Inl e)) \<and>
      (\<forall>p. out = Inr p \<longrightarrow>
        (\<forall>q. p = Some q \<longrightarrow> replay_ok src sel
          \<lparr>rp_position = q, rp_start = (case run_pending r of Some t \<Rightarrow> t | None \<Rightarrow> low),
           rp_end = stop, rp_time = run_pending r, rp_slots = run_slots r\<rparr>) \<and>
        (\<exists>r' flow. (case run_pending r of
             Some t \<Rightarrow> finish_pending sel start visitor r t
           | None \<Rightarrow> (r, Inr Continue)) = (r', flow) \<and>
           reference_traversal src sel start stop visitor s = (run_visitor r', flow) \<and>
           (flow = Inr Continue \<longrightarrow> run_slots r' = reference_slots src sel stop)))"
    if none: "stopped = None"
  proof -
    let ?e = "entering_last sel ?b entering tks"
    from fin none have err: "err = None" and inv: "run_inv sel ?b ?e unfinished r" by simp_all
    from o none err have o': "outcome_of sel ?b start visitor s (default_slots sel)
        (tks0 @ tks, unfinished, None) = (run_visitor r, None)" by simp
    have pending: "run_pending r = map_option fst unfinished"
      and st: "stored_slots sel ?b unfinished ?e = Inr (run_slots r)"
      using inv by (simp_all add: run_inv_def stored_slots_def)
    have snap: "snd (snapshots sel ?b entering tks) = Inr ?e"
    proof -
      have "outcome_of sel ?b start visitor s entering (tks, unfinished, None) = (run_visitor r, None)"
        using o' by (simp add: append)
      from outcome_of_continue [OF this] show ?thesis by blast
    qed
    have last: "entering_last sel ?b (default_slots sel) (tks0 @ tks) = ?e"
      by (rule entering_last_append [OF snap0])
    note cont = outcome_of_continue [OF o', of "unfinished_ticks unfinished" "(None, None)", unfolded last]
    have cps: "cp = Some c \<or> replay_ok src sel c" if c: "run_checkpoint r = Some c" for c
    proof -
      from feed_checkpoint [OF inv0 fed [unfolded none] c] show ?thesis
      proof (elim disjE exE conjE)
        assume "run_checkpoint ?r0 = Some c"
        then show ?thesis by simp
      next
        fix xs b v t p ys tks' unfinished' begun entering'
        assume xs: "ns = xs @ Observed b (Inr v) t (Some p) # ys"
          and g': "group_notes cur xs = (tks', unfinished', None)" and st: "start = Some begun"
          and bt: "begun \<le> t" and bef: "\<forall>tk \<in> set (unfinished_ticks unfinished'). fst tk < begun"
          and sn: "snd (snapshots sel ?b entering (tks' @ unfinished_ticks unfinished')) = Inr entering'"
          and ceq: "c = \<lparr>rp_position = p, rp_start = begun, rp_end = position_time p, rp_time = None,
             rp_slots = entering'\<rparr>"
        have "\<forall>tk \<in> set tks0. fst tk < begun" using skip low st by fastforce
        with checkpoint_point [OF point src refl _ _ g' _ bef bt sn] full first src xs ceq
        show ?thesis by simp
      qed
    qed
    have saved: "replay_ok src sel
          \<lparr>rp_position = q, rp_start = (case run_pending r of Some t \<Rightarrow> t | None \<Rightarrow> low),
           rp_end = stop, rp_time = run_pending r, rp_slots = run_slots r\<rparr>"
      if "out = Inr (Some q)" for q
      using end_point [OF point src refl le _ first g [unfolded err] low snap st, of q] full src that
      by (simp add: pending)
    have failed: "reference_traversal src sel start stop visitor s = (run_visitor r, Inl e)"
      if "out = Inl e" for e
      using that o' by (simp add: refr final_ticks_def err)
    have completed: "\<exists>r' flow. (case run_pending r of
             Some t \<Rightarrow> finish_pending sel start visitor r t
           | None \<Rightarrow> (r, Inr Continue)) = (r', flow) \<and>
           reference_traversal src sel start stop visitor s = (run_visitor r', flow) \<and>
           (flow = Inr Continue \<longrightarrow> run_slots r' = reference_slots src sel stop)"
      if p: "out = Inr p" for p
    proof -
      have f: "final_ticks (tks0 @ tks, unfinished, err) out =
          ((tks0 @ tks) @ unfinished_ticks unfinished, None, None)"
        by (simp add: final_ticks_def err p)
      have slots: "reference_slots src sel stop =
          entering_last sel ?b ?e (unfinished_ticks unfinished)"
        using cont entering_last_append [of sel ?b "default_slots sel" "tks0 @ tks" ?e
            "unfinished_ticks unfinished"]
        by (simp add: reference_slots_def full gfull final_ticks_def err p)
      show ?thesis
      proof (cases unfinished)
        case None
        with inv have "run_slots r = ?e" by (simp add: run_inv_def)
        with None cont f pending p slots show ?thesis by (simp add: refr outcome_of_def)
      next
        case (Some tk)
        obtain t rs where tk: "tk = (t, rs)" by fastforce
        note fp = finish_pending_cases [OF inv [unfolded Some tk], of start visitor]
        show ?thesis
        proof (cases "tick_slots sel ?b rs ?e")
          case (Inl e)
          with fp Some tk cont f pending show ?thesis by (auto simp: refr outcome_of_Cons)
        next
          case (Inr m)
          obtain s1 flow where v: "visited start visitor (run_visitor r) t m = (s1, flow)" by fastforce
          with fp Inr obtain r1 where r1: "finish_pending sel start visitor r t = (r1, flow)"
            "run_visitor r1 = s1"
            "flow = Inr Continue \<longrightarrow>
               run_inv sel ?b (map (commit_slot t) m) None (r1\<lparr>run_pending := None\<rparr>)"
            by auto
          then have "flow = Inr Continue \<longrightarrow> run_slots r1 = reference_slots src sel stop"
            using Inr Some tk slots by (simp add: run_inv_def)
          with Inr v r1 Some tk cont f pending p show ?thesis
            by (auto simp: refr outcome_of_Cons) (auto simp: outcome_of_def)
        qed
      qed
    qed
    from cps saved failed completed show ?thesis by blast
  qed
  from stop_case go show ?thesis by blast
qed

end


lemma eligible_Some:
  "filter_option (eligible start stop) x = Some rp \<Longrightarrow>
    x = Some rp \<and> rp_end rp \<le> stop \<and> (\<exists>b. start = Some b \<and> rp_start rp \<le> b)"
  by (auto simp: filter_option_def eligible_def split: option.splits if_splits)

lemma caches_ok_update:
  "caches_ok src (sel\<lparr>sel_replay := a, sel_checkpoint := c\<rparr>) \<longleftrightarrow>
    (\<forall>rp. a = Some rp \<longrightarrow> replay_ok src sel rp) \<and> (\<forall>rp. c = Some rp \<longrightarrow> replay_ok src sel rp)"
  by (simp add: caches_ok_def)

lemma seed_checkpoint_none:
  "(\<And>bases t. src_prefix src bases t = None) \<Longrightarrow> seed_checkpoint src sel start = sel_checkpoint sel"
  by (simp add: seed_checkpoint_def split: option.split)

lemma feed_stopped: "feed src sel start visitor r ns = (r', Some flow) \<Longrightarrow> flow \<noteq> Inr Continue"
proof (induction ns arbitrary: r)
  case Nil
  then show ?case by simp
next
  case (Cons n ns)
  have "outcome \<noteq> Inr Continue"
    if "consume src sel start visitor r n = (r1, Some outcome)" for r1 outcome
    using that
    by (cases n) (auto simp: observe_value_def Let_def split: option.splits prod.splits sum.splits if_splits)
  with Cons show ?case by (auto split: prod.splits option.splits)
qed

lemma read_ticks_from_sound:
  fixes visitor :: "('s, 'b) tick_visitor"
  assumes reader: "tick_reader (src_read src)" and ok: "sel_ok sel (length (sel_retained sel))"
    and caches: "caches_ok src sel" and prefix: "\<And>bases t. src_prefix src bases t = None"
    and run: "read_ticks_from src sel start stop (default_slots sel) visitor s = (sel', slots', s', flow)"
  shows "(s', flow) = reference_traversal src sel start stop visitor s \<and> caches_ok src sel' \<and>
    sel' = sel\<lparr>sel_replay := sel_replay sel', sel_checkpoint := sel_checkpoint sel'\<rparr> \<and>
    (flow = Inr Continue \<longrightarrow> slots' = reference_slots src sel stop)"
proof -
  let ?b = "src_backend src"
  define checkpoint where "checkpoint = seed_checkpoint src sel start"
  define replay where "replay = (case filter_option (eligible start stop) (sel_replay sel) of
      Some rp \<Rightarrow> Some rp | None \<Rightarrow> filter_option (eligible start stop) checkpoint)"
  define considered where
    "considered = (case checkpoint of Some rp \<Rightarrow> Some (rp_start rp) = start | None \<Rightarrow> False)"
  define low where "low = (case replay of Some rp \<Rightarrow> rp_start rp | None \<Rightarrow> time_zero)"
  define slots where "slots = (case replay of Some rp \<Rightarrow> rp_slots rp | None \<Rightarrow> default_slots sel)"
  obtain ns out where heard: "src_read src (sel_bases sel) stop (map_option rp_position replay) = (ns, out)"
    by fastforce
  obtain r stopped where fed: "feed src sel start visitor
      \<lparr>run_slots = slots, run_active = initially_active slots, run_pending = Option.bind replay rp_time,
       run_checkpoint = checkpoint, run_considered = considered, run_visitor = s\<rparr> ns = (r, stopped)"
    by fastforce
  have cp: "checkpoint = sel_checkpoint sel" by (simp add: checkpoint_def seed_checkpoint_none prefix)
  have cp_ok: "replay_ok src sel c" if "checkpoint = Some c" for c
    using caches that by (simp add: cp caches_ok_def)
  have "\<exists>pre tks0 cur lim entering lower.
      resume_point src sel lower (map_option rp_position replay) pre tks0 cur lim entering \<and>
      stored_slots sel ?b cur entering = Inr slots \<and> lower \<le> stop \<and>
      (tks0 = [] \<or> (\<exists>b. start = Some b \<and> low \<le> b)) \<and> (\<forall>tk \<in> set tks0. fst tk < low) \<and>
      Option.bind replay rp_time = map_option fst cur"
  proof (cases replay)
    case None
    show ?thesis
      by (rule exI [of _ "[]"], rule exI [of _ "[]"], rule exI [of _ None], rule exI [of _ None],
          rule exI [of _ "default_slots sel"], rule exI [of _ stop])
        (simp add: None slots_def resume_point_cold stored_slots_def)
  next
    case (Some rp)
    have "replay_ok src sel rp \<and> rp_end rp \<le> stop \<and> (\<exists>b. start = Some b \<and> rp_start rp \<le> b)"
      using Some caches cp unfolding replay_def caches_ok_def
      by (auto split: option.splits dest!: eligible_Some)
    then show ?thesis
      using Some by (simp add: replay_ok_def slots_def low_def) blast
  qed
  then obtain pre tks0 cur lim entering lower where
    point: "resume_point src sel lower (map_option rp_position replay) pre tks0 cur lim entering"
    and stored: "stored_slots sel ?b cur entering = Inr slots" and le: "lower \<le> stop"
    and skip: "tks0 = [] \<or> (\<exists>b. start = Some b \<and> low \<le> b)"
    and low: "\<forall>tk \<in> set tks0. fst tk < low"
    and pend: "Option.bind replay rp_time = map_option fst cur"
    by blast
  note T = tick_reader.traverse_from_point [OF reader refl ok point stored le skip low heard
      fed [unfolded pend]]
  let ?taken = "sel\<lparr>sel_replay := None, sel_checkpoint := None\<rparr>"
  have unf: "read_ticks_from src sel start stop (default_slots sel) visitor s =
      (case stopped of
          Some flow \<Rightarrow> (?taken, run_slots r, run_visitor r, flow)
        | None \<Rightarrow>
            (case out of
               Inl e \<Rightarrow> (?taken, run_slots r, run_visitor r, Inl e)
             | Inr position \<Rightarrow>
                 let saved = map_option (\<lambda>p.
                       \<lparr>rp_position = p,
                        rp_start = (case run_pending r of Some t \<Rightarrow> t | None \<Rightarrow> low),
                        rp_end = stop, rp_time = run_pending r, rp_slots = run_slots r\<rparr>) position;
                     (r', flow) =
                       (case run_pending r of
                          Some t \<Rightarrow> finish_pending sel start visitor r t
                        | None \<Rightarrow> (r, Inr Continue))
                 in if continues flow
                    then (?taken\<lparr>sel_replay := saved, sel_checkpoint := run_checkpoint r\<rparr>,
                          run_slots r', run_visitor r', flow)
                    else (?taken, run_slots r', run_visitor r', flow)))"
    using heard fed
    unfolding read_ticks_from_def Let_def checkpoint_def [symmetric] replay_def [symmetric]
      considered_def [symmetric] low_def [symmetric] slots_def [symmetric]
    by simp
  show ?thesis
  proof (cases stopped)
    case (Some f)
    with T run unf feed_stopped [OF fed [unfolded Some]] show ?thesis
      by (auto simp: caches_ok_update)
  next
    case None
    show ?thesis
    proof (cases out)
      case (Inl e)
      with None T run unf show ?thesis by (auto simp: caches_ok_update)
    next
      case (Inr p)
      obtain r' f where fin: "(case run_pending r of
             Some t \<Rightarrow> finish_pending sel start visitor r t
           | None \<Rightarrow> (r, Inr Continue)) = (r', f)"
        by fastforce
      let ?saved = "map_option (\<lambda>p.
                       \<lparr>rp_position = p,
                        rp_start = (case run_pending r of Some t \<Rightarrow> t | None \<Rightarrow> low),
                        rp_end = stop, rp_time = run_pending r, rp_slots = run_slots r\<rparr>) p"
      have facts: "\<forall>c. run_checkpoint r = Some c \<longrightarrow> replay_ok src sel c"
        "\<forall>q. ?saved = Some q \<longrightarrow> replay_ok src sel q"
        "reference_traversal src sel start stop visitor s = (run_visitor r', f)"
        "f = Inr Continue \<longrightarrow> run_slots r' = reference_slots src sel stop"
        using T None Inr fin cp_ok by auto
      show ?thesis
      proof (cases "f = Inr Continue")
        case True
        with run unf None Inr fin
        have "sel' = sel\<lparr>sel_replay := ?saved, sel_checkpoint := run_checkpoint r\<rparr>"
          "slots' = run_slots r'" "s' = run_visitor r'" "flow = f"
          by (simp_all add: Let_def)
        with facts True show ?thesis by (auto simp: caches_ok_update)
      next
        case False
        with run unf None Inr fin have "sel' = ?taken" "s' = run_visitor r'" "flow = f"
          by (simp_all add: Let_def)
        with facts False show ?thesis by (auto simp: caches_ok_update)
      qed
    qed
  qed
qed

end
