(* ===== verification/Ondas_Selection.thy ===== *)
theory Ondas_Selection
  imports Ondas_ReadTicks
begin

text \<open>
  The operations of a selection, \<^verbatim>\<open>src/src/query.rs\<close> and the second half of
  \<^verbatim>\<open>src/src/query/engine.rs\<close>: scans (entering states, then the net changes of every
  tick), point samples, batches of point samples, traces, and queries whose callback reads
  samples of the current and the preceding tick through a context. Each operation is one
  traversal with a visitor of its own. A callback threads its own state; an operation
  returns the selection, whose retained snapshots it may have replaced, that state and
  the outcome.
\<close>

section \<open>Scan records\<close>

datatype scan_record =
  ScanInitial (rec_signal: signal) (rec_value: wave_value) (rec_changed_at: "time option")
| ScanChange (rec_signal: signal) (rec_time: time) (rec_value: wave_value)

type_synonym ('s, 'b) scan_visitor = "'s \<Rightarrow> nat \<Rightarrow> scan_record \<Rightarrow> 's \<times> 'b flow"

text \<open>The \<open>?\<close> operator on \<open>ControlFlow\<close>.\<close>

definition visit_then :: "'s \<times> 'b flow \<Rightarrow> ('s \<Rightarrow> 's \<times> 'b flow) \<Rightarrow> 's \<times> 'b flow" where
  "visit_then r f = (case r of (s, Continue) \<Rightarrow> f s | (s, Break b) \<Rightarrow> (s, Break b))"

lemma visit_then_simps [simp]:
  "visit_then (s, Continue) f = f s"
  "visit_then (s, Break b) f = (s, Break b)"
  by (simp_all add: visit_then_def)

fun initials ::
    "slot list \<Rightarrow> nat list \<Rightarrow> ('s, 'b) scan_visitor \<Rightarrow> nat \<Rightarrow> signal list \<Rightarrow> 's \<Rightarrow> 's \<times> 'b flow" where
  "initials slots slot_indices visitor index [] s = (s, Continue)"
| "initials slots slot_indices visitor index (sig # signals) s =
    visit_then
      (case slot_state (slots ! (slot_indices ! index)) of
         Some state \<Rightarrow> visitor s index (ScanInitial sig (st_value state) (st_changed_at state))
       | None \<Rightarrow> (s, Continue))
      (initials slots slot_indices visitor (index + 1) signals)"

fun tick_changes ::
    "slot list \<Rightarrow> nat list \<Rightarrow> time \<Rightarrow> time_range \<Rightarrow> ('s, 'b) scan_visitor \<Rightarrow> nat \<Rightarrow> signal list \<Rightarrow> 's \<Rightarrow>
     's \<times> 'b flow" where
  "tick_changes slots slot_indices time rng visitor index [] s = (s, Continue)"
| "tick_changes slots slot_indices time rng visitor index (sig # signals) s =
    (let slot = slots ! (slot_indices ! index);
         inside = range_start rng \<le> time
     in visit_then
       (visit_then
         (case slot_pending slot of
            Some v \<Rightarrow>
              if slot_changed slot \<and> inside then visitor s index (ScanChange sig time v)
              else (s, Continue)
          | None \<Rightarrow> (s, Continue))
         (\<lambda>s. if inside \<and> 0 < slot_events slot
              then visitor s index (ScanChange sig time (VEvent (slot_events slot)))
              else (s, Continue)))
       (tick_changes slots slot_indices time rng visitor (index + 1) signals))"

text \<open>\<open>scan_tick\<close>: the flag says whether the entering states have been emitted.\<close>

definition scan_tick ::
    "signal list \<Rightarrow> slot list \<Rightarrow> nat list \<Rightarrow> time \<Rightarrow> time_range \<Rightarrow> ('s, 'b) scan_visitor \<Rightarrow>
     bool \<times> 's \<Rightarrow> (bool \<times> 's) \<times> 'b flow" where
  "scan_tick signals slots slot_indices time rng visitor es =
    (let (emitted, s) = es;
         first = \<not> emitted \<and> range_start rng \<le> time;
         (s', flow) =
           visit_then
             (if first then initials slots slot_indices visitor 0 signals s else (s, Continue))
             (tick_changes slots slot_indices time rng visitor 0 signals)
     in ((emitted \<or> first, s'), flow))"

section \<open>Scans\<close>

definition scan_end :: "source \<Rightarrow> time_range \<Rightarrow> time" where
  "scan_end src rng =
    (case range_end rng of
       Some stop \<Rightarrow> stop
     | None \<Rightarrow>
         (case src_span src of
            Some span \<Rightarrow> max (span_last span) (range_start rng)
          | None \<Rightarrow> time_max))"

definition drop_caches :: "selection \<Rightarrow> selection" where
  "drop_caches sel = sel\<lparr>sel_replay := None, sel_checkpoint := None\<rparr>"

definition scan_each ::
    "source \<Rightarrow> selection \<Rightarrow> time_range \<Rightarrow> ('s, 'b) scan_visitor \<Rightarrow> 's \<Rightarrow>
     selection \<times> 's \<times> (error + 'b flow)" where
  "scan_each src sel rng visitor s =
    (let stop = scan_end src rng
     in if range_is_empty rng \<or> stop < range_start rng \<or> sel_signals sel = []
        then (sel, s, Inr Continue)
        else
          (let (sel1, slots, (emitted, s1), flow) =
             read_ticks_from src sel (Some (range_start rng)) stop (default_slots sel)
               (\<lambda>es time slots.
                  let (es', flow) =
                    scan_tick (sel_signals sel) slots (sel_slot_indices sel) time rng visitor es
                  in (es', Inr flow))
               (False, s)
           in case flow of
                Inr Continue \<Rightarrow>
                  if \<not> emitted then
                    (let (s2, flow2) =
                       initials slots (sel_slot_indices sel) visitor 0 (sel_signals sel) s1
                     in (if flow2 = Continue then sel1 else drop_caches sel1, s2, Inr flow2))
                  else (sel1, s1, Inr Continue)
              | _ \<Rightarrow> (sel1, s1, flow)))"

definition scan ::
    "source \<Rightarrow> selection \<Rightarrow> time_range \<Rightarrow> ('s \<Rightarrow> scan_record \<Rightarrow> 's \<times> 'b flow) \<Rightarrow> 's \<Rightarrow>
     selection \<times> 's \<times> (error + 'b flow)" where
  "scan src sel rng visitor = scan_each src sel rng (\<lambda>s _. visitor s)"

text \<open>
  \<open>scan_candidate_times\<close> where the reader has no activity index; the state holds the last
  time delivered. (\<open>FST\<close> readers answer from their own index instead.)
\<close>

definition scan_candidate_times ::
    "source \<Rightarrow> selection \<Rightarrow> time_range \<Rightarrow> ('s \<Rightarrow> time \<Rightarrow> 's \<times> 'b flow) \<Rightarrow> 's \<Rightarrow>
     selection \<times> 's \<times> (error + 'b flow)" where
  "scan_candidate_times src sel rng visitor s =
    (let (sel', (latest, s'), flow) =
       scan src sel rng
         (\<lambda>(latest, s) record.
            case record of
              ScanChange _ time _ \<Rightarrow>
                if latest \<noteq> Some time then
                  (let (s', flow) = visitor s time in ((Some time, s'), flow))
                else ((latest, s), Continue)
            | ScanInitial _ _ _ \<Rightarrow> ((latest, s), Continue))
         (None, s)
     in (sel', s', flow))"

section \<open>Samples\<close>

text \<open>The visitor of \<open>sample_visit\<close>: states and event counts per entry.\<close>

fun sample_record ::
    "state option list \<times> u64 list \<Rightarrow> nat \<Rightarrow> scan_record \<Rightarrow>
     (state option list \<times> u64 list) \<times> unit flow" where
  "sample_record (states, events) index (ScanInitial _ v changed_at) =
    ((states[index := Some \<lparr>st_value = value_to_owned v, st_changed_at = changed_at\<rparr>], events), Continue)"
| "sample_record (states, events) index (ScanChange _ time (VEvent n)) =
    ((states, events[index := n]), Continue)"
| "sample_record (states, events) index (ScanChange _ time v) =
    ((states[index := fst (update_state (states ! index) (value_to_owned v) time)], events), Continue)"

definition entry_sample :: "signal \<Rightarrow> state option \<Rightarrow> u64 \<Rightarrow> sample" where
  "entry_sample s state events =
    (if sig_encoding s = Event then SampleEvent s events
     else case state of
       Some st \<Rightarrow> SampleValue s (st_value st) (st_changed_at st)
     | None \<Rightarrow> Missing s)"

fun visit_entries ::
    "state option list \<Rightarrow> u64 list \<Rightarrow> ('s \<Rightarrow> sample \<Rightarrow> 's \<times> 'b flow) \<Rightarrow> nat \<Rightarrow> signal list \<Rightarrow> 's \<Rightarrow>
     's \<times> 'b flow" where
  "visit_entries states events visitor index [] s = (s, Continue)"
| "visit_entries states events visitor index (sig # signals) s =
    visit_then (visitor s (entry_sample sig (states ! index) (events ! index)))
      (visit_entries states events visitor (index + 1) signals)"

definition sample_visit ::
    "source \<Rightarrow> selection \<Rightarrow> time \<Rightarrow> ('s \<Rightarrow> sample \<Rightarrow> 's \<times> 'b flow) \<Rightarrow> 's \<Rightarrow>
     selection \<times> 's \<times> (error + 'b flow)" where
  "sample_visit src sel time visitor s =
    (let n = length (sel_signals sel);
         (sel1, (states, events), flow) =
           scan_each src sel (time_range_point time) sample_record (replicate n None, replicate n 0)
     in case flow of
          Inl e \<Rightarrow> (sel1, s, Inl e)
        | Inr _ \<Rightarrow>
            (let (s', flow') = visit_entries states events visitor 0 (sel_signals sel) s
             in (if flow' = Continue then sel1 else drop_caches sel1, s', Inr flow')))"

definition samples ::
    "source \<Rightarrow> selection \<Rightarrow> time \<Rightarrow> selection \<times> (error + sample list)" where
  "samples src sel time =
    (let (sel', out, flow) =
       sample_visit src sel time (\<lambda>out sample. (out @ [sample], Continue :: unit flow)) []
     in (sel', and_then flow (\<lambda>_. Inr out)))"

section \<open>Traces\<close>

record change =
  ch_time :: time
  ch_value :: wave_value

record trace =
  tr_signal :: signal
  tr_range :: time_range
  tr_initial :: "state option"
  tr_changes :: "change list"

definition trace_new :: "time_range \<Rightarrow> signal \<Rightarrow> trace" where
  "trace_new rng s = \<lparr>tr_signal = s, tr_range = rng, tr_initial = None, tr_changes = []\<rparr>"

fun trace_record :: "trace list \<Rightarrow> nat \<Rightarrow> scan_record \<Rightarrow> trace list \<times> unit flow" where
  "trace_record traces index (ScanInitial _ v changed_at) =
    (traces[index := (traces ! index)\<lparr>tr_initial :=
       Some \<lparr>st_value = value_to_owned v, st_changed_at = changed_at\<rparr>\<rparr>], Continue)"
| "trace_record traces index (ScanChange _ time v) =
    (traces[index := (traces ! index)\<lparr>tr_changes := tr_changes (traces ! index) @
       [\<lparr>ch_time = time, ch_value = value_to_owned v\<rparr>]\<rparr>], Continue)"

definition traces ::
    "source \<Rightarrow> selection \<Rightarrow> time_range \<Rightarrow> selection \<times> (error + trace list)" where
  "traces src sel rng =
    (let (sel', out, flow) =
       scan_each src sel rng trace_record (map (trace_new rng) (sel_signals sel))
     in (sel', and_then flow (\<lambda>_. Inr out)))"

section \<open>Batches of points\<close>

text \<open>
  \<open>samples_at\<close>: \<open>sort_by\<close> is \<open>sort_unstable_by_key\<close>, of which only the order of the keys
  is documented. A row is the owned samples at a completed tick, or of the state held at
  a quiet one.
\<close>

definition observe_row :: "selection \<Rightarrow> slot list \<Rightarrow> time option \<Rightarrow> sample list" where
  "observe_row sel slots tick =
    map (\<lambda>(s, index). slot_sample (slots ! index) s tick) (zip (sel_signals sel) (sel_slot_indices sel))"

fun fill_rows ::
    "selection \<Rightarrow> time list \<Rightarrow> time \<Rightarrow> slot list \<Rightarrow> nat list \<Rightarrow> (time \<times> sample list) list \<Rightarrow>
     nat list \<times> (time \<times> sample list) list" where
  "fill_rows sel asked time slots [] rows = ([], rows)"
| "fill_rows sel asked time slots (index # order) rows =
    (if asked ! index \<le> time then
       fill_rows sel asked time slots order
         (rows[index := (fst (rows ! index),
           observe_row sel slots (if asked ! index = time then Some time else None))])
     else (index # order, rows))"

definition samples_at ::
    "((nat \<Rightarrow> time) \<Rightarrow> nat list \<Rightarrow> nat list) \<Rightarrow> source \<Rightarrow> selection \<Rightarrow> time list \<Rightarrow>
     selection \<times> (error + (time \<times> sample list) list)" where
  "samples_at sort_by src sel asked =
    (let rows = map (\<lambda>time. (time, [])) asked
     in if asked = [] \<or> sel_signals sel = [] then (sel, Inr rows)
        else
          (let order = sort_by (\<lambda>index. asked ! index) [0..<length asked];
               stop = asked ! (last order);
               (sel', slots, (rest, rows'), flow) =
                 read_ticks_from src sel None stop (default_slots sel)
                   (\<lambda>(order, rows) time slots.
                      (fill_rows sel asked time slots order rows, Inr (Continue :: unit flow)))
                   (order, rows)
           in (sel', and_then flow (\<lambda>_. Inr
                (fold (\<lambda>index rows. rows[index := (fst (rows ! index), observe_row sel slots None)])
                  rest rows')))))"

section \<open>Queries\<close>

record query_context =
  ctx_time :: time
  ctx_signals :: "signal list"
  ctx_slots :: "slot list"
  ctx_slot_indices :: "nat list"
  ctx_previous_tick :: "time option"
  ctx_previous_events :: "u64 list"

definition context_sample :: "query_context \<Rightarrow> time \<Rightarrow> nat \<Rightarrow> sample" where
  "context_sample ctx time index =
    (let s = ctx_signals ctx ! index;
         slot_index = ctx_slot_indices ctx ! index;
         slot = ctx_slots ctx ! slot_index;
         current = (time = ctx_time ctx)
     in case slot_sample slot s (if current then Some (ctx_time ctx) else None) of
          SampleEvent s' n \<Rightarrow>
            SampleEvent s'
              (if current then n
               else if ctx_previous_tick ctx = Some time then ctx_previous_events ctx ! slot_index
               else 0)
        | sample \<Rightarrow> sample)"

fun visit_context ::
    "query_context \<Rightarrow> time \<Rightarrow> ('s \<Rightarrow> nat \<Rightarrow> sample \<Rightarrow> 's \<times> (error + 'b flow)) \<Rightarrow> nat list \<Rightarrow> 's \<Rightarrow>
     's \<times> (error + 'b flow)" where
  "visit_context ctx time visitor [] s = (s, Inr Continue)"
| "visit_context ctx time visitor (index # indices) s =
    (let (s', flow) = visitor s index (context_sample ctx time index)
     in if continues flow then visit_context ctx time visitor indices s' else (s', flow))"

definition visit_samples ::
    "query_context \<Rightarrow> time \<Rightarrow> nat list \<Rightarrow> ('s \<Rightarrow> nat \<Rightarrow> sample \<Rightarrow> 's \<times> (error + 'b flow)) \<Rightarrow> 's \<Rightarrow>
     's \<times> (error + 'b flow)" where
  "visit_samples ctx time indices visitor s =
    (if time \<noteq> ctx_time ctx \<and> time_pred (ctx_time ctx) \<noteq> Some time then
       (s, Inl (InvalidQueryTime time (ctx_time ctx)))
     else case validate_indices (length (ctx_signals ctx)) indices of
       Inl e \<Rightarrow> (s, Inl e)
     | Inr _ \<Rightarrow> visit_context ctx time visitor indices s)"

definition query_end :: "source \<Rightarrow> time_range \<Rightarrow> time" where
  "query_end src rng =
    (case range_end rng of
       Some stop \<Rightarrow> stop
     | None \<Rightarrow> (case src_span src of Some span \<Rightarrow> span_last span | None \<Rightarrow> time_max))"

definition driven :: "selection \<Rightarrow> nat list \<Rightarrow> slot list \<Rightarrow> bool" where
  "driven sel drivers slots =
    list_ex (\<lambda>index. let slot = slots ! (sel_slot_indices sel ! index)
                     in slot_pending slot \<noteq> None \<or> 0 < slot_events slot) drivers"

text \<open>The tick visitor of \<open>query\<close>: it carries the preceding tick and its event counts.\<close>

definition query_tick ::
    "selection \<Rightarrow> time_range \<Rightarrow> nat list \<Rightarrow> ('s \<Rightarrow> query_context \<Rightarrow> 's \<times> (error + 'b flow)) \<Rightarrow>
     (time option \<times> u64 list) \<times> 's \<Rightarrow> time \<Rightarrow> slot list \<Rightarrow>
     ((time option \<times> u64 list) \<times> 's) \<times> (error + 'b flow)" where
  "query_tick sel rng drivers visitor pes time slots =
    (let ((previous_tick, previous_events), s) = pes;
         (s', flow) =
           (if range_start rng \<le> time \<and> driven sel drivers slots then
              visitor s \<lparr>ctx_time = time, ctx_signals = sel_signals sel, ctx_slots = slots,
                ctx_slot_indices = sel_slot_indices sel, ctx_previous_tick = previous_tick,
                ctx_previous_events = previous_events\<rparr>
            else (s, Inr Continue))
     in if continues flow
        then (((Some time, map slot_events slots), s'), Inr Continue)
        else (((previous_tick, previous_events), s'), flow))"

definition query ::
    "source \<Rightarrow> selection \<Rightarrow> time_range \<Rightarrow> nat list \<Rightarrow>
     ('s \<Rightarrow> query_context \<Rightarrow> 's \<times> (error + 'b flow)) \<Rightarrow> 's \<Rightarrow>
     selection \<times> 's \<times> (error + 'b flow)" where
  "query src sel rng drivers visitor s =
    (case validate_indices (length (sel_signals sel)) drivers of
       Inl e \<Rightarrow> (sel, s, Inl e)
     | Inr _ \<Rightarrow>
         let stop = query_end src rng
         in if drivers = [] \<or> range_is_empty rng \<or> stop < range_start rng
            then (sel, s, Inr Continue)
            else
              (let (sel', slots, (previous, s'), flow) =
                 read_ticks_from src sel (time_pred (range_start rng)) stop (default_slots sel)
                   (query_tick sel rng drivers visitor)
                   ((None, replicate (length (sel_retained sel)) 0), s)
               in (sel', s', flow)))"

end
