(* ===== verification/Ondas_History.thy ===== *)
theory Ondas_History
  imports Ondas_ReadTicks
begin

text \<open>
  The recorded history of one slot and what every query is meant to observe of it. A
  history lists the final value written and the event count of each completed tick.
  \<open>held\<close> is the persistent state after a tick: the final values applied in order, a value
  equal to the held one changing nothing, the change time unknown for the first.
  \<open>chain\<close> relates the slot vectors of a traversal to the histories of its slots.
\<close>

section \<open>Histories\<close>

record tick_write =
  tw_time :: time
  tw_value :: "wave_value option"
  tw_events :: u64

type_synonym history = "tick_write list"

definition apply_write :: "tick_write \<Rightarrow> state option \<Rightarrow> state option" where
  "apply_write w state =
    (case tw_value w of Some v \<Rightarrow> fst (update_state state v (tw_time w)) | None \<Rightarrow> state)"

definition held_over :: "state option \<Rightarrow> history \<Rightarrow> state option" where
  "held_over state h = fold apply_write h state"

definition held :: "history \<Rightarrow> time \<Rightarrow> state option" where
  "held h t = held_over None (filter (\<lambda>w. tw_time w \<le> t) h)"

definition held_before :: "history \<Rightarrow> time \<Rightarrow> state option" where
  "held_before h t = held_over None (filter (\<lambda>w. tw_time w < t) h)"

definition events_at :: "history \<Rightarrow> time \<Rightarrow> u64" where
  "events_at h t = (case find (\<lambda>w. tw_time w = t) h of Some w \<Rightarrow> tw_events w | None \<Rightarrow> 0)"

text \<open>What a query of the entry \<open>s\<close> at \<open>t\<close> means.\<close>

definition point_sample :: "signal \<Rightarrow> history \<Rightarrow> time \<Rightarrow> sample" where
  "point_sample s h t =
    (if sig_encoding s = Event then SampleEvent s (events_at h t)
     else case held h t of
       Some st \<Rightarrow> SampleValue s (st_value st) (st_changed_at st)
     | None \<Rightarrow> Missing s)"

definition increasing :: "history \<Rightarrow> bool" where
  "increasing h \<longleftrightarrow> sorted_wrt (<) (map tw_time h)"

definition slot_history :: "nat \<Rightarrow> (time \<times> slot list) list \<Rightarrow> history" where
  "slot_history i ss =
    map (\<lambda>(t, m). \<lparr>tw_time = t, tw_value = slot_pending (m ! i), tw_events = slot_events (m ! i)\<rparr>) ss"

lemma slot_history_simps [simp]:
  "slot_history i [] = []"
  "slot_history i ((t, m) # ss) =
    \<lparr>tw_time = t, tw_value = slot_pending (m ! i), tw_events = slot_events (m ! i)\<rparr> # slot_history i ss"
  "slot_history i (ss @ ss') = slot_history i ss @ slot_history i ss'"
  by (simp_all add: slot_history_def)

lemma map_time_slot_history [simp]: "map tw_time (slot_history i ss) = map fst ss"
  by (auto simp: slot_history_def)

lemma held_over_simps [simp]:
  "held_over st [] = st"
  "held_over st (w # h) = held_over (apply_write w st) h"
  "held_over st (h @ h') = held_over (held_over st h) h'"
  by (simp_all add: held_over_def)

lemma filter_slot_history:
  "filter (\<lambda>w. P (tw_time w)) (slot_history i ss) = slot_history i (filter (\<lambda>x. P (fst x)) ss)"
  by (induction ss) auto

lemma held_all: "(\<And>w. w \<in> set h \<Longrightarrow> tw_time w \<le> t) \<Longrightarrow> held h t = held_over None h"
  by (simp add: held_def filter_id_conv)

lemma held_pred: "time_pred t = Some p \<Longrightarrow> held h p = held_before h t"
  by (simp add: held_def held_before_def time_pred_greatest)

lemma held_before_zero [simp]: "held_before h time_zero = None"
  by (simp add: held_before_def)

lemma events_at_notin: "t \<notin> tw_time ` set h \<Longrightarrow> events_at h t = 0"
  by (induction h) (auto simp: events_at_def)

section \<open>Slot vectors and histories\<close>

text \<open>
  Values stored in slots are owned copies, whose digits are lower case: on them the
  representation identity of the sources is equality.
\<close>

definition canonical :: "wave_value \<Rightarrow> bool" where
  "canonical v \<longleftrightarrow> value_to_owned v = v \<and> \<not> is_event_value v"

definition canonical_slot :: "slot \<Rightarrow> bool" where
  "canonical_slot c \<longleftrightarrow>
    (\<forall>v. slot_pending c = Some v \<longrightarrow> canonical v) \<and>
    (\<forall>st. slot_state c = Some st \<longrightarrow> canonical (st_value st))"

lemma canonical_same: "canonical v \<Longrightarrow> canonical w \<Longrightarrow> same_value v w \<longleftrightarrow> v = w"
  unfolding canonical_def by (metis value_to_owned_eq_iff)

lemma canonical_owned [simp]: "canonical (value_to_owned v) \<longleftrightarrow> \<not> is_event_value v"
  by (simp add: canonical_def)

lemma canonical_ascii [simp]: "canonical (VBits (bits_from_validated_ascii b))"
  by (simp add: canonical_def bits_from_validated_ascii_def bits_to_owned_def o_def)

lemma project_not_event: "project v s = Some w \<Longrightarrow> is_event_value w = is_event_value v"
  by (auto simp: project_def Let_def split: wave_value.splits if_splits option.splits)

fun chain :: "slot list \<Rightarrow> (time \<times> slot list) list \<Rightarrow> bool" where
  "chain slots [] \<longleftrightarrow> True"
| "chain slots ((t, m) # ss) \<longleftrightarrow>
    length m = length slots \<and>
    (\<forall>i < length slots.
       slot_state (m ! i) = slot_state (slots ! i) \<and> mark_changed (m ! i) = m ! i \<and>
       canonical_slot (m ! i)) \<and>
    chain (map (commit_slot t) m) ss"

lemma computation_complete_state:
  assumes "computation_complete c slots active = Some (slots', active')" and "i < length slots"
  shows "slot_state (slots' ! i) = slot_state (slots ! i)"
  using assms
  by (cases c)
    (auto simp: Let_def set_computed_def nth_update_any split: if_splits option.splits prod.splits)

lemma complete_all_state:
  assumes "complete_all cs slots active = Some (slots', active')" and "i < length slots"
  shows "slot_state (slots' ! i) = slot_state (slots ! i)"
  using assms
proof (induction cs arbitrary: slots active)
  case Nil
  then show ?case by simp
next
  case (Cons c cs)
  then obtain s1 a1 where c: "computation_complete c slots active = Some (s1, a1)"
    and rest: "complete_all cs s1 a1 = Some (slots', active')"
    by (auto split: option.splits)
  from Cons.IH [OF rest] length_computation_complete [OF c] computation_complete_state [OF c] Cons.prems(2)
  show ?case by simp
qed

lemma record_slot_state:
  "record_slot backend v s c = Inr c' \<Longrightarrow> slot_state c' = slot_state c \<and>
    (canonical_slot c \<longrightarrow> canonical_slot c')"
  by (auto simp: record_slot_def canonical_slot_def split: wave_value.splits option.splits
      dest!: project_not_event)

lemma store_state:
  assumes "store retained backend v is slots = Inr slots'" and "i < length slots"
  shows "slot_state (slots' ! i) = slot_state (slots ! i) \<and>
    (canonical_slot (slots ! i) \<longrightarrow> canonical_slot (slots' ! i))"
  using assms
proof (induction "is" arbitrary: slots)
  case Nil
  then show ?case by simp
next
  case (Cons j js)
  then obtain c where c: "record_slot backend v (retained ! j) (slots ! j) = Inr c"
    and rest: "store retained backend v js (slots[j := c]) = Inr slots'" by auto
  from Cons.IH [OF rest] record_slot_state [OF c] Cons.prems(2)
  show ?case by (auto simp: nth_update_any split: if_splits)
qed

lemma store_all_state:
  assumes "store_all sel backend rs slots = Inr slots'" and "i < length slots"
  shows "slot_state (slots' ! i) = slot_state (slots ! i) \<and>
    (canonical_slot (slots ! i) \<longrightarrow> canonical_slot (slots' ! i))"
  using assms
proof (induction rs arbitrary: slots)
  case Nil
  then show ?case by simp
next
  case (Cons r rs)
  then obtain js slots1 where "sel_groups sel (fst r) = Some js"
    and s: "store (sel_retained sel) backend (snd r) js slots = Inr slots1"
    and rest: "store_all sel backend rs slots1 = Inr slots'"
    by (cases r) (auto split: option.splits)
  from Cons.IH [OF rest] store_state [OF s] length_store [OF s] Cons.prems(2) show ?case by simp
qed

abbreviation all_canonical :: "slot list \<Rightarrow> bool" where
  "all_canonical slots \<equiv> \<forall>c \<in> set slots. canonical_slot c"

lemma all_canonical_update:
  "all_canonical slots \<Longrightarrow> canonical_slot c \<Longrightarrow> all_canonical (slots[k := c])"
  using set_update_subset_insert [of slots k c] by auto

lemma set_computed_canonical:
  assumes "set_computed k v slots active = (slots', active')" and "all_canonical slots"
    and "k < length slots" and "canonical v"
  shows "all_canonical slots'"
proof -
  have "canonical_slot (slots ! k)" using assms by simp
  then have "canonical_slot ((slots ! k)\<lparr>slot_pending := Some v\<rparr>)"
    using assms(4) by (simp add: canonical_slot_def)
  with all_canonical_update [OF assms(2) this, of k] assms(1) show ?thesis
    by (auto simp: set_computed_def)
qed

lemma computation_complete_canonical:
  assumes step: "computation_complete c slots active = Some (slots', active')"
    and ok: "all_canonical slots" and "computation_slot c < length slots"
    and "\<forall>i \<in> set (computation_inputs c). i < length slots"
  shows "all_canonical slots'"
proof (cases c)
  case (Concat k inputs width)
  with step ok assms(3) show ?thesis
    by (auto simp: Let_def split: if_splits prod.splits dest!: set_computed_canonical)
next
  case (Slice k input s)
  have "canonical_slot (slots ! input)" using ok assms(4) Slice by simp
  with step ok assms(3) Slice show ?thesis
    by (auto simp: canonical_slot_def canonical_def split: option.splits
        dest!: set_computed_canonical project_not_event)
qed

lemma complete_all_canonical:
  assumes "complete_all cs slots active = Some (slots', active')" and "all_canonical slots"
    and "\<forall>c \<in> set cs. computation_slot c < length slots \<and>
      (\<forall>i \<in> set (computation_inputs c). i < length slots)"
  shows "all_canonical slots'"
  using assms
proof (induction cs arbitrary: slots active)
  case Nil
  then show ?case by simp
next
  case (Cons c cs)
  then obtain s1 a1 where c: "computation_complete c slots active = Some (s1, a1)"
    and rest: "complete_all cs s1 a1 = Some (slots', active')"
    by (auto split: option.splits)
  have "all_canonical s1" using computation_complete_canonical [OF c] Cons.prems by simp
  with Cons.IH [OF rest] length_computation_complete [OF c] Cons.prems(3) show ?case by simp
qed

lemma canonical_mark [simp]: "canonical_slot (mark_changed c) = canonical_slot c"
  by (simp add: canonical_slot_def)

lemma canonical_commit [simp]: "canonical_slot c \<Longrightarrow> canonical_slot (commit_slot t c)"
  by (auto simp: canonical_slot_def commit_slot_def split: option.splits)

lemma tick_slots_state:
  assumes "tick_slots sel backend rs slots = Inr m" and "sel_ok sel (length slots)"
    and "all_canonical slots"
  shows "(\<forall>i < length slots. slot_state (m ! i) = slot_state (slots ! i) \<and> mark_changed (m ! i) = m ! i) \<and>
    all_canonical m"
proof -
  from assms(1) obtain s1 s2 where s1: "store_all sel backend rs slots = Inr s1"
    and s2: "computed (sel_computations sel) s1 = Some s2" and m: "m = map mark_changed s2"
    by (auto simp: tick_slots_def complete_slots_def)
  from s2 obtain a where all: "complete_all (sel_computations sel) s1 [] = Some (s2, a)"
    by (auto simp: computed_def)
  have len: "length s1 = length slots" by (rule length_store_all [OF s1])
  have "all_canonical s1"
    using store_all_state [OF s1] assms(3) len by (metis in_set_conv_nth)
  then have "all_canonical s2"
    using complete_all_canonical [OF all] assms(2) len by (simp add: sel_ok_def)
  moreover have "slot_state (s2 ! i) = slot_state (slots ! i)" if "i < length slots" for i
    using complete_all_state [OF all, of i] store_all_state [OF s1, of i] len that by simp
  ultimately show ?thesis using m len length_computed [OF s2] by auto
qed

lemma snapshots_chain:
  assumes "snapshots sel backend slots tks = (ss, out)" and "sel_ok sel (length slots)"
    and "all_canonical slots"
  shows "chain slots ss"
  using assms
proof (induction tks arbitrary: slots ss)
  case Nil
  then show ?case by simp
next
  case (Cons tk tks)
  obtain t rs where tk: "tk = (t, rs)" by fastforce
  show ?case
  proof (cases "tick_slots sel backend rs slots")
    case (Inl e)
    with Cons.prems tk show ?thesis by simp
  next
    case (Inr m)
    with Cons.prems(1) tk obtain ss' where rest: "snapshots sel backend (map (commit_slot t) m) tks = (ss', out)"
      and ss: "ss = (t, m) # ss'"
      by (auto split: prod.splits)
    have len: "length m = length slots" by (rule length_tick_slots [OF Inr])
    note st = tick_slots_state [OF Inr Cons.prems(2,3)]
    then have "all_canonical (map (commit_slot t) m)" by simp
    with Cons.IH [OF rest] Cons.prems(2) len st ss show ?thesis by simp
  qed
qed

text \<open>The slots after the last tick of a chain.\<close>

fun chain_end :: "slot list \<Rightarrow> (time \<times> slot list) list \<Rightarrow> slot list" where
  "chain_end slots [] = slots"
| "chain_end slots ((t, m) # ss) = chain_end (map (commit_slot t) m) ss"

lemma snapshots_chain_end:
  "snapshots sel backend slots tks = (ss, Inr final) \<Longrightarrow> final = chain_end slots ss"
  by (induction sel backend slots tks arbitrary: ss rule: snapshots.induct)
    (auto split: sum.splits prod.splits)

lemma commit_apply_write:
  assumes "mark_changed c = c"
  shows "slot_state (commit_slot t c) =
    apply_write \<lparr>tw_time = t, tw_value = slot_pending c, tw_events = slot_events c\<rparr> (slot_state c)"
proof -
  have "slot_changed c = (case slot_pending c of Some v \<Rightarrow> differs (slot_state c) v | None \<Rightarrow> False)"
    using assms by (metis mark_changed_def slot.select_convs(3) slot.surjective slot.update_convs(3))
  then show ?thesis
    by (auto simp: commit_slot_def apply_write_def update_state_def differs_def split: option.splits)
qed

lemma chain_end_state:
  assumes "chain slots ss" and "i < length slots"
  shows "slot_state (chain_end slots ss ! i) = held_over (slot_state (slots ! i)) (slot_history i ss)"
  using assms
proof (induction slots ss rule: chain.induct)
  case (1 slots)
  then show ?case by simp
next
  case (2 slots t m ss)
  then show ?case by (simp add: commit_apply_write)
qed

lemma length_chain_end: "chain slots ss \<Longrightarrow> length (chain_end slots ss) = length slots"
  by (induction slots ss rule: chain.induct) auto

lemma chain_append:
  "chain slots (ss @ ss') \<longleftrightarrow> chain slots ss \<and> chain (chain_end slots ss) ss'"
  by (induction slots ss rule: chain.induct) auto

lemma chain_end_append: "chain_end slots (ss @ ss') = chain_end (chain_end slots ss) ss'"
  by (induction slots ss rule: chain_end.induct) auto


section \<open>The recording a traversal shows\<close>

text \<open>
  The completed ticks with their slot vectors of a successful read up to \<open>stop\<close>; \<open>None\<close>
  when the read or the storing of its records fails.
\<close>

definition recording :: "source \<Rightarrow> selection \<Rightarrow> time \<Rightarrow> (time \<times> slot list) list option" where
  "recording src sel stop =
    (case src_read src (sel_bases sel) stop None of
       (ns, Inr p) \<Rightarrow>
         (case group_notes None ns of
            (tks, unfinished, None) \<Rightarrow>
              (case snapshots sel (src_backend src) (default_slots sel)
                      (tks @ unfinished_ticks unfinished) of
                 (ss, Inr _) \<Rightarrow> Some ss
               | (_, Inl _) \<Rightarrow> None)
          | (_, _, Some _) \<Rightarrow> None)
     | (_, Inl _) \<Rightarrow> None)"

text \<open>What the operations assume of a selection and its source.\<close>

definition session_ok :: "source \<Rightarrow> selection \<Rightarrow> bool" where
  "session_ok src sel \<longleftrightarrow>
    tick_reader (src_read src) \<and> sel_ok sel (length (sel_retained sel)) \<and> caches_ok src sel \<and>
    (\<forall>bases t. src_prefix src bases t = None)"

lemma recording_Some_iff:
  "recording src sel stop = Some ss \<longleftrightarrow>
    (\<exists>ns p tks unfinished final.
       src_read src (sel_bases sel) stop None = (ns, Inr p) \<and>
       group_notes None ns = (tks, unfinished, None) \<and>
       snapshots sel (src_backend src) (default_slots sel) (tks @ unfinished_ticks unfinished) =
         (ss, Inr final))"
  by (auto simp: recording_def split: prod.splits sum.splits option.splits)

lemma canonical_default: "\<forall>c \<in> set (default_slots sel). canonical_slot c"
  by (simp add: default_slots_def canonical_slot_def slot_default_def)

lemma recording_chain:
  assumes "session_ok src sel" and "recording src sel stop = Some ss"
  shows "chain (default_slots sel) ss"
proof -
  from assms(2) obtain tks final where "snapshots sel (src_backend src) (default_slots sel) tks = (ss, Inr final)"
    by (auto simp: recording_Some_iff)
  moreover have "sel_ok sel (length (default_slots sel))"
    using assms(1) by (simp add: session_ok_def default_slots_def)
  ultimately show ?thesis using canonical_default by (rule snapshots_chain)
qed

lemma snapshots_map_fst:
  "snapshots sel backend slots tks = (ss, Inr final) \<Longrightarrow> map fst ss = map fst tks"
  by (induction sel backend slots tks arbitrary: ss rule: snapshots.induct)
    (auto split: sum.splits prod.splits)

lemma recording_increasing:
  assumes "session_ok src sel" and "recording src sel stop = Some ss"
  shows "sorted_wrt (<) (map fst ss) \<and> (\<forall>x \<in> set ss. fst x \<le> stop)"
proof -
  from assms(2) obtain ns p tks unfinished final where
    r: "src_read src (sel_bases sel) stop None = (ns, Inr p)"
    and g: "group_notes None ns = (tks, unfinished, None)"
    and s: "snapshots sel (src_backend src) (default_slots sel) (tks @ unfinished_ticks unfinished)
      = (ss, Inr final)"
    by (auto simp: recording_Some_iff)
  have reader: "tick_reader (src_read src)" using assms(1) by (simp add: session_ok_def)
  have "ordered_notes ns" using tick_reader.read_ordered [OF reader, of "sel_bases sel" stop] r by simp
  then have "sorted_wrt (<) (map fst (tks @ unfinished_ticks unfinished))"
    using group_notes_increasing [OF g] by simp
  moreover have "\<forall>tk \<in> set (tks @ unfinished_ticks unfinished). fst tk \<le> stop"
    using group_notes_lower [OF g, of "\<lambda>t. t \<le> stop"]
      tick_reader.read_bounded [OF reader, of _ "sel_bases sel" stop] r by auto
  moreover have m: "map fst ss = map fst (tks @ unfinished_ticks unfinished)"
    by (rule snapshots_map_fst [OF s])
  moreover have "fst ` set ss = fst ` set (tks @ unfinished_ticks unfinished)"
    using arg_cong [OF m, of set] by (simp add: image_Un)
  ultimately show ?thesis by (metis image_eqI image_iff)
qed

lemma continues_visit_all_outcome:
  "snapshots sel backend slots tks = (ss, Inr final) \<Longrightarrow>
    outcome_of sel backend start visitor s slots (tks, None, None) =
      (case visit_all start visitor s ss of
         (s', flow) \<Rightarrow> (s', if flow = Inr Continue then None else Some flow))"
  by (simp add: outcome_of_def split: prod.split)

lemma read_ticks_recorded:
  fixes visitor :: "('s, 'b) tick_visitor"
  assumes ok: "session_ok src sel" and rec: "recording src sel stop = Some ss"
    and run: "read_ticks_from src sel start stop (default_slots sel) visitor s = (sel', slots', s', flow)"
  shows "(s', flow) = visit_all start visitor s ss \<and> session_ok src sel' \<and>
    sel' = sel\<lparr>sel_replay := sel_replay sel', sel_checkpoint := sel_checkpoint sel'\<rparr> \<and>
    (flow = Inr Continue \<longrightarrow> slots' = chain_end (default_slots sel) ss)"
proof -
  from rec obtain ns p tks unfinished final where
    r: "src_read src (sel_bases sel) stop None = (ns, Inr p)"
    and g: "group_notes None ns = (tks, unfinished, None)"
    and sn: "snapshots sel (src_backend src) (default_slots sel) (tks @ unfinished_ticks unfinished)
      = (ss, Inr final)"
    by (auto simp: recording_Some_iff)
  from ok have parts: "tick_reader (src_read src)" "sel_ok sel (length (sel_retained sel))"
    "caches_ok src sel" "\<And>bases t. src_prefix src bases t = None"
    by (simp_all add: session_ok_def)
  note sound = read_ticks_from_sound [OF parts run]
  have "reference_traversal src sel start stop visitor s = visit_all start visitor s ss"
    using continues_visit_all_outcome [OF sn, of start visitor s]
    by (auto simp: reference_traversal_def r g final_ticks_def split: prod.split)
  moreover have "reference_slots src sel stop = final"
    using sn by (simp add: reference_slots_def r g final_ticks_def entering_last_def)
  moreover have "final = chain_end (default_slots sel) ss"
    by (rule snapshots_chain_end [OF sn])
  moreover have "session_ok src sel'"
  proof -
    obtain a c where sel': "sel' = sel\<lparr>sel_replay := a, sel_checkpoint := c\<rparr>" using sound by blast
    have "sel_ok sel' (length (sel_retained sel'))" using parts(2) by (simp add: sel' sel_ok_def)
    with parts sound show ?thesis by (simp add: session_ok_def)
  qed
  ultimately show ?thesis using sound by simp
qed

text \<open>A read that fails is an error of every traversal whose visitor never stops.\<close>

lemma visit_all_continue:
  "\<forall>s t m. snd (visitor s t m) = Inr Continue \<Longrightarrow> snd (visit_all start visitor s ss) = Inr Continue"
proof (induction ss arbitrary: s)
  case Nil
  then show ?case by simp
next
  case (Cons x ss)
  obtain t m where x: "x = (t, m)" by fastforce
  have "snd (visited start visitor s t m) = Inr Continue"
    using Cons.prems by (simp add: visited_def)
  with Cons x show ?case by (auto split: prod.split)
qed

lemma read_ticks_failed:
  fixes visitor :: "('s, 'b) tick_visitor"
  assumes ok: "session_ok src sel" and rec: "recording src sel stop = None"
    and go: "\<forall>s t m. snd (visitor s t m) = Inr Continue"
    and run: "read_ticks_from src sel start stop (default_slots sel) visitor s = (sel', slots', s', flow)"
  shows "\<exists>e. flow = Inl e"
proof -
  from ok have parts: "tick_reader (src_read src)" "sel_ok sel (length (sel_retained sel))"
    "caches_ok src sel" "\<And>bases t. src_prefix src bases t = None"
    by (simp_all add: session_ok_def)
  have ref: "(s', flow) = reference_traversal src sel start stop visitor s"
    using read_ticks_from_sound [OF parts run] by simp
  obtain ns out where r: "src_read src (sel_bases sel) stop None = (ns, out)" by fastforce
  obtain tks unfinished err where g: "group_notes None ns = (tks, unfinished, err)"
    by (cases "group_notes None ns") auto
  obtain ts u' err' where f: "final_ticks (tks, unfinished, err) out = (ts, u', err')"
    by (cases "final_ticks (tks, unfinished, err) out") auto
  obtain ss so where sn: "snapshots sel (src_backend src) (default_slots sel) ts = (ss, so)"
    by fastforce
  obtain s1 where v: "visit_all start visitor s ss = (s1, Inr Continue)"
    using visit_all_continue [OF go, where start = start and s = s and ss = ss]
    by (cases "visit_all start visitor s ss") simp
  have res: "outcome_of sel (src_backend src) start visitor s (default_slots sel) (ts, u', err') =
      (s1, case so of Inl e \<Rightarrow> Some (Inl e) | Inr entering \<Rightarrow>
         (case (case u' of Some (t, rs) \<Rightarrow> store_all sel (src_backend src) rs entering
                | None \<Rightarrow> Inr entering) of
            Inl e \<Rightarrow> Some (Inl e) | Inr _ \<Rightarrow> map_option Inl err'))"
    by (simp add: outcome_of_def sn v)
  have refl': "snd (reference_traversal src sel start stop visitor s) =
      (case (case so of Inl e \<Rightarrow> Some (Inl e) | Inr entering \<Rightarrow>
         (case (case u' of Some (t, rs) \<Rightarrow> store_all sel (src_backend src) rs entering
                | None \<Rightarrow> Inr entering) of
            Inl e \<Rightarrow> Some (Inl e) | Inr _ \<Rightarrow> map_option Inl err')) of
         Some flow \<Rightarrow> flow | None \<Rightarrow> (case out of Inl e \<Rightarrow> Inl e | Inr _ \<Rightarrow> Inr Continue))"
    unfolding reference_traversal_def r prod.case Let_def g f res by simp
  have flow: "flow = snd (reference_traversal src sel start stop visitor s)"
    using ref by (metis snd_conv)
  show ?thesis
  proof (cases so)
    case (Inl e)
    then show ?thesis unfolding flow refl' by simp
  next
    case so: (Inr entering)
    show ?thesis
    proof (cases out)
      case (Inl e)
      then show ?thesis unfolding flow refl' so by (auto split: option.split sum.split)
    next
      case (Inr p)
      have "err' \<noteq> None"
        using rec r g f sn so Inr by (cases err) (auto simp: recording_def final_ticks_def)
      then show ?thesis unfolding flow refl' so Inr by (auto split: option.split sum.split)
    qed
  qed
qed

end
