(* ===== verification/Ondas_Scan.thy ===== *)
theory Ondas_Scan
  imports Ondas_Selection Ondas_History
begin

text \<open>
  What a scan delivers. \<open>scan_records\<close> is the list of records of a recording: one entering
  state per entry with a known state strictly before the range, then the changes of every
  tick inside it, in order. \<open>scan_each_records\<close> shows that \<open>scan_each\<close> is running the
  callback over that list until it stops. \<open>entry_records\<close> reads the list per entry:
  the state held before the start and the net changes of the entry's history.
\<close>

section \<open>Running a callback over records\<close>

fun run_records :: "('s, 'b) scan_visitor \<Rightarrow> (nat \<times> scan_record) list \<Rightarrow> 's \<Rightarrow> 's \<times> 'b flow" where
  "run_records visitor [] s = (s, Continue)"
| "run_records visitor ((i, r) # rs) s = visit_then (visitor s i r) (run_records visitor rs)"

lemma visit_then_assoc: "visit_then (visit_then r f) g = visit_then r (\<lambda>s. visit_then (f s) g)"
  by (auto simp: visit_then_def split: prod.split flow.split)

lemma visit_then_Continue [simp]: "visit_then r (\<lambda>s. (s, Continue)) = r"
  by (auto simp: visit_then_def split: prod.split flow.split)

lemma run_records_append:
  "run_records visitor (xs @ ys) s = visit_then (run_records visitor xs s) (run_records visitor ys)"
proof (induction visitor xs s rule: run_records.induct)
  case (1 visitor s)
  then show ?case by simp
next
  case (2 visitor i r rs s)
  then show ?case by (cases "visitor s i r"; cases "snd (visitor s i r)") (auto simp: visit_then_assoc)
qed

fun initial_records :: "slot list \<Rightarrow> nat list \<Rightarrow> nat \<Rightarrow> signal list \<Rightarrow> (nat \<times> scan_record) list" where
  "initial_records slots slot_indices index [] = []"
| "initial_records slots slot_indices index (sig # signals) =
    (case slot_state (slots ! (slot_indices ! index)) of
       Some state \<Rightarrow> [(index, ScanInitial sig (st_value state) (st_changed_at state))]
     | None \<Rightarrow> []) @
    initial_records slots slot_indices (index + 1) signals"

definition slot_changes :: "signal \<Rightarrow> slot \<Rightarrow> time \<Rightarrow> scan_record list" where
  "slot_changes sig slot time =
    (case slot_pending slot of
       Some v \<Rightarrow> if slot_changed slot then [ScanChange sig time v] else []
     | None \<Rightarrow> []) @
    (if 0 < slot_events slot then [ScanChange sig time (VEvent (slot_events slot))] else [])"

fun change_records ::
    "slot list \<Rightarrow> nat list \<Rightarrow> time \<Rightarrow> nat \<Rightarrow> signal list \<Rightarrow> (nat \<times> scan_record) list" where
  "change_records slots slot_indices time index [] = []"
| "change_records slots slot_indices time index (sig # signals) =
    map (Pair index) (slot_changes sig (slots ! (slot_indices ! index)) time) @
    change_records slots slot_indices time (index + 1) signals"

lemma initials_records:
  "initials slots slot_indices visitor index signals s =
    run_records visitor (initial_records slots slot_indices index signals) s"
  by (induction slots slot_indices visitor index signals s rule: initials.induct)
    (auto simp: visit_then_def split: option.split prod.split flow.split)

lemma tick_changes_records:
  "range_start rng \<le> time \<Longrightarrow>
    tick_changes slots slot_indices time rng visitor index signals s =
      run_records visitor (change_records slots slot_indices time index signals) s"
proof (induction signals arbitrary: index s)
  case Nil
  then show ?case by simp
next
  case (Cons sig signals)
  have IH: "tick_changes slots slot_indices time rng visitor (index + 1) signals =
      run_records visitor (change_records slots slot_indices time (index + 1) signals)"
    by (rule ext) (rule Cons.IH [OF Cons.prems])
  show ?case
    using Cons.prems
    by (simp add: Let_def run_records_append slot_changes_def IH [simplified] visit_then_assoc
        split: option.split)
qed

section \<open>The records of a scan\<close>

definition scan_records :: "selection \<Rightarrow> time_range \<Rightarrow> (time \<times> slot list) list \<Rightarrow> (nat \<times> scan_record) list" where
  "scan_records sel rng ss =
    initial_records (chain_end (default_slots sel) (filter (\<lambda>x. fst x < range_start rng) ss))
      (sel_slot_indices sel) 0 (sel_signals sel) @
    concat (map (\<lambda>(t, m). change_records m (sel_slot_indices sel) t 0 (sel_signals sel))
      (filter (\<lambda>x. range_start rng \<le> fst x) ss))"

definition slots_in_range :: "selection \<Rightarrow> bool" where
  "slots_in_range sel \<longleftrightarrow>
    length (sel_slot_indices sel) = length (sel_signals sel) \<and>
    (\<forall>i \<in> set (sel_slot_indices sel). i < length (sel_retained sel))"

lemma initial_records_state:
  "(\<And>i. i < length idx \<Longrightarrow> slot_state (slots ! (idx ! i)) = slot_state (slots' ! (idx ! i))) \<Longrightarrow>
    index + length signals \<le> length idx \<Longrightarrow>
    initial_records slots idx index signals = initial_records slots' idx index signals"
  by (induction signals arbitrary: index) simp_all

definition scan_step ::
    "selection \<Rightarrow> time_range \<Rightarrow> ('s, 'b) scan_visitor \<Rightarrow> (bool \<times> 's, 'b) tick_visitor" where
  "scan_step sel rng visitor es time slots =
    (let (es', flow) = scan_tick (sel_signals sel) slots (sel_slot_indices sel) time rng visitor es
     in (es', Inr flow))"

lemma scan_step_emitted:
  "range_start rng \<le> time \<Longrightarrow>
    scan_step sel rng visitor (True, s) time slots =
      (case run_records visitor (change_records slots (sel_slot_indices sel) time 0 (sel_signals sel)) s of
         (s', flow) \<Rightarrow> ((True, s'), Inr flow))"
  by (simp add: scan_step_def scan_tick_def tick_changes_records split: prod.split)

lemma scan_step_first:
  "range_start rng \<le> time \<Longrightarrow>
    scan_step sel rng visitor (False, s) time slots =
      (case run_records visitor
          (initial_records slots (sel_slot_indices sel) 0 (sel_signals sel) @
           change_records slots (sel_slot_indices sel) time 0 (sel_signals sel)) s of
         (s', flow) \<Rightarrow> ((True, s'), Inr flow))"
  by (auto simp: scan_step_def scan_tick_def tick_changes_records initials_records run_records_append
      visit_then_def Let_def split: prod.splits flow.splits)

lemma visit_all_scan_emitted:
  assumes "\<forall>x \<in> set ss. range_start rng \<le> fst x"
  shows "visit_all (Some (range_start rng)) (scan_step sel rng visitor) (True, s) ss =
    (case run_records visitor
        (concat (map (\<lambda>(t, m). change_records m (sel_slot_indices sel) t 0 (sel_signals sel)) ss)) s of
       (s', flow) \<Rightarrow> ((True, s'), Inr flow))"
  using assms
proof (induction ss arbitrary: s)
  case Nil
  then show ?case by simp
next
  case (Cons x ss)
  obtain t m where x: "x = (t, m)" by fastforce
  with Cons.prems have t: "range_start rng \<le> t" by simp
  show ?case
    using Cons x t
    by (auto simp: visited_def scan_step_emitted run_records_append visit_then_def
        split: prod.splits flow.splits)
qed

text \<open>A scan whose ticks are \<open>ss\<close>, the entering states included.\<close>

lemma visit_all_scan:
  assumes chain: "chain (default_slots sel) ss" and inc: "sorted_wrt (<) (map fst ss)"
    and idx: "slots_in_range sel"
  shows "\<exists>emitted s' flow.
    visit_all (Some (range_start rng)) (scan_step sel rng visitor) (False, s) ss =
      ((emitted, s'), Inr flow) \<and>
    run_records visitor (scan_records sel rng ss) s =
      (if emitted then (s', flow)
       else visit_then (s', flow)
         (run_records visitor (initial_records (chain_end (default_slots sel) ss)
           (sel_slot_indices sel) 0 (sel_signals sel)))) \<and>
    (\<not> emitted \<longrightarrow> flow = Continue)"
proof -
  let ?start = "range_start rng"
  let ?before = "filter (\<lambda>x. fst x < ?start) ss" and ?inside = "filter (\<lambda>x. ?start \<le> fst x) ss"
  have split: "ss = ?before @ ?inside"
    using inc
  proof (induction ss)
    case Nil
    show ?case by simp
  next
    case (Cons x ss)
    show ?case
    proof (cases "fst x < ?start")
      case True
      with Cons show ?thesis by (simp add: not_le)
    next
      case False
      then have "\<forall>y \<in> set ss. \<not> fst y < ?start" using Cons.prems by fastforce
      then have "filter (\<lambda>x. fst x < ?start) ss = []" "filter (\<lambda>x. ?start \<le> fst x) ss = ss"
        by (simp_all add: filter_empty_conv filter_id_conv not_less)
      with False show ?thesis by simp
    qed
  qed
  have skip: "visit_all (Some ?start) (scan_step sel rng visitor) (False, s) ?before =
      ((False, s), Inr Continue)"
    by (rule visit_all_skip) simp
  have visit: "visit_all (Some ?start) (scan_step sel rng visitor) (False, s) ss =
      visit_all (Some ?start) (scan_step sel rng visitor) (False, s) ?inside"
    by (subst split, subst visit_all_append) (simp add: skip)
  show ?thesis
  proof (cases ?inside)
    case Nil
    then have "?before = ss" using split by simp
    with Nil visit show ?thesis by (auto simp: scan_records_def)
  next
    case (Cons x rest)
    obtain t m where x: "x = (t, m)" by fastforce
    let ?entering = "chain_end (default_slots sel) ?before"
    have "chain ?entering ?inside"
      using chain split chain_append by metis
    with Cons x have states: "\<And>i. i < length ?entering \<Longrightarrow> slot_state (m ! i) = slot_state (?entering ! i)"
      by simp
    have "chain (default_slots sel) ?before" using chain split chain_append by metis
    then have "length ?entering = length (sel_retained sel)"
      by (simp add: length_chain_end default_slots_def)
    then have init: "initial_records m (sel_slot_indices sel) 0 (sel_signals sel) =
        initial_records ?entering (sel_slot_indices sel) 0 (sel_signals sel)"
      using idx by (intro initial_records_state) (auto simp: slots_in_range_def intro!: states)
    have "\<forall>y \<in> set (x # rest). ?start \<le> fst y" unfolding Cons [symmetric] by simp
    with x have t: "?start \<le> t" and later: "\<forall>x \<in> set rest. ?start \<le> fst x" by simp_all
    have recs: "scan_records sel rng ss =
        (initial_records m (sel_slot_indices sel) 0 (sel_signals sel) @
         change_records m (sel_slot_indices sel) t 0 (sel_signals sel)) @
        concat (map (\<lambda>(t, m). change_records m (sel_slot_indices sel) t 0 (sel_signals sel)) rest)"
      by (simp add: scan_records_def Cons x init)
    obtain s1 f1 where first: "run_records visitor
        (initial_records m (sel_slot_indices sel) 0 (sel_signals sel) @
         change_records m (sel_slot_indices sel) t 0 (sel_signals sel)) s = (s1, f1)" by fastforce
    obtain s2 f2 where second: "run_records visitor
        (concat (map (\<lambda>(t, m). change_records m (sel_slot_indices sel) t 0 (sel_signals sel)) rest)) s1
        = (s2, f2)" by fastforce
    have v: "visited (Some ?start) (scan_step sel rng visitor) (False, s) t m = ((True, s1), Inr f1)"
      using t first by (simp add: visited_def scan_step_first)
    show ?thesis
    proof (cases f1)
      case Continue
      with v visit_all_scan_emitted [OF later, of sel visitor s1] second
      have "visit_all (Some ?start) (scan_step sel rng visitor) (False, s) ss = ((True, s2), Inr f2)"
        unfolding visit Cons x by simp
      moreover have "run_records visitor (scan_records sel rng ss) s = (s2, f2)"
        unfolding recs run_records_append [of visitor "_ @ _"] first Continue by (simp add: second)
      ultimately show ?thesis by (intro exI [of _ True]) simp
    next
      case (Break b)
      with v have "visit_all (Some ?start) (scan_step sel rng visitor) (False, s) ss = ((True, s1), Inr f1)"
        unfolding visit Cons x by simp
      moreover have "run_records visitor (scan_records sel rng ss) s = (s1, f1)"
        unfolding recs run_records_append [of visitor "_ @ _"] first Break by simp
      ultimately show ?thesis by (intro exI [of _ True]) simp
    qed
  qed
qed

definition scan_spec ::
    "selection \<Rightarrow> time_range \<Rightarrow> (time \<times> slot list) list \<Rightarrow> (nat \<times> scan_record) list" where
  "scan_spec sel rng ss = (if range_is_empty rng then [] else scan_records sel rng ss)"

lemma scan_end_start: "\<not> range_is_empty rng \<Longrightarrow> range_start rng \<le> scan_end src rng"
  by (auto simp: range_is_empty_order scan_end_def not_less split: option.splits)

lemma session_ok_drop: "session_ok src sel \<Longrightarrow> session_ok src (drop_caches sel)"
  by (simp add: session_ok_def drop_caches_def caches_ok_def sel_ok_def)

lemma scan_records_no_signals [simp]: "sel_signals sel = [] \<Longrightarrow> scan_records sel rng ss = []"
  by (simp add: scan_records_def)

lemma scan_each_records:
  assumes ok: "session_ok src sel" and idx: "slots_in_range sel"
    and rec: "recording src sel (scan_end src rng) = Some ss"
    and run: "scan_each src sel rng visitor s = (sel', s', flow)"
  shows "(s', flow) = (case run_records visitor (scan_spec sel rng ss) s of (s', f) \<Rightarrow> (s', Inr f)) \<and>
    session_ok src sel'"
proof (cases "range_is_empty rng \<or> sel_signals sel = []")
  case True
  with run ok show ?thesis
    by (auto simp: scan_each_def Let_def scan_spec_def)
next
  case False
  then have le: "\<not> scan_end src rng < range_start rng" using scan_end_start [of rng src] by simp
  let ?V = "scan_step sel rng visitor"
  obtain sel1 slots emitted s1 f where
    r: "read_ticks_from src sel (Some (range_start rng)) (scan_end src rng) (default_slots sel) ?V (False, s)
      = (sel1, slots, (emitted, s1), f)"
    by (metis prod.collapse)
  note R = read_ticks_recorded [OF ok rec r]
  note inc = recording_increasing [OF ok rec]
  from visit_all_scan [OF recording_chain [OF ok rec] conjunct1 [OF inc] idx, of rng visitor s] R
  obtain fl where fl: "f = Inr fl" and spec: "run_records visitor (scan_records sel rng ss) s =
      (if emitted then (s1, fl)
       else visit_then (s1, fl)
         (run_records visitor (initial_records (chain_end (default_slots sel) ss)
           (sel_slot_indices sel) 0 (sel_signals sel))))"
    and quiet: "\<not> emitted \<longrightarrow> fl = Continue"
    by (metis prod.inject)
  have V: "(\<lambda>es time slots. let (es', flow) =
       scan_tick (sel_signals sel) slots (sel_slot_indices sel) time rng visitor es in (es', Inr flow)) = ?V"
    by (intro ext) (simp add: scan_step_def)
  have unf: "scan_each src sel rng visitor s =
      (case f of
         Inr Continue \<Rightarrow>
           if \<not> emitted then
             (let (s2, flow2) = initials slots (sel_slot_indices sel) visitor 0 (sel_signals sel) s1
              in (if flow2 = Continue then sel1 else drop_caches sel1, s2, Inr flow2))
           else (sel1, s1, Inr Continue)
       | _ \<Rightarrow> (sel1, s1, f))"
    using False le unfolding scan_each_def V by (simp add: r)
  show ?thesis
  proof (cases fl)
    case (Break b)
    with quiet spec unf run fl R False show ?thesis
      by (auto simp: scan_spec_def)
  next
    case Continue
    with R fl have slots: "slots = chain_end (default_slots sel) ss" and ok1: "session_ok src sel1"
      by simp_all
    show ?thesis
    proof (cases emitted)
      case True
      with spec unf run fl Continue ok1 False show ?thesis by (auto simp: scan_spec_def)
    next
      case em: False
      obtain s2 flow2 where "initials slots (sel_slot_indices sel) visitor 0 (sel_signals sel) s1 = (s2, flow2)"
        by fastforce
      with spec unf run fl Continue ok1 em False slots show ?thesis
        by (auto simp: scan_spec_def initials_records session_ok_drop)
    qed
  qed
qed

end
