(* ===== verification/Ondas_Entries.thy ===== *)
theory Ondas_Entries
  imports Ondas_Scan
begin

text \<open>
  The records of a scan, entry by entry. \<open>net_changes\<close> reads a slot's history: a final
  value that differs from the held one is a change, a positive event count is one too.
  Samples and traces fold the records of their own entry only, so their results follow
  from the entry's history: \<open>samples_spec\<close> and \<open>traces_spec\<close>.
\<close>

section \<open>Records of one entry\<close>

fun net_changes :: "signal \<Rightarrow> state option \<Rightarrow> history \<Rightarrow> scan_record list" where
  "net_changes s st [] = []"
| "net_changes s st (w # h) =
    (case tw_value w of
       Some v \<Rightarrow> if differs st v then [ScanChange s (tw_time w) v] else []
     | None \<Rightarrow> []) @
    (if 0 < tw_events w then [ScanChange s (tw_time w) (VEvent (tw_events w))] else []) @
    net_changes s (apply_write w st) h"

definition entering_record :: "signal \<Rightarrow> state option \<Rightarrow> scan_record list" where
  "entering_record s state =
    (case state of Some st \<Rightarrow> [ScanInitial s (st_value st) (st_changed_at st)] | None \<Rightarrow> [])"

definition entry_records :: "signal \<Rightarrow> time_range \<Rightarrow> history \<Rightarrow> scan_record list" where
  "entry_records s rng h =
    (if range_is_empty rng then []
     else entering_record s (held_before h (range_start rng)) @
       net_changes s (held_before h (range_start rng))
         (filter (\<lambda>w. range_start rng \<le> tw_time w) h))"

definition at_entry :: "nat \<Rightarrow> (nat \<times> scan_record) list \<Rightarrow> scan_record list" where
  "at_entry i rs = map snd (filter (\<lambda>x. fst x = i) rs)"

lemma at_entry_simps [simp]:
  "at_entry i [] = []"
  "at_entry i ((j, r) # rs) = (if j = i then r # at_entry i rs else at_entry i rs)"
  "at_entry i (rs @ rs') = at_entry i rs @ at_entry i rs'"
  "at_entry i (map (Pair j) xs) = (if j = i then xs else [])"
  by (simp_all add: at_entry_def filter_map o_def)

lemma at_entry_initials:
  "at_entry i (initial_records slots idx index signals) =
    (if index \<le> i \<and> i < index + length signals
     then entering_record (signals ! (i - index)) (slot_state (slots ! (idx ! i))) else [])"
proof (induction signals arbitrary: index)
  case Nil
  then show ?case by auto
next
  case (Cons sig signals)
  show ?case
  proof (cases "i = index")
    case True
    with Cons.IH [of "Suc index"] show ?thesis by (simp add: entering_record_def split: option.split)
  next
    case False
    then have "index \<le> i \<and> i < index + length (sig # signals) \<longleftrightarrow>
        Suc index \<le> i \<and> i < Suc index + length signals" by auto
    moreover have "index < i \<Longrightarrow> (sig # signals) ! (i - index) = signals ! (i - Suc index)"
      by (metis Suc_diff_Suc nth_Cons_Suc)
    ultimately show ?thesis using False by (auto simp: Cons split: option.split)
  qed
qed

lemma at_entry_changes:
  "at_entry i (change_records slots idx t index signals) =
    (if index \<le> i \<and> i < index + length signals
     then slot_changes (signals ! (i - index)) (slots ! (idx ! i)) t else [])"
proof (induction signals arbitrary: index)
  case Nil
  then show ?case by auto
next
  case (Cons sig signals)
  show ?case
  proof (cases "i = index")
    case True
    with Cons.IH [of "Suc index"] show ?thesis by simp
  next
    case False
    then have "index \<le> i \<and> i < index + length (sig # signals) \<longleftrightarrow>
        Suc index \<le> i \<and> i < Suc index + length signals" by auto
    moreover have "index < i \<Longrightarrow> (sig # signals) ! (i - index) = signals ! (i - Suc index)"
      by (metis Suc_diff_Suc nth_Cons_Suc)
    ultimately show ?thesis using False by (auto simp: Cons)
  qed
qed

lemma at_entry_concat: "at_entry i (concat xss) = concat (map (at_entry i) xss)"
  by (induction xss) simp_all

text \<open>Along a chain, the changes of a slot are the net changes of its history.\<close>

lemma slot_changes_net:
  assumes "mark_changed c = c"
  shows "slot_changes s c t =
    net_changes s (slot_state c) [\<lparr>tw_time = t, tw_value = slot_pending c, tw_events = slot_events c\<rparr>]"
proof -
  have "slot_changed c = (case slot_pending c of Some v \<Rightarrow> differs (slot_state c) v | None \<Rightarrow> False)"
    using assms by (metis mark_changed_def slot.select_convs(3) slot.surjective slot.update_convs(3))
  then show ?thesis by (simp add: slot_changes_def split: option.split)
qed

lemma chain_net_changes:
  assumes "chain slots ss" and "k < length slots"
  shows "concat (map (\<lambda>(t, m). slot_changes s (m ! k) t) ss) =
    net_changes s (slot_state (slots ! k)) (slot_history k ss)"
  using assms
proof (induction slots ss rule: chain.induct)
  case (1 slots)
  then show ?case by simp
next
  case (2 slots t m ss)
  then have m: "mark_changed (m ! k) = m ! k" "slot_state (m ! k) = slot_state (slots ! k)"
    "k < length (map (commit_slot t) m)" "chain (map (commit_slot t) m) ss" by simp_all
  from "2.IH" [OF m(4,3)] m slot_changes_net [OF m(1), of s t] show ?case
    by (simp add: commit_apply_write)
qed

lemma split_at:
  "sorted_wrt (<) (map fst ss) \<Longrightarrow>
    ss = filter (\<lambda>x. fst x < (t :: time)) ss @ filter (\<lambda>x. t \<le> fst x) ss"
proof (induction ss)
  case Nil
  show ?case by simp
next
  case (Cons x ss)
  show ?case
  proof (cases "fst x < t")
    case True
    with Cons show ?thesis by (simp add: not_le)
  next
    case False
    then have "\<forall>y \<in> set ss. \<not> fst y < t" using Cons.prems by fastforce
    then have "filter (\<lambda>x. fst x < t) ss = []" "filter (\<lambda>x. t \<le> fst x) ss = ss"
      by (simp_all add: filter_empty_conv filter_id_conv not_less)
    with False show ?thesis by simp
  qed
qed

definition entry_history :: "selection \<Rightarrow> (time \<times> slot list) list \<Rightarrow> nat \<Rightarrow> history" where
  "entry_history sel ss i = slot_history (sel_slot_indices sel ! i) ss"

lemma default_slot_state: "k < length (sel_retained sel) \<Longrightarrow> slot_state (default_slots sel ! k) = None"
  by (simp add: default_slots_def slot_default_def)

lemma chain_held:
  assumes "chain (default_slots sel) ss" and "k < length (sel_retained sel)"
  shows "slot_state (chain_end (default_slots sel) ss ! k) = held_over None (slot_history k ss)"
  using chain_end_state [OF assms(1)] assms(2)
  by (simp add: default_slots_def slot_default_def)

lemma held_before_history:
  "held_before (slot_history k ss) t = held_over None (slot_history k (filter (\<lambda>x. fst x < t) ss))"
  using filter_slot_history [of "\<lambda>u. u < t" k ss] by (simp add: held_before_def)

lemma scan_spec_at_entry:
  assumes chain: "chain (default_slots sel) ss" and inc: "sorted_wrt (<) (map fst ss)"
    and idx: "slots_in_range sel" and i: "i < length (sel_signals sel)"
  shows "at_entry i (scan_spec sel rng ss) =
    entry_records (sel_signals sel ! i) rng (entry_history sel ss i)"
proof (cases "range_is_empty rng")
  case True
  then show ?thesis by (simp add: scan_spec_def entry_records_def)
next
  case False
  let ?t = "range_start rng" and ?k = "sel_slot_indices sel ! i" and ?s = "sel_signals sel ! i"
  let ?before = "filter (\<lambda>x. fst x < ?t) ss" and ?inside = "filter (\<lambda>x. ?t \<le> fst x) ss"
  let ?e = "chain_end (default_slots sel) ?before"
  have k: "?k < length (sel_retained sel)" using idx i by (simp add: slots_in_range_def)
  have ch: "chain (default_slots sel) ?before" "chain ?e ?inside"
    using chain split_at [OF inc, of ?t] chain_append by metis+
  have e: "slot_state (?e ! ?k) = held_before (slot_history ?k ss) ?t"
    by (simp add: chain_held [OF ch(1) k] held_before_history)
  have len: "?k < length ?e" using k length_chain_end [OF ch(1)] by (simp add: default_slots_def)
  have m: "map (at_entry i \<circ> (\<lambda>(t, m). change_records m (sel_slot_indices sel) t 0 (sel_signals sel))) ?inside
      = map (\<lambda>(t, m). slot_changes ?s (m ! ?k) t) ?inside"
    using i by (auto simp: at_entry_changes)
  have "at_entry i (scan_records sel rng ss) =
      entering_record ?s (held_before (slot_history ?k ss) ?t) @
      net_changes ?s (held_before (slot_history ?k ss) ?t) (slot_history ?k ?inside)"
    using i chain_net_changes [OF ch(2) len, of ?s]
    by (simp add: scan_records_def at_entry_initials at_entry_concat e m)
  with False show ?thesis
    using filter_slot_history [of "\<lambda>u. ?t \<le> u" ?k ss]
    by (simp add: scan_spec_def entry_records_def entry_history_def)
qed

section \<open>Folding records per entry\<close>

text \<open>
  A callback that never stops and updates position \<open>i\<close> of a list on a record of entry
  \<open>i\<close> folds, at every position, the records of that entry.
\<close>

lemma run_records_fold:
  assumes "\<And>s i r. visitor s i r = (s[i := f (s ! i) r], Continue)"
  shows "run_records visitor rs s = (fold (\<lambda>(i, r) s. s[i := f (s ! i) r]) rs s, Continue)"
  by (induction rs arbitrary: s) (auto simp: assms)

lemma fold_entries_length [simp]:
  "length (fold (\<lambda>(i, r) s. s[i := f (s ! i) r]) rs s) = length s"
  by (induction rs arbitrary: s) auto

lemma fold_entries_nth:
  "i < length s \<Longrightarrow>
    fold (\<lambda>(i, r) s. s[i := f (s ! i) r]) rs s ! i = fold (\<lambda>r x. f x r) (at_entry i rs) (s ! i)"
  by (induction rs arbitrary: s) (auto simp: nth_update_any split: if_splits)


section \<open>Canonical histories\<close>

definition canonical_history :: "history \<Rightarrow> bool" where
  "canonical_history h \<longleftrightarrow> (\<forall>w \<in> set h. \<forall>v. tw_value w = Some v \<longrightarrow> canonical v)"

definition canonical_state :: "state option \<Rightarrow> bool" where
  "canonical_state state \<longleftrightarrow> (\<forall>st. state = Some st \<longrightarrow> canonical (st_value st))"

lemma canonical_history_simps [simp]:
  "canonical_history []"
  "canonical_history (w # h) \<longleftrightarrow> (\<forall>v. tw_value w = Some v \<longrightarrow> canonical v) \<and> canonical_history h"
  "canonical_history h \<Longrightarrow> canonical_history (filter P h)"
  by (auto simp: canonical_history_def)

lemma chain_canonical:
  "chain slots ss \<Longrightarrow> k < length slots \<Longrightarrow> canonical_history (slot_history k ss)"
  by (induction slots ss rule: chain.induct) (auto simp: canonical_slot_def)

lemma canonical_apply_write:
  "canonical_state st \<Longrightarrow> (\<forall>v. tw_value w = Some v \<longrightarrow> canonical v) \<Longrightarrow> canonical_state (apply_write w st)"
  by (auto simp: canonical_state_def apply_write_def update_state_def split: option.splits if_splits)

lemma canonical_held_over:
  "canonical_state st \<Longrightarrow> canonical_history h \<Longrightarrow> canonical_state (held_over st h)"
  by (induction h arbitrary: st) (auto intro: canonical_apply_write)

lemma canonical_held_before: "canonical_history h \<Longrightarrow> canonical_state (held_before h t)"
  unfolding held_before_def by (rule canonical_held_over) (simp_all add: canonical_state_def)

lemma update_not_differs: "\<not> differs st v \<Longrightarrow> fst (update_state st v t) = st"
  by (simp add: differs_def update_state_def)

lemma canonical_owned_id: "canonical v \<Longrightarrow> value_to_owned v = v"
  by (simp add: canonical_def)

section \<open>Samples\<close>

fun sample_step :: "state option \<times> u64 \<Rightarrow> scan_record \<Rightarrow> state option \<times> u64" where
  "sample_step (st, n) (ScanInitial _ v c) = (Some \<lparr>st_value = value_to_owned v, st_changed_at = c\<rparr>, n)"
| "sample_step (st, n) (ScanChange _ t (VEvent m)) = (st, m)"
| "sample_step (st, n) (ScanChange _ t v) = (fst (update_state st (value_to_owned v) t), n)"

lemma sample_step_value:
  "\<not> is_event_value v \<Longrightarrow>
    sample_step (st, n) (ScanChange s t v) = (fst (update_state st (value_to_owned v) t), n)"
  by (cases v) simp_all

lemma sample_record_step:
  "\<exists>states' events'. sample_record (states, events) i r = ((states', events'), Continue) \<and>
    length states' = length states \<and> length events' = length events \<and>
    (\<forall>j < length states. j < length events \<longrightarrow> (states' ! j, events' ! j) =
       (if j = i then sample_step (states ! j, events ! j) r else (states ! j, events ! j)))"
proof (cases r)
  case (ScanInitial s v c)
  then show ?thesis by (auto simp: nth_update_any)
next
  case (ScanChange s t v)
  then show ?thesis by (cases v) (auto simp: nth_update_any)
qed

lemma run_sample_records:
  "\<exists>states' events'. run_records sample_record rs (states, events) = ((states', events'), Continue) \<and>
    length states' = length states \<and> length events' = length events \<and>
    (\<forall>j < length states. j < length events \<longrightarrow> (states' ! j, events' ! j) =
       fold (\<lambda>r x. sample_step x r) (at_entry j rs) (states ! j, events ! j))"
proof (induction rs arbitrary: states events)
  case Nil
  then show ?case by simp
next
  case (Cons ir rs)
  obtain i r where ir: "ir = (i, r)" by fastforce
  obtain st ev where 1: "sample_record (states, events) i r = ((st, ev), Continue)"
    "length st = length states" "length ev = length events"
    "\<forall>j < length states. j < length events \<longrightarrow> (st ! j, ev ! j) =
       (if j = i then sample_step (states ! j, events ! j) r else (states ! j, events ! j))"
    using sample_record_step by blast
  obtain st' ev' where 2: "run_records sample_record rs (st, ev) = ((st', ev'), Continue)"
    "length st' = length st" "length ev' = length ev"
    "\<forall>j < length st. j < length ev \<longrightarrow> (st' ! j, ev' ! j) =
       fold (\<lambda>r x. sample_step x r) (at_entry j rs) (st ! j, ev ! j)"
    using Cons.IH by blast
  have "(st' ! j, ev' ! j) =
      fold (\<lambda>r x. sample_step x r) (at_entry j (ir # rs)) (states ! j, events ! j)"
    if "j < length states" "j < length events" for j
    using 1 2 that ir by (auto simp del: fold_simps(2) simp add: fold_simps)
  with 1 2 ir show ?case by simp
qed

text \<open>Folding the records of one entry at a point gives the held state and the count.\<close>

lemma fold_entering_record:
  "canonical_state st \<Longrightarrow> fold (\<lambda>r x. sample_step x r) (entering_record s st) (None, 0) = (st, 0)"
  by (cases st) (auto simp: entering_record_def canonical_state_def canonical_owned_id)

lemma fold_one_tick:
  assumes "\<forall>v. tw_value w = Some v \<longrightarrow> canonical v"
  shows "fold (\<lambda>r x. sample_step x r) (net_changes s st [w]) (st, 0) = (apply_write w st, tw_events w)"
  using assms
  by (auto simp: apply_write_def update_not_differs sample_step_value canonical_def word_gt_0
      split: option.split)

lemma increasing_filter_le:
  assumes "increasing h" and "\<forall>w \<in> set h. tw_time w \<le> t"
  shows "filter (\<lambda>w. t \<le> tw_time w) h = [] \<and> (\<forall>w \<in> set h. tw_time w < t) \<or>
    (\<exists>w. filter (\<lambda>w. t \<le> tw_time w) h = [w] \<and> tw_time w = t \<and> w \<in> set h)"
  using assms
proof (induction h)
  case Nil
  then show ?case by simp
next
  case (Cons w h)
  show ?case
  proof (cases "tw_time w < t")
    case True
    with Cons show ?thesis by (auto simp: increasing_def not_le)
  next
    case False
    then have "tw_time w = t" using Cons.prems(2) by auto
    moreover from this have "h = []" using Cons.prems by (cases h) (auto simp: increasing_def)
    ultimately show ?thesis by auto
  qed
qed

lemma increasing_split:
  "increasing h \<Longrightarrow> h = filter (\<lambda>w. tw_time w < t) h @ filter (\<lambda>w. t \<le> tw_time w) h"
proof (induction h)
  case Nil
  show ?case by simp
next
  case (Cons w h)
  show ?case
  proof (cases "tw_time w < t")
    case True
    with Cons show ?thesis by (simp add: increasing_def not_le)
  next
    case False
    then have "\<forall>y \<in> set h. \<not> tw_time y < t" using Cons.prems by (fastforce simp: increasing_def)
    then have "filter (\<lambda>w. tw_time w < t) h = []" "filter (\<lambda>w. t \<le> tw_time w) h = h"
      by (simp_all add: filter_empty_conv filter_id_conv not_less)
    with False show ?thesis by simp
  qed
qed

lemma events_at_increasing:
  assumes "increasing h" and "w \<in> set h"
  shows "events_at h (tw_time w) = tw_events w"
  using assms by (induction h) (auto simp: events_at_def increasing_def)

lemma fold_point_records:
  assumes inc: "increasing h" and le: "\<forall>w \<in> set h. tw_time w \<le> t" and can: "canonical_history h"
  shows "fold (\<lambda>r x. sample_step x r) (entry_records s (time_range_point t) h) (None, 0) =
    (held h t, events_at h t)"
proof -
  let ?b = "held_before h t"
  have ne: "\<not> range_is_empty (time_range_point t)" by (simp add: range_is_empty_order)
  have all: "held h t = held_over None h" by (rule held_all) (use le in blast)
  note can_b = canonical_held_before [OF can, of t]
  from increasing_filter_le [OF inc le] show ?thesis
  proof (elim disjE exE conjE)
    assume none: "filter (\<lambda>w. t \<le> tw_time w) h = []" and less: "\<forall>w \<in> set h. tw_time w < t"
    have "held h t = ?b" using all less by (simp add: held_before_def filter_id_conv)
    moreover have "events_at h t = 0" using less by (intro events_at_notin) auto
    ultimately show ?thesis using ne none can_b by (simp add: entry_records_def fold_entering_record)
  next
    fix w assume one: "filter (\<lambda>w. t \<le> tw_time w) h = [w]" "tw_time w = t" "w \<in> set h"
    have "held h t = apply_write w ?b"
      unfolding all held_before_def by (subst increasing_split [OF inc, of t]) (simp add: one)
    moreover have "events_at h t = tw_events w" using events_at_increasing [OF inc one(3)] one(2) by simp
    moreover have "\<forall>v. tw_value w = Some v \<longrightarrow> canonical v"
      using can one(3) by (auto simp: canonical_history_def)
    ultimately show ?thesis
      using ne one can_b fold_one_tick [of w s ?b]
      by (simp add: entry_records_def fold_entering_record)
  qed
qed


text \<open>The visits after the scan.\<close>

lemma visit_entries_collect:
  "visit_entries states events (\<lambda>out sample. (out @ [sample], Continue)) index signals out =
    (out @ map (\<lambda>i. entry_sample (signals ! (i - index)) (states ! i) (events ! i))
       [index..<index + length signals], Continue)"
proof (induction signals arbitrary: index out)
  case Nil
  then show ?case by simp
next
  case (Cons sig signals)
  have "map (\<lambda>i. entry_sample ((sig # signals) ! (i - index)) (states ! i) (events ! i))
      [Suc index..<Suc index + length signals] =
    map (\<lambda>i. entry_sample (signals ! (i - Suc index)) (states ! i) (events ! i))
      [Suc index..<Suc index + length signals]"
  proof (rule map_cong)
    fix i assume "i \<in> set [Suc index..<Suc index + length signals]"
    then have "i - index = Suc (i - Suc index)" by auto
    then show "entry_sample ((sig # signals) ! (i - index)) (states ! i) (events ! i) =
        entry_sample (signals ! (i - Suc index)) (states ! i) (events ! i)" by simp
  qed simp
  moreover have "[index..<index + length (sig # signals)] =
      index # [Suc index..<Suc index + length signals]"
    by (simp add: upt_conv_Cons del: upt_Suc)
  ultimately show ?case using Cons.IH [of "Suc index"] by (simp del: upt_Suc)
qed

lemma scan_end_point [simp]: "scan_end src (time_range_point t) = t"
  by (simp add: scan_end_def)

lemma samples_spec:
  assumes ok: "session_ok src sel" and idx: "slots_in_range sel"
    and rec: "recording src sel t = Some ss"
  shows "\<exists>sel'. samples src sel t =
      (sel', Inr (map (\<lambda>i. point_sample (sel_signals sel ! i) (entry_history sel ss i) t)
        [0..<length (sel_signals sel)])) \<and> session_ok src sel'"
proof -
  let ?n = "length (sel_signals sel)" and ?point = "time_range_point t"
  obtain sel1 states events flow where
    run: "scan_each src sel ?point sample_record (replicate ?n None, replicate ?n 0) =
      (sel1, (states, events), flow)"
    by (metis prod.collapse)
  from rec have rec': "recording src sel (scan_end src ?point) = Some ss" by simp
  note S = scan_each_records [OF ok idx rec' run]
  note inc = recording_increasing [OF ok rec] and ch = recording_chain [OF ok rec]
  obtain states' events' where
    rr: "run_records sample_record (scan_spec sel ?point ss) (replicate ?n None, replicate ?n 0) =
      ((states', events'), Continue)" "length states' = ?n" "length events' = ?n"
    "\<forall>j < ?n. (states' ! j, events' ! j) =
      fold (\<lambda>r x. sample_step x r) (at_entry j (scan_spec sel ?point ss)) (None, 0)"
    using run_sample_records [of "scan_spec sel ?point ss" "replicate ?n None" "replicate ?n 0"] by auto
  from S rr(1) have eq: "states = states'" "events = events'" "flow = Inr Continue"
    and ok1: "session_ok src sel1" by simp_all
  have "entry_sample (sel_signals sel ! i) (states ! i) (events ! i) =
      point_sample (sel_signals sel ! i) (entry_history sel ss i) t" if i: "i < ?n" for i
  proof -
    let ?h = "entry_history sel ss i"
    have k: "sel_slot_indices sel ! i < length (default_slots sel)"
      using idx i by (simp add: slots_in_range_def default_slots_def)
    have h: "increasing ?h" "\<forall>w \<in> set ?h. tw_time w \<le> t" "canonical_history ?h"
      using inc chain_canonical [OF ch k]
      by (auto simp: increasing_def entry_history_def) (auto simp: slot_history_def)
    have "(states ! i, events ! i) =
        fold (\<lambda>r x. sample_step x r) (entry_records (sel_signals sel ! i) ?point ?h) (None, 0)"
      using rr(4) i eq scan_spec_at_entry [OF ch conjunct1 [OF inc] idx i, of ?point] by simp
    also have "\<dots> = (held ?h t, events_at ?h t)" by (rule fold_point_records [OF h])
    finally show ?thesis by (simp add: entry_sample_def point_sample_def)
  qed
  then have "map (\<lambda>i. entry_sample (sel_signals sel ! i) (states ! i) (events ! i)) [0..<?n] =
      map (\<lambda>i. point_sample (sel_signals sel ! i) (entry_history sel ss i) t) [0..<?n]"
    by simp
  then show ?thesis
    using ok1 eq
    by (simp add: samples_def sample_visit_def run Let_def visit_entries_collect)
qed

section \<open>Traces\<close>

fun trace_step :: "trace \<Rightarrow> scan_record \<Rightarrow> trace" where
  "trace_step tr (ScanInitial _ v c) =
    tr\<lparr>tr_initial := Some \<lparr>st_value = value_to_owned v, st_changed_at = c\<rparr>\<rparr>"
| "trace_step tr (ScanChange _ t v) =
    tr\<lparr>tr_changes := tr_changes tr @ [\<lparr>ch_time = t, ch_value = value_to_owned v\<rparr>]\<rparr>"

lemma trace_record_step: "trace_record trs i r = (trs[i := trace_step (trs ! i) r], Continue)"
  by (cases r) simp_all

fun changes_of :: "state option \<Rightarrow> history \<Rightarrow> change list" where
  "changes_of st [] = []"
| "changes_of st (w # h) =
    (case tw_value w of
       Some v \<Rightarrow> if differs st v then [\<lparr>ch_time = tw_time w, ch_value = v\<rparr>] else []
     | None \<Rightarrow> []) @
    (if 0 < tw_events w then [\<lparr>ch_time = tw_time w, ch_value = VEvent (tw_events w)\<rparr>] else []) @
    changes_of (apply_write w st) h"

text \<open>The trace a history has over a range.\<close>

definition trace_of :: "signal \<Rightarrow> time_range \<Rightarrow> history \<Rightarrow> trace" where
  "trace_of s rng h =
    (if range_is_empty rng then trace_new rng s
     else \<lparr>tr_signal = s, tr_range = rng, tr_initial = held_before h (range_start rng),
           tr_changes = changes_of (held_before h (range_start rng))
             (filter (\<lambda>w. range_start rng \<le> tw_time w) h)\<rparr>)"

lemma fold_trace_changes:
  "canonical_history h \<Longrightarrow>
    fold (\<lambda>r x. trace_step x r) (net_changes s st h) tr =
      tr\<lparr>tr_changes := tr_changes tr @ changes_of st h\<rparr>"
  by (induction s st h arbitrary: tr rule: net_changes.induct)
    (auto simp: canonical_owned_id split: option.split)

lemma fold_trace_entering:
  "canonical_state st \<Longrightarrow> tr_initial tr = None \<Longrightarrow>
    fold (\<lambda>r x. trace_step x r) (entering_record s st) tr = tr\<lparr>tr_initial := st\<rparr>"
  by (cases st) (auto simp: entering_record_def canonical_state_def canonical_owned_id)

lemma traces_spec:
  assumes ok: "session_ok src sel" and idx: "slots_in_range sel"
    and rec: "recording src sel (scan_end src rng) = Some ss"
  shows "\<exists>sel'. traces src sel rng =
      (sel', Inr (map (\<lambda>i. trace_of (sel_signals sel ! i) rng (entry_history sel ss i))
        [0..<length (sel_signals sel)])) \<and> session_ok src sel'"
proof -
  let ?n = "length (sel_signals sel)" and ?init = "map (trace_new rng) (sel_signals sel)"
  obtain sel1 out flow where run: "scan_each src sel rng trace_record ?init = (sel1, out, flow)"
    by (metis prod.collapse)
  note S = scan_each_records [OF ok idx rec run]
  note inc = recording_increasing [OF ok rec] and ch = recording_chain [OF ok rec]
  have fold: "out = fold (\<lambda>(i, r) trs. trs[i := trace_step (trs ! i) r]) (scan_spec sel rng ss) ?init"
    and flow: "flow = Inr Continue" and ok1: "session_ok src sel1"
    using S run_records_fold [of trace_record trace_step, OF trace_record_step] by simp_all
  have "out ! i = trace_of (sel_signals sel ! i) rng (entry_history sel ss i)" if i: "i < ?n" for i
  proof -
    let ?h = "entry_history sel ss i"
    have k: "sel_slot_indices sel ! i < length (default_slots sel)"
      using idx i by (simp add: slots_in_range_def default_slots_def)
    have can: "canonical_history ?h"
      using chain_canonical [OF ch k] by (simp add: entry_history_def)
    have "out ! i = fold (\<lambda>r x. trace_step x r) (entry_records (sel_signals sel ! i) rng ?h)
        (trace_new rng (sel_signals sel ! i))"
      unfolding fold using i scan_spec_at_entry [OF ch conjunct1 [OF inc] idx i, of rng]
      by (subst fold_entries_nth) simp_all
    also have "\<dots> = trace_of (sel_signals sel ! i) rng ?h"
      using can canonical_held_before [OF can, of "range_start rng"]
      by (auto simp: entry_records_def trace_of_def fold_trace_changes fold_trace_entering trace_new_def)
    finally show ?thesis .
  qed
  moreover have "length out = ?n" by (simp add: fold)
  ultimately have "out = map (\<lambda>i. trace_of (sel_signals sel ! i) rng (entry_history sel ss i)) [0..<?n]"
    by (intro nth_equalityI) simp_all
  with flow ok1 show ?thesis by (simp add: traces_def run)
qed

end
