(* ===== verification/Ondas_Trace.thy ===== *)
theory Ondas_Trace
  imports Ondas_Entries
begin

text \<open>
  Sampling a saved trace, \<open>Trace::sample\<close> and \<open>Trace::samples_at\<close> of
  \<^verbatim>\<open>src/src/query.rs\<close>: a binary search over the saved changes. On the trace a history
  has over a range it gives, at every covered tick, the point sample of that history
  (\<open>trace_sample_point\<close>), so a saved trace answers exactly as a fresh read does.
\<close>

section \<open>Sampling a trace\<close>

definition trace_sample :: "trace \<Rightarrow> time \<Rightarrow> error + sample" where
  "trace_sample tr time =
    (if range_is_empty (tr_range tr) \<or> time < range_start (tr_range tr) \<or>
        (case range_end (tr_range tr) of Some stop \<Rightarrow> stop < time | None \<Rightarrow> False)
     then Inl (TraceCoverage time (tr_range tr))
     else
       let index = partition_point (\<lambda>change. ch_time change \<le> time) (tr_changes tr);
           change = (if index = 0 then None else Some (tr_changes tr ! (index - 1)))
       in if sig_encoding (tr_signal tr) = Event then
            Inr (SampleEvent (tr_signal tr)
              (case change of
                 Some c \<Rightarrow>
                   if ch_time c = time then (case ch_value c of VEvent n \<Rightarrow> n | _ \<Rightarrow> 0) else 0
               | None \<Rightarrow> 0))
          else case change of
            Some c \<Rightarrow>
              Inr (SampleValue (tr_signal tr) (ch_value c)
                (if 1 < index \<or> tr_initial tr \<noteq> None then Some (ch_time c) else None))
          | None \<Rightarrow>
              (case tr_initial tr of
                 Some st \<Rightarrow> Inr (SampleValue (tr_signal tr) (st_value st) (st_changed_at st))
               | None \<Rightarrow> Inr (Missing (tr_signal tr))))"

fun trace_samples_at :: "trace \<Rightarrow> time list \<Rightarrow> error + (time \<times> sample) list" where
  "trace_samples_at tr [] = Inr []"
| "trace_samples_at tr (time # asked) =
    and_then (trace_sample tr time) (\<lambda>sample.
      and_then (trace_samples_at tr asked) (\<lambda>rows. Inr ((time, sample) # rows)))"

section \<open>Typed histories\<close>

text \<open>An event entry has counts only, any other entry values only.\<close>

definition entry_typed :: "signal \<Rightarrow> history \<Rightarrow> bool" where
  "entry_typed s h \<longleftrightarrow>
    (\<forall>w \<in> set h. if sig_encoding s = Event then tw_value w = None else tw_events w = 0)"

lemma entry_typed_filter [simp]: "entry_typed s h \<Longrightarrow> entry_typed s (filter P h)"
  by (auto simp: entry_typed_def)

lemma changes_of_times: "c \<in> set (changes_of st h) \<Longrightarrow> ch_time c \<in> tw_time ` set h"
  by (induction st h rule: changes_of.induct) (auto split: option.splits if_splits)

lemma changes_of_filter:
  "increasing h \<Longrightarrow>
    filter (\<lambda>c. ch_time c \<le> t) (changes_of st h) = changes_of st (filter (\<lambda>w. tw_time w \<le> t) h)"
proof (induction st h rule: changes_of.induct)
  case (1 st)
  show ?case by simp
next
  case (2 st w h)
  have inc: "increasing h" and later: "\<forall>x \<in> set h. tw_time w < tw_time x"
    using "2.prems" by (simp_all add: increasing_def)
  show ?case
  proof (cases "tw_time w \<le> t")
    case True
    with "2.IH" inc show ?thesis by (auto split: option.split)
  next
    case False
    then have "filter (\<lambda>w. tw_time w \<le> t) (w # h) = []"
      using later by (auto simp: filter_empty_conv)
    moreover have "filter (\<lambda>c. ch_time c \<le> t) (changes_of st (w # h)) = []"
      using False later changes_of_times [of _ st "w # h"] by (force simp: filter_empty_conv)
    ultimately show ?thesis by simp
  qed
qed

lemma changes_of_sorted:
  "increasing h \<Longrightarrow> sorted_wrt (\<lambda>c d. ch_time c \<le> ch_time d) (changes_of st h)"
proof (induction st h rule: changes_of.induct)
  case (1 st)
  show ?case by simp
next
  case (2 st w h)
  have inc: "increasing h" and later: "\<forall>x \<in> set h. tw_time w < tw_time x"
    using "2.prems" by (simp_all add: increasing_def)
  have "\<forall>c \<in> set (changes_of (apply_write w st) h). tw_time w \<le> ch_time c"
    using later changes_of_times [of _ "apply_write w st" h] by (force intro: less_imp_le)
  with "2.IH" [OF inc] show ?case by (auto simp: sorted_wrt_append split: option.split)
qed

lemma changes_of_search:
  assumes "increasing h"
  shows "partition_point (\<lambda>c. ch_time c \<le> t) (changes_of st h) =
      length (changes_of st (filter (\<lambda>w. tw_time w \<le> t) h)) \<and>
    take (length (changes_of st (filter (\<lambda>w. tw_time w \<le> t) h))) (changes_of st h) =
      changes_of st (filter (\<lambda>w. tw_time w \<le> t) h)"
proof -
  have part: "partitioned (\<lambda>c. ch_time c \<le> t) (changes_of st h)"
    by (rule partitioned_sorted_wrt [OF changes_of_sorted [OF assms]]) simp
  have "takeWhile (\<lambda>c. ch_time c \<le> t) (changes_of st h) = changes_of st (filter (\<lambda>w. tw_time w \<le> t) h)"
    using takeWhile_filter_partitioned [OF part] changes_of_filter [OF assms] by simp
  with partition_point_takeWhile [OF part] show ?thesis
    by (metis takeWhile_eq_take)
qed

text \<open>The held state is that of the last change, dated unless it is the first ever.\<close>

lemma held_over_changes:
  assumes "\<forall>w \<in> set h. tw_events w = 0"
  shows "held_over st h =
    (if changes_of st h = [] then st
     else Some \<lparr>st_value = ch_value (last (changes_of st h)),
                st_changed_at = (if 1 < length (changes_of st h) \<or> st \<noteq> None
                                 then Some (ch_time (last (changes_of st h))) else None)\<rparr>)"
  using assms
proof (induction h arbitrary: st)
  case Nil
  show ?case by simp
next
  case (Cons w h)
  then have ev: "tw_events w = 0" by simp
  have IH: "held_over (apply_write w st) h =
    (let cs = changes_of (apply_write w st) h in
      if cs = [] then apply_write w st
      else Some \<lparr>st_value = ch_value (last cs),
                 st_changed_at = (if 1 < length cs \<or> apply_write w st \<noteq> None
                                  then Some (ch_time (last cs)) else None)\<rparr>)"
    using Cons by (simp add: Let_def)
  show ?case
  proof (cases "\<exists>v. tw_value w = Some v \<and> differs st v")
    case True
    then obtain v where v: "tw_value w = Some v" "differs st v" by blast
    define st1 where "st1 = \<lparr>st_value = v, st_changed_at = (if st \<noteq> None then Some (tw_time w) else None)\<rparr>"
    have aw: "apply_write w st = Some st1"
      using v by (cases st) (simp_all add: apply_write_def update_state_def differs_def st1_def)
    have cs: "changes_of st (w # h) = \<lparr>ch_time = tw_time w, ch_value = v\<rparr> # changes_of (Some st1) h"
      using v ev by (simp add: aw)
    have "held_over st (w # h) = held_over (Some st1) h" by (simp add: aw)
    with IH [unfolded aw] show ?thesis unfolding cs by (simp add: Let_def st1_def)
  next
    case False
    then have "apply_write w st = st"
      by (auto simp: apply_write_def update_not_differs split: option.split)
    with False IH ev show ?thesis by (auto simp: Let_def split: option.split)
  qed
qed

lemma held_after_start:
  assumes "increasing h" and "start \<le> t"
  shows "held h t =
    held_over (held_before h start) (filter (\<lambda>w. start \<le> tw_time w \<and> tw_time w \<le> t) h)"
proof -
  have "filter (\<lambda>w. tw_time w \<le> t) h =
      filter (\<lambda>w. tw_time w < start) h @ filter (\<lambda>w. start \<le> tw_time w \<and> tw_time w \<le> t) h"
    using assms(1)
  proof (induction h)
    case Nil
    show ?case by simp
  next
    case (Cons w h)
    then have inc: "increasing h" and later: "\<forall>x \<in> set h. tw_time w < tw_time x"
      by (simp_all add: increasing_def)
    show ?case
    proof (cases "tw_time w < start")
      case True
      with assms(2) Cons.IH [OF inc] show ?thesis by (simp add: not_le less_imp_le order.trans)
    next
      case False
      then have "filter (\<lambda>w. tw_time w < start) h = []"
        using later by (fastforce simp: filter_empty_conv)
      with False Cons.IH [OF inc] show ?thesis by simp
    qed
  qed
  then show ?thesis by (simp add: held_def held_before_def)
qed

lemma events_of_changes:
  assumes "increasing h" and "\<forall>w \<in> set h. tw_value w = None" and "\<forall>w \<in> set h. tw_time w \<le> t"
  shows "(case changes_of st h of [] \<Rightarrow> 0
          | _ \<Rightarrow> if ch_time (last (changes_of st h)) = t
                 then (case ch_value (last (changes_of st h)) of VEvent n \<Rightarrow> n | _ \<Rightarrow> 0) else 0)
    = events_at h t"
  using assms
proof (induction h arbitrary: st)
  case Nil
  show ?case by (simp add: events_at_def)
next
  case (Cons w h)
  have inc: "increasing h" and later: "\<forall>x \<in> set h. tw_time w < tw_time x"
    using Cons.prems(1) by (simp_all add: increasing_def)
  have none: "tw_value w = None" using Cons.prems(2) by simp
  then have aw: "apply_write w st = st" by (simp add: apply_write_def)
  note IH = Cons.IH [OF inc, of st]
  show ?case
  proof (cases "changes_of st h")
    case Nil
    then have "events_at h t = 0" using IH Cons.prems by simp
    with Nil none aw show ?thesis by (auto simp: events_at_def word_gt_0)
  next
    case (Cons c cs)
    then have "h \<noteq> []" by auto
    then have "tw_time w < t" using later Cons.prems(3) by (cases h) (auto intro: less_le_trans)
    then have "events_at (w # h) t = events_at h t" by (auto simp: events_at_def)
    with Cons IH Cons.prems none aw show ?thesis by (auto split: list.splits)
  qed
qed


lemma increasing_filter [simp]: "increasing h \<Longrightarrow> increasing (filter P h)"
  by (induction h) (auto simp: increasing_def)

lemma events_at_filter:
  "P t \<Longrightarrow> events_at (filter (\<lambda>w. P (tw_time w)) h) t = events_at h t"
  by (induction h) (auto simp: events_at_def)

lemma covers_iff:
  "covers rng t \<longleftrightarrow>
    \<not> (range_is_empty rng \<or> t < range_start rng \<or>
       (case range_end rng of Some stop \<Rightarrow> stop < t | None \<Rightarrow> False))"
  by (auto simp: covers_def range_is_empty_order not_less split: option.splits)

lemma trace_sample_outside:
  "\<not> covers (tr_range tr) t \<Longrightarrow> trace_sample tr t = Inl (TraceCoverage t (tr_range tr))"
  by (simp add: covers_iff trace_sample_def)

lemma trace_sample_inside: "covers (tr_range tr) t \<Longrightarrow> \<exists>sample. trace_sample tr t = Inr sample"
  unfolding covers_iff trace_sample_def Let_def by (simp split: option.split)

lemma trace_sample_point:
  assumes inc: "increasing h" and typed: "entry_typed s h" and cov: "covers rng t"
  shows "trace_sample (trace_of s rng h) t = Inr (point_sample s h t)"
proof -
  let ?start = "range_start rng" and ?st = "held_before h (range_start rng)"
  let ?in = "filter (\<lambda>w. ?start \<le> tw_time w) h"
  let ?upto = "filter (\<lambda>w. ?start \<le> tw_time w \<and> tw_time w \<le> t) h"
  let ?cs = "changes_of ?st ?upto"
  have ne: "\<not> range_is_empty rng" and le: "?start \<le> t"
    using cov by (auto simp: covers_iff not_less)
  have in_inc: "increasing ?in" using inc by simp
  have upto: "filter (\<lambda>w. tw_time w \<le> t) ?in = ?upto" by (simp add: conj_commute)
  have search: "partition_point (\<lambda>c. ch_time c \<le> t) (changes_of ?st ?in) = length ?cs"
    and prefix: "take (length ?cs) (changes_of ?st ?in) = ?cs"
    using changes_of_search [OF in_inc, of t ?st] unfolding upto by simp_all
  have last: "changes_of ?st ?in ! (length ?cs - 1) = last ?cs" if "?cs \<noteq> []"
  proof -
    have "length ?cs - 1 < length ?cs" using that by simp
    then have "changes_of ?st ?in ! (length ?cs - 1) = ?cs ! (length ?cs - 1)"
      using nth_take [of "length ?cs - 1" "length ?cs" "changes_of ?st ?in"] prefix by simp
    then show ?thesis using that by (simp add: last_conv_nth)
  qed
  have held: "held h t = held_over ?st ?upto" by (rule held_after_start [OF inc le])
  have fields: "tr_signal (trace_of s rng h) = s" "tr_range (trace_of s rng h) = rng"
    "tr_initial (trace_of s rng h) = ?st" "tr_changes (trace_of s rng h) = changes_of ?st ?in"
    using ne by (simp_all add: trace_of_def)
  have inside: "\<not> (range_is_empty rng \<or> t < ?start \<or>
      (case range_end rng of Some stop \<Rightarrow> stop < t | None \<Rightarrow> False))"
    using cov by (simp add: covers_iff)
  define cs where "cs = ?cs"
  define change where "change = (if cs = [] then None else Some (last cs))"
  have "(if length cs = 0 then None else Some (changes_of ?st ?in ! (length cs - 1))) = change"
    using last unfolding change_def cs_def by simp
  then have unf: "trace_sample (trace_of s rng h) t =
      (if sig_encoding s = Event then
         Inr (SampleEvent s (case change of
           Some c \<Rightarrow> if ch_time c = t then (case ch_value c of VEvent n \<Rightarrow> n | _ \<Rightarrow> 0) else 0
         | None \<Rightarrow> 0))
       else case change of
         Some c \<Rightarrow> Inr (SampleValue s (ch_value c)
           (if 1 < length cs \<or> ?st \<noteq> None then Some (ch_time c) else None))
       | None \<Rightarrow> (case ?st of
           Some st \<Rightarrow> Inr (SampleValue s (st_value st) (st_changed_at st))
         | None \<Rightarrow> Inr (Missing s)))"
    unfolding trace_sample_def fields if_not_P [OF inside] search Let_def cs_def [symmetric]
    by simp
  show ?thesis
  proof (cases "sig_encoding s = Event")
    case True
    then have none: "\<forall>w \<in> set ?upto. tw_value w = None" using typed by (auto simp: entry_typed_def)
    have "events_at ?upto t = events_at h t"
      using events_at_filter [of "\<lambda>u. ?start \<le> u \<and> u \<le> t" t h] le by simp
    with events_of_changes [OF increasing_filter [OF inc] none, of t ?st]
    have "(case cs of [] \<Rightarrow> 0 | _ \<Rightarrow> if ch_time (last cs) = t
        then (case ch_value (last cs) of VEvent n \<Rightarrow> n | _ \<Rightarrow> 0) else 0) = events_at h t"
      unfolding cs_def by fastforce
    with True show ?thesis
      unfolding unf point_sample_def change_def
      by (cases "cs = []") (simp_all add: list.case_eq_if)
  next
    case False
    then have "\<forall>w \<in> set ?upto. tw_events w = 0" using typed by (auto simp: entry_typed_def)
    from held_over_changes [OF this, of ?st] held
    have "held h t = (if cs = [] then ?st
       else Some \<lparr>st_value = ch_value (last cs),
                  st_changed_at = (if 1 < length cs \<or> ?st \<noteq> None
                                   then Some (ch_time (last cs)) else None)\<rparr>)"
      unfolding cs_def by simp
    with False show ?thesis
      unfolding unf point_sample_def change_def by (cases "cs = []") (simp_all split: option.split)
  qed
qed

end
