(* ===== verification/Ondas_Agreement.thy ===== *)
theory Ondas_Agreement
  imports Ondas_Trace
begin

text \<open>
  The queries agree. A read to an earlier end records a prefix (\<open>recording_prefix\<close>), so
  one history serves them all: point samples, batches of points, traces sampled later and
  the samples a query's callback takes at the current and the preceding tick are all
  \<open>point_sample\<close> of the entry's history.
\<close>

section \<open>Reads to an earlier end\<close>

lemma group_notes_filter:
  assumes "ordered_notes ns" and "\<forall>tk \<in> set (unfinished_ticks cur). fst tk \<le> t \<and> (\<forall>n \<in> set ns. fst tk \<le> note_time n)"
    and "group_notes cur ns = (tks, unfinished, None)"
  shows "\<exists>tks' unfinished'.
    group_notes cur (filter (\<lambda>n. note_time n \<le> t) ns) = (tks', unfinished', None) \<and>
    tks' @ unfinished_ticks unfinished' =
      filter (\<lambda>tk. fst tk \<le> t) (tks @ unfinished_ticks unfinished)"
  using assms
proof (induction ns arbitrary: cur tks)
  case Nil
  then show ?case by (cases cur) auto
next
  case (Cons n ns)
  have ord: "ordered_notes ns" and later: "\<forall>m \<in> set ns. before_note n m"
    using Cons.prems(1) by simp_all
  show ?case
  proof (cases "note_time n \<le> t")
    case False
    have "\<forall>m \<in> set (n # ns). t < note_time m"
      using False later by (auto simp: before_note_def not_le intro: less_le_trans)
    moreover from this have "filter (\<lambda>n. note_time n \<le> t) (n # ns) = []"
      by (auto simp: filter_empty_conv not_le)
    moreover have "filter (\<lambda>tk. fst tk \<le> t) (tks @ unfinished_ticks unfinished) = unfinished_ticks cur"
    proof (cases cur)
      case None
      with group_notes_lower [OF Cons.prems(3), of "\<lambda>u. t < u"] calculation(1)
      show ?thesis by (auto simp: filter_empty_conv not_le)
    next
      case (Some tk)
      obtain t0 rs where tk: "tk = (t0, rs)" by fastforce
      with Some Cons.prems(2) have "t0 \<le> t" by simp
      with calculation(1) have "t0 \<noteq> note_time n" by auto
      obtain tks1 cur1 where c: "tks = tk # tks1" "group_notes cur1 ns = (tks1, unfinished, None)"
        "\<forall>x \<in> set (unfinished_ticks cur1). t < fst x"
      proof (cases n)
        case (TickDone u)
        with that [of "tl tks" None] Some tk Cons.prems(3) show thesis by (auto split: prod.splits)
      next
        case (Observed b obs u p)
        with Some tk Cons.prems(3) \<open>t0 \<noteq> note_time n\<close> obtain v where "obs = Inr v"
          by (cases obs) auto
        with that [of "tl tks" "Some (u, [(b, v)])"] Observed Some tk Cons.prems(3)
          \<open>t0 \<noteq> note_time n\<close> calculation(1)
        show thesis by (auto split: prod.splits)
      qed
      with group_notes_lower [OF c(2), of "\<lambda>u. t < u"] calculation(1) Some \<open>t0 \<le> t\<close> tk
      show ?thesis by (auto simp: filter_empty_conv not_le)
    qed
    ultimately show ?thesis by simp
  next
    case True
    show ?thesis
    proof (cases n)
      case (TickDone u)
      show ?thesis
      proof (cases cur)
        case None
        with Cons.IH [OF ord _ , of None tks] Cons.prems(3) TickDone True show ?thesis by simp
      next
        case (Some tk)
        then obtain tks1 where g: "group_notes None ns = (tks1, unfinished, None)" and tks: "tks = tk # tks1"
          using Cons.prems(3) TickDone by (auto split: prod.splits)
        from Cons.IH [OF ord _ g] Some tks TickDone True Cons.prems(2)
        show ?thesis by (auto split: prod.split)
      qed
    next
      case (Observed b obs u p)
      then have u: "u \<le> t" "\<forall>m \<in> set ns. u \<le> note_time m"
        using True later by (auto simp: before_note_def)
      obtain v where v: "obs = Inr v"
        using Cons.prems(3) Observed by (cases obs; cases cur) (auto split: if_splits)
      show ?thesis
      proof (cases cur)
        case None
        with Cons.IH [OF ord _ , of "Some (u, [(b, v)])" tks] Cons.prems(3) Observed v True u
        show ?thesis by simp
      next
        case (Some tk)
        obtain t0 rs where tk: "tk = (t0, rs)" by fastforce
        show ?thesis
        proof (cases "t0 = u")
          case eq: True
          with Cons.IH [OF ord _ , of "Some (t0, rs @ [(b, v)])" tks] Cons.prems(3) Observed v True u Some tk
          show ?thesis by simp
        next
          case neq: False
          then obtain tks1 where g: "group_notes (Some (u, [(b, v)])) ns = (tks1, unfinished, None)"
            and tks: "tks = tk # tks1"
            using Cons.prems(3) Observed v Some tk by (auto split: prod.splits)
          from Cons.IH [OF ord _ g] neq Observed v True u Some tk tks Cons.prems(2)
          show ?thesis by (auto split: prod.split)
        qed
      qed
    qed
  qed
qed

lemma snapshots_prefix:
  assumes "snapshots sel backend slots tks = (ss, Inr final)" and "sorted_wrt (<) (map fst tks)"
  shows "\<exists>final'. snapshots sel backend slots (filter (\<lambda>tk. fst tk \<le> t) tks) =
    (filter (\<lambda>x. fst x \<le> t) ss, Inr final')"
  using assms
proof (induction tks arbitrary: slots ss)
  case Nil
  then show ?case by simp
next
  case (Cons tk tks)
  obtain u rs where tk: "tk = (u, rs)" by fastforce
  with Cons.prems(1) obtain m ss1 where m: "tick_slots sel backend rs slots = Inr m"
    and rest: "snapshots sel backend (map (commit_slot u) m) tks = (ss1, Inr final)"
    and ss: "ss = (u, m) # ss1"
    by (auto split: sum.splits prod.splits)
  have later: "\<forall>x \<in> set tks. u < fst x" and sorted: "sorted_wrt (<) (map fst tks)"
    using Cons.prems(2) tk by auto
  show ?case
  proof (cases "u \<le> t")
    case True
    with Cons.IH [OF rest sorted] m ss tk show ?thesis by auto
  next
    case False
    have "fst ` set ss1 = fst ` set tks"
      using snapshots_map_fst [OF rest] by (metis set_map)
    then have "\<forall>x \<in> set ss1. u < fst x" using later by (metis image_eqI image_iff)
    then have "filter (\<lambda>x. fst x \<le> t) ss = []" "filter (\<lambda>x. fst x \<le> t) (tk # tks) = []"
      using False later ss tk by (auto simp: filter_empty_conv)
    then show ?thesis by simp
  qed
qed

lemma recording_prefix:
  assumes ok: "session_ok src sel" and rec: "recording src sel stop = Some ss" and le: "t \<le> stop"
  shows "recording src sel t = Some (filter (\<lambda>x. fst x \<le> t) ss)"
proof -
  from rec obtain ns p tks unfinished final where
    r: "src_read src (sel_bases sel) stop None = (ns, Inr p)"
    and g: "group_notes None ns = (tks, unfinished, None)"
    and sn: "snapshots sel (src_backend src) (default_slots sel) (tks @ unfinished_ticks unfinished)
      = (ss, Inr final)"
    by (auto simp: recording_Some_iff)
  have reader: "tick_reader (src_read src)" using ok by (simp add: session_ok_def)
  obtain q where q: "src_read src (sel_bases sel) t None = (filter (\<lambda>n. note_time n \<le> t) ns, Inr q)"
    using tick_reader.read_prefix [OF reader r le] by blast
  have ord: "ordered_notes ns" using tick_reader.read_ordered [OF reader, of "sel_bases sel" stop] r by simp
  obtain tks' unfinished' where g': "group_notes None (filter (\<lambda>n. note_time n \<le> t) ns) = (tks', unfinished', None)"
    and f: "tks' @ unfinished_ticks unfinished' = filter (\<lambda>tk. fst tk \<le> t) (tks @ unfinished_ticks unfinished)"
    using group_notes_filter [OF ord _ g, of t] by auto
  have "sorted_wrt (<) (map fst (tks @ unfinished_ticks unfinished))"
    using group_notes_increasing [OF g ord] by simp
  from snapshots_prefix [OF sn this, of t] obtain final' where
    "snapshots sel (src_backend src) (default_slots sel) (tks' @ unfinished_ticks unfinished') =
      (filter (\<lambda>x. fst x \<le> t) ss, Inr final')"
    unfolding f by blast
  with q g' show ?thesis unfolding recording_Some_iff by blast
qed

lemma point_sample_filter:
  assumes "t \<le> t'"
  shows "point_sample s (filter (\<lambda>w. tw_time w \<le> t') h) t = point_sample s h t"
proof -
  have "held (filter (\<lambda>w. tw_time w \<le> t') h) t = held h t"
    using assms by (auto simp: held_def intro!: arg_cong [where f = "held_over None"] filter_cong)
  moreover have "events_at (filter (\<lambda>w. tw_time w \<le> t') h) t = events_at h t"
    using events_at_filter [of "\<lambda>u. u \<le> t'" t h] assms by simp
  ultimately show ?thesis by (simp add: point_sample_def)
qed

lemma entry_history_filter:
  "entry_history sel (filter (\<lambda>x. fst x \<le> t) ss) i = filter (\<lambda>w. tw_time w \<le> t) (entry_history sel ss i)"
  using filter_slot_history [of "\<lambda>u. u \<le> t"] by (simp add: entry_history_def)

lemma default_slots_caches [simp]:
  "default_slots (sel\<lparr>sel_replay := a, sel_checkpoint := c\<rparr>) = default_slots sel"
  by (simp add: default_slots_def)

lemma recording_caches [simp]:
  "recording src (sel\<lparr>sel_replay := a, sel_checkpoint := c\<rparr>) stop = recording src sel stop"
  unfolding recording_def snapshots_caches default_slots_caches by simp

section \<open>Batches of points\<close>

text \<open>
  The row a batch stores for a requested tick: every entry's sample, taken from the first
  completed tick at or after it, or from the final state.
\<close>

definition point_row :: "selection \<Rightarrow> (time \<times> slot list) list \<Rightarrow> time \<Rightarrow> sample list" where
  "point_row sel ss t =
    map (\<lambda>i. point_sample (sel_signals sel ! i) (entry_history sel ss i) t) [0..<length (sel_signals sel)]"

lemma slot_sample_tick:
  assumes mark: "mark_changed c = c" and can: "canonical_slot c"
    and st: "slot_state c = held_before h t"
    and w: "\<lparr>tw_time = t, tw_value = slot_pending c, tw_events = slot_events c\<rparr> \<in> set h"
    and inc: "increasing h"
  shows "slot_sample c s (Some t) = point_sample s h t"
proof (cases "sig_encoding s = Event")
  case True
  with events_at_increasing [OF inc w] show ?thesis by (simp add: slot_sample_def point_sample_def)
next
  case False
  let ?w = "\<lparr>tw_time = t, tw_value = slot_pending c, tw_events = slot_events c\<rparr>"
  have "filter (\<lambda>w. t \<le> tw_time w) (filter (\<lambda>w. tw_time w \<le> t) h) = [?w]"
  proof -
    from increasing_filter_le [OF increasing_filter [OF inc], of "\<lambda>w. tw_time w \<le> t" t] w
    obtain w' where w': "filter (\<lambda>w. t \<le> tw_time w) (filter (\<lambda>w. tw_time w \<le> t) h) = [w']" by fastforce
    moreover have "?w \<in> set (filter (\<lambda>w. t \<le> tw_time w) (filter (\<lambda>w. tw_time w \<le> t) h))"
      using w by simp
    ultimately show ?thesis by simp
  qed
  then have "filter (\<lambda>w. t \<le> tw_time w \<and> tw_time w \<le> t) h = [?w]" by (simp add: conj_commute)
  with held_after_start [OF inc, of t t] have held: "held h t = apply_write ?w (held_before h t)" by simp
  have "slot_changed c = (case slot_pending c of Some v \<Rightarrow> differs (slot_state c) v | None \<Rightarrow> False)"
    using mark by (metis mark_changed_def slot.select_convs(3) slot.surjective slot.update_convs(3))
  with False held st can show ?thesis
    by (auto simp: slot_sample_def point_sample_def apply_write_def update_state_def differs_def
        canonical_slot_def canonical_same Let_def split: option.splits)
qed


lemma slot_sample_quiet:
  assumes "slot_state c = held h t" and "events_at h t = 0"
  shows "slot_sample c s None = point_sample s h t"
  using assms by (auto simp: slot_sample_def point_sample_def Let_def split: option.splits)

lemma observe_row_alt:
  assumes "slots_in_range sel"
  shows "observe_row sel slots tick =
    map (\<lambda>i. slot_sample (slots ! (sel_slot_indices sel ! i)) (sel_signals sel ! i) tick)
      [0..<length (sel_signals sel)]"
  using assms by (intro nth_equalityI) (simp_all add: observe_row_def slots_in_range_def)

lemma held_no_ticks:
  assumes "increasing h" and "\<forall>w \<in> set h. \<not> (t \<le> tw_time w \<and> tw_time w < u)" and "t \<le> u"
  shows "held_before h u = held_before h t"
proof -
  have "filter (\<lambda>w. tw_time w < u) h = filter (\<lambda>w. tw_time w < t) h"
    using assms(2,3) by (intro filter_cong) (auto simp: not_le)
  then show ?thesis by (simp add: held_before_def)
qed

text \<open>The vector of a tick, in terms of the histories of the whole recording.\<close>

lemma chain_tick:
  assumes chain: "chain (default_slots sel) (before @ (t, m) # rest)"
    and inc: "sorted_wrt (<) (map fst (before @ (t, m) # rest))"
    and k: "k < length (sel_retained sel)"
  defines "h \<equiv> slot_history k (before @ (t, m) # rest)"
  shows "mark_changed (m ! k) = m ! k" and "canonical_slot (m ! k)"
    and "slot_state (m ! k) = held_before h t"
    and "\<lparr>tw_time = t, tw_value = slot_pending (m ! k), tw_events = slot_events (m ! k)\<rparr> \<in> set h"
    and "increasing h" and "length m = length (sel_retained sel)"
proof -
  let ?e = "chain_end (default_slots sel) before"
  have ch: "chain (default_slots sel) before" and rest: "chain ?e ((t, m) # rest)"
    using chain by (simp_all only: chain_append)
  have len: "length ?e = length (sel_retained sel)"
    using length_chain_end [OF ch] by (simp add: default_slots_def)
  from rest len k show "mark_changed (m ! k) = m ! k" "canonical_slot (m ! k)"
    "length m = length (sel_retained sel)" by simp_all
  have "filter (\<lambda>x. fst x < t) (before @ (t, m) # rest) = before"
    using inc by (auto simp: sorted_wrt_append filter_id_conv filter_empty_conv not_less intro: less_imp_le)
  then have "held_before h t = held_over None (slot_history k before)"
    unfolding h_def held_before_history by simp
  moreover have "slot_state (m ! k) = slot_state (?e ! k)" using rest len k by simp
  ultimately show "slot_state (m ! k) = held_before h t" using chain_held [OF ch k] by simp
  show "\<lparr>tw_time = t, tw_value = slot_pending (m ! k), tw_events = slot_events (m ! k)\<rparr> \<in> set h"
    by (simp add: h_def)
  show "increasing h" using inc by (simp add: h_def increasing_def)
qed

lemma observe_row_tick:
  assumes chain: "chain (default_slots sel) (before @ (t, m) # rest)"
    and inc: "sorted_wrt (<) (map fst (before @ (t, m) # rest))" and idx: "slots_in_range sel"
    and le: "a \<le> t" and late: "\<forall>x \<in> set before. fst x < a"
  shows "observe_row sel m (if a = t then Some t else None) = point_row sel (before @ (t, m) # rest) a"
  unfolding observe_row_alt [OF idx] point_row_def
proof (rule map_cong [OF refl])
  fix i assume "i \<in> set [0..<length (sel_signals sel)]"
  then have k: "sel_slot_indices sel ! i < length (sel_retained sel)"
    using idx by (simp add: slots_in_range_def)
  let ?k = "sel_slot_indices sel ! i" and ?s = "sel_signals sel ! i"
  let ?h = "slot_history ?k (before @ (t, m) # rest)"
  note T = chain_tick [OF chain inc k]
  have eh: "entry_history sel (before @ (t, m) # rest) i = ?h" by (simp add: entry_history_def)
  show "slot_sample (m ! ?k) ?s (if a = t then Some t else None) =
      point_sample ?s (entry_history sel (before @ (t, m) # rest) i) a"
  proof (cases "a = t")
    case True
    with slot_sample_tick [OF T(1-5), of ?s] show ?thesis by (simp add: eh)
  next
    case False
    with le have less: "a < t" by simp
    have gap: "\<forall>w \<in> set ?h. tw_time w < a \<or> t \<le> tw_time w"
      using inc late by (fastforce simp: slot_history_def sorted_wrt_append intro: less_imp_le)
    have "tw_time w \<le> a \<longleftrightarrow> tw_time w < t" if "w \<in> set ?h" for w
    proof -
      from gap that have "tw_time w < a \<or> t \<le> tw_time w" by blast
      with less show ?thesis by auto
    qed
    then have "filter (\<lambda>w. tw_time w \<le> a) ?h = filter (\<lambda>w. tw_time w < t) ?h"
      by (intro filter_cong) simp_all
    then have "held ?h a = held_before ?h t" by (simp add: held_def held_before_def)
    moreover have "events_at ?h a = 0" using gap less by (intro events_at_notin) auto
    ultimately show ?thesis using False T(3) by (simp add: eh slot_sample_quiet)
  qed
qed

lemma observe_row_end:
  assumes chain: "chain (default_slots sel) ss" and idx: "slots_in_range sel"
    and late: "\<forall>x \<in> set ss. fst x < a"
  shows "observe_row sel (chain_end (default_slots sel) ss) None = point_row sel ss a"
  unfolding observe_row_alt [OF idx] point_row_def
proof (rule map_cong [OF refl])
  fix i assume "i \<in> set [0..<length (sel_signals sel)]"
  then have k: "sel_slot_indices sel ! i < length (sel_retained sel)"
    using idx by (simp add: slots_in_range_def)
  let ?h = "entry_history sel ss i"
  have times: "\<forall>w \<in> set ?h. tw_time w < a"
    using late by (auto simp: entry_history_def slot_history_def)
  then have "held ?h a = held_over None ?h" by (intro held_all) (simp add: less_imp_le)
  moreover have "events_at ?h a = 0" using times by (intro events_at_notin) auto
  ultimately show "slot_sample (chain_end (default_slots sel) ss ! (sel_slot_indices sel ! i))
      (sel_signals sel ! i) None = point_sample (sel_signals sel ! i) ?h a"
    using chain_held [OF chain k] by (simp add: slot_sample_quiet entry_history_def)
qed


lemma fill_rows_spec:
  assumes "\<And>i. i \<in> set order \<Longrightarrow> asked ! i \<le> time \<Longrightarrow>
      observe_row sel slots (if asked ! i = time then Some time else None) = row (asked ! i)"
    and "\<forall>i \<in> set order. fst (rows ! i) = asked ! i" and "\<forall>i \<in> set order. i < length rows"
  shows "fill_rows sel asked time slots order rows =
    (dropWhile (\<lambda>i. asked ! i \<le> time) order,
     fold (\<lambda>i rows. rows[i := (asked ! i, row (asked ! i))])
       (takeWhile (\<lambda>i. asked ! i \<le> time) order) rows)"
  using assms
proof (induction order arbitrary: rows)
  case Nil
  then show ?case by simp
next
  case (Cons i order)
  show ?case
  proof (cases "asked ! i \<le> time")
    case False
    then show ?thesis by simp
  next
    case True
    have "fill_rows sel asked time slots (i # order) rows =
        fill_rows sel asked time slots order (rows[i := (asked ! i, row (asked ! i))])"
      using Cons.prems True by simp
    moreover have "\<forall>j \<in> set order. fst (rows[i := (asked ! i, row (asked ! i))] ! j) = asked ! j"
      using Cons.prems(2,3) by (auto simp: nth_update_any)
    ultimately show ?thesis using Cons True by simp
  qed
qed

lemma fold_update_length [simp]: "length (fold (\<lambda>i rows. rows[i := R i]) js rows) = length rows"
  by (induction js arbitrary: rows) simp_all

lemma fold_update_nth:
  "i < length rows \<Longrightarrow>
    fold (\<lambda>i rows. rows[i := R i]) js rows ! i = (if i \<in> set js then R i else rows ! i)"
  by (induction js arbitrary: rows) (auto simp: nth_update_any)

definition batch_step ::
    "selection \<Rightarrow> time list \<Rightarrow> (nat list \<times> (time \<times> sample list) list, unit) tick_visitor" where
  "batch_step sel asked ors time slots =
    (case ors of (order, rows) \<Rightarrow> (fill_rows sel asked time slots order rows, Inr Continue))"

lemma visit_all_batch:
  assumes chain: "chain (default_slots sel) (before @ ss)"
    and inc: "sorted_wrt (<) (map fst (before @ ss))" and idx: "slots_in_range sel"
    and order: "sorted (map ((!) asked) order)" "\<forall>i \<in> set order. i < length rows"
    and late: "\<forall>i \<in> set order. \<forall>x \<in> set before. fst x < asked ! i"
    and rows: "length rows = length asked" "\<forall>i < length rows. fst (rows ! i) = asked ! i"
  shows "\<exists>filled left.
    visit_all None (batch_step sel asked) (order, rows) ss =
      ((left, fold (\<lambda>i rows. rows[i := (asked ! i, point_row sel (before @ ss) (asked ! i))])
         filled rows), Inr Continue) \<and>
    order = filled @ left \<and> (\<forall>i \<in> set left. \<forall>x \<in> set (before @ ss). fst x < asked ! i)"
  using assms
proof (induction ss arbitrary: before order rows)
  case Nil
  then show ?case by (intro exI [of _ "[]"] exI [of _ order]) simp
next
  case (Cons x ss)
  obtain t m where x: "x = (t, m)" by fastforce
  let ?all = "before @ x # ss"
  let ?R = "\<lambda>i. (asked ! i, point_row sel ?all (asked ! i))"
  let ?now = "takeWhile (\<lambda>i. asked ! i \<le> t) order" and ?later = "dropWhile (\<lambda>i. asked ! i \<le> t) order"
  let ?rows = "fold (\<lambda>i rows. rows[i := ?R i]) ?now rows"
  have "observe_row sel m (if asked ! i = t then Some t else None) = point_row sel ?all (asked ! i)"
    if "i \<in> set order" "asked ! i \<le> t" for i
    using Cons.prems(1,2,3,6) that unfolding x by (intro observe_row_tick) auto
  then have fill: "fill_rows sel asked t m order rows = (?later, ?rows)"
    using Cons.prems by (intro fill_rows_spec) auto
  have later_set: "i \<in> set ?later \<Longrightarrow> i \<in> set order" for i by (rule set_dropWhileD)
  have "sorted_wrt (\<lambda>i j. asked ! i \<le> asked ! j) order"
    using Cons.prems(4) by (simp add: sorted_map)
  then have "partitioned (\<lambda>i. asked ! i \<le> t) order"
    by (rule partitioned_sorted_wrt) (rule order.trans)
  then have beyond: "\<forall>i \<in> set ?later. t < asked ! i" by (simp add: partitioned_def not_le)
  have sorted_later: "sorted (map ((!) asked) ?later)"
    using Cons.prems(4) by (metis dropWhile_eq_drop drop_map sorted_wrt_drop)
  have "\<exists>filled left.
      visit_all None (batch_step sel asked) (?later, ?rows) ss =
        ((left, fold (\<lambda>i rows. rows[i := (asked ! i, point_row sel ((before @ [x]) @ ss) (asked ! i))])
           filled ?rows), Inr Continue) \<and>
      ?later = filled @ left \<and> (\<forall>i \<in> set left. \<forall>y \<in> set ((before @ [x]) @ ss). fst y < asked ! i)"
  proof (rule Cons.IH)
    show "chain (default_slots sel) ((before @ [x]) @ ss)" using Cons.prems(1) by simp
    show "sorted_wrt (<) (map fst ((before @ [x]) @ ss))" using Cons.prems(2) by simp
    show "slots_in_range sel" by (rule Cons.prems(3))
    show "sorted (map ((!) asked) ?later)" by (rule sorted_later)
    show "\<forall>i \<in> set ?later. i < length ?rows" using Cons.prems(5) later_set by auto
    show "\<forall>i \<in> set ?later. \<forall>y \<in> set (before @ [x]). fst y < asked ! i"
      using Cons.prems(6) later_set beyond x by auto
    show "length ?rows = length asked" using Cons.prems(7) by simp
    show "\<forall>i < length ?rows. fst (?rows ! i) = asked ! i"
      using Cons.prems(8) by (simp add: fold_update_nth)
  qed
  then obtain filled left where rest: "visit_all None (batch_step sel asked) (?later, ?rows) ss =
      ((left, fold (\<lambda>i rows. rows[i := ?R i]) filled ?rows), Inr Continue)"
    and split: "?later = filled @ left" and last: "\<forall>i \<in> set left. \<forall>y \<in> set ?all. fst y < asked ! i"
    by auto
  have "visit_all None (batch_step sel asked) (order, rows) (x # ss) =
      ((left, fold (\<lambda>i rows. rows[i := ?R i]) (?now @ filled) rows), Inr Continue)"
    using rest by (simp add: x visited_def batch_step_def fill)
  moreover have "order = (?now @ filled) @ left" using split by (metis append_assoc takeWhile_dropWhile_id)
  ultimately show ?case using last by blast
qed


lemma samples_at_spec:
  assumes sort: "unstable_sort sort_by" and ok: "session_ok src sel" and idx: "slots_in_range sel"
    and signals: "sel_signals sel \<noteq> []" and asked: "asked \<noteq> []"
    and rec: "recording src sel (Max (set asked)) = Some ss"
  shows "\<exists>sel'. samples_at sort_by src sel asked =
      (sel', Inr (map (\<lambda>t. (t, point_row sel ss t)) asked)) \<and> session_ok src sel'"
proof -
  let ?order = "sort_by ((!) asked) [0..<length asked]"
  let ?rows = "map (\<lambda>time. (time, [])) asked :: (time \<times> sample list) list"
  let ?R = "\<lambda>i. (asked ! i, point_row sel ss (asked ! i))"
  have set_order: "set ?order = {..<length asked}"
    by (simp add: unstable_sort.set_sort_by [OF sort] atLeast0LessThan)
  have stop: "asked ! last ?order = Max (set asked)"
  proof (rule sym, rule Max_eqI)
    show "finite (set asked)" by simp
    have "set ?order \<noteq> {}" unfolding set_order using asked by auto
    then have "?order \<noteq> []" by (simp only: set_empty not_False_eq_True)
    then have "last ?order \<in> set ?order" by (rule last_in_set)
    then have "last ?order < length asked" unfolding set_order by simp
    then show "asked ! last ?order \<in> set asked" by simp
    fix t assume "t \<in> set asked"
    then obtain i where "i < length asked" "t = asked ! i" by (auto simp: in_set_conv_nth)
    then have "[0..<length asked] \<noteq> []" "i \<in> set [0..<length asked]" by auto
    from unstable_sort.last_sort_by [OF sort this, of "(!) asked"] \<open>t = asked ! i\<close>
    show "t \<le> asked ! last ?order" by (simp only:)
  qed
  obtain sel' slots lr flow where run': "read_ticks_from src sel None (Max (set asked))
      (default_slots sel) (batch_step sel asked) (?order, ?rows) = (sel', slots, lr, flow)"
    by (rule prod_cases4)
  obtain left rows' where lr: "lr = (left, rows')" by fastforce
  note run = run' [unfolded lr]
  note R = read_ticks_recorded [OF ok rec run]
  note ch = recording_chain [OF ok rec] and inc = recording_increasing [OF ok rec]
  from visit_all_batch [of sel "[]" ss asked ?order ?rows] ch inc idx set_order
    unstable_sort.sorted_sort_by [OF sort, of "(!) asked" "[0..<length asked]"]
  obtain filled left' where v: "visit_all None (batch_step sel asked) (?order, ?rows) ss =
      ((left', fold (\<lambda>i rows. rows[i := ?R i]) filled ?rows), Inr Continue)"
    and split: "?order = filled @ left'" and late: "\<forall>i \<in> set left'. \<forall>x \<in> set ss. fst x < asked ! i"
    by auto
  from R v have flow: "flow = Inr Continue" "left = left'"
    and rows': "rows' = fold (\<lambda>i rows. rows[i := ?R i]) filled ?rows"
    and slots: "slots = chain_end (default_slots sel) ss" and ok': "session_ok src sel'" by simp_all
  have step: "(\<lambda>(order, rows) time slots.
      (fill_rows sel asked time slots order rows, Inr (Continue :: unit flow))) = batch_step sel asked"
    by (intro ext) (simp add: batch_step_def split: prod.split)
  have final: "fold (\<lambda>i rows. rows[i := (fst (rows ! i), observe_row sel slots None)]) js rows =
      fold (\<lambda>i rows. rows[i := ?R i]) js rows"
    if "set js \<subseteq> set left'" "length rows = length asked" "\<forall>i < length rows. fst (rows ! i) = asked ! i"
    for js rows
    using that
  proof (induction js arbitrary: rows)
    case Nil
    show ?case by simp
  next
    case (Cons j js)
    have j: "j < length rows" using Cons.prems(1,2) set_order split by auto
    have "observe_row sel slots None = point_row sel ss (asked ! j)"
      unfolding slots using late Cons.prems(1) by (intro observe_row_end [OF ch idx]) auto
    with Cons.IH [of "rows[j := ?R j]"] Cons.prems j show ?case by (simp add: nth_update_any)
  qed
  have rows: "length rows' = length asked" "\<forall>i < length rows'. fst (rows' ! i) = asked ! i"
    by (simp_all add: rows' fold_update_nth)
  have "fold (\<lambda>i rows. rows[i := ?R i]) left' rows' = map ?R [0..<length asked]"
  proof (intro nth_equalityI)
    show "length (fold (\<lambda>i rows. rows[i := ?R i]) left' rows') = length (map ?R [0..<length asked])"
      by (simp add: rows)
    fix i assume "i < length (fold (\<lambda>i rows. rows[i := ?R i]) left' rows')"
    then have i: "i < length asked" by (simp add: rows)
    then have "i \<in> set filled \<union> set left'" using set_order split by (metis lessThan_iff set_append)
    with i show "fold (\<lambda>i rows. rows[i := ?R i]) left' rows' ! i = map ?R [0..<length asked] ! i"
      by (auto simp: fold_update_nth rows rows')
  qed
  also have "\<dots> = map (\<lambda>t. (t, point_row sel ss t)) asked"
    by (intro nth_equalityI) simp_all
  finally have "fold (\<lambda>i rows. rows[i := (fst (rows ! i), observe_row sel slots None)]) left' rows' =
      map (\<lambda>t. (t, point_row sel ss t)) asked"
    using final [of left' rows'] rows by simp
  with ok' flow asked signals run stop show ?thesis
    unfolding samples_at_def Let_def step by simp
qed

end
