(* ===== verification/Ondas_Query.thy ===== *)
theory Ondas_Query
  imports Ondas_Agreement
begin

text \<open>
  Queries. \<open>contexts\<close> is the list of contexts a recording gives: one per completed tick
  inside the range at which a driver entry has a record, with the preceding tick and its
  event counts. \<open>query_contexts\<close> shows that \<open>query\<close> runs the callback over that list;
  \<open>context_samples\<close> that each context answers with the point samples of its own tick and
  of the tick immediately before it.
\<close>

fun contexts ::
    "selection \<Rightarrow> time_range \<Rightarrow> nat list \<Rightarrow> time option \<times> u64 list \<Rightarrow> (time \<times> slot list) list \<Rightarrow>
     query_context list" where
  "contexts sel rng drivers prev [] = []"
| "contexts sel rng drivers prev ((t, m) # ss) =
    (if range_start rng \<le> t \<and> driven sel drivers m then
       [\<lparr>ctx_time = t, ctx_signals = sel_signals sel, ctx_slots = m,
         ctx_slot_indices = sel_slot_indices sel, ctx_previous_tick = fst prev,
         ctx_previous_events = snd prev\<rparr>]
     else []) @
    contexts sel rng drivers (Some t, map slot_events m) ss"

fun run_contexts ::
    "('s \<Rightarrow> query_context \<Rightarrow> 's \<times> (error + 'b flow)) \<Rightarrow> query_context list \<Rightarrow> 's \<Rightarrow>
     's \<times> (error + 'b flow)" where
  "run_contexts visitor [] s = (s, Inr Continue)"
| "run_contexts visitor (ctx # ctxs) s =
    (let (s', flow) = visitor s ctx
     in if continues flow then run_contexts visitor ctxs s' else (s', flow))"

text \<open>The ticks the traversal of a query shows: those from just before the range on.\<close>

definition shown_from :: "time option \<Rightarrow> time \<Rightarrow> bool" where
  "shown_from start t \<longleftrightarrow> (case start of None \<Rightarrow> True | Some p \<Rightarrow> p \<le> t)"

lemma visited_shown:
  "visited start visitor s t m = (if shown_from start t then visitor s t m else (s, Inr Continue))"
  by (simp add: visited_def shown_from_def)

definition from_pred :: "time_range \<Rightarrow> (time \<times> slot list) list \<Rightarrow> (time \<times> slot list) list" where
  "from_pred rng ss =
    filter (\<lambda>x. shown_from (time_pred (range_start rng)) (fst x)) ss"

definition query_contexts ::
    "selection \<Rightarrow> time_range \<Rightarrow> nat list \<Rightarrow> (time \<times> slot list) list \<Rightarrow> query_context list" where
  "query_contexts sel rng drivers ss =
    contexts sel rng drivers (None, replicate (length (sel_retained sel)) 0) (from_pred rng ss)"

lemma query_tick_quiet:
  "\<not> (range_start rng \<le> t \<and> driven sel drivers m) \<Longrightarrow>
    query_tick sel rng drivers visitor (prev, s) t m = (((Some t, map slot_events m), s), Inr Continue)"
  by (cases prev) (auto simp: query_tick_def)

lemma query_tick_driven:
  "range_start rng \<le> t \<Longrightarrow> driven sel drivers m \<Longrightarrow>
    query_tick sel rng drivers visitor (prev, s) t m =
      (case visitor s \<lparr>ctx_time = t, ctx_signals = sel_signals sel, ctx_slots = m,
         ctx_slot_indices = sel_slot_indices sel, ctx_previous_tick = fst prev,
         ctx_previous_events = snd prev\<rparr> of
       (s', flow) \<Rightarrow> if flow = Inr Continue then (((Some t, map slot_events m), s'), Inr Continue)
                    else ((prev, s'), flow))"
  by (cases prev) (auto simp: query_tick_def split: prod.split)

lemma visit_all_query:
  fixes visitor :: "'s \<Rightarrow> query_context \<Rightarrow> 's \<times> (error + 'b flow)"
  shows "\<exists>prev'. visit_all start (query_tick sel rng drivers visitor) (prev, s) ss =
    (case run_contexts visitor
        (contexts sel rng drivers prev
          (filter (\<lambda>x. shown_from start (fst x)) ss)) s of
       (s', flow) \<Rightarrow> ((prev', s'), flow))"
proof (induction ss arbitrary: prev s)
  case Nil
  then show ?case by simp
next
  case (Cons x ss)
  obtain t m where x: "x = (t, m)" by fastforce
  show ?case
  proof (cases "shown_from start t")
    case False
    with Cons.IH [of prev s] x show ?thesis by (simp add: visited_shown)
  next
    case True
    show ?thesis
    proof (cases "range_start rng \<le> t \<and> driven sel drivers m")
      case False
      with Cons.IH [of "(Some t, map slot_events m)" s] x True show ?thesis
        by (auto simp: visited_shown query_tick_quiet)
    next
      case run: True
      obtain s1 flow where v: "visitor s \<lparr>ctx_time = t, ctx_signals = sel_signals sel, ctx_slots = m,
         ctx_slot_indices = sel_slot_indices sel, ctx_previous_tick = fst prev,
         ctx_previous_events = snd prev\<rparr> = (s1, flow)" by fastforce
      with Cons.IH [of "(Some t, map slot_events m)" s1] x True run show ?thesis
        by (auto simp: visited_shown query_tick_driven)
    qed
  qed
qed

lemma validate_indices_ok: "\<forall>i \<in> set is. i < n \<Longrightarrow> validate_indices n is = Inr ()"
  by (simp del: One_nat_def)

lemma query_runs_contexts:
  fixes visitor :: "'s \<Rightarrow> query_context \<Rightarrow> 's \<times> (error + 'b flow)"
  assumes ok: "session_ok src sel" and drivers: "\<forall>i \<in> set drivers. i < length (sel_signals sel)"
    and range: "\<not> range_is_empty rng" "range_start rng \<le> query_end src rng" and ne: "drivers \<noteq> []"
    and rec: "recording src sel (query_end src rng) = Some ss"
  shows "\<exists>sel'. query src sel rng drivers visitor s =
    (case run_contexts visitor (query_contexts sel rng drivers ss) s of
       (s', flow) \<Rightarrow> (sel', s', flow)) \<and> session_ok src sel'"
proof -
  let ?prev = "(None, replicate (length (sel_retained sel)) 0)"
  obtain sel' slots ps flow where run': "read_ticks_from src sel (time_pred (range_start rng))
      (query_end src rng) (default_slots sel) (query_tick sel rng drivers visitor) (?prev, s) =
      (sel', slots, ps, flow)"
    by (rule prod_cases4)
  obtain prev s' where ps: "ps = (prev, s')" by fastforce
  note run = run' [unfolded ps]
  note R = read_ticks_recorded [OF ok rec run]
  obtain prev' where v: "visit_all (time_pred (range_start rng)) (query_tick sel rng drivers visitor)
      (?prev, s) ss = (case run_contexts visitor (query_contexts sel rng drivers ss) s of
       (s', flow) \<Rightarrow> ((prev', s'), flow))"
    using visit_all_query [of "time_pred (range_start rng)" sel rng drivers visitor ?prev s ss]
    unfolding query_contexts_def from_pred_def by blast
  obtain s2 f2 where rc: "run_contexts visitor (query_contexts sel rng drivers ss) s = (s2, f2)"
    by fastforce
  have "((prev, s'), flow) = ((prev', s2), f2)" and ok': "session_ok src sel'"
    using R v rc by simp_all
  then have "query src sel rng drivers visitor s = (sel', s2, f2)"
    using range(1) leD [OF range(2)] ne run
    unfolding query_def validate_indices_ok [OF drivers] by (simp add: Let_def)
  with rc ok' show ?thesis by (intro exI [of _ sel']) simp
qed

text \<open>Every context of the list: its tick, and the tick before it in the list.\<close>

lemma contexts_split:
  "ctx \<in> set (contexts sel rng drivers prev vs) \<Longrightarrow>
    \<exists>b t m r. vs = b @ (t, m) # r \<and> range_start rng \<le> t \<and> driven sel drivers m \<and>
      ctx = \<lparr>ctx_time = t, ctx_signals = sel_signals sel, ctx_slots = m,
         ctx_slot_indices = sel_slot_indices sel,
         ctx_previous_tick = (if b = [] then fst prev else Some (fst (last b))),
         ctx_previous_events = (if b = [] then snd prev else map slot_events (snd (last b)))\<rparr>"
proof (induction vs arbitrary: prev)
  case Nil
  then show ?case by simp
next
  case (Cons x vs)
  obtain t m where x: "x = (t, m)" by fastforce
  show ?case
  proof (cases "ctx \<in> set (contexts sel rng drivers (Some t, map slot_events m) vs)")
    case True
    from Cons.IH [OF True, unfolded fst_conv snd_conv] obtain b t' m' r where
      "vs = b @ (t', m') # r" "range_start rng \<le> t'" "driven sel drivers m'"
      "ctx = \<lparr>ctx_time = t', ctx_signals = sel_signals sel, ctx_slots = m',
         ctx_slot_indices = sel_slot_indices sel,
         ctx_previous_tick = (if b = [] then Some t else Some (fst (last b))),
         ctx_previous_events = (if b = [] then map slot_events m else map slot_events (snd (last b)))\<rparr>"
      by (elim exE conjE) (rule that)
    then show ?thesis using x by (intro exI [of _ "x # b"] exI [of _ t'] exI [of _ m'] exI [of _ r]) simp
  next
    case False
    with Cons.prems x show ?thesis
      by (intro exI [of _ "[]"] exI [of _ t] exI [of _ m] exI [of _ vs]) (auto split: if_splits)
  qed
qed

lemma context_sample_now:
  "context_sample ctx (ctx_time ctx) i =
    slot_sample (ctx_slots ctx ! (ctx_slot_indices ctx ! i)) (ctx_signals ctx ! i) (Some (ctx_time ctx))"
  by (simp add: context_sample_def Let_def split: sample.split)

lemma context_sample_before:
  "t \<noteq> ctx_time ctx \<Longrightarrow>
    context_sample ctx t i =
      (let s = ctx_signals ctx ! i; k = ctx_slot_indices ctx ! i
       in if sig_encoding s = Event then
            SampleEvent s (if ctx_previous_tick ctx = Some t then ctx_previous_events ctx ! k else 0)
          else slot_sample (ctx_slots ctx ! k) s None)"
  by (auto simp: context_sample_def Let_def slot_sample_def split: option.split)

lemma context_samples:
  assumes chain: "chain (default_slots sel) ss" and inc: "sorted_wrt (<) (map fst ss)"
    and idx: "slots_in_range sel" and ctx: "ctx \<in> set (query_contexts sel rng drivers ss)"
    and i: "i < length (sel_signals sel)"
    and t: "t = ctx_time ctx \<or> time_pred (ctx_time ctx) = Some t"
  shows "context_sample ctx t i = point_sample (sel_signals sel ! i) (entry_history sel ss i) t"
proof -
  let ?k = "sel_slot_indices sel ! i" and ?s = "sel_signals sel ! i"
  let ?low = "shown_from (time_pred (range_start rng))"
  have k: "?k < length (sel_retained sel)" using idx i by (simp add: slots_in_range_def)
  from ctx obtain b T m r where vs: "from_pred rng ss = b @ (T, m) # r" and start: "range_start rng \<le> T"
    and c: "ctx = \<lparr>ctx_time = T, ctx_signals = sel_signals sel, ctx_slots = m,
         ctx_slot_indices = sel_slot_indices sel,
         ctx_previous_tick = (if b = [] then None else Some (fst (last b))),
         ctx_previous_events = (if b = [] then replicate (length (sel_retained sel)) 0
           else map slot_events (snd (last b)))\<rparr>"
    using contexts_split [OF ctx [unfolded query_contexts_def]] unfolding fst_conv snd_conv
    by (elim exE conjE) (rule that)
  have "(T, m) \<in> set ss" using vs by (metis filter_is_subset from_pred_def in_set_conv_decomp subsetD)
  then obtain before rest where ss: "ss = before @ (T, m) # rest" by (auto simp: in_set_conv_decomp)
  note CT = chain_tick [OF chain [unfolded ss] inc [unfolded ss] k]
  let ?h = "slot_history ?k ss"
  have eh: "entry_history sel ss i = ?h" by (simp add: entry_history_def)
  show ?thesis
  proof (cases "t = T")
    case True
    have "slot_sample (m ! ?k) ?s (Some T) = point_sample ?s ?h T"
      using slot_sample_tick [OF CT(1-5), of ?s] ss by simp
    then show ?thesis
      unfolding eh True using context_sample_now [of ctx i] by (simp add: c)
  next
    case False
    then have pred: "time_pred T = Some t" using t c by simp
    have held: "slot_state (m ! ?k) = held ?h t" using CT(3) held_pred [OF pred] ss by simp
    have inc_h: "increasing ?h" using CT(5) ss by simp
    have events: "(if (if b = [] then None else Some (fst (last b))) = Some t
        then (if b = [] then replicate (length (sel_retained sel)) 0
              else map slot_events (snd (last b))) ! ?k else 0) = events_at ?h t"
    proof (cases "b \<noteq> [] \<and> fst (last b) = t")
      case True
      then have "last b \<in> set (from_pred rng ss)" using vs by auto
      then have "last b \<in> set ss" by (simp add: from_pred_def)
      then obtain b2 r2 m2 where ss2: "ss = b2 @ (t, m2) # r2" and lb: "last b = (t, m2)"
        using True by (metis in_set_conv_decomp prod.collapse)
      note CT2 = chain_tick [OF chain [unfolded ss2] inc [unfolded ss2] k]
      have "events_at ?h t = slot_events (m2 ! ?k)"
        using events_at_increasing [OF CT2(5,4)] ss2 by simp
      with True lb CT2(6) k show ?thesis by simp
    next
      case no: False
      have "t \<notin> fst ` set ss"
      proof
        assume "t \<in> fst ` set ss"
        then obtain m2 where in_ss: "(t, m2) \<in> set ss" by auto
        have less: "t < T" using time_pred_less [OF pred] .
        have "?low t"
        proof (cases "time_pred (range_start rng)")
          case None
          then show ?thesis by (simp add: shown_from_def)
        next
          case (Some p)
          then have "p < T" using time_pred_less [OF Some] start by simp
          then show ?thesis using time_pred_greatest [OF pred] Some by (simp add: shown_from_def)
        qed
        then have "(t, m2) \<in> set (b @ (T, m) # r)" using in_ss vs by (simp flip: vs add: from_pred_def)
        moreover have sv: "sorted_wrt (<) (map fst (b @ (T, m) # r))"
          using inc vs sorted_wrt_filter by (metis (no_types, lifting) from_pred_def sorted_wrt_map)
        then have "(t, m2) \<notin> set ((T, m) # r)" using less by (auto simp: sorted_wrt_append)
        ultimately have tb: "(t, m2) \<in> set b" by auto
        then have bne: "b \<noteq> []" by auto
        then have "b = butlast b @ [last b]" by simp
        moreover have "fst (last b) < T"
          using sv bne by (auto simp: sorted_wrt_append)
        then have "fst (last b) \<le> t" using time_pred_greatest [OF pred] by simp
        moreover have "fst (last b) \<noteq> t" using no bne by simp
        ultimately have "fst (last b) < t" "(t, m2) \<in> set (butlast b)"
          using tb by (auto) (metis Un_iff append_butlast_last_id bne empty_iff fst_conv insert_iff list.set(1) list.set(2) set_append)
        moreover have "sorted_wrt (<) (map fst (butlast b @ [last b]))"
          using sv bne by (simp add: sorted_wrt_append)
        ultimately show False by (auto simp: sorted_wrt_append)
      qed
      then have "events_at ?h t = 0"
        by (intro events_at_notin) (auto simp: slot_history_def image_iff)
      with no show ?thesis by auto
    qed
    have "t \<noteq> ctx_time ctx" using False c by simp
    from context_sample_before [OF this, of i] show ?thesis
      unfolding eh c query_context.select_convs Let_def events
      using held by (auto simp: slot_sample_def point_sample_def Let_def split: option.split)
  qed
qed

text \<open>Candidates increase strictly, and every driver's net change is at one of them.\<close>

lemma contexts_in_ticks:
  "ctx \<in> set (contexts sel rng drivers prev vs) \<Longrightarrow> ctx_time ctx \<in> fst ` set vs"
proof (induction vs arbitrary: prev)
  case Nil
  then show ?case by simp
next
  case (Cons x vs)
  from Cons.IH [of "(Some (fst x), map slot_events (snd x))"] Cons.prems show ?case
    by (cases x) (auto split: if_splits)
qed

lemma contexts_increase:
  "sorted_wrt (<) (map fst vs) \<Longrightarrow> sorted_wrt (<) (map ctx_time (contexts sel rng drivers prev vs))"
proof (induction vs arbitrary: prev)
  case Nil
  show ?case by simp
next
  case (Cons x vs)
  have "\<forall>ctx \<in> set (contexts sel rng drivers (Some (fst x), map slot_events (snd x)) vs). fst x < ctx_time ctx"
    using Cons.prems contexts_in_ticks by fastforce
  with Cons.IH [of "(Some (fst x), map slot_events (snd x))"] Cons.prems show ?case by (cases x) simp
qed

lemma contexts_driven:
  "(t, m) \<in> set vs \<Longrightarrow> range_start rng \<le> t \<Longrightarrow> driven sel drivers m \<Longrightarrow>
    t \<in> ctx_time ` set (contexts sel rng drivers prev vs)"
proof (induction vs arbitrary: prev)
  case Nil
  then show ?case by simp
next
  case (Cons x vs)
  then show ?case by (cases x) (auto simp: image_Un)
qed

lemma net_changes_times:
  "ScanChange s' t v \<in> set (net_changes s st h) \<Longrightarrow>
    \<exists>w \<in> set h. tw_time w = t \<and> (tw_value w \<noteq> None \<or> 0 < tw_events w)"
  by (induction s st h rule: net_changes.induct) (auto split: option.splits if_splits)

lemma query_covers_changes:
  assumes inc: "sorted_wrt (<) (map fst ss)"
    and i: "i \<in> set drivers"
    and change: "ScanChange s' t v \<in> set (entry_records s rng (entry_history sel ss i))"
  shows "t \<in> ctx_time ` set (query_contexts sel rng drivers ss)"
proof -
  from change obtain w where w: "w \<in> set (entry_history sel ss i)" "tw_time w = t"
    "tw_value w \<noteq> None \<or> 0 < tw_events w" and start: "range_start rng \<le> t"
    by (auto simp: entry_records_def entering_record_def split: if_splits option.splits
        dest!: net_changes_times)
  then obtain m where m: "(t, m) \<in> set ss"
    and d: "slot_pending (m ! (sel_slot_indices sel ! i)) \<noteq> None \<or>
      0 < slot_events (m ! (sel_slot_indices sel ! i))"
    by (auto simp: entry_history_def slot_history_def)
  have "driven sel drivers m" using d i by (auto simp: driven_def list_ex_iff Let_def)
  moreover have "(t, m) \<in> set (from_pred rng ss)"
  proof (cases "time_pred (range_start rng)")
    case None
    with m show ?thesis by (simp add: from_pred_def shown_from_def)
  next
    case (Some p)
    with m time_pred_less [OF Some] start show ?thesis by (auto simp: from_pred_def shown_from_def)
  qed
  ultimately show ?thesis unfolding query_contexts_def using start contexts_driven by blast
qed

end
