(* ===== verification/Ondas_Memory.thy ===== *)
theory Ondas_Memory
  imports Ondas_Query
begin

text \<open>
  The in-memory reader, the \<open>Memory\<close> branch of \<open>Reader::read\<close> in
  \<^verbatim>\<open>src/src/backends/mod.rs\<close>: records are scanned in order up to the first one past
  the end tick, a failure is injected at a given position, and only records of selected
  signals are notified. It is not resumable. On records in time order it satisfies the
  reader contract, so every result of the query engine applies to it.
\<close>

type_synonym memory_record = "nat \<times> time \<times> wave_value"

definition memory_failure :: error where
  "memory_failure = Backend ''memory'' ''read'' ''injected read failure''"

fun memory_scan ::
    "nat option \<Rightarrow> signal list \<Rightarrow> time \<Rightarrow> nat \<Rightarrow> memory_record list \<Rightarrow>
     notification list \<times> (error + position option)" where
  "memory_scan fail_after signals stop position [] = ([], Inr None)"
| "memory_scan fail_after signals stop position ((index, time, v) # records) =
    (if stop < time then ([], Inr None)
     else if fail_after = Some position then ([], Inl memory_failure)
     else
       (let (ns, outcome) = memory_scan fail_after signals stop (position + 1) records
        in ((if list_ex (\<lambda>s. sig_index s = index) signals
             then Observed index (Inr v) time None # ns else ns), outcome)))"

definition memory_read ::
    "memory_record list \<Rightarrow> nat option \<Rightarrow> signal list \<Rightarrow> time \<Rightarrow> position option \<Rightarrow>
     notification list \<times> (error + position option)" where
  "memory_read records fail_after signals stop resume =
    (if signals = [] then ([], Inr None) else memory_scan fail_after signals stop 0 records)"

definition in_time_order :: "memory_record list \<Rightarrow> bool" where
  "in_time_order records \<longleftrightarrow> sorted (map (fst \<circ> snd) records)"

section \<open>The reader contract\<close>

lemma memory_scan_notes:
  assumes "n \<in> set (fst (memory_scan fail_after signals stop position records))"
  obtains b v t where "n = Observed b (Inr v) t None" and "t \<le> stop" and "(b, t, v) \<in> set records"
  using assms
proof (induction fail_after signals stop position records arbitrary: thesis rule: memory_scan.induct)
  case (1 fail_after signals stop position)
  then show ?case by simp
next
  case (2 fail_after signals stop position index time v records)
  show ?case
  proof (cases "n = Observed index (Inr v) time None \<and> time \<le> stop")
    case True
    then show ?thesis using "2.prems"(1) by simp
  next
    case False
    with "2.prems"(2) have inside: "\<not> stop < time" "fail_after \<noteq> Some position"
      and n: "n \<in> set (fst (memory_scan fail_after signals stop (position + 1) records))"
      by (auto split: if_splits prod.splits)
    show ?thesis
      by (rule "2.IH" [OF inside _ n]) (auto intro: "2.prems"(1))
  qed
qed

lemma memory_scan_ordered:
  "in_time_order records \<Longrightarrow>
    ordered_notes (fst (memory_scan fail_after signals stop position records))"
proof (induction fail_after signals stop position records rule: memory_scan.induct)
  case (1 fail_after signals stop position)
  then show ?case by simp
next
  case (2 fail_after signals stop position index time v records)
  then have later: "\<forall>r \<in> set records. time \<le> fst (snd r)" and rest: "in_time_order records"
    by (auto simp: in_time_order_def)
  have "before_note (Observed index (Inr v) time None) n"
    if "n \<in> set (fst (memory_scan fail_after signals stop (position + 1) records))" for n
    by (rule memory_scan_notes [OF that]) (use later in \<open>auto simp: before_note_def\<close>)
  with 2 rest show ?case by (auto split: prod.split)
qed

lemma memory_scan_outcome:
  "memory_scan fail_after signals stop position records = (ns, Inr p) \<Longrightarrow> p = None"
  by (induction fail_after signals stop position records arbitrary: ns rule: memory_scan.induct)
    (auto split: if_splits prod.splits)

lemma memory_scan_prefix:
  assumes "in_time_order records" and "earlier \<le> stop"
    and "memory_scan fail_after signals stop position records = (ns, Inr p)"
  shows "memory_scan fail_after signals earlier position records =
    (filter (\<lambda>n. note_time n \<le> earlier) ns, Inr None)"
  using assms
proof (induction fail_after signals stop position records arbitrary: ns rule: memory_scan.induct)
  case (1 fail_after signals stop position)
  then show ?case by simp
next
  case (2 fail_after signals stop position index time v records)
  have later: "\<forall>r \<in> set records. time \<le> fst (snd r)" and rest: "in_time_order records"
    using "2.prems"(1) by (auto simp: in_time_order_def)
  have late: "note_time n \<ge> time"
    if "n \<in> set (fst (memory_scan fail_after signals stop (position + 1) records))" for n
    by (rule memory_scan_notes [OF that]) (use later in auto)
  show ?case
  proof (cases "stop < time")
    case True
    with "2.prems" show ?thesis by (auto dest: le_less_trans)
  next
    case False
    with "2.prems"(3) obtain ns' where go: "fail_after \<noteq> Some position"
      and r: "memory_scan fail_after signals stop (position + 1) records = (ns', Inr p)"
      and ns: "ns = (if list_ex (\<lambda>s. sig_index s = index) signals
             then Observed index (Inr v) time None # ns' else ns')"
      by (auto split: if_splits prod.splits)
    note IH = "2.IH" [OF False go rest "2.prems"(2) r]
    show ?thesis
    proof (cases "earlier < time")
      case True
      then have "filter (\<lambda>n. note_time n \<le> earlier) ns = []"
        using late r ns by (fastforce simp: filter_empty_conv)
      with True show ?thesis by simp
    next
      case near: False
      with IH go ns False show ?thesis by (auto simp: not_less)
    qed
  qed
qed

lemma tick_reader_memory:
  assumes "in_time_order records"
  shows "tick_reader (memory_read records fail_after)"
proof
  fix bases stop
  show "ordered_notes (fst (memory_read records fail_after bases stop None))"
    using assms by (simp add: memory_read_def memory_scan_ordered)
next
  fix n bases stop
  assume "n \<in> set (fst (memory_read records fail_after bases stop None))"
  then show "note_time n \<le> stop"
    by (auto simp: memory_read_def elim!: memory_scan_notes split: if_splits)
next
  fix bases stop xs q earlier
  assume "memory_read records fail_after bases stop None = (xs, Inr q)" and "earlier \<le> (stop :: time)"
  then show "\<exists>q'. memory_read records fail_after bases earlier None =
      (filter (\<lambda>n. note_time n \<le> earlier) xs, Inr q')"
    using memory_scan_prefix [OF assms] by (auto simp: memory_read_def split: if_splits)
next
  fix b v t p bases stop
  assume "Observed b v t (Some p) \<in> set (fst (memory_read records fail_after bases stop None))"
  then have False by (auto simp: memory_read_def elim!: memory_scan_notes split: if_splits)
  then show "position_time p = t" ..
next
  fix bases stop xs b v t p ys out stop'
  assume "memory_read records fail_after bases stop None = (xs @ Observed b v t (Some p) # ys, out)"
  then have "Observed b v t (Some p) \<in> set (fst (memory_read records fail_after bases stop None))"
    by simp
  then have False by (auto simp: memory_read_def elim!: memory_scan_notes split: if_splits)
  then show "\<exists>ys' out'. memory_read records fail_after bases stop' None =
      (xs @ Observed b v t (Some p) # ys', out') \<and>
      memory_read records fail_after bases stop' (Some p) = (Observed b v t (Some p) # ys', out')" ..
next
  fix bases stop xs p and stop' :: time
  assume "memory_read records fail_after bases stop None = (xs, Inr (Some p))"
  then have False by (auto simp: memory_read_def dest: memory_scan_outcome split: if_splits)
  then show "\<exists>ys' out'. memory_read records fail_after bases stop' None = (xs @ ys', out') \<and>
      memory_read records fail_after bases stop' (Some p) = (ys', out')" ..
next
  fix bases stop xs p t
  assume "memory_read records fail_after bases stop None = (xs, Inr (Some p))"
  then have False by (auto simp: memory_read_def dest: memory_scan_outcome split: if_splits)
  then show "TickDone t \<notin> set xs" ..
next
  fix b v t p bases stop u
  assume "Observed b v t (Some p) \<in> set (fst (memory_read records fail_after bases stop None))"
  then have False by (auto simp: memory_read_def elim!: memory_scan_notes split: if_splits)
  then show "TickDone u \<notin> set (fst (memory_read records fail_after bases stop None))" ..
qed

section \<open>The in-memory waveform\<close>

text \<open>
  \<open>Waveform::memory\<close> sorts its records by time before it keeps them, stably, so its reader
  satisfies the contract for any records. Its span is the first and the last time.
\<close>

definition memory_records :: "memory_record list \<Rightarrow> memory_record list" where
  "memory_records records = sort_key (\<lambda>(_, time, _). time) records"

definition memory_source :: "memory_record list \<Rightarrow> nat option \<Rightarrow> source" where
  "memory_source records fail_after =
    (let sorted = memory_records records
     in \<lparr>src_backend = ''memory'',
         src_span = (if sorted = [] then None
           else Some \<lparr>span_first = fst (snd (hd sorted)), span_last = fst (snd (last sorted))\<rparr>),
         src_read = memory_read sorted fail_after, src_prefix = (\<lambda>_ _. None),
         src_replay_size = 0, src_slot_size = 0\<rparr>)"

lemma memory_records_order: "in_time_order (memory_records records)"
proof -
  have "(\<lambda>(_, time, _). time) = (fst \<circ> snd :: memory_record \<Rightarrow> time)" by auto
  then show ?thesis by (simp add: in_time_order_def memory_records_def)
qed

interpretation memory: tick_reader "memory_read (memory_records records) fail_after" for records fail_after
  by (rule tick_reader_memory [OF memory_records_order])

lemma memory_source_fields [simp]:
  "src_backend (memory_source records fail_after) = ''memory''"
  "src_read (memory_source records fail_after) = memory_read (memory_records records) fail_after"
  "src_prefix (memory_source records fail_after) = (\<lambda>_ _. None)"
  by (simp_all add: memory_source_def Let_def)

lemma memory_session:
  "sel_ok sel (length (sel_retained sel)) \<Longrightarrow> sel_replay sel = None \<Longrightarrow> sel_checkpoint sel = None \<Longrightarrow>
    session_ok (memory_source records fail_after) sel"
  by (simp add: session_ok_def caches_ok_def memory.tick_reader_axioms)

end
