(* ===== verification/Ondas_Session.thy ===== *)
theory Ondas_Session
  imports Ondas_Memory
begin

text \<open>
  Sessions: several operations on one selection. A selection retains a replay and a
  checkpoint between operations, and a traversal resumes from them; the answers do not
  depend on that. \<open>cached_*\<close> shows for each operation that two selections that differ
  only in valid snapshots answer alike, whatever the visitor does and whether the read
  succeeds or fails, and that valid snapshots are left behind. \<open>run_requests\<close> is a list of
  requests answered one after the other on the selection each leaves to the next.
\<close>

section \<open>Operations on recached selections\<close>

lemma session_ok_read:
  assumes ok: "session_ok src sel"
    and run: "read_ticks_from src sel start stop (default_slots sel) visitor s = (sel', slots', s', flow)"
  shows "(s', flow) = reference_traversal src sel start stop visitor s \<and> session_ok src sel' \<and>
    recached sel sel' \<and> (flow = Inr Continue \<longrightarrow> slots' = reference_slots src sel stop)"
proof -
  from ok have parts: "tick_reader (src_read src)" "sel_ok sel (length (sel_retained sel))"
    "caches_ok src sel" "\<And>bases t. src_prefix src bases t = None"
    by (simp_all add: session_ok_def)
  note sound = read_ticks_from_sound [OF parts run]
  then obtain a c where sel': "sel' = sel\<lparr>sel_replay := a, sel_checkpoint := c\<rparr>" by blast
  have "sel_ok sel' (length (sel_retained sel'))" using parts(2) by (simp add: sel' sel_ok_def)
  with parts sound show ?thesis by (simp add: session_ok_def recached_def)
qed

lemma outcome_of_caches:
  "outcome_of (sel\<lparr>sel_replay := a, sel_checkpoint := c\<rparr>) = outcome_of sel"
proof -
  have "store_all (sel\<lparr>sel_replay := a, sel_checkpoint := c\<rparr>) = store_all sel"
    "snapshots (sel\<lparr>sel_replay := a, sel_checkpoint := c\<rparr>) = snapshots sel"
    by (intro ext; simp)+
  then show ?thesis unfolding outcome_of_def by presburger
qed

lemma reference_caches:
  "reference_traversal src (sel\<lparr>sel_replay := a, sel_checkpoint := c\<rparr>) = reference_traversal src sel"
  "reference_slots src (sel\<lparr>sel_replay := a, sel_checkpoint := c\<rparr>) = reference_slots src sel"
proof -
  have "default_slots (sel\<lparr>sel_replay := a, sel_checkpoint := c\<rparr>) = default_slots sel"
    by (simp add: default_slots_def)
  then show "reference_traversal src (sel\<lparr>sel_replay := a, sel_checkpoint := c\<rparr>) = reference_traversal src sel"
    by (intro ext) (simp add: reference_traversal_def outcome_of_caches)
  show "reference_slots src (sel\<lparr>sel_replay := a, sel_checkpoint := c\<rparr>) = reference_slots src sel"
    by (intro ext) (simp add: reference_slots_def entering_last_def default_slots_def)
qed

text \<open>Two results of one operation: the same answer, and selections fit for the next one.\<close>

definition fit :: "source \<Rightarrow> selection \<Rightarrow> selection \<Rightarrow> bool" where
  "fit src sel sel' \<longleftrightarrow> session_ok src sel' \<and> recached sel sel'"

definition alike :: "source \<Rightarrow> selection \<Rightarrow> selection \<times> 'r \<Rightarrow> selection \<times> 'r \<Rightarrow> bool" where
  "alike src sel r r' \<longleftrightarrow> snd r = snd r' \<and> fit src sel (fst r) \<and> fit src sel (fst r')"

lemma alikeI: "fit src sel a \<Longrightarrow> fit src sel b \<Longrightarrow> alike src sel (a, r) (b, r)"
  by (simp add: alike_def)

lemma fit_drop: "fit src sel sel' \<Longrightarrow> fit src sel (drop_caches sel')"
  by (simp add: fit_def session_ok_drop) (simp add: drop_caches_def recached_iff)

lemma fit_fields:
  assumes "fit src sel sel'"
  shows "sel_signals sel' = sel_signals sel" "sel_slot_indices sel' = sel_slot_indices sel"
    "sel_retained sel' = sel_retained sel" "default_slots sel' = default_slots sel"
  using assms by (simp_all add: fit_def recached_iff default_slots_def)

lemma read_ticks_alike:
  assumes a: "fit src sel sel1" and b: "fit src sel sel2"
    and ra: "read_ticks_from src sel1 start stop (default_slots sel) visitor s = (sel1', slots1, s1, f1)"
    and rb: "read_ticks_from src sel2 start stop (default_slots sel) visitor s = (sel2', slots2, s2, f2)"
  shows "s1 = s2 \<and> f1 = f2 \<and> (f1 = Inr Continue \<longrightarrow> slots1 = slots2) \<and>
    fit src sel sel1' \<and> fit src sel sel2'"
proof -
  from a b obtain c1 d1 c2 d2 where sel1: "sel1 = sel\<lparr>sel_replay := c1, sel_checkpoint := d1\<rparr>"
    and sel2: "sel2 = sel\<lparr>sel_replay := c2, sel_checkpoint := d2\<rparr>"
    by (auto simp: fit_def recached_def)
  have def: "default_slots sel1 = default_slots sel" "default_slots sel2 = default_slots sel"
    using fit_fields(4) [OF a] fit_fields(4) [OF b] by simp_all
  have "(s1, f1) = reference_traversal src sel1 start stop visitor s \<and> session_ok src sel1' \<and>
    recached sel1 sel1' \<and> (f1 = Inr Continue \<longrightarrow> slots1 = reference_slots src sel1 stop)"
    using a ra by (intro session_ok_read) (simp_all add: fit_def def)
  moreover have "(s2, f2) = reference_traversal src sel2 start stop visitor s \<and> session_ok src sel2' \<and>
    recached sel2 sel2' \<and> (f2 = Inr Continue \<longrightarrow> slots2 = reference_slots src sel2 stop)"
    using b rb by (intro session_ok_read) (simp_all add: fit_def def)
  moreover have "recached sel sel1" "recached sel sel2" using a b by (simp_all add: fit_def)
  ultimately show ?thesis
    unfolding sel1 sel2 reference_caches fit_def by (metis prod.inject recached_trans)
qed

text \<open>A scan as a function of its traversal.\<close>

definition scan_rest ::
    "selection \<Rightarrow> ('s, 'b) scan_visitor \<Rightarrow> selection \<times> slot list \<times> (bool \<times> 's) \<times> (error + 'b flow) \<Rightarrow>
     selection \<times> 's \<times> (error + 'b flow)" where
  "scan_rest sel visitor result =
    (let (sel1, slots, (emitted, s1), flow) = result
     in if flow = Inr Continue \<and> \<not> emitted then
          (let (s2, flow2) = initials slots (sel_slot_indices sel) visitor 0 (sel_signals sel) s1
           in (if flow2 = Continue then sel1 else drop_caches sel1, s2, Inr flow2))
        else (sel1, s1, flow))"

lemma scan_each_rest:
  "scan_each src sel rng visitor s =
    (if range_is_empty rng \<or> scan_end src rng < range_start rng \<or> sel_signals sel = []
     then (sel, s, Inr Continue)
     else scan_rest sel visitor
       (read_ticks_from src sel (Some (range_start rng)) (scan_end src rng) (default_slots sel)
         (scan_step sel rng visitor) (False, s)))"
proof -
  have V: "(\<lambda>es time slots. let (es', flow) =
       scan_tick (sel_signals sel) slots (sel_slot_indices sel) time rng visitor es in (es', Inr flow)) =
      scan_step sel rng visitor"
    by (intro ext) (simp add: scan_step_def)
  have rest: "(case flow of
        Inr Continue \<Rightarrow>
          if \<not> emitted then
            (let (s2, flow2) = initials slots (sel_slot_indices sel) visitor 0 (sel_signals sel) s1
             in (if flow2 = Continue then sel1 else drop_caches sel1, s2, Inr flow2))
          else (sel1, s1, Inr Continue)
      | _ \<Rightarrow> (sel1, s1, flow)) = scan_rest sel visitor (sel1, slots, (emitted, s1), flow)"
    for sel1 slots emitted s1 flow
    by (cases "flow = Inr Continue") (auto simp: scan_rest_def split: sum.split flow.split)
  show ?thesis
    unfolding scan_each_def V Let_def [of "scan_end src rng"]
    by (cases "read_ticks_from src sel (Some (range_start rng)) (scan_end src rng) (default_slots sel)
      (scan_step sel rng visitor) (False, s)" rule: prod_cases4)
      (auto simp: rest [symmetric])
qed

lemma scan_each_alike:
  assumes a: "fit src sel sel1" and b: "fit src sel sel2"
  shows "alike src sel (scan_each src sel1 rng visitor s) (scan_each src sel2 rng visitor s)"
proof (cases "range_is_empty rng \<or> scan_end src rng < range_start rng \<or> sel_signals sel = []")
  case True
  then show ?thesis by (simp add: scan_each_rest fit_fields [OF a] fit_fields [OF b] alikeI a b)
next
  case False
  have V: "scan_step sel1 rng visitor = scan_step sel rng visitor"
    "scan_step sel2 rng visitor = scan_step sel rng visitor"
    by (intro ext; simp add: scan_step_def fit_fields [OF a] fit_fields [OF b])+
  obtain sel1' slots1 em1 s1 f1 where
    ra: "read_ticks_from src sel1 (Some (range_start rng)) (scan_end src rng) (default_slots sel)
      (scan_step sel rng visitor) (False, s) = (sel1', slots1, (em1, s1), f1)" by (metis prod.collapse)
  obtain sel2' slots2 em2 s2 f2 where
    rb: "read_ticks_from src sel2 (Some (range_start rng)) (scan_end src rng) (default_slots sel)
      (scan_step sel rng visitor) (False, s) = (sel2', slots2, (em2, s2), f2)" by (metis prod.collapse)
  from read_ticks_alike [OF a b ra rb] have eq: "em2 = em1" "s2 = s1" "f2 = f1"
    "f1 = Inr Continue \<longrightarrow> slots1 = slots2" and fit: "fit src sel sel1'" "fit src sel sel2'"
    by simp_all
  show ?thesis
  proof (cases "f1 = Inr Continue \<and> \<not> em1")
    case True
    with False eq fit show ?thesis
      by (simp add: scan_each_rest scan_rest_def V ra rb fit_fields [OF a] fit_fields [OF b] alike_def
          fit_drop split: prod.split)
  next
    case ended: False
    with False eq fit show ?thesis
      by (auto simp: scan_each_rest scan_rest_def V ra rb fit_fields [OF a] fit_fields [OF b] alike_def)
  qed
qed

lemma alike_cases:
  assumes "alike src sel r r'"
  obtains a b x where "r = (a, x)" "r' = (b, x)" "fit src sel a" "fit src sel b"
  using assms by (cases r; cases r') (auto simp: alike_def)

lemma samples_alike:
  assumes a: "fit src sel sel1" and b: "fit src sel sel2"
  shows "alike src sel (samples src sel1 t) (samples src sel2 t)"
proof -
  let ?n = "length (sel_signals sel)"
  obtain c d x where r: "scan_each src sel1 (time_range_point t) sample_record
        (replicate ?n None, replicate ?n 0) = (c, x)"
    "scan_each src sel2 (time_range_point t) sample_record (replicate ?n None, replicate ?n 0) = (d, x)"
    and fit: "fit src sel c" "fit src sel d"
    by (rule alike_cases [OF scan_each_alike [OF a b]])
  show ?thesis
    unfolding samples_def sample_visit_def Let_def fit_fields [OF a] fit_fields [OF b] r prod.case
    by (auto simp: alike_def fit fit_drop split: prod.split sum.split)
qed

lemma traces_alike:
  assumes a: "fit src sel sel1" and b: "fit src sel sel2"
  shows "alike src sel (traces src sel1 rng) (traces src sel2 rng)"
proof -
  obtain c d x where r:
    "scan_each src sel1 rng trace_record (map (trace_new rng) (sel_signals sel)) = (c, x)"
    "scan_each src sel2 rng trace_record (map (trace_new rng) (sel_signals sel)) = (d, x)"
    and fit: "fit src sel c" "fit src sel d"
    by (rule alike_cases [OF scan_each_alike [OF a b]])
  show ?thesis
    unfolding traces_def fit_fields [OF a] fit_fields [OF b] r
    by (auto simp: alike_def fit split: prod.split)
qed

lemma alike_candidates:
  "alike src sel r r' \<Longrightarrow>
    alike src sel (let (sel', (latest, s'), flow) = r in (sel', s', flow))
      (let (sel', (latest, s'), flow) = r' in (sel', s', flow))"
  by (cases r; cases r') (auto simp: alike_def split: prod.split)

lemma candidate_times_alike:
  assumes "fit src sel sel1" and "fit src sel sel2"
  shows "alike src sel (scan_candidate_times src sel1 rng visitor s)
    (scan_candidate_times src sel2 rng visitor s)"
  unfolding scan_candidate_times_def scan_def
  by (intro alike_candidates scan_each_alike assms)

lemma reference_never_breaks:
  assumes "\<forall>s t m. snd (visitor s t m) = Inr Continue"
  shows "snd (reference_traversal src sel start stop visitor s) \<noteq> Inr (Break b)"
proof -
  obtain ns out where r: "src_read src (sel_bases sel) stop None = (ns, out)" by fastforce
  obtain ts u err where f: "final_ticks (group_notes None ns) out = (ts, u, err)"
    by (rule prod_cases3)
  obtain ss so where sn: "snapshots sel (src_backend src) (default_slots sel) ts = (ss, so)"
    by fastforce
  obtain s1 where v: "visit_all start visitor s ss = (s1, Inr Continue)"
    using visit_all_continue [OF assms, where start = start and s = s and ss = ss]
    by (cases "visit_all start visitor s ss") simp
  show ?thesis
    unfolding reference_traversal_def r f outcome_of_def Let_def prod.case sn v
    by (auto split: sum.split option.split)
qed

lemma fill_rows_cong:
  "observe_row sel' = observe_row sel \<Longrightarrow>
    fill_rows sel' asked time slots order rows = fill_rows sel asked time slots order rows"
  by (induction order arbitrary: rows) simp_all

lemma samples_at_alike:
  assumes a: "fit src sel sel1" and b: "fit src sel sel2"
  shows "alike src sel (samples_at sort_by src sel1 asked) (samples_at sort_by src sel2 asked)"
proof (cases "asked = [] \<or> sel_signals sel = []")
  case True
  then show ?thesis
    unfolding samples_at_def fit_fields [OF a] fit_fields [OF b] by (simp add: alikeI a b)
next
  case False
  have row: "observe_row sel1 = observe_row sel" "observe_row sel2 = observe_row sel"
    by (intro ext; simp add: observe_row_def fit_fields [OF a] fit_fields [OF b])+
  let ?order = "sort_by ((!) asked) [0..<length asked]"
  let ?V = "\<lambda>(order, rows) time slots.
    (fill_rows sel asked time slots order rows, Inr (Continue :: unit flow))"
  let ?s = "(?order, map (\<lambda>time. (time, [])) asked)"
  obtain c slots1 x1 y1 f1 where
    ra: "read_ticks_from src sel1 None (asked ! last ?order) (default_slots sel) ?V ?s = (c, slots1, (x1, y1), f1)"
    by (metis prod.collapse)
  obtain d slots2 x2 y2 f2 where
    rb: "read_ticks_from src sel2 None (asked ! last ?order) (default_slots sel) ?V ?s = (d, slots2, (x2, y2), f2)"
    by (metis prod.collapse)
  from read_ticks_alike [OF a b ra rb] have eq: "x2 = x1" "y2 = y1" "f2 = f1"
    and same: "f1 = Inr Continue \<Longrightarrow> slots2 = slots1" and fit: "fit src sel c" "fit src sel d"
    by simp_all
  have def: "default_slots sel1 = default_slots sel" and ok: "session_ok src sel1"
    using a fit_fields(4) [OF a] by (simp_all add: fit_def)
  have "((x1, y1), f1) = reference_traversal src sel1 None (asked ! last ?order) ?V ?s"
    using session_ok_read [OF ok ra [folded def]] by (simp add: def)
  then have "f1 \<noteq> Inr (Break ())"
    using reference_never_breaks [of ?V src sel1 None "asked ! last ?order" ?s "()"]
    by (metis (mono_tags, lifting) old.prod.case prod.collapse snd_conv)
  then have "f1 = Inr Continue \<or> (\<exists>e. f1 = Inl e)"
    by (metis flow.exhaust old.unit.exhaust sum.exhaust)
  with False eq same fit show ?thesis
    unfolding samples_at_def fit_fields [OF a] fit_fields [OF b] fill_rows_cong [OF row(1)]
      fill_rows_cong [OF row(2)] row
    by (auto simp: Let_def ra rb alike_def)
qed

lemma query_tick_fields:
  assumes "fit src sel sel'"
  shows "query_tick sel' rng drivers visitor = query_tick sel rng drivers visitor"
  unfolding query_tick_def driven_def fit_fields [OF assms] ..

lemma query_alike:
  assumes a: "fit src sel sel1" and b: "fit src sel sel2"
  shows "alike src sel (query src sel1 rng drivers visitor s) (query src sel2 rng drivers visitor s)"
proof -
  let ?V = "query_tick sel rng drivers visitor"
  let ?s = "((None, replicate (length (sel_retained sel)) 0), s)"
  obtain c slots1 x1 y1 f1 where
    ra: "read_ticks_from src sel1 (time_pred (range_start rng)) (query_end src rng) (default_slots sel) ?V ?s
      = (c, slots1, (x1, y1), f1)"
    by (metis prod.collapse)
  obtain d slots2 x2 y2 f2 where
    rb: "read_ticks_from src sel2 (time_pred (range_start rng)) (query_end src rng) (default_slots sel) ?V ?s
      = (d, slots2, (x2, y2), f2)"
    by (metis prod.collapse)
  note fields = fit_fields [OF a] fit_fields [OF b] query_tick_fields [OF a] query_tick_fields [OF b]
  show ?thesis
  proof (cases "validate_indices (length (sel_signals sel)) drivers")
    case (Inl e)
    show ?thesis unfolding query_def fields Inl sum.case by (rule alikeI [OF a b])
  next
    case (Inr u)
    from read_ticks_alike [OF a b ra rb] show ?thesis
      unfolding query_def fields Inr sum.case Let_def ra rb prod.case by (simp add: alike_def a b)
  qed
qed

section \<open>A session\<close>

text \<open>
  Requests with the callbacks of a client: a scan or a query that stops its callback after
  a number of records or contexts is the early exit of a client.
\<close>

datatype request =
  AskSamples time
| AskBatch "time list"
| AskTraces time_range
| AskScan time_range nat
| AskTimes time_range nat
| AskQuery time_range "nat list" nat

datatype answer =
  SamplesAre "error + sample list"
| RowsAre "error + (time \<times> sample list) list"
| TracesAre "error + trace list"
| RecordsAre "scan_record list" "error + unit flow"
| TimesAre "time list" "error + unit flow"
| ContextsAre "(time \<times> sample list) list" "error + unit flow"

definition collect_up_to :: "nat \<Rightarrow> 'a list \<Rightarrow> 'a \<Rightarrow> 'a list \<times> unit flow" where
  "collect_up_to n xs x = (xs @ [x], if length xs + 1 = n then Break () else Continue)"

definition collect_context ::
    "nat \<Rightarrow> (time \<times> sample list) list \<Rightarrow> query_context \<Rightarrow>
     (time \<times> sample list) list \<times> (error + unit flow)" where
  "collect_context n xs ctx =
    (let row = map (context_sample ctx (ctx_time ctx)) [0..<length (ctx_signals ctx)];
         (xs', flow) = collect_up_to n xs (ctx_time ctx, row)
     in (xs', Inr flow))"

fun run_request ::
    "((nat \<Rightarrow> time) \<Rightarrow> nat list \<Rightarrow> nat list) \<Rightarrow> source \<Rightarrow> selection \<Rightarrow> request \<Rightarrow> selection \<times> answer" where
  "run_request sort_by src sel (AskSamples t) = map_prod id SamplesAre (samples src sel t)"
| "run_request sort_by src sel (AskBatch asked) = map_prod id RowsAre (samples_at sort_by src sel asked)"
| "run_request sort_by src sel (AskTraces rng) = map_prod id TracesAre (traces src sel rng)"
| "run_request sort_by src sel (AskScan rng n) =
    map_prod id (case_prod RecordsAre) (scan src sel rng (collect_up_to n) [])"
| "run_request sort_by src sel (AskTimes rng n) =
    map_prod id (case_prod TimesAre) (scan_candidate_times src sel rng (collect_up_to n) [])"
| "run_request sort_by src sel (AskQuery rng drivers n) =
    map_prod id (case_prod ContextsAre) (query src sel rng drivers (collect_context n) [])"

fun run_requests ::
    "((nat \<Rightarrow> time) \<Rightarrow> nat list \<Rightarrow> nat list) \<Rightarrow> source \<Rightarrow> selection \<Rightarrow> request list \<Rightarrow> answer list" where
  "run_requests sort_by src sel [] = []"
| "run_requests sort_by src sel (r # rs) =
    (let (sel', a) = run_request sort_by src sel r in a # run_requests sort_by src sel' rs)"

lemma alike_map: "alike src sel r r' \<Longrightarrow> alike src sel (map_prod id g r) (map_prod id g r')"
  by (simp add: alike_def)

lemma run_request_alike:
  assumes "fit src sel sel1" and "fit src sel sel2"
  shows "alike src sel (run_request sort_by src sel1 r) (run_request sort_by src sel2 r)"
  by (cases r)
    (simp_all add: scan_def alike_map samples_alike [OF assms] samples_at_alike [OF assms]
      traces_alike [OF assms] scan_each_alike [OF assms] candidate_times_alike [OF assms]
      query_alike [OF assms])

lemma run_requests_alike:
  assumes "fit src sel sel1" and "fit src sel sel2"
  shows "run_requests sort_by src sel1 rs = map (\<lambda>r. snd (run_request sort_by src sel2 r)) rs"
  using assms(1)
proof (induction rs arbitrary: sel1)
  case Nil
  show ?case by simp
next
  case (Cons r rs)
  have "alike src sel (run_request sort_by src sel1 r) (run_request sort_by src sel2 r)"
    by (rule run_request_alike [OF Cons.prems assms(2)])
  then obtain a b x where "run_request sort_by src sel1 r = (a, x)" "run_request sort_by src sel2 r = (b, x)"
    and "fit src sel a" by (rule alike_cases)
  with Cons.IH show ?case by simp
qed

end
