(* ===== verification/Ondas_Observed.thy ===== *)
theory Ondas_Observed
  imports Ondas_Session
begin

text \<open>
  Two facts about what the engine observes. Event counts are exact: the count a tick leaves
  in a slot is the sum of the counts recorded, as a natural number, and a sum beyond
  \<open>u64\<close> is an error. The candidate times of a scan are strictly increasing and are exactly
  the times of its change records.
\<close>

section \<open>Event counts\<close>

definition recorded_events :: "nat \<Rightarrow> (nat \<times> wave_value) list \<Rightarrow> nat" where
  "recorded_events b rs =
    sum_list (map (\<lambda>(b', v). if b' = b then (case v of VEvent n \<Rightarrow> unat n | _ \<Rightarrow> 0) else 0) rs)"

lemma recorded_events_simps [simp]:
  "recorded_events b [] = 0"
  "recorded_events b ((b', v) # rs) =
    (if b' = b then (case v of VEvent n \<Rightarrow> unat n | _ \<Rightarrow> 0) else 0) + recorded_events b rs"
  by (simp_all add: recorded_events_def)

lemma record_slot_events:
  "record_slot backend v s slot = Inr slot' \<Longrightarrow>
    unat (slot_events slot') = unat (slot_events slot) + (case v of VEvent n \<Rightarrow> unat n | _ \<Rightarrow> 0)"
  by (auto simp: record_slot_def checked_add_def unat_word_ariths split: wave_value.splits option.splits if_splits)

lemma store_other:
  "store retained backend v is slots = Inr slots' \<Longrightarrow> i \<notin> set is \<Longrightarrow> slots' ! i = slots ! i"
  by (induction retained backend v "is" slots rule: store.induct) auto

lemma store_length: "store retained backend v is slots = Inr slots' \<Longrightarrow> length slots' = length slots"
  by (induction retained backend v "is" slots rule: store.induct) auto

lemma store_events:
  "store retained backend v is slots = Inr slots' \<Longrightarrow> i \<in> set is \<Longrightarrow> distinct is \<Longrightarrow> i < length slots \<Longrightarrow>
    unat (slot_events (slots' ! i)) =
      unat (slot_events (slots ! i)) + (case v of VEvent n \<Rightarrow> unat n | _ \<Rightarrow> 0)"
proof (induction retained backend v "is" slots rule: store.induct)
  case (1 retained backend v slots)
  then show ?case by simp
next
  case (2 retained backend v j "is" slots)
  then obtain c where c: "record_slot backend v (retained ! j) (slots ! j) = Inr c"
    and rest: "store retained backend v is (slots[j := c]) = Inr slots'" by auto
  show ?case
  proof (cases "i = j")
    case True
    with 2 rest have "slots' ! i = c" by (simp add: store_other)
    with True record_slot_events [OF c] show ?thesis by simp
  next
    case False
    with 2 c rest show ?thesis by auto
  qed
qed

text \<open>The groups of a selection: every slot of a base belongs to that base once.\<close>

definition own_slot :: "selection \<Rightarrow> nat \<Rightarrow> nat \<Rightarrow> bool" where
  "own_slot sel b i \<longleftrightarrow>
    (\<exists>is. sel_groups sel b = Some is \<and> i \<in> set is \<and> distinct is) \<and>
    (\<forall>b' is. sel_groups sel b' = Some is \<longrightarrow> i \<in> set is \<longrightarrow> b' = b)"

lemma store_all_events:
  "store_all sel backend rs slots = Inr slots' \<Longrightarrow> own_slot sel b i \<Longrightarrow> i < length slots \<Longrightarrow>
    unat (slot_events (slots' ! i)) = unat (slot_events (slots ! i)) + recorded_events b rs"
proof (induction sel backend rs slots rule: store_all.induct)
  case (1 sel backend slots)
  then show ?case by simp
next
  case (2 sel backend b' v rs slots)
  then obtain "is" mid where g: "sel_groups sel b' = Some is"
    and s: "store (sel_retained sel) backend v is slots = Inr mid"
    and rest: "store_all sel backend rs mid = Inr slots'"
    by (cases "sel_groups sel b'") auto
  have i: "i < length mid" using "2.prems"(3) store_length [OF s] by simp
  have IH: "unat (slot_events (slots' ! i)) = unat (slot_events (mid ! i)) + recorded_events b rs"
    using "2.IH" [OF g s rest "2.prems"(2) i] .
  show ?case
  proof (cases "b' = b")
    case True
    have "i \<in> set is" "distinct is"
      using "2.prems"(2) g unfolding own_slot_def True by (metis option.inject)+
    from store_events [OF s this "2.prems"(3)] show ?thesis
      unfolding IH recorded_events_simps True by (simp only: if_True simp_thms add.assoc)
  next
    case False
    then have "i \<notin> set is" using "2.prems"(2) g unfolding own_slot_def by metis
    from store_other [OF s this] show ?thesis
      unfolding IH recorded_events_simps by (simp only: False if_False add_0)
  qed
qed

section \<open>Candidate times\<close>

definition change_times :: "(nat \<times> scan_record) list \<Rightarrow> time list" where
  "change_times rs =
    concat (map (\<lambda>(_, r). case r of ScanChange _ t _ \<Rightarrow> [t] | ScanInitial _ _ _ \<Rightarrow> []) rs)"

lemma change_times_simps [simp]:
  "change_times [] = []"
  "change_times ((i, ScanChange s t v) # rs) = t # change_times rs"
  "change_times ((i, ScanInitial s v c) # rs) = change_times rs"
  "change_times (rs @ rs') = change_times rs @ change_times rs'"
  by (simp_all add: change_times_def)

text \<open>The visitor of \<open>scan_candidate_times\<close>, collecting.\<close>

lemma candidate_run:
  assumes "sorted (change_times rs)"
    and "\<forall>t \<in> set (change_times rs). \<forall>u. latest = Some u \<longrightarrow> u \<le> t"
    and "latest = (if out = [] then None else Some (last out))" and "sorted_wrt (<) out"
  shows "\<exists>latest' out'. run_records (\<lambda>s _. (\<lambda>(latest, s) record.
            case record of
              ScanChange _ time _ \<Rightarrow>
                if latest \<noteq> Some time then
                  (let (s', flow) = collect_up_to 0 s time in ((Some time, s'), flow))
                else ((latest, s), Continue)
            | ScanInitial _ _ _ \<Rightarrow> ((latest, s), Continue)) s) rs (latest, out) =
      ((latest', out'), Continue) \<and> sorted_wrt (<) out' \<and>
      set out' = set out \<union> set (change_times rs)"
  using assms
proof (induction rs arbitrary: latest out)
  case Nil
  then show ?case by simp
next
  case (Cons x rs)
  obtain i r where x: "x = (i, r)" by fastforce
  show ?case
  proof (cases r)
    case (ScanInitial s v c)
    with Cons x show ?thesis by simp
  next
    case (ScanChange s t v)
    show ?thesis
    proof (cases "latest = Some t")
      case True
      then have t: "t \<in> set out" using Cons.prems(3) by (auto split: if_splits)
      from True ScanChange x Cons.prems
      obtain latest' out' where "run_records (\<lambda>s _. (\<lambda>(latest, s) record.
            case record of
              ScanChange _ time _ \<Rightarrow>
                if latest \<noteq> Some time then
                  (let (s', flow) = collect_up_to 0 s time in ((Some time, s'), flow))
                else ((latest, s), Continue)
            | ScanInitial _ _ _ \<Rightarrow> ((latest, s), Continue)) s) rs (latest, out) =
      ((latest', out'), Continue) \<and> sorted_wrt (<) out' \<and> set out' = set out \<union> set (change_times rs)"
        using Cons.IH [of latest out] by auto
      with True ScanChange x t show ?thesis by auto
    next
      case False
      have below: "\<forall>u \<in> set out. u < t"
      proof (cases "out = []")
        case True then show ?thesis by simp
      next
        case ne: False
        then have le: "last out \<le> t" using Cons.prems(2,3) ScanChange x by simp
        moreover have "last out \<noteq> t" using False ne Cons.prems(3) by auto
        ultimately have lt: "last out < t" by simp
        show ?thesis
        proof
          fix u assume "u \<in> set out"
          then obtain k where "k < length out" "u = out ! k" by (auto simp: in_set_conv_nth)
          then have "u \<le> last out"
            using Cons.prems(4) ne
            by (cases "k = length out - 1") (auto simp: last_conv_nth sorted_wrt_iff_nth_less less_imp_le)
          with lt show "u < t" by simp
        qed
      qed
      have "\<exists>latest' out'. run_records (\<lambda>s _. (\<lambda>(latest, s) record.
            case record of
              ScanChange _ time _ \<Rightarrow>
                if latest \<noteq> Some time then
                  (let (s', flow) = collect_up_to 0 s time in ((Some time, s'), flow))
                else ((latest, s), Continue)
            | ScanInitial _ _ _ \<Rightarrow> ((latest, s), Continue)) s) rs (Some t, out @ [t]) =
      ((latest', out'), Continue) \<and> sorted_wrt (<) out' \<and>
        set out' = set (out @ [t]) \<union> set (change_times rs)"
        by (rule Cons.IH) (use Cons.prems ScanChange x below in \<open>auto simp: sorted_wrt_append\<close>)
      with False ScanChange x show ?thesis by (auto simp: collect_up_to_def)
    qed
  qed
qed

lemma change_times_records:
  "set (change_times rs) = {t. \<exists>i s v. (i, ScanChange s t v) \<in> set rs}"
  by (force simp: change_times_def split: scan_record.splits)

lemma change_times_initials [simp]: "change_times (initial_records slots idx index signals) = []"
  by (induction slots idx index signals rule: initial_records.induct) (auto split: option.split)

lemma change_times_changes:
  "t' \<in> set (change_times (change_records m idx t index signals)) \<Longrightarrow> t' = t"
proof (induction m idx t index signals rule: change_records.induct)
  case (1 slots idx time index)
  then show ?case by simp
next
  case (2 slots idx time index sig signals)
  have "u = time" if "u \<in> set (change_times (map (Pair index) (slot_changes sig c time)))" for u c
    using that by (auto simp: slot_changes_def split: option.splits if_splits)
  with 2 show ?case by auto
qed

lemma sorted_constant: "\<forall>x \<in> set xs. x = c \<Longrightarrow> sorted xs"
  by (induction xs) auto

lemma sorted_tick_changes:
  "sorted_wrt (<) (map fst ss) \<Longrightarrow>
    sorted (change_times (concat (map (\<lambda>(t, m). change_records m idx t 0 signals) ss))) \<and>
    set (change_times (concat (map (\<lambda>(t, m). change_records m idx t 0 signals) ss))) \<subseteq> fst ` set ss"
proof (induction ss)
  case Nil
  then show ?case by simp
next
  case (Cons x ss)
  obtain t m where x: "x = (t, m)" by fastforce
  have "\<forall>u \<in> set (change_times (change_records m idx t 0 signals)). u = t"
    using change_times_changes by blast
  then have "sorted (change_times (change_records m idx t 0 signals))" by (rule sorted_constant)
  with Cons x show ?case by (fastforce simp: sorted_append dest: change_times_changes)
qed

lemma scan_spec_sorted:
  "sorted_wrt (<) (map fst ss) \<Longrightarrow> sorted (change_times (scan_spec sel rng ss))"
  unfolding scan_spec_def scan_records_def
  using sorted_tick_changes [of "filter (\<lambda>x. range_start rng \<le> fst x) ss"]
  by (auto simp: sorted_wrt_map sorted_wrt_filter)

lemma candidate_times_spec:
  assumes ok: "session_ok src sel" and idx: "slots_in_range sel"
    and rec: "recording src sel (scan_end src rng) = Some ss"
  shows "\<exists>out. snd (scan_candidate_times src sel rng (collect_up_to 0) []) = (out, Inr Continue) \<and>
    sorted_wrt (<) out \<and> set out = {t. \<exists>i s v. (i, ScanChange s t v) \<in> set (scan_spec sel rng ss)}"
proof -
  let ?V = "\<lambda>(latest, s) record.
            case record of
              ScanChange _ time _ \<Rightarrow>
                if latest \<noteq> Some time then
                  (let (s', flow) = collect_up_to 0 s time in ((Some time, s'), flow))
                else ((latest, s), Continue)
            | ScanInitial _ _ _ \<Rightarrow> ((latest, s), Continue)"
  have inc: "sorted_wrt (<) (map fst ss)" using recording_increasing [OF ok rec] by simp
  obtain latest out where r: "run_records (\<lambda>s _. ?V s) (scan_spec sel rng ss) (None, []) =
      ((latest, out), Continue)" and out: "sorted_wrt (<) out"
      "set out = set [] \<union> set (change_times (scan_spec sel rng ss))"
    using candidate_run [OF scan_spec_sorted [OF inc, of sel rng], of None "[]"] by auto
  obtain sel' s' flow where run: "scan_each src sel rng (\<lambda>s _. ?V s) (None, []) = (sel', s', flow)"
    by (rule prod_cases3)
  from scan_each_records [OF ok idx rec run] r have "s' = (latest, out)" "flow = Inr Continue"
    by simp_all
  with run out show ?thesis
    by (simp add: scan_candidate_times_def scan_def change_times_records)
qed

section \<open>Failed reads\<close>

lemma visit_then_continues:
  "snd r = Continue \<Longrightarrow> (\<And>s. snd (f s) = Continue) \<Longrightarrow> snd (visit_then r f) = Continue"
  by (cases r) simp

lemma scan_step_continues:
  assumes "\<And>s i r. snd (visitor s i r) = Continue"
  shows "snd (scan_step sel rng visitor es time slots) = Inr Continue"
proof -
  have i: "snd (initials slots idx visitor index signals s) = Continue" for idx index signals s
    by (induction signals arbitrary: index s)
      (auto intro!: visit_then_continues simp: assms split: option.split)
  have c: "snd (tick_changes slots idx time rng visitor index signals s) = Continue" for idx index signals s
    by (induction signals arbitrary: index s)
      (auto intro!: visit_then_continues simp: assms Let_def split: option.split)
  have "snd (scan_tick (sel_signals sel) slots (sel_slot_indices sel) time rng visitor es) = Continue"
    by (cases es) (simp add: scan_tick_def Let_def split_beta i c visit_then_continues)
  then show ?thesis by (auto simp: scan_step_def split: prod.split)
qed

lemma scan_each_failed:
  assumes ok: "session_ok src sel" and rec: "recording src sel (scan_end src rng) = None"
    and ne: "\<not> range_is_empty rng" "sel_signals sel \<noteq> []"
    and go: "\<And>s i r. snd (visitor s i r) = Continue"
    and run: "scan_each src sel rng visitor s = (sel', s', flow)"
  shows "\<exists>e. flow = Inl e"
proof -
  have le: "\<not> scan_end src rng < range_start rng" using scan_end_start [OF ne(1), of src] by simp
  obtain sel1 slots es f where r: "read_ticks_from src sel (Some (range_start rng)) (scan_end src rng)
      (default_slots sel) (scan_step sel rng visitor) (False, s) = (sel1, slots, es, f)"
    by (rule prod_cases4)
  have "\<forall>es t m. snd (scan_step sel rng visitor es t m) = Inr Continue"
    by (simp add: scan_step_continues go)
  then obtain e where "f = Inl e" using read_ticks_failed [OF ok rec _ r] by blast
  with run le ne show ?thesis
    by (cases es) (auto simp: scan_each_rest r scan_rest_def)
qed

lemma sample_record_continues: "snd (sample_record s i r) = Continue"
  by (cases "(s, i, r)" rule: sample_record.cases) simp_all

lemma trace_record_continues: "snd (trace_record s i r) = Continue"
  by (cases r) simp_all

lemma samples_failed:
  assumes ok: "session_ok src sel" and rec: "recording src sel t = None" and ne: "sel_signals sel \<noteq> []"
  shows "\<exists>e. snd (samples src sel t) = Inl e"
proof -
  let ?n = "length (sel_signals sel)"
  obtain sel1 s1 flow where run: "scan_each src sel (time_range_point t) sample_record
      (replicate ?n None, replicate ?n 0) = (sel1, s1, flow)"
    by (rule prod_cases3)
  have "\<not> range_is_empty (time_range_point t)"
    by (simp add: range_is_empty_order time_range_point_def time_range_closed_def)
  then obtain e where "flow = Inl e"
    using scan_each_failed [OF ok _ _ ne sample_record_continues run] rec by auto
  with run show ?thesis by (cases s1) (simp add: samples_def sample_visit_def)
qed

lemma traces_failed:
  assumes ok: "session_ok src sel" and rec: "recording src sel (scan_end src rng) = None"
    and ne: "\<not> range_is_empty rng" "sel_signals sel \<noteq> []"
  shows "\<exists>e. snd (traces src sel rng) = Inl e"
proof -
  obtain sel1 s1 flow where run: "scan_each src sel rng trace_record (map (trace_new rng) (sel_signals sel))
      = (sel1, s1, flow)"
    by (rule prod_cases3)
  then show ?thesis
    using scan_each_failed [OF ok rec ne trace_record_continues run] by (auto simp: traces_def)
qed

end
