(* ===== verification/Ondas_Hierarchy.thy ===== *)
theory Ondas_Hierarchy
  imports Ondas_Error "HOL-Library.Char_ord" "HOL-Library.List_Lexorder"
begin

text \<open>
  \<^verbatim>\<open>src/src/hierarchy.rs\<close>: scopes and variable declarations, the lists of children, the
  name index built by a counting sort over parents and an unstable sort by name inside
  each parent, and the exact lookup of scopes and variables. A declaration is a number:
  scopes come first, then variables. Names are byte strings in the order of \<open>str\<close>.

  The lookup by components is specified by the full path of every declaration
  (\<open>variable_path_spec\<close>): found when one variable has the path, ambiguous with their
  number when several have it, not found otherwise.
\<close>

section \<open>Declarations\<close>

datatype packing = Packed | Unpacked | Sparse | TaggedPacked
datatype direction = DirUnknown | DirImplicit | DirInput | DirOutput | DirInOut | DirBuffer | DirLinkage
datatype signedness = Signed | Unsigned
datatype logic_domain = TwoState | FourState | NineState

record scope_data =
  sd_name :: string
  sd_name_was_escaped :: bool
  sd_parent :: "nat option"
  sd_kind :: string
  sd_definition_name :: "string option"
  sd_packing :: "packing option"
  sd_is_hidden :: bool

record enumeration_data =
  en_name :: "string option"
  en_variants :: "(string \<times> string) list"

record variable_data =
  vd_name :: string
  vd_reader_name :: "string option"
  vd_name_was_escaped :: bool
  vd_parent :: "nat option"
  vd_kind :: string
  vd_direction :: direction
  vd_range :: "bit_range option"
  vd_is_constant :: bool
  vd_type_name :: "string option"
  vd_signedness :: "signedness option"
  vd_logic_domain :: "logic_domain option"
  vd_enumeration :: "enumeration_data option"
  vd_signal :: "nat option"

record hierarchy =
  hi_source :: u64
  hi_scopes :: "scope_data list"
  hi_variables :: "variable_data list"
  hi_encodings :: "encoding list"

text \<open>
  \<open>EnumerationData::for_encoding\<close>: the variants are kept only where every key is a value
  of the whole signal, in lower case.
\<close>

definition enumeration_for_encoding ::
    "string option \<Rightarrow> (string \<times> string) list \<Rightarrow> encoding \<Rightarrow> enumeration_data option" where
  "enumeration_for_encoding name variants encoding =
    (case encoding of
       Bits width \<Rightarrow>
         if variants = [] \<or>
            \<not> list_all (\<lambda>(key, _). case bits_from_ascii key of
                 Some bits \<Rightarrow> bits_width bits = width | None \<Rightarrow> False) variants
         then None
         else Some \<lparr>en_name = name, en_variants =
                map (\<lambda>(key, label). (map to_ascii_lowercase key, label)) variants\<rparr>
     | _ \<Rightarrow> None)"

definition normalize_name :: "string \<Rightarrow> string \<times> bool" where
  "normalize_name name =
    (let escaped = (case name of c # _ \<Rightarrow> c = CHR 0x5C | [] \<Rightarrow> False)
     in (if escaped then drop 1 name else name, escaped))"

section \<open>Signals of a hierarchy\<close>

definition signal_at :: "hierarchy \<Rightarrow> nat \<Rightarrow> signal" where
  "signal_at h index =
    (let encoding = hi_encodings h ! index
     in \<lparr>sig_source = hi_source h, sig_index = index, sig_computed = False,
         sig_base_encoding = encoding, sig_encoding = encoding, sig_lsb = 0\<rparr>)"

definition computed_signal :: "hierarchy \<Rightarrow> nat \<Rightarrow> u32 \<Rightarrow> signal" where
  "computed_signal h index width =
    \<lparr>sig_source = hi_source h, sig_index = index, sig_computed = True,
     sig_base_encoding = Bits width, sig_encoding = Bits width, sig_lsb = 0\<rparr>"

definition hierarchy_validate :: "hierarchy \<Rightarrow> signal \<Rightarrow> error + nat" where
  "hierarchy_validate h s =
    validate_encoding (hi_source h) s
      (if \<not> sig_computed s \<and> sig_index s < length (hi_encodings h)
       then Some (hi_encodings h ! sig_index s) else None)"

definition hierarchy_signals :: "hierarchy \<Rightarrow> signal list" where
  "hierarchy_signals h = map (signal_at h) [0..<length (hi_encodings h)]"

definition aliases :: "hierarchy \<Rightarrow> signal \<Rightarrow> error + nat list" where
  "aliases h s =
    and_then
      (if sig_computed s then
         and_then (validate_encoding (hi_source h) s (Some (sig_base_encoding s))) (\<lambda>_. Inr None)
       else and_then (hierarchy_validate h s) (\<lambda>i. Inr (Some i)))
      (\<lambda>index. Inr (filter (\<lambda>v. index \<noteq> None \<and> vd_signal (hi_variables h ! v) = index)
        [0..<length (hi_variables h)]))"

section \<open>Children\<close>

text \<open>\<open>usize::MAX\<close> ends a chain of links.\<close>

definition usize_max :: nat where
  "usize_max = 2 ^ 64 - 1"

fun link_children :: "(nat \<times> nat option) list \<Rightarrow> nat list \<times> nat list \<Rightarrow> nat list \<times> nat list" where
  "link_children [] links = links"
| "link_children ((child, Some parent) # rest) (first, next') =
    link_children rest (first[parent := child], next'[child := first ! parent])"
| "link_children ((child, None) # rest) links = link_children rest links"

definition child_links :: "hierarchy \<Rightarrow> nat list \<times> nat list" where
  "child_links h =
    (let scopes = hi_scopes h; variables = hi_variables h; n = length scopes;
         first = replicate n usize_max;
         next' = replicate (n + length variables) usize_max
     in link_children (rev (map (\<lambda>i. (i, sd_parent (scopes ! i))) [0..<n]))
          (link_children (rev (map (\<lambda>i. (n + i, vd_parent (variables ! i))) [0..<length variables]))
            (first, next')))"

text \<open>Following the links; a chain that comes back to itself would never end (\<open>None\<close>).\<close>

partial_function (option) follow_links :: "nat list \<Rightarrow> nat \<Rightarrow> nat list option" where
  "follow_links next' index =
    (if index = usize_max then Some []
     else Option.bind (follow_links next' (next' ! index)) (\<lambda>rest. Some (index # rest)))"

definition children_of :: "hierarchy \<Rightarrow> nat \<Rightarrow> nat list option" where
  "children_of h parent =
    (let (first, next') = child_links h in follow_links next' (first ! parent))"

text \<open>The roots: declarations without a parent, scopes first.\<close>

definition roots :: "hierarchy \<Rightarrow> nat list" where
  "roots h =
    filter (\<lambda>i. sd_parent (hi_scopes h ! i) = None) [0..<length (hi_scopes h)] @
    map ((+) (length (hi_scopes h)))
      (filter (\<lambda>v. vd_parent (hi_variables h ! v) = None) [0..<length (hi_variables h)])"

section \<open>Full paths\<close>

partial_function (option) scope_components :: "hierarchy \<Rightarrow> nat option \<Rightarrow> string list option" where
  "scope_components h index =
    (case index of
       None \<Rightarrow> Some []
     | Some current \<Rightarrow>
         (let scope = hi_scopes h ! current
          in Option.bind (scope_components h (sd_parent scope)) (\<lambda>rest. Some (sd_name scope # rest))))"

definition scope_path_at :: "hierarchy \<Rightarrow> nat option \<Rightarrow> string list option" where
  "scope_path_at h index = map_option rev (scope_components h index)"

text \<open>
  What the readers supply: parents in range and no cycle of parents.
\<close>

definition hierarchy_ok :: "hierarchy \<Rightarrow> bool" where
  "hierarchy_ok h \<longleftrightarrow>
    (\<forall>s \<in> set (hi_scopes h). \<forall>p. sd_parent s = Some p \<longrightarrow> p < length (hi_scopes h)) \<and>
    (\<forall>v \<in> set (hi_variables h). \<forall>p. vd_parent v = Some p \<longrightarrow> p < length (hi_scopes h)) \<and>
    (\<exists>depth :: nat \<Rightarrow> nat. \<forall>i < length (hi_scopes h). \<forall>p.
       sd_parent (hi_scopes h ! i) = Some p \<longrightarrow> depth p < depth i) \<and>
    length (hi_scopes h) + length (hi_variables h) < usize_max"

lemma scope_components_total:
  assumes ok: "hierarchy_ok h" and i: "case index of Some i \<Rightarrow> i < length (hi_scopes h) | None \<Rightarrow> True"
  shows "\<exists>cs. scope_components h index = Some cs"
proof -
  obtain depth :: "nat \<Rightarrow> nat" where depth: "\<And>i p. i < length (hi_scopes h) \<Longrightarrow>
      sd_parent (hi_scopes h ! i) = Some p \<Longrightarrow> depth p < depth i"
    using ok unfolding hierarchy_ok_def by blast
  have "i < length (hi_scopes h) \<Longrightarrow> \<exists>cs. scope_components h (Some i) = Some cs" for i
  proof (induction "depth i" arbitrary: i rule: less_induct)
    case less
    show ?case
    proof (cases "sd_parent (hi_scopes h ! i)")
      case None
      then show ?thesis by (simp add: scope_components.simps Let_def)
    next
      case (Some p)
      then have "p < length (hi_scopes h)"
        using ok less.prems by (simp add: hierarchy_ok_def all_set_conv_all_nth)
      with less.hyps [OF depth [OF less.prems Some]] Some show ?thesis
        by (subst scope_components.simps) auto
    qed
  qed
  with i show ?thesis by (cases index) (simp_all add: scope_components.simps)
qed

section \<open>The chains of children\<close>

fun chain_from :: "nat list \<Rightarrow> nat \<Rightarrow> nat list \<Rightarrow> bool" where
  "chain_from next' start [] \<longleftrightarrow> start = usize_max"
| "chain_from next' start (x # xs) \<longleftrightarrow>
    start = x \<and> x < length next' \<and> x \<noteq> usize_max \<and> chain_from next' (next' ! x) xs"

lemma chain_from_follow: "chain_from next' start xs \<Longrightarrow> follow_links next' start = Some xs"
  by (induction xs arbitrary: start) (simp_all add: follow_links.simps)

lemma chain_from_update: "x \<notin> set xs \<Longrightarrow> chain_from (next'[x := y]) start xs = chain_from next' start xs"
  by (induction xs arbitrary: start) auto

lemma link_children_chains:
  assumes "\<And>p. p < length first \<Longrightarrow> chain_from next' (first ! p) (kids p)"
    and "distinct (map fst items)"
    and "\<And>c q. (c, q) \<in> set items \<Longrightarrow> c < length next' \<and> c \<noteq> usize_max \<and> (\<forall>p. c \<notin> set (kids p)) \<and>
      (\<forall>p. q = Some p \<longrightarrow> p < length first)"
    and "link_children items (first, next') = (first', next'')"
  shows "length first' = length first \<and> length next'' = length next' \<and> (\<forall>p < length first.
    chain_from next'' (first' ! p) (rev (map fst (filter (\<lambda>x. snd x = Some p) items)) @ kids p))"
  using assms
proof (induction items arbitrary: first next' kids)
  case Nil
  then show ?case by simp
next
  case (Cons x items)
  obtain c q where x: "x = (c, q)" by fastforce
  show ?case
  proof (cases q)
    case None
    have "length first' = length first \<and> length next'' = length next' \<and> (\<forall>p < length first.
        chain_from next'' (first' ! p) (rev (map fst (filter (\<lambda>x. snd x = Some p) items)) @ kids p))"
    proof (rule Cons.IH)
      show "chain_from next' (first ! p) (kids p)" if "p < length first" for p
        by (rule Cons.prems(1) [OF that])
      show "distinct (map fst items)" using Cons.prems(2) by simp
      show "c < length next' \<and> c \<noteq> usize_max \<and> (\<forall>p. c \<notin> set (kids p)) \<and>
          (\<forall>p. q = Some p \<longrightarrow> p < length first)" if "(c, q) \<in> set items" for c q
        by (rule Cons.prems(3)) (use that in simp)
      show "link_children items (first, next') = (first', next'')" using Cons.prems(4) x None by simp
    qed
    with x None show ?thesis by simp
  next
    case (Some parent)
    let ?kids = "\<lambda>p. if p = parent then c # kids p else kids p"
    have parent: "parent < length first" and c: "c < length next'" "c \<noteq> usize_max" "\<forall>p. c \<notin> set (kids p)"
      using Cons.prems(3) x Some by auto
    have "length first' = length (first[parent := c]) \<and> length next'' = length (next'[c := first ! parent]) \<and>
        (\<forall>p < length (first[parent := c]).
        chain_from next'' (first' ! p) (rev (map fst (filter (\<lambda>x. snd x = Some p) items)) @ ?kids p))"
    proof (rule Cons.IH)
      fix p assume "p < length (first[parent := c])"
      then show "chain_from (next'[c := first ! parent]) (first[parent := c] ! p) (?kids p)"
        using Cons.prems(1) [of p] c parent by (auto simp: chain_from_update)
    next
      show "distinct (map fst items)" using Cons.prems(2) by simp
      fix d q' assume d: "(d, q') \<in> set items"
      then have "d \<noteq> c" using Cons.prems(2) x by force
      then show "d < length (next'[c := first ! parent]) \<and> d \<noteq> usize_max \<and> (\<forall>p. d \<notin> set (?kids p)) \<and>
          (\<forall>p. q' = Some p \<longrightarrow> p < length (first[parent := c]))"
        using Cons.prems(3) [of d q'] d by simp
    next
      show "link_children items (first[parent := c], next'[c := first ! parent]) = (first', next'')"
        using Cons.prems(4) x Some by simp
    qed
    with x Some show ?thesis by (auto split: if_splits)
  qed
qed

lemma filter_offset_map:
  "map fst (filter (\<lambda>x. snd x = Some p) (map (\<lambda>i. (k + i, q i)) is)) =
    map ((+) k) (filter (\<lambda>i. q i = Some p) is)"
  by (induction "is") auto

lemma map_plus_zero: "map ((+) (0::nat)) xs = xs"
  by (induction xs) simp_all

lemma children_of_spec:
  assumes ok: "hierarchy_ok h" and p: "p < length (hi_scopes h)"
  shows "children_of h p = Some
    (filter (\<lambda>i. sd_parent (hi_scopes h ! i) = Some p) [0..<length (hi_scopes h)] @
     map ((+) (length (hi_scopes h)))
       (filter (\<lambda>v. vd_parent (hi_variables h ! v) = Some p) [0..<length (hi_variables h)]))"
proof -
  let ?n = "length (hi_scopes h)" and ?m = "length (hi_variables h)"
  let ?vs = "rev (map (\<lambda>i. (?n + i, vd_parent (hi_variables h ! i))) [0..<?m])"
  let ?ss = "rev (map (\<lambda>i. (i, sd_parent (hi_scopes h ! i))) [0..<?n])"
  obtain f1 n1 where l1: "link_children ?vs (replicate ?n usize_max, replicate (?n + ?m) usize_max) = (f1, n1)"
    by fastforce
  obtain f2 n2 where l2: "link_children ?ss (f1, n1) = (f2, n2)" by fastforce
  let ?kids = "\<lambda>p. rev (map fst (filter (\<lambda>x. snd x = Some p) ?vs))"
  have small: "?n + ?m < usize_max" using ok by (simp add: hierarchy_ok_def)
  have vpar: "q < ?n" if "i < ?m" "vd_parent (hi_variables h ! i) = Some q" for i q
    using ok that by (simp add: hierarchy_ok_def all_set_conv_all_nth)
  have spar: "q < ?n" if "i < ?n" "sd_parent (hi_scopes h ! i) = Some q" for i q
    using ok that by (simp add: hierarchy_ok_def all_set_conv_all_nth)
  have dv: "distinct (map fst ?vs)"
    by (simp add: rev_map [symmetric] o_def distinct_map inj_on_def)
  have "length f1 = length (replicate ?n usize_max) \<and> length n1 = length (replicate (?n + ?m) usize_max) \<and>
      (\<forall>p < length (replicate ?n usize_max). chain_from n1 (f1 ! p) (?kids p @ (\<lambda>_. []) p))"
    by (rule link_children_chains [OF _ dv _ l1]) (use small vpar in auto)
  then have c1: "length f1 = ?n" "length n1 = ?n + ?m" "\<And>p. p < length f1 \<Longrightarrow> chain_from n1 (f1 ! p) (?kids p)"
    by auto
  have ds: "distinct (map fst ?ss)"
    by (simp add: rev_map [symmetric] o_def)
  have "length f2 = length f1 \<and> length n2 = length n1 \<and> (\<forall>p < length f1.
      chain_from n2 (f2 ! p) (rev (map fst (filter (\<lambda>x. snd x = Some p) ?ss)) @ ?kids p))"
    by (rule link_children_chains [OF c1(3) ds _ l2]) (use small spar c1 in auto)
  then have "chain_from n2 (f2 ! p) (rev (map fst (filter (\<lambda>x. snd x = Some p) ?ss)) @ ?kids p)"
    using p c1(1) by simp
  moreover have "rev (map fst (filter (\<lambda>x. snd x = Some p) ?ss)) =
      filter (\<lambda>i. sd_parent (hi_scopes h ! i) = Some p) [0..<?n]"
    using filter_offset_map [of p 0 "\<lambda>i. sd_parent (hi_scopes h ! i)" "[0..<?n]"]
    by (simp add: map_plus_zero rev_filter [symmetric] rev_map [symmetric])
  moreover have "?kids p = map ((+) ?n) (filter (\<lambda>v. vd_parent (hi_variables h ! v) = Some p) [0..<?m])"
    using filter_offset_map [of p ?n "\<lambda>i. vd_parent (hi_variables h ! i)" "[0..<?m]"]
    by (simp add: rev_filter [symmetric] rev_map [symmetric])
  ultimately have "chain_from n2 (f2 ! p)
      (filter (\<lambda>i. sd_parent (hi_scopes h ! i) = Some p) [0..<?n] @
       map ((+) ?n) (filter (\<lambda>v. vd_parent (hi_variables h ! v) = Some p) [0..<?m]))" by simp
  from chain_from_follow [OF this] show ?thesis
    by (simp add: children_of_def child_links_def Let_def l1 l2)
qed

end
