(* ===== verification/Ondas_Plan.thy ===== *)
theory Ondas_Plan
  imports Ondas_Observed Ondas_Hierarchy
begin

text \<open>
  Compositions (\<^verbatim>\<open>src/src/waveform/composition.rs\<close>) and the plan of a selection
  (\<open>Plan::new\<close> of \<^verbatim>\<open>src/src/query/engine/composition.rs\<close>). A waveform registers each
  distinct list of parts once and answers a computed handle. The plan gives every distinct
  selected signal, and every operand a computed one needs, one slot, by a depth-first walk
  with an explicit stack: operands before what is computed from them. \<open>plan_new_spec\<close>
  proves that the walk ends, that it fails exactly on the first handle that is invalid or
  unsupported, and that its result is what the traversal assumes of a selection.
\<close>

section \<open>Compositions\<close>

record wave =
  wv_hierarchy :: hierarchy
  wv_definitions :: "(signal list \<times> u32) list"
  wv_indices :: "signal list \<rightharpoonup> nat"

definition wave_new :: "hierarchy \<Rightarrow> wave" where
  "wave_new h = \<lparr>wv_hierarchy = h, wv_definitions = [], wv_indices = Map.empty\<rparr>"

definition wave_validate :: "wave \<Rightarrow> signal \<Rightarrow> error + nat" where
  "wave_validate w s =
    (if \<not> sig_computed s then hierarchy_validate (wv_hierarchy w) s
     else validate_encoding (hi_source (wv_hierarchy w)) s
       (if sig_index s < length (wv_definitions w)
        then Some (Bits (snd (wv_definitions w ! sig_index s))) else None))"

definition composition_parts :: "wave \<Rightarrow> signal \<Rightarrow> signal list" where
  "composition_parts w s = fst (wv_definitions w ! sig_index s)"

fun parts_width :: "wave \<Rightarrow> nat \<Rightarrow> signal list \<Rightarrow> u32 \<Rightarrow> error + u32" where
  "parts_width w part [] width = Inr width"
| "parts_width w part (s # parts) width =
    and_then (wave_validate w s) (\<lambda>_.
      if sig_encoding s = Unsupported then Inl (UnsupportedSignal s)
      else case signal_width s of
        None \<Rightarrow> Inl (InvalidComposition (PartNotBits part s))
      | Some part_width \<Rightarrow>
          if part_width = 0 then Inl (InvalidComposition (EmptyPart part s))
          else case checked_add width part_width of
            None \<Rightarrow> Inl (InvalidComposition WidthOverflow)
          | Some width' \<Rightarrow> parts_width w (part + 1) parts width')"

definition wave_concat :: "wave \<Rightarrow> signal list \<Rightarrow> wave \<times> (error + signal)" where
  "wave_concat w parts =
    (if parts = [] then (w, Inl (InvalidComposition Empty))
     else case parts_width w 0 parts 0 of
       Inl e \<Rightarrow> (w, Inl e)
     | Inr width \<Rightarrow>
         if length parts = 1 then (w, Inr (hd parts))
         else (case wv_indices w parts of
             Some index \<Rightarrow> (w, Inr (computed_signal (wv_hierarchy w) index width))
           | None \<Rightarrow>
               (let index = length (wv_definitions w)
                in (w\<lparr>wv_indices := (wv_indices w)(parts \<mapsto> index),
                      wv_definitions := wv_definitions w @ [(parts, width)]\<rparr>,
                    Inr (computed_signal (wv_hierarchy w) index width)))))"

section \<open>The plan\<close>

record plan =
  pl_retained :: "signal list"
  pl_indices :: "nat list"
  pl_bases :: "signal list"
  pl_groups :: "nat \<rightharpoonup> nat list"
  pl_computations :: "computation list"
  pl_index :: "signal \<rightharpoonup> nat"

definition plan_empty :: plan where
  "plan_empty = \<lparr>pl_retained = [], pl_indices = [], pl_bases = [], pl_groups = Map.empty,
     pl_computations = [], pl_index = Map.empty\<rparr>"

definition plan_check :: "wave \<Rightarrow> signal \<Rightarrow> error + unit" where
  "plan_check w s =
    and_then (wave_validate w s) (\<lambda>_.
      if sig_encoding s = Unsupported then Inl (UnsupportedSignal s) else Inr ())"

definition plan_operands :: "wave \<Rightarrow> signal \<Rightarrow> signal list" where
  "plan_operands w s = (if is_slice s then [signal_base s] else composition_parts w s)"

text \<open>The operands of a concatenation; \<open>None\<close> is a panic of the index or of \<open>expect\<close>.\<close>

fun plan_inputs :: "(signal \<rightharpoonup> nat) \<Rightarrow> signal list \<Rightarrow> (nat \<times> u32) list option" where
  "plan_inputs index [] = Some []"
| "plan_inputs index (part # parts) =
    (case (index part, signal_width part, plan_inputs index parts) of
       (Some i, Some width, Some inputs) \<Rightarrow> Some ((i, width) # inputs)
     | _ \<Rightarrow> None)"

definition plan_computation :: "wave \<Rightarrow> (signal \<rightharpoonup> nat) \<Rightarrow> nat \<Rightarrow> signal \<Rightarrow> computation option" where
  "plan_computation w index slot s =
    (if is_slice s then map_option (\<lambda>input. Slice slot input s) (index (signal_base s))
     else case (plan_inputs index (composition_parts w s), signal_width s) of
       (Some inputs, Some width) \<Rightarrow> Some (Concat slot inputs width)
     | _ \<Rightarrow> None)"

definition plan_insert :: "wave \<Rightarrow> plan \<Rightarrow> signal \<Rightarrow> error + plan" where
  "plan_insert w p s =
    (let slot = length (pl_retained p);
         p' = p\<lparr>pl_index := (pl_index p)(s \<mapsto> slot), pl_retained := pl_retained p @ [s]\<rparr>
     in if sig_computed s then
          (case plan_computation w (pl_index p') slot s of
             None \<Rightarrow> Inl (Panic ''operand'')
           | Some c \<Rightarrow> Inr (p'\<lparr>pl_computations := pl_computations p @ [c]\<rparr>))
        else
          (case pl_groups p (sig_index s) of
             None \<Rightarrow> Inr (p'\<lparr>pl_bases := pl_bases p @ [signal_base s],
                               pl_groups := (pl_groups p)(sig_index s \<mapsto> [slot])\<rparr>)
           | Some entries \<Rightarrow> Inr (p'\<lparr>pl_groups := (pl_groups p)(sig_index s \<mapsto> entries @ [slot])\<rparr>)))"

text \<open>The stack \<open>pending\<close>, its top first; a walk that would never end is \<open>None\<close>.\<close>

partial_function (option) plan_drain :: "wave \<Rightarrow> plan \<Rightarrow> (signal \<times> bool) list \<Rightarrow> (error + plan) option" where
  "plan_drain w p pending =
    (case pending of
       [] \<Rightarrow> Some (Inr p)
     | (s, expanded) # rest \<Rightarrow>
         if pl_index p s \<noteq> None then plan_drain w p rest
         else
           (case (if expanded then Inr () else plan_check w s) of
              Inl e \<Rightarrow> Some (Inl e)
            | Inr _ \<Rightarrow>
                if sig_computed s \<and> \<not> expanded then
                  plan_drain w p (map (\<lambda>part. (part, False)) (plan_operands w s) @ (s, True) # rest)
                else
                  (case plan_insert w p s of
                     Inl e \<Rightarrow> Some (Inl e)
                   | Inr p' \<Rightarrow> plan_drain w p' rest)))"

fun plan_signals :: "wave \<Rightarrow> plan \<Rightarrow> signal list \<Rightarrow> (error + plan) option" where
  "plan_signals w p [] = Some (Inr p)"
| "plan_signals w p (s # signals) =
    (case plan_drain w p [(s, False)] of
       None \<Rightarrow> None
     | Some (Inl e) \<Rightarrow> Some (Inl e)
     | Some (Inr p') \<Rightarrow>
         (case pl_index p' s of
            None \<Rightarrow> Some (Inl (Panic ''selected signal''))
          | Some slot \<Rightarrow> plan_signals w (p'\<lparr>pl_indices := pl_indices p' @ [slot]\<rparr>) signals))"

definition plan_new :: "wave \<Rightarrow> signal list \<Rightarrow> (error + plan) option" where
  "plan_new w signals = plan_signals w plan_empty signals"

text \<open>\<open>Selection::new\<close>.\<close>

definition selection_of :: "signal list \<Rightarrow> plan \<Rightarrow> selection" where
  "selection_of signals p =
    \<lparr>sel_signals = signals, sel_bases = pl_bases p, sel_groups = pl_groups p,
     sel_slot_indices = pl_indices p, sel_retained = pl_retained p,
     sel_computations = pl_computations p, sel_replay = None, sel_checkpoint = None\<rparr>"

definition select_signals :: "wave \<Rightarrow> signal list \<Rightarrow> (error + selection) option" where
  "select_signals w signals =
    map_option (\<lambda>r. and_then r (\<lambda>p. Inr (selection_of signals p))) (plan_new w signals)"

section \<open>Well-formed waveforms\<close>

definition good :: "wave \<Rightarrow> signal \<Rightarrow> bool" where
  "good w s \<longleftrightarrow> plan_check w s = Inr ()"

definition definition_ok :: "wave \<Rightarrow> nat \<Rightarrow> bool" where
  "definition_ok w k \<longleftrightarrow>
    (case wv_definitions w ! k of (parts, width) \<Rightarrow>
      parts \<noteq> [] \<and>
      (\<forall>p \<in> set parts. good w p \<and> (\<exists>n. sig_encoding p = Bits n \<and> n \<noteq> 0) \<and>
         (sig_computed p \<longrightarrow> sig_index p < k)) \<and>
      unat width = (\<Sum>p\<leftarrow>parts. case signal_width p of Some n \<Rightarrow> unat n | None \<Rightarrow> 0))"

definition wave_ok :: "wave \<Rightarrow> bool" where
  "wave_ok w \<longleftrightarrow>
    (\<forall>k < length (wv_definitions w). definition_ok w k) \<and>
    (\<forall>parts k. wv_indices w parts = Some k \<longleftrightarrow>
      k < length (wv_definitions w) \<and> fst (wv_definitions w ! k) = parts)"

lemma good_iff:
  "good w s \<longleftrightarrow> (\<exists>i. wave_validate w s = Inr i) \<and> sig_encoding s \<noteq> Unsupported"
  by (auto simp: good_def plan_check_def split: if_splits)

lemma validate_encoding_Inr [simp]:
  "validate_encoding source s encoding = Inr i \<longleftrightarrow> valid_handle source encoding s \<and> i = sig_index s"
  by (auto simp: validate_encoding_def)

lemma wave_validate_computed:
  "sig_computed s \<Longrightarrow> wave_validate w s = Inr i \<longleftrightarrow>
    i = sig_index s \<and> sig_index s < length (wv_definitions w) \<and>
    valid_handle (hi_source (wv_hierarchy w)) (Some (Bits (snd (wv_definitions w ! sig_index s)))) s"
  by (auto simp: wave_validate_def valid_handle_def)

lemma wave_validate_source:
  "\<not> sig_computed s \<Longrightarrow> wave_validate w s = hierarchy_validate (wv_hierarchy w) s"
  by (simp add: wave_validate_def)

lemma good_grows:
  assumes "good w s" and "wv_hierarchy w' = wv_hierarchy w"
    and "wv_definitions w' = wv_definitions w @ ds"
  shows "good w' s"
  using assms
  by (cases "sig_computed s") (auto simp: good_iff wave_validate_computed wave_validate_source nth_append)

lemma definition_ok_grows:
  assumes "definition_ok w k" and "k < length (wv_definitions w)" and "wv_hierarchy w' = wv_hierarchy w"
    and "wv_definitions w' = wv_definitions w @ ds"
  shows "definition_ok w' k"
  using assms good_grows [OF _ assms(3,4)]
  by (auto simp: definition_ok_def nth_append split: prod.splits)

lemma wave_new_ok: "wave_ok (wave_new h)"
  by (simp add: wave_ok_def wave_new_def)

lemma parts_width_Inr:
  "parts_width w part parts width = Inr sum_width \<Longrightarrow>
    (\<forall>p \<in> set parts. good w p \<and> (\<exists>n. sig_encoding p = Bits n \<and> n \<noteq> 0)) \<and>
    unat sum_width = unat width + (\<Sum>p\<leftarrow>parts. case signal_width p of Some n \<Rightarrow> unat n | None \<Rightarrow> 0)"
proof (induction w part parts width rule: parts_width.induct)
  case (1 w part width)
  then show ?case by simp
next
  case (2 w part s parts width)
  then obtain i n width' where "wave_validate w s = Inr i" "sig_encoding s \<noteq> Unsupported"
    "signal_width s = Some n" "n \<noteq> 0" and add: "checked_add width n = Some width'"
    and rest: "parts_width w (part + 1) parts width' = Inr sum_width"
    by (auto split: if_splits option.splits)
  moreover have "sig_encoding s = Bits n"
    using \<open>signal_width s = Some n\<close> by (auto simp: signal_width_def split: encoding.splits)
  ultimately show ?case
    using "2.IH" [OF _ _ _ _ add rest] checked_add_Some_unat [OF add]
    by (auto simp: good_iff signal_width_def)
qed

lemma good_computed_index:
  "good w s \<Longrightarrow> sig_computed s \<Longrightarrow> sig_index s < length (wv_definitions w)"
  by (auto simp: good_iff wave_validate_computed)

lemma computed_signal_good:
  assumes "k < length (wv_definitions w)" and "snd (wv_definitions w ! k) = width"
  shows "good w (computed_signal (wv_hierarchy w) k width)"
proof -
  let ?s = "computed_signal (wv_hierarchy w) k width"
  have "checked_add 0 width = Some width" by simp
  then show ?thesis
    using assms
    by (simp add: good_iff wave_validate_computed computed_signal_def valid_handle_def signal_base_def)
qed

lemma register_index:
  assumes old: "\<And>qs i. m qs = Some i \<longleftrightarrow> i < length ds \<and> fst (ds ! i) = qs" and new: "m parts = None"
  shows "(m(parts \<mapsto> length ds)) ps = Some j \<longleftrightarrow>
    j < Suc (length ds) \<and> fst ((ds @ [(parts, width)]) ! j) = ps"
proof (cases "j < length ds")
  case True
  with old [of ps j] old [of parts j] new show ?thesis by (auto simp: nth_append)
next
  case False
  with old [of ps j] show ?thesis by (cases "j = length ds") (auto simp: nth_append)
qed

text \<open>
  Registration: the waveform stays well formed, and a successful request answers a valid
  supported handle whose width is the exact sum of the widths of its parts.
\<close>

lemma wave_concat_ok:
  assumes ok: "wave_ok w" and run: "wave_concat w parts = (w', r)"
  shows "wave_ok w' \<and> wv_hierarchy w' = wv_hierarchy w \<and>
    (\<forall>s. good w s \<longrightarrow> good w' s) \<and>
    (case r of
       Inl e \<Rightarrow> w' = w
     | Inr s \<Rightarrow> good w' s \<and> (\<exists>n. signal_width s = Some n \<and>
         unat n = (\<Sum>p\<leftarrow>parts. case signal_width p of Some n \<Rightarrow> unat n | None \<Rightarrow> 0)) \<and>
         (if length parts = 1 then s = hd parts
          else sig_computed s \<and> composition_parts w' s = parts))"
proof (cases "parts = []")
  case True
  with ok run show ?thesis by (auto simp: wave_concat_def)
next
  case ne: False
  show ?thesis
  proof (cases "parts_width w 0 parts 0")
    case (Inl e)
    with ne ok run show ?thesis by (auto simp: wave_concat_def)
  next
    case (Inr width)
    note P = parts_width_Inr [OF Inr]
    show ?thesis
    proof (cases "length parts = 1")
      case True
      then obtain p where "parts = [p]" by (auto simp: length_Suc_conv)
      with ne Inr True ok run P show ?thesis
        by (auto simp: wave_concat_def signal_width_def)
    next
      case False
      show ?thesis
      proof (cases "wv_indices w parts")
        case (Some k)
        then have k: "k < length (wv_definitions w)" "fst (wv_definitions w ! k) = parts"
          using ok by (auto simp: wave_ok_def)
        then have d: "definition_ok w k" using ok by (simp add: wave_ok_def)
        then have "unat (snd (wv_definitions w ! k)) = unat width"
          using k P by (auto simp: definition_ok_def split: prod.splits)
        then have "snd (wv_definitions w ! k) = width" by (simp add: word_unat_eq_iff)
        from computed_signal_good [OF k(1) this] show ?thesis
          using ne Inr False Some run ok P k
          by (auto simp: wave_concat_def composition_parts_def computed_signal_def signal_width_def)
      next
        case None
        let ?k = "length (wv_definitions w)"
        let ?w = "w\<lparr>wv_indices := (wv_indices w)(parts \<mapsto> ?k),
          wv_definitions := wv_definitions w @ [(parts, width)]\<rparr>"
        have w': "w' = ?w" "r = Inr (computed_signal (wv_hierarchy w) ?k width)"
          using ne Inr False None run by (auto simp: wave_concat_def Let_def)
        have grows: "good ?w s" if "good w s" for s
          by (rule good_grows [OF that]) simp_all
        have "definition_ok ?w j" if "j < ?k + 1" for j
        proof (cases "j = ?k")
          case True
          have "good ?w p \<and> (\<exists>n. sig_encoding p = Bits n \<and> n \<noteq> 0) \<and>
              (sig_computed p \<longrightarrow> sig_index p < ?k)" if "p \<in> set parts" for p
            using that P grows [of p] good_computed_index [of w p] by blast
          moreover have "unat width = (\<Sum>p\<leftarrow>parts. case signal_width p of Some n \<Rightarrow> unat n | None \<Rightarrow> 0)"
            using P by simp
          ultimately show ?thesis using ne True by (simp add: definition_ok_def)
        next
          case False
          with that have j: "j < ?k" by simp
          with ok have "definition_ok w j" by (simp add: wave_ok_def)
          from definition_ok_grows [OF this j] show ?thesis by simp
        qed
        moreover have "(wv_indices ?w ps = Some j) \<longleftrightarrow>
            (j < ?k + 1 \<and> fst (wv_definitions ?w ! j) = ps)" for ps j
          using register_index [of "wv_indices w" "wv_definitions w" parts ps j width] None ok
          by (simp add: wave_ok_def)
        ultimately have "wave_ok ?w" by (simp add: wave_ok_def)
        moreover have "good ?w (computed_signal (wv_hierarchy ?w) ?k width)"
          by (rule computed_signal_good) simp_all
        ultimately show ?thesis
          using w' grows P False
          by (simp add: composition_parts_def computed_signal_def signal_width_def nth_append)
      qed
    qed
  qed
qed

section \<open>Operands\<close>

text \<open>Operands have a smaller rank than what is computed from them, so the walk ends.\<close>

definition rank :: "signal \<Rightarrow> nat" where
  "rank s = (if sig_computed s then 2 * sig_index s + (if is_slice s then 2 else 1) else 0)"

lemma good_base:
  assumes "good w s"
  shows "good w (signal_base s)"
proof -
  have "\<not> is_slice (signal_base s)" by (simp add: is_slice_def signal_base_def)
  have "sig_base_encoding s = Unsupported \<Longrightarrow> sig_encoding s = Unsupported" if "valid_handle src e s" for src e
    using that by (auto simp: valid_handle_def split: encoding.splits)
  moreover have "valid_handle src e (signal_base s)" if "valid_handle src e s" for src e
    using that by (auto simp: valid_handle_def signal_base_def split: encoding.splits)
  ultimately show ?thesis
    using assms
    by (cases "sig_computed s")
      (auto simp: good_iff wave_validate_computed wave_validate_source hierarchy_validate_def signal_base_def)
qed

lemma operands_ok:
  assumes "wave_ok w" and "good w s" and "sig_computed s" and "q \<in> set (plan_operands w s)"
  shows "good w q \<and> rank q < rank s"
proof (cases "is_slice s")
  case True
  then have "q = signal_base s" using assms(4) by (simp add: plan_operands_def)
  with True assms(2,3) show ?thesis
    using good_base [of w s] by (simp add: rank_def is_slice_def signal_base_def)
next
  case False
  have k: "sig_index s < length (wv_definitions w)" using assms(2,3) by (rule good_computed_index)
  then have "definition_ok w (sig_index s)" using assms(1) by (simp add: wave_ok_def)
  with False assms(4) have "good w q" "sig_computed q \<longrightarrow> sig_index q < sig_index s"
    by (auto simp: definition_ok_def plan_operands_def composition_parts_def split: prod.splits)
  with False assms(3) show ?thesis by (auto simp: rank_def)
qed

lemma concat_parts_ok:
  assumes "wave_ok w" and "good w s" and "sig_computed s" and "\<not> is_slice s"
  shows "\<forall>q \<in> set (composition_parts w s). \<exists>n. signal_width q = Some n"
    and "\<exists>n. signal_width s = Some n"
proof -
  have k: "sig_index s < length (wv_definitions w)" using assms(2,3) by (rule good_computed_index)
  then have "definition_ok w (sig_index s)" using assms(1) by (simp add: wave_ok_def)
  then show "\<forall>q \<in> set (composition_parts w s). \<exists>n. signal_width q = Some n"
    by (auto simp: definition_ok_def composition_parts_def signal_width_def split: prod.splits)
  have "sig_base_encoding s = Bits (snd (wv_definitions w ! sig_index s))"
    using assms(2,3) by (auto simp: good_iff wave_validate_computed valid_handle_def)
  moreover have "sig_encoding s = sig_base_encoding s"
    using assms(4) unfolding is_slice_def signal_base_def
    by (metis signal.select_convs(5) signal.surjective signal.update_convs(5) signal.update_convs(6))
  ultimately show "\<exists>n. signal_width s = Some n" by (simp add: signal_width_def)
qed

section \<open>The invariant of the plan\<close>

definition placed :: "signal list \<Rightarrow> nat \<Rightarrow> nat \<Rightarrow> signal \<Rightarrow> bool" where
  "placed retained k i s \<longleftrightarrow> i < k \<and> k \<le> length retained \<and> retained ! i = s"

text \<open>A computation computes its slot from slots before it that hold its operands.\<close>

fun computes :: "wave \<Rightarrow> signal list \<Rightarrow> computation \<Rightarrow> bool" where
  "computes w retained (Slice k i s) \<longleftrightarrow>
    placed retained (length retained) k s \<and> sig_computed s \<and> is_slice s \<and>
    placed retained k i (signal_base s)"
| "computes w retained (Concat k inputs n) \<longleftrightarrow>
    k < length retained \<and> sig_computed (retained ! k) \<and> \<not> is_slice (retained ! k) \<and>
    signal_width (retained ! k) = Some n \<and>
    list_all2 (\<lambda>q (i, m). placed retained k i q \<and> signal_width q = Some m)
      (composition_parts w (retained ! k)) inputs"

definition groups_ok :: "signal list \<Rightarrow> signal list \<Rightarrow> (nat \<rightharpoonup> nat list) \<Rightarrow> bool" where
  "groups_ok retained bases groups \<longleftrightarrow>
    (\<forall>b js. groups b = Some js \<longrightarrow> sorted_wrt (<) js) \<and>
    (\<forall>b i. (\<exists>js. groups b = Some js \<and> i \<in> set js) \<longleftrightarrow>
      i < length retained \<and> \<not> sig_computed (retained ! i) \<and> sig_index (retained ! i) = b) \<and>
    distinct (map sig_index bases) \<and> set (map sig_index bases) = dom groups \<and>
    set bases \<subseteq> signal_base ` {s \<in> set retained. \<not> sig_computed s}"

definition plan_inv :: "wave \<Rightarrow> plan \<Rightarrow> bool" where
  "plan_inv w p \<longleftrightarrow>
    (\<forall>s i. pl_index p s = Some i \<longleftrightarrow> i < length (pl_retained p) \<and> pl_retained p ! i = s) \<and>
    (\<forall>s \<in> set (pl_retained p). good w s) \<and>
    groups_ok (pl_retained p) (pl_bases p) (pl_groups p) \<and>
    (\<forall>c \<in> set (pl_computations p). computes w (pl_retained p) c) \<and>
    map computation_slot (pl_computations p) =
      filter (\<lambda>i. sig_computed (pl_retained p ! i)) [0..<length (pl_retained p)]"

definition extends :: "plan \<Rightarrow> plan \<Rightarrow> bool" where
  "extends p p' \<longleftrightarrow> pl_index p \<subseteq>\<^sub>m pl_index p' \<and> pl_indices p' = pl_indices p"

lemma extends_refl [simp]: "extends p p"
  by (simp add: extends_def)

lemma extends_trans: "extends p q \<Longrightarrow> extends q r \<Longrightarrow> extends p r"
  unfolding extends_def by (auto intro: map_le_trans)

lemma extends_index: "extends p q \<Longrightarrow> pl_index p s = Some i \<Longrightarrow> pl_index q s = Some i"
  unfolding extends_def map_le_def by (metis domI)

lemma placed_append: "placed retained k i s \<Longrightarrow> placed (retained @ xs) k i s"
  by (auto simp: placed_def nth_append)

lemma computes_append:
  "computes w retained c \<Longrightarrow> computes w (retained @ xs) c"
  by (cases c) (auto simp: placed_def nth_append elim!: list_all2_mono)

lemma plan_empty_inv: "plan_inv w plan_empty"
  by (simp add: plan_inv_def plan_empty_def groups_ok_def)

lemma groups_ok_computed:
  "groups_ok retained bases groups \<Longrightarrow> sig_computed s \<Longrightarrow> groups_ok (retained @ [s]) bases groups"
  unfolding groups_ok_def by (auto simp: nth_append less_Suc_eq)

lemma groups_ok_source:
  assumes ok: "groups_ok retained bases groups" and src: "\<not> sig_computed s"
  shows "case groups (sig_index s) of
      None \<Rightarrow> groups_ok (retained @ [s]) (bases @ [signal_base s]) (groups(sig_index s \<mapsto> [length retained]))
    | Some js \<Rightarrow> groups_ok (retained @ [s]) bases (groups(sig_index s \<mapsto> js @ [length retained]))"
proof -
  have mem: "(\<exists>js. groups b = Some js \<and> i \<in> set js) \<longleftrightarrow>
      i < length retained \<and> \<not> sig_computed (retained ! i) \<and> sig_index (retained ! i) = b" for b i
    using ok by (simp add: groups_ok_def)
  show ?thesis
  proof (cases "groups (sig_index s)")
    case None
    with ok src mem [of "sig_index s"] show ?thesis
      unfolding groups_ok_def by (auto simp: nth_append less_Suc_eq signal_base_def)
  next
    case (Some js)
    then have "\<forall>j \<in> set js. j < length retained" using mem [of "sig_index s"] by auto
    with ok src Some mem [of "sig_index s"] show ?thesis
      unfolding groups_ok_def by (auto simp: nth_append less_Suc_eq sorted_wrt_append)
  qed
qed

lemma plan_inputs_Some:
  "\<forall>q \<in> set parts. \<exists>i n. index q = Some i \<and> signal_width q = Some n \<Longrightarrow>
    \<exists>inputs. plan_inputs index parts = Some inputs \<and>
      list_all2 (\<lambda>q (i, m). index q = Some i \<and> signal_width q = Some m) parts inputs"
  by (induction parts) auto

lemma plan_computation_Some:
  assumes ok: "wave_ok w" and g: "good w s" and comp: "sig_computed s"
    and ops: "\<forall>q \<in> set (plan_operands w s). \<exists>i. index q = Some i"
    and index: "\<And>q i. q \<noteq> s \<Longrightarrow> index q = Some i \<Longrightarrow> placed retained (length retained) i q"
  shows "\<exists>c. plan_computation w index (length retained) s = Some c \<and> computes w (retained @ [s]) c \<and>
    computation_slot c = length retained"
proof (cases "is_slice s")
  case True
  then obtain i where i: "index (signal_base s) = Some i" using ops by (auto simp: plan_operands_def)
  have "signal_base s \<noteq> s" using True by (auto simp: is_slice_def)
  from index [OF this i] True i comp show ?thesis
    by (auto simp: plan_computation_def placed_def nth_append)
next
  case False
  from concat_parts_ok [OF ok g comp False] obtain n where
    parts: "\<forall>q \<in> set (composition_parts w s). \<exists>n. signal_width q = Some n"
    and n: "signal_width s = Some n" by blast
  have "\<forall>q \<in> set (composition_parts w s). \<exists>i n. index q = Some i \<and> signal_width q = Some n"
    using parts ops False by (auto simp: plan_operands_def)
  from plan_inputs_Some [OF this] obtain inputs where
    inputs: "plan_inputs index (composition_parts w s) = Some inputs"
    and all: "list_all2 (\<lambda>q (i, m). index q = Some i \<and> signal_width q = Some m)
      (composition_parts w s) inputs" by blast
  have "q \<noteq> s" if "q \<in> set (composition_parts w s)" for q
    using operands_ok [OF ok g comp, of q] that False by (auto simp: plan_operands_def)
  with index have "placed (retained @ [s]) (length retained) i q"
    if "q \<in> set (composition_parts w s)" "index q = Some i" for q i
    using that placed_append by blast
  then have "list_all2 (\<lambda>q (i, m). placed (retained @ [s]) (length retained) i q \<and>
      signal_width q = Some m) (composition_parts w s) inputs"
    by (intro list.rel_mono_strong [OF all]) auto
  with inputs n comp False show ?thesis by (simp add: plan_computation_def)
qed

lemma plan_insert_ok:
  assumes ok: "wave_ok w" and inv: "plan_inv w p" and g: "good w s" and new: "pl_index p s = None"
    and ops: "sig_computed s \<Longrightarrow> \<forall>q \<in> set (plan_operands w s). pl_index p q \<noteq> None"
  shows "\<exists>p'. plan_insert w p s = Inr p' \<and> plan_inv w p' \<and> extends p p' \<and> pl_index p' s \<noteq> None"
proof -
  let ?n = "length (pl_retained p)"
  let ?index = "(pl_index p)(s \<mapsto> ?n)"
  have old: "pl_index p q = Some i \<longleftrightarrow> i < ?n \<and> pl_retained p ! i = q" for q i
    using inv by (simp add: plan_inv_def)
  have index: "?index q = Some i \<longleftrightarrow> i < Suc ?n \<and> (pl_retained p @ [s]) ! i = q" for q i
    using old [of q i] old [of s i] new by (auto simp: nth_append less_Suc_eq)
  have le: "pl_index p \<subseteq>\<^sub>m ?index" using new by (auto simp: map_le_def)
  have slots: "filter (\<lambda>i. sig_computed ((pl_retained p @ [s]) ! i)) [0..<Suc ?n] =
      map computation_slot (pl_computations p) @ (if sig_computed s then [?n] else [])"
  proof -
    have "filter (\<lambda>i. sig_computed ((pl_retained p @ [s]) ! i)) [0..<?n] =
        filter (\<lambda>i. sig_computed (pl_retained p ! i)) [0..<?n]"
      by (rule filter_cong) (auto simp: nth_append)
    with inv show ?thesis by (simp add: plan_inv_def)
  qed
  have cs: "\<forall>c \<in> set (pl_computations p). computes w (pl_retained p @ [s]) c"
    using inv computes_append by (auto simp: plan_inv_def)
  have groups: "groups_ok (pl_retained p) (pl_bases p) (pl_groups p)" using inv by (simp add: plan_inv_def)
  have goods: "\<forall>q \<in> set (pl_retained p @ [s]). good w q" using inv g by (simp add: plan_inv_def)
  show ?thesis
  proof (cases "sig_computed s")
    case True
    have "\<forall>q \<in> set (plan_operands w s). \<exists>i. ?index q = Some i" using ops [OF True] by auto
    moreover have "placed (pl_retained p) ?n i q" if "q \<noteq> s" "?index q = Some i" for q i
      using that old by (simp add: placed_def)
    ultimately obtain c where c: "plan_computation w ?index ?n s = Some c"
      "computes w (pl_retained p @ [s]) c" "computation_slot c = ?n"
      using plan_computation_Some [OF ok g True] by blast
    let ?p = "p\<lparr>pl_index := ?index, pl_retained := pl_retained p @ [s],
      pl_computations := pl_computations p @ [c]\<rparr>"
    have "plan_insert w p s = Inr ?p" using True c by (simp add: plan_insert_def Let_def)
    moreover have "plan_inv w ?p"
      using index goods groups_ok_computed [OF groups True] cs c slots True
      by (simp add: plan_inv_def del: upt_Suc filter.simps fun_upd_apply)
    moreover have "extends p ?p" using le by (simp add: extends_def)
    ultimately show ?thesis by fastforce
  next
    case False
    note G = groups_ok_source [OF groups False]
    show ?thesis
    proof (cases "pl_groups p (sig_index s)")
      case None
      let ?p = "p\<lparr>pl_index := ?index, pl_retained := pl_retained p @ [s],
        pl_bases := pl_bases p @ [signal_base s], pl_groups := (pl_groups p)(sig_index s \<mapsto> [?n])\<rparr>"
      have "plan_insert w p s = Inr ?p" using False None by (simp add: plan_insert_def Let_def)
      moreover have "plan_inv w ?p"
        using index goods G cs slots False None
        by (simp add: plan_inv_def del: upt_Suc filter.simps fun_upd_apply)
      moreover have "extends p ?p" using le by (simp add: extends_def)
      ultimately show ?thesis by fastforce
    next
      case (Some js)
      let ?p = "p\<lparr>pl_index := ?index, pl_retained := pl_retained p @ [s],
        pl_groups := (pl_groups p)(sig_index s \<mapsto> js @ [?n])\<rparr>"
      have "plan_insert w p s = Inr ?p" using False Some by (simp add: plan_insert_def Let_def)
      moreover have "plan_inv w ?p"
        using index goods G cs slots False Some
        by (simp add: plan_inv_def del: upt_Suc filter.simps fun_upd_apply)
      moreover have "extends p ?p" using le by (simp add: extends_def)
      ultimately show ?thesis by fastforce
    qed
  qed
qed

section \<open>The walk\<close>

lemma plan_drain_present:
  "pl_index p s \<noteq> None \<Longrightarrow> plan_drain w p ((s, x) # rest) = plan_drain w p rest"
  by (subst plan_drain.simps) simp

lemma plan_drain_insert:
  assumes "wave_ok w" and "plan_inv w p" and "good w s" and "x \<or> \<not> sig_computed s"
    and "sig_computed s \<Longrightarrow> \<forall>q \<in> set (plan_operands w s). pl_index p q \<noteq> None"
  shows "\<exists>p'. plan_inv w p' \<and> extends p p' \<and> pl_index p' s \<noteq> None \<and>
    plan_drain w p ((s, x) # rest) = plan_drain w p' rest"
proof (cases "pl_index p s")
  case None
  from plan_insert_ok [OF assms(1-3) None assms(5)] obtain p' where
    p': "plan_insert w p s = Inr p'" "plan_inv w p'" "extends p p'" "pl_index p' s \<noteq> None" by blast
  have "plan_drain w p ((s, x) # rest) = plan_drain w p' rest"
    using None assms(3,4) p'(1) by (subst plan_drain.simps) (auto simp: good_def)
  with p' show ?thesis by blast
next
  case (Some i)
  then have "plan_drain w p ((s, x) # rest) = plan_drain w p rest" by (simp add: plan_drain_present)
  with Some assms(2) show ?thesis by (intro exI [of _ p]) simp
qed

text \<open>A good signal on top of the stack is placed, whatever is below it.\<close>

lemma plan_drain_good:
  assumes "wave_ok w"
  shows "plan_inv w p \<Longrightarrow> good w s \<Longrightarrow>
    \<exists>p'. plan_inv w p' \<and> extends p p' \<and> pl_index p' s \<noteq> None \<and>
      plan_drain w p ((s, False) # rest) = plan_drain w p' rest"
proof (induction "rank s" arbitrary: s p rest rule: less_induct)
  case less
  have parts: "\<exists>p'. plan_inv w p' \<and> extends q p' \<and> (\<forall>s \<in> set qs. pl_index p' s \<noteq> None) \<and>
      plan_drain w q (map (\<lambda>part. (part, False)) qs @ rest) = plan_drain w p' rest"
    if "plan_inv w q" and "\<forall>r \<in> set qs. good w r \<and> rank r < rank s" for q qs rest
    using that
  proof (induction qs arbitrary: q)
    case Nil
    then show ?case by auto
  next
    case (Cons r qs)
    then obtain p1 where p1: "plan_inv w p1" "extends q p1" "pl_index p1 r \<noteq> None"
      "plan_drain w q ((r, False) # map (\<lambda>part. (part, False)) qs @ rest) =
        plan_drain w p1 (map (\<lambda>part. (part, False)) qs @ rest)"
      using less.hyps [of r q "map (\<lambda>part. (part, False)) qs @ rest"] by auto
    from Cons.IH [OF p1(1)] Cons.prems(2) obtain p2 where p2: "plan_inv w p2" "extends p1 p2"
      "\<forall>s \<in> set qs. pl_index p2 s \<noteq> None"
      "plan_drain w p1 (map (\<lambda>part. (part, False)) qs @ rest) = plan_drain w p2 rest" by auto
    have "pl_index p2 r \<noteq> None" using p1(3) extends_index [OF p2(2)] by blast
    with p1 p2 extends_trans [OF p1(2) p2(2)] show ?case by (intro exI [of _ p2]) simp
  qed
  show ?case
  proof (cases "pl_index p s = None \<and> sig_computed s")
    case False
    then show ?thesis
    proof (cases "pl_index p s")
      case None
      with False have "\<not> sig_computed s" by simp
      with plan_drain_insert [OF assms less.prems, of False rest] show ?thesis by blast
    next
      case (Some i)
      with less.prems show ?thesis by (intro exI [of _ p]) (simp add: plan_drain_present)
    qed
  next
    case True
    have "\<forall>r \<in> set (plan_operands w s). good w r \<and> rank r < rank s"
      using operands_ok [OF assms less.prems(2)] True by blast
    from parts [OF less.prems(1) this, of "(s, True) # rest"] obtain p1 where
      p1: "plan_inv w p1" "extends p p1" "\<forall>q \<in> set (plan_operands w s). pl_index p1 q \<noteq> None"
      "plan_drain w p (map (\<lambda>part. (part, False)) (plan_operands w s) @ (s, True) # rest) =
        plan_drain w p1 ((s, True) # rest)" by blast
    have step: "plan_drain w p ((s, False) # rest) =
        plan_drain w p (map (\<lambda>part. (part, False)) (plan_operands w s) @ (s, True) # rest)"
      using True less.prems(2) by (subst plan_drain.simps) (simp add: good_def)
    from plan_drain_insert [OF assms p1(1) less.prems(2), of True rest] p1(3) obtain p2 where
      p2: "plan_inv w p2" "extends p1 p2" "pl_index p2 s \<noteq> None"
      "plan_drain w p1 ((s, True) # rest) = plan_drain w p2 rest" by blast
    then show ?thesis using extends_trans [OF p1(2) p2(2)] p1(4) step by metis
  qed
qed

lemma plan_drain_bad:
  assumes "plan_inv w p" and "plan_check w s = Inl e"
  shows "plan_drain w p ((s, False) # rest) = Some (Inl e)"
proof -
  have "pl_index p s = None"
  proof (rule ccontr)
    assume "\<not> ?thesis"
    then obtain i where "pl_index p s = Some i" by blast
    with assms(1) have "s \<in> set (pl_retained p)" by (auto simp: plan_inv_def)
    with assms show False by (auto simp: plan_inv_def good_def)
  qed
  with assms(2) show ?thesis by (subst plan_drain.simps) simp
qed

text \<open>
  The plan of a request: the first handle that fails its check decides the error; otherwise
  every selected handle has the slot named for it.
\<close>

fun first_bad :: "wave \<Rightarrow> signal list \<Rightarrow> error option" where
  "first_bad w [] = None"
| "first_bad w (s # signals) =
    (case plan_check w s of Inl e \<Rightarrow> Some e | Inr _ \<Rightarrow> first_bad w signals)"

lemma plan_signals_spec:
  assumes "wave_ok w"
  shows "plan_inv w p \<Longrightarrow>
    (case first_bad w signals of
       Some e \<Rightarrow> plan_signals w p signals = Some (Inl e)
     | None \<Rightarrow> \<exists>p' slots. plan_signals w p signals = Some (Inr p') \<and> plan_inv w p' \<and>
         pl_index p \<subseteq>\<^sub>m pl_index p' \<and> pl_indices p' = pl_indices p @ slots \<and>
         list_all2 (\<lambda>s i. pl_index p' s = Some i) signals slots)"
proof (induction signals arbitrary: p)
  case Nil
  then show ?case by simp
next
  case (Cons s signals)
  show ?case
  proof (cases "plan_check w s")
    case (Inl e)
    then show ?thesis by (simp add: plan_drain_bad [OF Cons.prems Inl])
  next
    case (Inr u)
    then have "good w s" by (simp add: good_def)
    from plan_drain_good [OF assms Cons.prems this, of "[]"] obtain p1 i where
      p1: "plan_inv w p1" "extends p p1" "pl_index p1 s = Some i"
      "plan_drain w p [(s, False)] = plan_drain w p1 []" by blast
    have "plan_drain w p1 [] = Some (Inr p1)" by (subst plan_drain.simps) simp
    with p1(4) have drain: "plan_drain w p [(s, False)] = Some (Inr p1)" by simp
    let ?p = "p1\<lparr>pl_indices := pl_indices p1 @ [i]\<rparr>"
    have inv: "plan_inv w ?p" using p1(1) by (simp add: plan_inv_def)
    have step: "plan_signals w p (s # signals) = plan_signals w ?p signals"
      using drain p1(3) by simp
    show ?thesis
    proof (cases "first_bad w signals")
      case None
      with Cons.IH [OF inv] obtain p' slots where
        p': "plan_signals w ?p signals = Some (Inr p')" "plan_inv w p'" "pl_index p1 \<subseteq>\<^sub>m pl_index p'"
        "pl_indices p' = pl_indices p1 @ i # slots"
        "list_all2 (\<lambda>s i. pl_index p' s = Some i) signals slots" by auto
      have "pl_index p' s = Some i" using p1(3) p'(3) unfolding map_le_def by (metis domI)
      moreover have "pl_index p \<subseteq>\<^sub>m pl_index p'" "pl_indices p1 = pl_indices p"
        using p1(2) p'(3) unfolding extends_def by (auto intro: map_le_trans)
      ultimately show ?thesis
        unfolding step using p' None Inr by (simp del: plan_signals.simps)
    next
      case (Some e)
      with Cons.IH [OF inv] Inr show ?thesis unfolding step by simp
    qed
  qed
qed

theorem plan_new_spec:
  assumes "wave_ok w"
  shows "case first_bad w signals of
      Some e \<Rightarrow> plan_new w signals = Some (Inl e)
    | None \<Rightarrow> \<exists>p. plan_new w signals = Some (Inr p) \<and> plan_inv w p \<and>
        list_all2 (\<lambda>s i. i < length (pl_retained p) \<and> pl_retained p ! i = s) signals (pl_indices p)"
proof (cases "first_bad w signals")
  case None
  with plan_signals_spec [OF assms plan_empty_inv, of signals] obtain p where
    "plan_signals w plan_empty signals = Some (Inr p)" "plan_inv w p"
    "list_all2 (\<lambda>s i. pl_index p s = Some i) signals (pl_indices p)"
    by (auto simp: plan_empty_def)
  with None show ?thesis by (simp add: plan_new_def plan_inv_def)
next
  case (Some e)
  with plan_signals_spec [OF assms plan_empty_inv, of signals] show ?thesis by (simp add: plan_new_def)
qed

section \<open>What a traversal assumes of a selection\<close>

lemma computes_bounds:
  "computes w retained c \<Longrightarrow> computation_slot c < length retained \<and>
    (\<forall>i \<in> set (computation_inputs c). i < computation_slot c)"
proof (cases c)
  case (Concat k inputs n)
  assume "computes w retained c"
  then have "list_all2 (\<lambda>q (i, m). placed retained k i q \<and> signal_width q = Some m)
      (composition_parts w (retained ! k)) inputs" "k < length retained"
    using Concat by simp_all
  then show ?thesis
    using Concat by (auto simp: list_all2_conv_all_nth in_set_conv_nth placed_def split: prod.splits)
qed (auto simp: placed_def)

lemma plan_inv_sel_ok:
  assumes "plan_inv w p"
  shows "sel_ok (selection_of signals p) (length (pl_retained p))"
proof -
  have "i < length (pl_retained p)" if "pl_groups p b = Some js" "i \<in> set js" for b js i
    using assms that unfolding plan_inv_def groups_ok_def by blast
  moreover have "computation_slot c < length (pl_retained p) \<and>
      (\<forall>i \<in> set (computation_inputs c). i < length (pl_retained p))"
    if "c \<in> set (pl_computations p)" for c
    using assms that computes_bounds [of w "pl_retained p" c] by (auto simp: plan_inv_def)
  ultimately show ?thesis by (auto simp: sel_ok_def selection_of_def)
qed

lemma plan_inv_own_slot:
  assumes "plan_inv w p" and "i < length (pl_retained p)" and "\<not> sig_computed (pl_retained p ! i)"
  shows "own_slot (selection_of signals p) (sig_index (pl_retained p ! i)) i"
proof -
  have g: "groups_ok (pl_retained p) (pl_bases p) (pl_groups p)" using assms(1) by (simp add: plan_inv_def)
  then have mem: "(\<exists>js. pl_groups p b = Some js \<and> j \<in> set js) \<longleftrightarrow>
      j < length (pl_retained p) \<and> \<not> sig_computed (pl_retained p ! j) \<and>
      sig_index (pl_retained p ! j) = b" for b j
    by (simp add: groups_ok_def)
  obtain js where js: "pl_groups p (sig_index (pl_retained p ! i)) = Some js" "i \<in> set js"
    using mem [where b = "sig_index (pl_retained p ! i)" and j = i] assms by blast
  then have "sorted_wrt (<) js" using g by (simp add: groups_ok_def)
  then have "distinct js" using strict_sorted_iff by blast
  moreover have "b = sig_index (pl_retained p ! i)" if "pl_groups p b = Some ks" "i \<in> set ks" for b ks
    using that mem [of b i] by blast
  ultimately show ?thesis
    unfolding own_slot_def selection_of_def selection.select_convs using js by blast
qed

lemma plan_inv_distinct:
  assumes "plan_inv w p"
  shows "distinct (pl_retained p)"
proof -
  have "pl_retained p ! i \<noteq> pl_retained p ! j" if "i < j" "j < length (pl_retained p)" for i j
    using assms that unfolding plan_inv_def by (metis less_trans nat_neq_iff option.inject)
  then show ?thesis by (metis distinct_conv_nth nat_neq_iff)
qed

definition in_order :: "selection \<Rightarrow> bool" where
  "in_order sel \<longleftrightarrow>
    sorted_wrt (<) (map computation_slot (sel_computations sel)) \<and>
    (\<forall>c \<in> set (sel_computations sel). \<forall>i \<in> set (computation_inputs c). i < computation_slot c)"

lemma plan_inv_in_order:
  assumes "plan_inv w p"
  shows "in_order (selection_of signals p)"
  using assms computes_bounds [of w "pl_retained p"]
  by (auto simp: plan_inv_def in_order_def selection_of_def sorted_wrt_filter)

lemma select_signals_spec:
  assumes "wave_ok w"
  shows "case first_bad w signals of
      Some e \<Rightarrow> select_signals w signals = Some (Inl e)
    | None \<Rightarrow> \<exists>sel. select_signals w signals = Some (Inr sel) \<and> sel_signals sel = signals \<and>
        map (\<lambda>i. sel_retained sel ! i) (sel_slot_indices sel) = signals \<and>
        slots_in_range sel \<and> sel_ok sel (length (sel_retained sel)) \<and> in_order sel \<and>
        distinct (sel_retained sel) \<and> sel_replay sel = None \<and> sel_checkpoint sel = None \<and>
        (\<forall>i < length (sel_retained sel). \<not> sig_computed (sel_retained sel ! i) \<longrightarrow>
          own_slot sel (sig_index (sel_retained sel ! i)) i)"
proof (cases "first_bad w signals")
  case None
  with plan_new_spec [OF assms, of signals] obtain p where
    p: "plan_new w signals = Some (Inr p)" "plan_inv w p"
    and slots: "list_all2 (\<lambda>s i. i < length (pl_retained p) \<and> pl_retained p ! i = s) signals (pl_indices p)"
    by auto
  have "map ((!) (pl_retained p)) (pl_indices p) = signals"
    using slots by (auto simp: list_all2_conv_all_nth intro: nth_equalityI)
  moreover have "slots_in_range (selection_of signals p)"
    using slots by (auto simp: slots_in_range_def selection_of_def list_all2_conv_all_nth in_set_conv_nth)
  ultimately show ?thesis
    using None p plan_inv_sel_ok [OF p(2)] plan_inv_own_slot [OF p(2)] plan_inv_distinct [OF p(2)]
      plan_inv_in_order [OF p(2)]
    by (simp add: select_signals_def) (simp add: selection_of_def)
next
  case (Some e)
  with plan_new_spec [OF assms, of signals] show ?thesis by (simp add: select_signals_def)
qed

end
