(* ===== verification/Ondas_Demo.thy ===== *)
theory Ondas_Demo
  imports Ondas_Session
begin

text \<open>
  A concrete session: a four-bit bus, its two low bits, an event signal and the composition
  of the low bits with the bus, over four records at ticks 2 and 6. Its recording is
  evaluated here; the properties of the query engine are instantiated at it.
\<close>

definition demo_bus :: signal where
  "demo_bus = \<lparr>sig_source = 1, sig_index = 0, sig_computed = False,
     sig_base_encoding = Bits 4, sig_encoding = Bits 4, sig_lsb = 0\<rparr>"

definition demo_low :: signal where
  "demo_low = demo_bus\<lparr>sig_encoding := Bits 2\<rparr>"

definition demo_event :: signal where
  "demo_event = \<lparr>sig_source = 1, sig_index = 1, sig_computed = False,
     sig_base_encoding = Event, sig_encoding = Event, sig_lsb = 0\<rparr>"

definition demo_cat :: signal where
  "demo_cat = \<lparr>sig_source = 1, sig_index = 0, sig_computed = True,
     sig_base_encoding = Bits 6, sig_encoding = Bits 6, sig_lsb = 0\<rparr>"

definition demo_records :: "memory_record list" where
  "demo_records =
    [(0, Time 2, VBits ''0x10''), (1, Time 2, VEvent 1),
     (0, Time 6, VBits ''0110''), (0, Time 6, VBits ''0111''), (1, Time 6, VEvent 2),
     (1, Time 6, VEvent 1)]"

definition demo_source :: "nat option \<Rightarrow> source" where
  "demo_source fail_after = memory_source demo_records fail_after"

definition demo_selection :: selection where
  "demo_selection = \<lparr>sel_signals = [demo_cat, demo_event, demo_low],
     sel_bases = [demo_bus, demo_event], sel_groups = [0 \<mapsto> [0, 1], 1 \<mapsto> [3]],
     sel_slot_indices = [2, 3, 0], sel_retained = [demo_low, demo_bus, demo_cat, demo_event],
     sel_computations = [Concat 2 [(0, 2), (1, 4)] 6], sel_replay = None, sel_checkpoint = None\<rparr>"

lemma demo_session: "session_ok (demo_source fail_after) demo_selection"
  unfolding demo_source_def
  by (rule memory_session) (auto simp: demo_selection_def sel_ok_def split: if_splits)

lemma demo_slots: "slots_in_range demo_selection"
  by (simp add: slots_in_range_def demo_selection_def)

lemma demo_sorted: "memory_records demo_records = demo_records"
  by (simp add: memory_records_def demo_records_def)

lemma demo_span: "src_span (demo_source fail_after) = Some \<lparr>span_first = Time 2, span_last = Time 6\<rparr>"
  by (simp add: demo_source_def memory_source_def demo_sorted) (simp add: demo_records_def)

lemma demo_read:
  "src_read (demo_source None) (sel_bases demo_selection) (Time 9) None =
    (map (\<lambda>(b, t, v). Observed b (Inr v) t None) demo_records, Inr None)"
  by (simp add: memory_read_def demo_sorted demo_source_def demo_selection_def)
    (simp add: demo_records_def demo_bus_def demo_event_def)

lemma demo_group:
  "group_notes None (map (\<lambda>(b, t, v). Observed b (Inr v) t None) demo_records) =
    ([(Time 2, [(0, VBits ''0x10''), (1, VEvent 1)])],
     Some (Time 6, [(0, VBits ''0110''), (0, VBits ''0111''), (1, VEvent 2), (1, VEvent 1)]), None)"
  by (simp add: demo_records_def)

definition demo_slots_2 :: "slot list" where
  "demo_slots_2 =
    [\<lparr>slot_state = None, slot_pending = Some (VBits ''10''), slot_changed = True, slot_events = 0\<rparr>,
     \<lparr>slot_state = None, slot_pending = Some (VBits ''0x10''), slot_changed = True, slot_events = 0\<rparr>,
     \<lparr>slot_state = None, slot_pending = Some (VBits ''100x10''), slot_changed = True, slot_events = 0\<rparr>,
     \<lparr>slot_state = None, slot_pending = None, slot_changed = False, slot_events = 1\<rparr>]"

lemma demo_fields:
  "sel_signals demo_selection = [demo_cat, demo_event, demo_low]"
  "sel_groups demo_selection 0 = Some [0, 1]" "sel_groups demo_selection 1 = Some [3]"
  "sel_groups demo_selection (Suc 0) = Some [3]"
  "sel_slot_indices demo_selection = [2, 3, 0]"
  "sel_retained demo_selection = [demo_low, demo_bus, demo_cat, demo_event]"
  "sel_computations demo_selection = [Concat 2 [(0, 2), (1, 4)] 6]"
  "src_backend (demo_source fail_after) = ''memory''"
  by (simp_all add: demo_selection_def demo_source_def)

lemma demo_project:
  "project (VBits [a, b, c, d]) demo_low = Some (VBits [c, d])"
  "project (VBits [a, b, c, d]) demo_bus = Some (VBits [a, b, c, d])"
  by (simp_all add: demo_low_def demo_bus_def project_def is_slice_def signal_base_def bits_slice_def
      signal_width_def Let_def)

lemma demo_lower:
  "to_ascii_lowercase CHR ''0'' = CHR ''0''" "to_ascii_lowercase CHR ''1'' = CHR ''1''"
  "to_ascii_lowercase CHR ''x'' = CHR ''x''"
  by (simp_all add: to_ascii_lowercase_def is_ascii_uppercase_def byte_def)

lemmas demo_eval = demo_lower demo_fields demo_project tick_slots_def complete_slots_def computed_def
  record_slot_def slot_default_def default_slots_def checked_add_def set_computed_def
  mark_changed_def differs_def current_def bits_from_validated_ascii_def bits_to_owned_def
  bits_eq_def commit_slot_def

lemma demo_tick_2:
  "tick_slots demo_selection ''memory'' [(0, VBits ''0x10''), (1, VEvent 1)] (default_slots demo_selection) =
    Inr demo_slots_2"
  by (simp add: demo_eval demo_slots_2_def del: and_then_Inr_iff)

definition demo_slots_6 :: "slot list" where
  "demo_slots_6 =
    [\<lparr>slot_state = Some \<lparr>st_value = VBits ''10'', st_changed_at = None\<rparr>,
       slot_pending = Some (VBits ''11''), slot_changed = True, slot_events = 0\<rparr>,
     \<lparr>slot_state = Some \<lparr>st_value = VBits ''0x10'', st_changed_at = None\<rparr>,
       slot_pending = Some (VBits ''0111''), slot_changed = True, slot_events = 0\<rparr>,
     \<lparr>slot_state = Some \<lparr>st_value = VBits ''100x10'', st_changed_at = None\<rparr>,
       slot_pending = Some (VBits ''110111''), slot_changed = True, slot_events = 0\<rparr>,
     \<lparr>slot_state = None, slot_pending = None, slot_changed = False, slot_events = 3\<rparr>]"

lemma demo_tick_6:
  "tick_slots demo_selection ''memory''
     [(0, VBits ''0110''), (0, VBits ''0111''), (1, VEvent 2), (1, VEvent 1)]
     (map (commit_slot (Time 2)) demo_slots_2) = Inr demo_slots_6"
  by (simp add: demo_eval demo_slots_2_def demo_slots_6_def del: and_then_Inr_iff)

definition demo_ticks :: "(time \<times> slot list) list" where
  "demo_ticks = [(Time 2, demo_slots_2), (Time 6, demo_slots_6)]"

text \<open>What the session records up to tick 9, and up to any tick before it.\<close>

lemma demo_recording:
  "recording (demo_source None) demo_selection (Time 9) = Some demo_ticks"
  by (simp add: recording_def demo_read demo_group demo_tick_2 [simplified] demo_tick_6 [simplified]
      demo_fields demo_ticks_def)

lemma demo_recording_at:
  "t \<le> Time 9 \<Longrightarrow>
    recording (demo_source None) demo_selection t = Some (filter (\<lambda>x. fst x \<le> t) demo_ticks)"
  by (rule recording_prefix [OF demo_session demo_recording])

definition demo_history :: "wave_value option \<Rightarrow> u64 \<Rightarrow> wave_value option \<Rightarrow> u64 \<Rightarrow> history" where
  "demo_history v n v' n' =
    [\<lparr>tw_time = Time 2, tw_value = v, tw_events = n\<rparr>, \<lparr>tw_time = Time 6, tw_value = v', tw_events = n'\<rparr>]"

lemma demo_histories:
  "entry_history demo_selection demo_ticks 0 =
    demo_history (Some (VBits ''100x10'')) 0 (Some (VBits ''110111'')) 0"
  "entry_history demo_selection demo_ticks (Suc 0) = demo_history None 1 None 3"
  "entry_history demo_selection demo_ticks 2 =
    demo_history (Some (VBits ''10'')) 0 (Some (VBits ''11'')) 0"
  by (simp_all add: entry_history_def demo_ticks_def demo_slots_2_def demo_slots_6_def demo_fields
      demo_history_def)

lemma demo_encodings:
  "sig_encoding demo_cat = Bits 6" "sig_encoding demo_event = Event" "sig_encoding demo_low = Bits 2"
  by (simp_all add: demo_cat_def demo_event_def demo_low_def)

lemmas demo_point = point_sample_def held_def events_at_def apply_write_def update_state_def bits_eq_def
  demo_lower demo_histories demo_history_def demo_encodings

text \<open>The row of all entries at a tick.\<close>

lemma demo_row:
  "t \<le> Time 9 \<Longrightarrow>
    map (\<lambda>i. point_sample (sel_signals demo_selection ! i)
        (entry_history demo_selection (filter (\<lambda>x. fst x \<le> t) demo_ticks) i) t)
      [0..<length (sel_signals demo_selection)] =
    [point_sample demo_cat (entry_history demo_selection demo_ticks 0) t,
     point_sample demo_event (entry_history demo_selection demo_ticks (Suc 0)) t,
     point_sample demo_low (entry_history demo_selection demo_ticks 2) t]"
  by (simp add: demo_fields entry_history_filter point_sample_filter upt_rec numeral_2_eq_2)

text \<open>A read that fails at its third record.\<close>

lemma demo_failing:
  "recording (demo_source (Some 2)) demo_selection (Time 9) = None"
  by (simp add: recording_def demo_source_def demo_sorted memory_read_def demo_selection_def)
    (simp add: demo_records_def demo_bus_def demo_event_def)

end
