(* ===== verification/Ondas_Waveform.thy ===== *)
theory Ondas_Waveform
  imports Ondas_Plan Ondas_Demo
begin

text \<open>
  The one-shot operations of \<^verbatim>\<open>src/src/waveform.rs\<close>: each selects and asks. Here the parts
  meet: the registered compositions, the plan of the selection and the traversal. The
  concrete waveform is the in-memory one of \<open>Ondas_Demo\<close>, whose selection is the one
  the plan builds.
\<close>

section \<open>One-shot operations\<close>

text \<open>
  \<open>None\<close> stands for a plan that would not end; \<open>select_signals_spec\<close> excludes it for every
  well-formed waveform.
\<close>

definition with_selection ::
    "wave \<Rightarrow> signal list \<Rightarrow> (selection \<Rightarrow> error + 'a) \<Rightarrow> (error + 'a) option" where
  "with_selection w signals ask =
    map_option (\<lambda>r. and_then r ask) (select_signals w signals)"

definition wave_samples :: "wave \<Rightarrow> source \<Rightarrow> signal list \<Rightarrow> time \<Rightarrow> (error + sample list) option" where
  "wave_samples w src signals time = with_selection w signals (\<lambda>sel. snd (samples src sel time))"

text \<open>\<open>pop\<close> of the answer for one signal; \<open>expect\<close> would panic on an empty one.\<close>

definition pop_one :: "error + 'a list \<Rightarrow> error + 'a" where
  "pop_one r = and_then r (\<lambda>xs. if xs = [] then Inl (Panic ''one for one signal'') else Inr (last xs))"

definition wave_sample :: "wave \<Rightarrow> source \<Rightarrow> signal \<Rightarrow> time \<Rightarrow> (error + sample) option" where
  "wave_sample w src s time = map_option pop_one (wave_samples w src [s] time)"

definition wave_samples_at ::
    "((nat \<Rightarrow> time) \<Rightarrow> nat list \<Rightarrow> nat list) \<Rightarrow> wave \<Rightarrow> source \<Rightarrow> signal list \<Rightarrow> time list \<Rightarrow>
     (error + (time \<times> sample list) list) option" where
  "wave_samples_at sort_by w src signals asked =
    with_selection w signals (\<lambda>sel. snd (samples_at sort_by src sel asked))"

definition wave_traces :: "wave \<Rightarrow> source \<Rightarrow> signal list \<Rightarrow> time_range \<Rightarrow> (error + trace list) option" where
  "wave_traces w src signals rng = with_selection w signals (\<lambda>sel. snd (traces src sel rng))"

definition wave_trace :: "wave \<Rightarrow> source \<Rightarrow> signal \<Rightarrow> time_range \<Rightarrow> (error + trace) option" where
  "wave_trace w src s rng = map_option pop_one (wave_traces w src [s] rng)"

definition wave_scan ::
    "wave \<Rightarrow> source \<Rightarrow> signal list \<Rightarrow> time_range \<Rightarrow> ('s \<Rightarrow> scan_record \<Rightarrow> 's \<times> 'b flow) \<Rightarrow> 's \<Rightarrow>
     (error + 's \<times> (error + 'b flow)) option" where
  "wave_scan w src signals rng visitor s =
    with_selection w signals (\<lambda>sel. Inr (snd (scan src sel rng visitor s)))"

definition wave_candidate_times ::
    "wave \<Rightarrow> source \<Rightarrow> signal list \<Rightarrow> time_range \<Rightarrow> ('s \<Rightarrow> time \<Rightarrow> 's \<times> 'b flow) \<Rightarrow> 's \<Rightarrow>
     (error + 's \<times> (error + 'b flow)) option" where
  "wave_candidate_times w src signals rng visitor s =
    with_selection w signals (\<lambda>sel. Inr (snd (scan_candidate_times src sel rng visitor s)))"

section \<open>The concrete waveform\<close>

definition demo_wave :: wave where
  "demo_wave =
    \<lparr>wv_hierarchy = \<lparr>hi_source = 1, hi_scopes = [], hi_variables = [], hi_encodings = [Bits 4, Event]\<rparr>,
     wv_definitions = [([demo_low, demo_bus], 6)], wv_indices = [[demo_low, demo_bus] \<mapsto> 0]\<rparr>"

lemmas demo_handles = demo_bus_def demo_low_def demo_event_def demo_cat_def

lemma demo_good: "good demo_wave demo_bus" "good demo_wave demo_low" "good demo_wave demo_event" "good demo_wave demo_cat"
  by (simp_all add: good_iff wave_validate_def demo_handles demo_wave_def hierarchy_validate_def
      valid_handle_def checked_add_def signal_base_def)

lemma demo_wave_ok: "wave_ok demo_wave"
proof -
  have "definition_ok demo_wave 0"
    using demo_good
    by (simp add: definition_ok_def) (simp add: demo_wave_def demo_handles signal_width_def)
  then show ?thesis by (auto simp: wave_ok_def) (auto simp: demo_wave_def split: if_splits)
qed

text \<open>A bad handle: a signal of another source.\<close>

definition foreign_signal :: signal where
  "foreign_signal = demo_event\<lparr>sig_source := 2\<rparr>"

lemma demo_foreign:
  "plan_check demo_wave foreign_signal = Inl (InvalidSignal foreign_signal)"
  by (simp add: plan_check_def wave_validate_def foreign_signal_def demo_handles demo_wave_def
      hierarchy_validate_def validate_encoding_def valid_handle_def)

lemma plan_drain_simps:
  "plan_drain w p [] = Some (Inr p)"
  "plan_drain w p ((s, expanded) # rest) =
    (if pl_index p s \<noteq> None then plan_drain w p rest
     else
       (case (if expanded then Inr () else plan_check w s) of
          Inl e \<Rightarrow> Some (Inl e)
        | Inr _ \<Rightarrow>
            if sig_computed s \<and> \<not> expanded then
              plan_drain w p (map (\<lambda>part. (part, False)) (plan_operands w s) @ (s, True) # rest)
            else
              (case plan_insert w p s of
                 Inl e \<Rightarrow> Some (Inl e)
               | Inr p' \<Rightarrow> plan_drain w p' rest)))"
  by (subst plan_drain.simps; simp)+

lemma demo_parts:
  "is_slice demo_cat = False" "plan_operands demo_wave demo_cat = [demo_low, demo_bus]"
  "composition_parts demo_wave demo_cat = [demo_low, demo_bus]"
  by (simp_all add: is_slice_def signal_base_def plan_operands_def composition_parts_def demo_wave_def
      demo_cat_def)

lemma demo_distinct:
  "demo_low \<noteq> demo_bus" "demo_low \<noteq> demo_cat" "demo_low \<noteq> demo_event" "demo_bus \<noteq> demo_cat"
  "demo_bus \<noteq> demo_event" "demo_cat \<noteq> demo_event"
  by (simp_all add: demo_handles)

lemma demo_shape:
  "sig_computed demo_low = False" "sig_computed demo_bus = False" "sig_computed demo_event = False"
  "sig_computed demo_cat" "sig_index demo_low = 0" "sig_index demo_bus = 0" "sig_index demo_event = 1"
  "signal_base demo_low = demo_bus" "signal_base demo_bus = demo_bus" "signal_base demo_event = demo_event"
  "signal_width demo_low = Some 2" "signal_width demo_bus = Some 4" "signal_width demo_cat = Some 6"
  by (simp_all add: demo_handles signal_base_def signal_width_def)

lemma demo_selected:
  "select_signals demo_wave [demo_cat, demo_event, demo_low] = Some (Inr demo_selection)"
  using demo_good
  by (simp add: select_signals_def plan_new_def good_def plan_drain_simps plan_empty_def demo_parts
      demo_shape demo_distinct demo_distinct [symmetric] plan_insert_def Let_def plan_computation_def
      selection_of_def demo_selection_def numeral_3_eq_3)

section \<open>Compositions\<close>

text \<open>
  C15: \<open>concat\<close> keeps the waveform well formed and every handle valid, changes nothing on an
  error, answers a single part itself, and otherwise answers a valid computed handle that
  stands for exactly these parts and whose width is their exact sum, no overflow.
\<close>

theorem concat_is_sound:
  assumes "wave_ok w" and "wave_concat w parts = (w', r)"
  shows "wave_ok w' \<and> (\<forall>s. good w s \<longrightarrow> good w' s) \<and>
    (case r of
       Inl e \<Rightarrow> w' = w
     | Inr s \<Rightarrow> good w' s \<and> (\<exists>n. signal_width s = Some n \<and>
         unat n = (\<Sum>p\<leftarrow>parts. case signal_width p of Some n \<Rightarrow> unat n | None \<Rightarrow> 0)) \<and>
         (if length parts = 1 then s = hd parts
          else sig_computed s \<and> composition_parts w' s = parts))"
  using wave_concat_ok [OF assms] by blast

lemma demo_concat:
  "wave_concat demo_wave [demo_bus, demo_low, demo_bus] =
    (demo_wave\<lparr>wv_definitions := [([demo_low, demo_bus], 6), ([demo_bus, demo_low, demo_bus], 10)],
       wv_indices := (wv_indices demo_wave)([demo_bus, demo_low, demo_bus] \<mapsto> 1)\<rparr>,
     Inr (computed_signal (wv_hierarchy demo_wave) 1 10))"
proof -
  have "\<exists>i. wave_validate demo_wave demo_bus = Inr i" "\<exists>i. wave_validate demo_wave demo_low = Inr i"
    using demo_good by (simp_all add: good_iff)
  then obtain i j where "wave_validate demo_wave demo_bus = Inr i" "wave_validate demo_wave demo_low = Inr j"
    by blast
  moreover have "sig_encoding demo_bus = Bits 4" "sig_encoding demo_low = Bits 2"
    by (simp_all add: demo_handles)
  ultimately show ?thesis
    by (simp add: wave_concat_def demo_shape checked_add_def)
      (simp add: demo_wave_def demo_distinct demo_distinct [symmetric] Let_def)
qed

theorem concat_is_sound_witness:
  "good (fst (wave_concat demo_wave [demo_bus, demo_low, demo_bus]))
     (computed_signal (wv_hierarchy demo_wave) 1 10)"
  using concat_is_sound [OF demo_wave_ok demo_concat] by (simp add: demo_concat)

lemma parts_width_grows:
  "(\<forall>s. good w s \<longrightarrow> good w' s) \<Longrightarrow> parts_width w part parts width = Inr n \<Longrightarrow>
    parts_width w' part parts width = Inr n"
proof (induction w part parts width rule: parts_width.induct)
  case (1 w part width)
  then show ?case by simp
next
  case (2 w part s parts width)
  then obtain i m width' where v: "wave_validate w s = Inr i" "sig_encoding s \<noteq> Unsupported"
    and m: "signal_width s = Some m" "m \<noteq> 0" "checked_add width m = Some width'"
    and rest: "parts_width w (part + 1) parts width' = Inr n"
    by (auto split: if_splits option.splits)
  have "good w' s" using 2(2) v by (auto simp: good_iff)
  then obtain j where "wave_validate w' s = Inr j" by (auto simp: good_iff)
  with 2(1) [OF v m 2(2) rest] v m show ?case by simp
qed

text \<open>
  A composition is registered once: asking again for the same parts answers the same
  handle and leaves the waveform as it is.
\<close>

theorem concat_registers_once:
  assumes "wave_ok w" and "wave_concat w parts = (w', Inr s)"
  shows "wave_concat w' parts = (w', Inr s)"
proof -
  have grows: "\<forall>q. good w q \<longrightarrow> good w' q" using wave_concat_ok [OF assms] by blast
  have hier: "wv_hierarchy w' = wv_hierarchy w" using wave_concat_ok [OF assms] by blast
  have ne: "parts \<noteq> []" and width: "\<exists>n. parts_width w 0 parts 0 = Inr n"
    using assms(2) by (auto simp: wave_concat_def split: if_splits sum.splits)
  then obtain n where n: "parts_width w 0 parts 0 = Inr n" by blast
  note n' = parts_width_grows [OF grows n]
  show ?thesis
  proof (cases "length parts = 1")
    case True
    with assms(2) ne n show ?thesis by (simp add: wave_concat_def n')
  next
    case False
    with assms(2) ne n n' hier show ?thesis
      by (auto simp: wave_concat_def Let_def split: option.splits)
  qed
qed

theorem concat_registers_once_witness:
  "wave_concat (fst (wave_concat demo_wave [demo_bus, demo_low, demo_bus])) [demo_bus, demo_low, demo_bus] =
    (fst (wave_concat demo_wave [demo_bus, demo_low, demo_bus]),
     Inr (computed_signal (wv_hierarchy demo_wave) 1 10))"
  using concat_registers_once [OF demo_wave_ok demo_concat] by (simp add: demo_concat)

section \<open>Selections\<close>

text \<open>
  C12: The plan of a selection ends on every well-formed waveform, however its compositions
  nest. It fails exactly with the check of the first bad handle; otherwise every asked
  signal has its slot, no signal has two, every operand is computed before it is used, and
  every source slot is written by the notifications of its own signal only.
\<close>

theorem selection_is_planned:
  assumes "wave_ok w"
  shows "case first_bad w signals of
      Some e \<Rightarrow> select_signals w signals = Some (Inl e)
    | None \<Rightarrow> \<exists>sel. select_signals w signals = Some (Inr sel) \<and> sel_signals sel = signals \<and>
        map (\<lambda>i. sel_retained sel ! i) (sel_slot_indices sel) = signals \<and>
        distinct (sel_retained sel) \<and> slots_in_range sel \<and> in_order sel \<and>
        (\<forall>i < length (sel_retained sel). \<not> sig_computed (sel_retained sel ! i) \<longrightarrow>
          own_slot sel (sig_index (sel_retained sel ! i)) i)"
  using select_signals_spec [OF assms, of signals] by (cases "first_bad w signals") auto

theorem selection_is_planned_witness:
  "select_signals demo_wave [demo_cat, foreign_signal, demo_low] = Some (Inl (InvalidSignal foreign_signal))"
  using selection_is_planned [OF demo_wave_ok, of "[demo_cat, foreign_signal, demo_low]"] demo_good
  by (simp add: demo_foreign good_def)

text \<open>
  C13: One-shot samples over any reader that keeps the reader contract: a bad handle is the
  error, and otherwise the answer is the point sample of every asked signal's recorded
  history, whatever the plan looks like.
\<close>

theorem one_shot_samples:
  assumes "wave_ok w" and "tick_reader (src_read src)" and "\<forall>bases t. src_prefix src bases t = None"
  shows "case select_signals w signals of
      Some (Inl e) \<Rightarrow> first_bad w signals = Some e \<and> wave_samples w src signals t = Some (Inl e)
    | Some (Inr sel) \<Rightarrow> first_bad w signals = None \<and>
        (\<forall>ss. recording src sel t = Some ss \<longrightarrow>
          wave_samples w src signals t = Some (Inr
            (map (\<lambda>i. point_sample (signals ! i) (entry_history sel ss i) t) [0..<length signals])))
    | None \<Rightarrow> False"
proof (cases "first_bad w signals")
  case (Some e)
  with select_signals_spec [OF assms(1), of signals] show ?thesis
    by (simp add: wave_samples_def with_selection_def)
next
  case None
  with select_signals_spec [OF assms(1), of signals] obtain sel where
    sel: "select_signals w signals = Some (Inr sel)" "sel_signals sel = signals" "slots_in_range sel"
      "sel_ok sel (length (sel_retained sel))" "sel_replay sel = None" "sel_checkpoint sel = None"
    by auto
  have "session_ok src sel" using assms(2,3) sel by (simp add: session_ok_def caches_ok_def)
  from samples_spec [OF this sel(3)] have "snd (samples src sel t) = Inr
      (map (\<lambda>i. point_sample (signals ! i) (entry_history sel ss i) t) [0..<length signals])"
    if "recording src sel t = Some ss" for ss
    using that sel(2) by fastforce
  with sel(1) None show ?thesis by (simp add: wave_samples_def with_selection_def)
qed

theorem one_shot_samples_witness:
  "wave_samples demo_wave (demo_source None) [demo_cat, demo_event, demo_low] (Time 7) =
    Some (Inr [SampleValue demo_cat (VBits ''110111'') (Some (Time 6)), SampleEvent demo_event 0,
      SampleValue demo_low (VBits ''11'') (Some (Time 6))])"
proof -
  have t: "Time 7 \<le> Time 9" by simp
  have "tick_reader (src_read (demo_source None))" "\<forall>bases t. src_prefix (demo_source None) bases t = None"
    using demo_session [of None] by (simp_all add: session_ok_def)
  from one_shot_samples [OF demo_wave_ok this, of "[demo_cat, demo_event, demo_low]" "Time 7"]
  have "wave_samples demo_wave (demo_source None) [demo_cat, demo_event, demo_low] (Time 7) =
      Some (Inr (map (\<lambda>i. point_sample (sel_signals demo_selection ! i)
        (entry_history demo_selection (filter (\<lambda>x. fst x \<le> Time 7) demo_ticks) i) (Time 7))
      [0..<length (sel_signals demo_selection)]))"
    using demo_recording_at [OF t] by (simp add: demo_selected demo_fields)
  then show ?thesis unfolding demo_row [OF t] by (simp add: demo_point)
qed

end
