(* ===== verification/Ondas_Names.thy ===== *)
theory Ondas_Names
  imports Ondas_Hierarchy
begin

text \<open>
  The name index of \<^verbatim>\<open>src/src/hierarchy.rs\<close> and the lookups built on it. The index is a
  counting sort of all declarations by parent, then an unstable sort by name inside each
  parent. \<open>index_window\<close> proves the counting sort; \<open>declarations_named_set\<close> that a lookup
  returns exactly the declarations of one parent with one name, each once.
\<close>

section \<open>The counting sort\<close>

definition count_keys :: "(nat \<Rightarrow> nat) \<Rightarrow> nat \<Rightarrow> nat \<Rightarrow> nat list" where
  "count_keys par n buckets =
    fold (\<lambda>item offsets. offsets[par item + 1 := offsets ! (par item + 1) + 1]) [0..<n]
      (replicate (buckets + 1) 0)"

definition prefix_sums :: "nat list \<Rightarrow> nat list" where
  "prefix_sums offsets =
    fold (\<lambda>p offsets. offsets[p := offsets ! p + offsets ! (p - 1)]) [1..<length offsets] offsets"

definition place_items :: "(nat \<Rightarrow> nat) \<Rightarrow> nat \<Rightarrow> nat list \<Rightarrow> nat list \<times> nat list" where
  "place_items par n offsets =
    fold (\<lambda>item (next', placed).
        let p = par item in (next'[p := next' ! p + 1], placed[next' ! p := item]))
      [0..<n] (butlast offsets, replicate n 0)"

definition bucket :: "(nat \<Rightarrow> nat) \<Rightarrow> nat \<Rightarrow> nat \<Rightarrow> nat list" where
  "bucket par n p = filter (\<lambda>i. par i = p) [0..<n]"

definition bucket_start :: "(nat \<Rightarrow> nat) \<Rightarrow> nat \<Rightarrow> nat \<Rightarrow> nat" where
  "bucket_start par n q = (\<Sum>p<q. length (bucket par n p))"

lemma bucket_Suc: "bucket par (Suc n) p = bucket par n p @ (if par n = p then [n] else [])"
  by (simp add: bucket_def)

lemma length_fold_update [simp]:
  "length (fold (\<lambda>x xs. xs[f x xs := g x xs]) ys xs) = length xs"
  by (induction ys arbitrary: xs) simp_all

lemma count_keys_fold:
  assumes "\<forall>i < n. par i + 1 < length offsets" and "q < length offsets"
  shows "fold (\<lambda>item offsets. offsets[par item + 1 := offsets ! (par item + 1) + 1]) [0..<n] offsets ! q =
    offsets ! q + (if q = 0 then 0 else length (bucket par n (q - 1)))"
  using assms
proof (induction n arbitrary: q)
  case 0
  then show ?case by (simp add: bucket_def)
next
  case (Suc n)
  let ?f = "\<lambda>item offsets. offsets[par item + 1 := offsets ! (par item + 1) + (1::nat)]"
  let ?F = "fold ?f [0..<n] offsets"
  have len: "length ?F = length offsets"
    by (simp add: length_fold_update [of "\<lambda>i _. par i + 1" "\<lambda>i xs. xs ! (par i + 1) + 1"])
  have IH: "?F ! q' = offsets ! q' + (if q' = 0 then 0 else length (bucket par n (q' - 1)))"
    if "q' < length offsets" for q'
    by (rule Suc.IH) (use Suc.prems(1) that in simp_all)
  have "par n + 1 < length offsets" using Suc.prems(1) by simp
  then show ?case using Suc.prems(2) IH [of q] IH [of "par n + 1"] len
    by (auto simp: nth_list_update bucket_Suc)
qed

lemma count_keys_nth:
  assumes "\<forall>i < n. par i < buckets" and "q \<le> buckets"
  shows "count_keys par n buckets ! q = (if q = 0 then 0 else length (bucket par n (q - 1)))"
  unfolding count_keys_def using assms by (subst count_keys_fold) (auto simp del: replicate_Suc)

lemma length_count_keys [simp]: "length (count_keys par n buckets) = buckets + 1"
  unfolding count_keys_def
  by (simp add: length_fold_update [of "\<lambda>i _. par i + 1" "\<lambda>i xs. xs ! (par i + 1) + 1"])

lemma prefix_sums_fold:
  assumes "k \<le> length offsets" and "q < length offsets"
  shows "fold (\<lambda>p offsets. offsets[p := offsets ! p + offsets ! (p - 1)]) [1..<k] offsets ! q =
    (if q < k then (\<Sum>r\<le>q. offsets ! r) else offsets ! q)"
  using assms
proof (induction k arbitrary: q)
  case 0
  then show ?case by simp
next
  case (Suc k)
  let ?F = "fold (\<lambda>p offsets. offsets[p := offsets ! p + offsets ! (p - 1)]) [1..<k] offsets"
  have len: "length ?F = length offsets"
    by (simp add: length_fold_update [of "\<lambda>p _. p" "\<lambda>p xs. xs ! p + xs ! (p - 1)"])
  show ?case
  proof (cases "k = 0")
    case True
    with Suc.prems show ?thesis by (auto simp: less_Suc0)
  next
    case False
    then have "(\<Sum>r\<le>k. offsets ! r) = (\<Sum>r\<le>k - 1. offsets ! r) + offsets ! k"
      by (cases k) simp_all
    with False Suc len show ?thesis
      by (auto simp: nth_list_update less_Suc_eq add.commute)
  qed
qed

lemma length_prefix_sums [simp]: "length (prefix_sums offsets) = length offsets"
  unfolding prefix_sums_def
  by (simp add: length_fold_update [of "\<lambda>p _. p" "\<lambda>p xs. xs ! p + xs ! (p - 1)"])

lemma prefix_sums_nth: "q < length offsets \<Longrightarrow> prefix_sums offsets ! q = (\<Sum>r\<le>q. offsets ! r)"
  unfolding prefix_sums_def by (subst prefix_sums_fold) simp_all

lemma offsets_start:
  assumes "\<forall>i < n. par i < buckets" and "q \<le> buckets"
  shows "prefix_sums (count_keys par n buckets) ! q = bucket_start par n q"
proof -
  have "prefix_sums (count_keys par n buckets) ! q = (\<Sum>r\<le>q. count_keys par n buckets ! r)"
    using assms(2) by (simp add: prefix_sums_nth)
  also have "\<dots> = (\<Sum>r\<le>q. if r = 0 then 0 else length (bucket par n (r - 1)))"
    using assms by (intro sum.cong) (simp_all add: count_keys_nth)
  also have "\<dots> = bucket_start par n q"
    unfolding bucket_start_def by (induction q) simp_all
  finally show ?thesis .
qed

lemma bucket_start_Suc: "bucket_start par n (Suc q) = bucket_start par n q + length (bucket par n q)"
  by (simp add: bucket_start_def)

lemma bucket_start_mono: "q \<le> q' \<Longrightarrow> bucket_start par n q \<le> bucket_start par n q'"
  unfolding bucket_start_def by (intro sum_mono2) auto

lemma bucket_start_disjoint:
  assumes "p \<noteq> q" and "j < length (bucket par n p)" and "i < length (bucket par n q)"
  shows "bucket_start par n p + j \<noteq> bucket_start par n q + i"
proof (cases "p < q")
  case True
  then have "bucket_start par n (Suc p) \<le> bucket_start par n q" by (simp add: bucket_start_mono)
  with assms show ?thesis by (simp add: bucket_start_Suc)
next
  case False
  with assms(1) have "bucket_start par n (Suc q) \<le> bucket_start par n p" by (simp add: bucket_start_mono)
  with assms show ?thesis by (simp add: bucket_start_Suc)
qed

lemma bucket_start_total:
  "\<forall>i < n. par i < buckets \<Longrightarrow> bucket_start par n buckets = n"
proof (induction n)
  case 0
  show ?case by (simp add: bucket_start_def bucket_def)
next
  case (Suc n)
  have "bucket_start par (Suc n) buckets = bucket_start par n buckets + (\<Sum>p<buckets. if par n = p then 1 else 0)"
    unfolding bucket_start_def sum.distrib [symmetric] by (intro sum.cong) (auto simp: bucket_Suc)
  also have "(\<Sum>p<buckets. if par n = p then 1 else (0::nat)) = 1" using Suc.prems by simp
  finally show ?case using Suc by simp
qed

lemma length_bucket_le: "k \<le> n \<Longrightarrow> length (bucket par k p) \<le> length (bucket par n p)"
proof -
  assume "k \<le> n"
  then have "[0..<n] = [0..<k] @ [k..<n]" using upt_add_eq_append [of 0 k "n - k"] by simp
  then show ?thesis by (simp add: bucket_def)
qed

lemma place_items_fold:
  assumes par: "\<forall>i < n. par i < buckets" and k: "k \<le> n"
    and next0: "length next0 = buckets" "\<forall>p < buckets. next0 ! p = bucket_start par n p"
    and run: "fold (\<lambda>item (next', placed). let p = par item in
        (next'[p := next' ! p + 1], placed[next' ! p := item])) [0..<k] (next0, replicate n 0) = (next1, placed)"
  shows "length next1 = buckets \<and> length placed = n \<and>
    (\<forall>p < buckets. next1 ! p = bucket_start par n p + length (bucket par k p)) \<and>
    (\<forall>p < buckets. \<forall>j < length (bucket par k p). placed ! (bucket_start par n p + j) = bucket par k p ! j)"
  using k run
proof (induction k arbitrary: next1 placed)
  case 0
  with next0 show ?case by (auto simp: bucket_def)
next
  case (Suc k)
  let ?step = "\<lambda>item (next', placed). let p = par item in
        (next'[p := next' ! p + 1], placed[next' ! p := item])"
  obtain next2 placed2 where r: "fold ?step [0..<k] (next0, replicate n 0) = (next2, placed2)"
    by fastforce
  have IH: "length next2 = buckets" "length placed2 = n"
    "\<And>p. p < buckets \<Longrightarrow> next2 ! p = bucket_start par n p + length (bucket par k p)"
    "\<And>p j. p < buckets \<Longrightarrow> j < length (bucket par k p) \<Longrightarrow>
      placed2 ! (bucket_start par n p + j) = bucket par k p ! j"
    using Suc.IH [OF _ r] Suc.prems(1) by auto
  let ?q = "par k"
  have q: "?q < buckets" using par Suc.prems(1) by simp
  have step: "next1 = next2[?q := next2 ! ?q + 1]" "placed = placed2[next2 ! ?q := k]"
    using Suc.prems(2) r by (simp_all add: Let_def)
  have room: "length (bucket par k ?q) < length (bucket par n ?q)"
    using length_bucket_le [of "Suc k" n par ?q] Suc.prems(1) by (simp add: bucket_Suc)
  then have "next2 ! ?q < bucket_start par n (Suc ?q)" by (simp add: IH(3) [OF q] bucket_start_Suc)
  also have "\<dots> \<le> n" using bucket_start_mono [of "Suc ?q" buckets par n] bucket_start_total [OF par] q by simp
  finally have in_range: "next2 ! ?q < length placed2" by (simp add: IH(2))
  have "placed ! (bucket_start par n p + j) = bucket par (Suc k) p ! j"
    if p: "p < buckets" and j: "j < length (bucket par (Suc k) p)" for p j
  proof (cases "p = ?q \<and> j = length (bucket par k p)")
    case True
    then show ?thesis using in_range by (simp add: step(2) IH(3) [OF q] bucket_Suc)
  next
    case False
    then have jk: "j < length (bucket par k p)" using j by (auto simp: bucket_Suc split: if_splits)
    have jn: "j < length (bucket par n p)" using jk length_bucket_le [of k n par p] Suc.prems(1) by simp
    have "bucket_start par n p + j \<noteq> next2 ! ?q"
    proof (cases "p = ?q")
      case True
      with jk show ?thesis by (simp add: IH(3) [OF q])
    next
      case False
      from bucket_start_disjoint [OF False jn room] show ?thesis by (simp add: IH(3) [OF q])
    qed
    then show ?thesis using IH(4) [OF p jk] jk by (simp add: step(2) bucket_Suc nth_append)
  qed
  moreover have "\<forall>p < buckets. next1 ! p = bucket_start par n p + length (bucket par (Suc k) p)"
    using q IH(1,3) by (auto simp: step(1) bucket_Suc nth_list_update)
  ultimately show ?case using IH(1,2) by (simp add: step)
qed

definition window :: "'a list \<Rightarrow> nat \<Rightarrow> nat \<Rightarrow> 'a list" where
  "window xs lo hi = take (hi - lo) (drop lo xs)"

lemma place_items_window:
  assumes par: "\<forall>i < n. par i < buckets" and p: "p < buckets"
  shows "window (snd (place_items par n (prefix_sums (count_keys par n buckets))))
    (bucket_start par n p) (bucket_start par n (Suc p)) = bucket par n p"
    and "length (snd (place_items par n (prefix_sums (count_keys par n buckets)))) = n"
proof -
  let ?offsets = "prefix_sums (count_keys par n buckets)"
  obtain next1 placed where run: "place_items par n ?offsets = (next1, placed)" by fastforce
  have "length (butlast ?offsets) = buckets" by simp
  moreover have "\<forall>p < buckets. butlast ?offsets ! p = bucket_start par n p"
    using offsets_start [OF par] by (simp add: nth_butlast)
  ultimately have P: "length placed = n"
    "\<And>j. j < length (bucket par n p) \<Longrightarrow> placed ! (bucket_start par n p + j) = bucket par n p ! j"
    using place_items_fold [OF par order_refl _ _ run [unfolded place_items_def]] p by simp_all
  have "bucket_start par n (Suc p) \<le> n"
    using bucket_start_mono [of "Suc p" buckets par n] bucket_start_total [OF par] p by simp
  then have "bucket_start par n p + length (bucket par n p) \<le> length placed"
    using P(1) by (simp add: bucket_start_Suc)
  with P(2) show "window (snd (place_items par n ?offsets)) (bucket_start par n p) (bucket_start par n (Suc p)) =
      bucket par n p"
    by (intro nth_equalityI) (simp_all add: run window_def bucket_start_Suc)
  show "length (snd (place_items par n ?offsets)) = n" by (simp add: run P(1))
qed

section \<open>The name index\<close>

definition declaration_key :: "hierarchy \<Rightarrow> nat \<Rightarrow> nat option \<times> string" where
  "declaration_key h index =
    (if index < length (hi_scopes h) then
       let scope = hi_scopes h ! index in (sd_parent scope, sd_name scope)
     else
       let variable = hi_variables h ! (index - length (hi_scopes h))
       in (vd_parent variable, vd_name variable))"

record name_index =
  ni_offsets :: "nat list"
  ni_declarations :: "nat list"

text \<open>\<open>sort_by\<close> is \<open>sort_unstable_by\<close> comparing names; each window is sorted in place.\<close>

fun sort_windows :: "(nat list \<Rightarrow> nat list) \<Rightarrow> (nat \<times> nat) list \<Rightarrow> nat list \<Rightarrow> nat list" where
  "sort_windows sorter [] xs = xs"
| "sort_windows sorter ((lo, hi) # ws) xs =
    sort_windows sorter ws (take lo xs @ sorter (window xs lo hi) @ drop hi xs)"

definition name_index_new :: "((nat \<Rightarrow> string) \<Rightarrow> nat list \<Rightarrow> nat list) \<Rightarrow> hierarchy \<Rightarrow> name_index" where
  "name_index_new sort_by h =
    (let root = length (hi_scopes h);
         n = root + length (hi_variables h);
         par = (\<lambda>item. case fst (declaration_key h item) of Some p \<Rightarrow> p | None \<Rightarrow> root);
         offsets = prefix_sums (count_keys par n (root + 1));
         (next', declarations) = place_items par n offsets
     in \<lparr>ni_offsets = offsets,
         ni_declarations =
           sort_windows (sort_by (\<lambda>item. snd (declaration_key h item))) (zip offsets (tl offsets))
             declarations\<rparr>)"

definition declarations_named ::
    "((nat \<Rightarrow> string) \<Rightarrow> nat list \<Rightarrow> nat list) \<Rightarrow> hierarchy \<Rightarrow> nat option \<Rightarrow> string \<Rightarrow> nat list" where
  "declarations_named sort_by h parent name =
    (let index = name_index_new sort_by h;
         p = (case parent of Some p \<Rightarrow> p | None \<Rightarrow> length (hi_scopes h));
         items = window (ni_declarations index) (ni_offsets index ! p) (ni_offsets index ! (p + 1));
         start = partition_point (\<lambda>item. snd (declaration_key h item) < name) items;
         count = partition_point (\<lambda>item. snd (declaration_key h item) = name) (drop start items)
     in take count (drop start items))"

section \<open>What the index holds\<close>

definition declaration_count :: "hierarchy \<Rightarrow> nat" where
  "declaration_count h = length (hi_scopes h) + length (hi_variables h)"

lemma window_take: "lo \<le> hi \<Longrightarrow> window xs lo hi = drop lo (take hi xs)"
  by (simp add: window_def take_drop)

lemma window_other:
  assumes "hi \<le> lo' \<or> hi' \<le> lo" and "lo \<le> hi" "hi \<le> length xs" "length ys = hi - lo" and "lo' \<le> hi'" "hi' \<le> length xs"
  shows "window (take lo xs @ ys @ drop hi xs) lo' hi' = window xs lo' hi'"
proof (cases "hi \<le> lo'")
  case True
  with assms have "drop lo' (take lo xs @ ys @ drop hi xs) = drop lo' xs" by simp
  then show ?thesis by (simp add: window_def)
next
  case False
  with assms have "hi' \<le> lo" "lo \<le> length xs" by simp_all
  then have "take hi' (take lo xs @ ys @ drop hi xs) = take hi' xs" by simp
  then show ?thesis by (simp add: window_take assms(5))
qed

lemma window_same:
  assumes "lo \<le> hi" "hi \<le> length xs" "length ys = hi - lo"
  shows "window (take lo xs @ ys @ drop hi xs) lo hi = ys"
  using assms by (simp add: window_def)

lemma length_window: "hi \<le> length xs \<Longrightarrow> length (window xs lo hi) = hi - lo"
  by (simp add: window_def)

lemma sort_windows_window:
  assumes len: "\<And>ys. length (sorter ys) = length ys"
    and mono: "\<And>a b. a \<le> b \<Longrightarrow> b \<le> k \<Longrightarrow> start a \<le> start b" and bound: "start k \<le> length xs"
    and m: "m \<le> k" and p: "p < k"
  shows "length (sort_windows sorter (map (\<lambda>p. (start p, start (Suc p))) [m..<k]) xs) = length xs \<and>
    window (sort_windows sorter (map (\<lambda>p. (start p, start (Suc p))) [m..<k]) xs) (start p) (start (Suc p)) =
      (if m \<le> p then sorter (window xs (start p) (start (Suc p))) else window xs (start p) (start (Suc p)))"
  using m bound
proof (induction "k - m" arbitrary: m xs)
  case 0
  with p show ?case by simp
next
  case (Suc d)
  then have mk: "m < k" by simp
  let ?xs = "take (start m) xs @ sorter (window xs (start m) (start (Suc m))) @ drop (start (Suc m)) xs"
  have le: "start m \<le> start (Suc m)" "start (Suc m) \<le> length xs" "start p \<le> start (Suc p)"
    "start (Suc p) \<le> length xs"
    using mono [of m "Suc m"] mono [of "Suc m" k] mono [of p "Suc p"] mono [of "Suc p" k] mk p Suc.prems
    by simp_all
  have lw: "length (sorter (window xs (start m) (start (Suc m)))) = start (Suc m) - start m"
    by (simp add: len length_window le)
  then have lx: "length ?xs = length xs" using le by simp
  have "[m..<k] = m # [Suc m..<k]" using mk by (simp add: upt_rec)
  then have unf: "sort_windows sorter (map (\<lambda>p. (start p, start (Suc p))) [m..<k]) xs =
      sort_windows sorter (map (\<lambda>p. (start p, start (Suc p))) [Suc m..<k]) ?xs" by simp
  have IH: "length (sort_windows sorter (map (\<lambda>p. (start p, start (Suc p))) [Suc m..<k]) ?xs) = length ?xs \<and>
    window (sort_windows sorter (map (\<lambda>p. (start p, start (Suc p))) [Suc m..<k]) ?xs) (start p) (start (Suc p)) =
      (if Suc m \<le> p then sorter (window ?xs (start p) (start (Suc p))) else window ?xs (start p) (start (Suc p)))"
    using Suc.hyps mk Suc.prems lx by (intro Suc.hyps(1)) simp_all
  have "window ?xs (start p) (start (Suc p)) =
      (if p = m then sorter (window xs (start m) (start (Suc m))) else window xs (start p) (start (Suc p)))"
  proof (cases "p = m")
    case True
    then show ?thesis using window_same [OF le(1,2) lw] by simp
  next
    case False
    then have "start (Suc m) \<le> start p \<or> start (Suc p) \<le> start m"
      using mono [of "Suc m" p] mono [of "Suc p" m] p mk by (cases "m < p") auto
    from window_other [OF this le(1,2) lw le(3,4)] False show ?thesis by simp
  qed
  with IH lx show ?case
    unfolding unf by (cases p m rule: linorder_cases) simp_all
qed

lemma unstable_length: "unstable_sort sort_by \<Longrightarrow> length (sort_by key xs) = length xs"
  by (rule unstable_sort.length_sort_by)

definition parent_key :: "hierarchy \<Rightarrow> nat \<Rightarrow> nat" where
  "parent_key h item =
    (case fst (declaration_key h item) of Some p \<Rightarrow> p | None \<Rightarrow> length (hi_scopes h))"

lemma parent_key_less:
  assumes "hierarchy_ok h" and "i < declaration_count h"
  shows "parent_key h i < length (hi_scopes h) + 1"
proof (cases "i < length (hi_scopes h)")
  case True
  then have "hi_scopes h ! i \<in> set (hi_scopes h)" by simp
  with True assms(1) show ?thesis
    by (auto simp: parent_key_def declaration_key_def Let_def hierarchy_ok_def less_Suc_eq split: option.split)
next
  case False
  then have "hi_variables h ! (i - length (hi_scopes h)) \<in> set (hi_variables h)"
    using assms(2) by (intro nth_mem) (simp add: declaration_count_def)
  with False assms(1) show ?thesis
    by (auto simp: parent_key_def declaration_key_def Let_def hierarchy_ok_def less_Suc_eq split: option.split)
qed

lemma zip_offsets:
  "length xs = k + 1 \<Longrightarrow> (\<And>q. q \<le> k \<Longrightarrow> xs ! q = start q) \<Longrightarrow>
    zip xs (tl xs) = map (\<lambda>p. (start p, start (Suc p))) [0..<k]"
  by (rule nth_equalityI) (auto simp: nth_tl)

lemma name_index_window:
  assumes sort: "unstable_sort sort_by" and ok: "hierarchy_ok h" and p: "p \<le> length (hi_scopes h)"
  shows "window (ni_declarations (name_index_new sort_by h)) (ni_offsets (name_index_new sort_by h) ! p)
      (ni_offsets (name_index_new sort_by h) ! (p + 1)) =
    sort_by (\<lambda>item. snd (declaration_key h item)) (bucket (parent_key h) (declaration_count h) p)"
proof -
  let ?n = "declaration_count h" and ?k = "length (hi_scopes h) + 1" and ?par = "parent_key h"
  let ?name = "\<lambda>item. snd (declaration_key h item)"
  let ?offsets = "prefix_sums (count_keys ?par ?n ?k)"
  have par: "\<forall>i < ?n. ?par i < ?k" using parent_key_less [OF ok] by blast
  have pk: "p < ?k" using p by simp
  have start: "\<And>q. q \<le> ?k \<Longrightarrow> ?offsets ! q = bucket_start ?par ?n q"
    by (rule offsets_start [OF par])
  let ?placed = "snd (place_items ?par ?n ?offsets)"
  note W = place_items_window [OF par pk]
  have idx: "name_index_new sort_by h = \<lparr>ni_offsets = ?offsets,
      ni_declarations = sort_windows (sort_by ?name) (zip ?offsets (tl ?offsets)) ?placed\<rparr>"
    unfolding name_index_new_def parent_key_def [abs_def] declaration_count_def
    by (simp add: Let_def split: prod.split)
  have z: "zip ?offsets (tl ?offsets) =
      map (\<lambda>p. (bucket_start ?par ?n p, bucket_start ?par ?n (Suc p))) [0..<?k]"
    by (rule zip_offsets) (simp_all only: length_prefix_sums length_count_keys start)
  have bound: "bucket_start ?par ?n ?k \<le> length ?placed"
    using bucket_start_total [OF par] W(2) by simp
  have "window (sort_windows (sort_by ?name)
        (map (\<lambda>p. (bucket_start ?par ?n p, bucket_start ?par ?n (Suc p))) [0..<?k]) ?placed)
      (bucket_start ?par ?n p) (bucket_start ?par ?n (Suc p)) = sort_by ?name (bucket ?par ?n p)"
    using sort_windows_window [of "sort_by ?name" ?k "bucket_start ?par ?n" ?placed 0 p,
        OF unstable_length [OF sort] _ bound _ pk] bucket_start_mono W(1) by simp
  moreover have "?offsets ! p = bucket_start ?par ?n p" "?offsets ! (p + 1) = bucket_start ?par ?n (Suc p)"
    using start [of p] start [of "p + 1"] pk by simp_all
  ultimately show ?thesis unfolding idx name_index.select_convs z by (simp only:)
qed

lemma partition_run:
  fixes name :: "'k :: linorder"
  assumes "sorted (map key xs)"
  shows "take (partition_point (\<lambda>x. key x = name) (drop (partition_point (\<lambda>x. key x < name) xs) xs))
      (drop (partition_point (\<lambda>x. key x < name) xs) xs) = filter (\<lambda>x. key x = name) xs"
proof -
  have sw: "sorted_wrt (\<lambda>x y. key x \<le> key y) xs" using assms by (simp add: sorted_wrt_map)
  have p1: "partitioned (\<lambda>x. key x < name) xs"
    by (rule partitioned_sorted_wrt [OF sw]) simp
  let ?r = "dropWhile (\<lambda>x. key x < name) xs"
  have drop: "drop (partition_point (\<lambda>x. key x < name) xs) xs = ?r"
    by (simp add: partition_point_takeWhile [OF p1] dropWhile_eq_drop)
  have sr: "sorted_wrt (\<lambda>x y. key x \<le> key y) ?r"
    using sw unfolding dropWhile_eq_drop by (rule sorted_wrt_drop)
  have ge: "\<forall>x \<in> set ?r. name \<le> key x" using p1 by (auto simp: partitioned_def not_less)
  have p2: "partitioned (\<lambda>x. key x = name) ?r"
  proof -
    have "partitioned (\<lambda>x. key x \<le> name) ?r" by (rule partitioned_sorted_wrt [OF sr]) simp
    moreover have "dropWhile (\<lambda>x. key x \<le> name) ?r = dropWhile (\<lambda>x. key x = name) ?r"
      using ge by (intro dropWhile_cong) auto
    ultimately show ?thesis by (auto simp: partitioned_def)
  qed
  have "filter (\<lambda>x. key x = name) xs =
      filter (\<lambda>x. key x = name) (takeWhile (\<lambda>x. key x < name) xs) @ filter (\<lambda>x. key x = name) ?r"
    by (metis filter_append takeWhile_dropWhile_id)
  also have "filter (\<lambda>x. key x = name) (takeWhile (\<lambda>x. key x < name) xs) = []"
    by (auto simp: filter_empty_conv dest: set_takeWhileD)
  also have "filter (\<lambda>x. key x = name) ?r = takeWhile (\<lambda>x. key x = name) ?r"
    by (simp add: takeWhile_filter_partitioned [OF p2])
  finally show ?thesis
    unfolding drop by (simp add: partition_point_takeWhile [OF p2] takeWhile_eq_take [symmetric])
qed

lemma declarations_named_mset:
  assumes sort: "unstable_sort sort_by" and ok: "hierarchy_ok h"
    and p: "case parent of Some p \<Rightarrow> p < length (hi_scopes h) | None \<Rightarrow> True"
  shows "mset (declarations_named sort_by h parent name) =
    mset (filter (\<lambda>i. declaration_key h i = (parent, name)) [0..<declaration_count h])"
proof -
  let ?name = "\<lambda>item. snd (declaration_key h item)"
  let ?p = "case parent of Some p \<Rightarrow> p | None \<Rightarrow> length (hi_scopes h)"
  let ?b = "bucket (parent_key h) (declaration_count h) ?p"
  have "?p \<le> length (hi_scopes h)" using p by (auto split: option.split)
  from name_index_window [OF sort ok this]
  have items: "declarations_named sort_by h parent name = filter (\<lambda>i. ?name i = name) (sort_by ?name ?b)"
    using partition_run [where key = ?name and xs = "sort_by ?name ?b" and name = name,
        OF unstable_sort.sorted_sort_by [OF sort]]
    by (simp add: declarations_named_def Let_def)
  have par: "parent_key h i = ?p \<longleftrightarrow> fst (declaration_key h i) = parent" if "i < declaration_count h" for i
  proof -
    have "fst (declaration_key h i) = Some q \<Longrightarrow> q < length (hi_scopes h)" for q
    proof (cases "i < length (hi_scopes h)")
      case True
      then have "hi_scopes h ! i \<in> set (hi_scopes h)" by simp
      with True ok show "fst (declaration_key h i) = Some q \<Longrightarrow> q < length (hi_scopes h)"
        by (auto simp: declaration_key_def Let_def hierarchy_ok_def)
    next
      case False
      then have "hi_variables h ! (i - length (hi_scopes h)) \<in> set (hi_variables h)"
        using that by (intro nth_mem) (simp add: declaration_count_def)
      with False ok show "fst (declaration_key h i) = Some q \<Longrightarrow> q < length (hi_scopes h)"
        by (auto simp: declaration_key_def Let_def hierarchy_ok_def)
    qed
    with p show ?thesis
      by (auto simp: parent_key_def split: option.splits)
  qed
  have "mset (filter (\<lambda>i. ?name i = name) (sort_by ?name ?b)) = mset (filter (\<lambda>i. ?name i = name) ?b)"
    by (simp add: unstable_sort.mset_sort_by [OF sort] mset_filter)
  also have "filter (\<lambda>i. ?name i = name) ?b =
      filter (\<lambda>i. declaration_key h i = (parent, name)) [0..<declaration_count h]"
    unfolding bucket_def filter_filter using par by (intro filter_cong) (auto simp: prod_eq_iff)
  finally show ?thesis unfolding items .
qed

lemma declarations_named_set:
  assumes "unstable_sort sort_by" and "hierarchy_ok h"
    and "case parent of Some p \<Rightarrow> p < length (hi_scopes h) | None \<Rightarrow> True"
  shows "set (declarations_named sort_by h parent name) =
      {i. i < declaration_count h \<and> declaration_key h i = (parent, name)}"
    and "distinct (declarations_named sort_by h parent name)"
proof -
  note m = declarations_named_mset [OF assms, of name]
  show "set (declarations_named sort_by h parent name) =
      {i. i < declaration_count h \<and> declaration_key h i = (parent, name)}"
    using mset_eq_setD [OF m] by auto
  show "distinct (declarations_named sort_by h parent name)"
    using m by (metis distinct_filter distinct_upt mset_eq_imp_distinct_iff)
qed

section \<open>Lookup by components\<close>

fun resolve_parents ::
    "((nat \<Rightarrow> string) \<Rightarrow> nat list \<Rightarrow> nat list) \<Rightarrow> hierarchy \<Rightarrow> string list \<Rightarrow> nat option list \<Rightarrow>
     nat option list option" where
  "resolve_parents sort_by h [] parents = Some parents"
| "resolve_parents sort_by h (name # scopes) parents =
    (let parents' = map Some (filter (\<lambda>index. index < length (hi_scopes h))
           (concat (map (\<lambda>parent. declarations_named sort_by h parent name) parents)))
     in if parents' = [] then None else resolve_parents sort_by h scopes parents')"

definition variable_path ::
    "((nat \<Rightarrow> string) \<Rightarrow> nat list \<Rightarrow> nat list) \<Rightarrow> hierarchy \<Rightarrow> hierarchy_path \<Rightarrow> lookup_error + nat" where
  "variable_path sort_by h path =
    (if path = [] then Inl (NotFound path)
     else case resolve_parents sort_by h (butlast path) [None] of
       None \<Rightarrow> Inl (NotFound path)
     | Some parents \<Rightarrow>
         (let matches = List.map_filter
                (\<lambda>index. if length (hi_scopes h) \<le> index then Some (index - length (hi_scopes h)) else None)
                (concat (map (\<lambda>parent. declarations_named sort_by h parent (last path)) parents))
          in case matches of
               [] \<Rightarrow> Inl (NotFound path)
             | [variable] \<Rightarrow> Inr variable
             | _ \<Rightarrow> Inl (Ambiguous path (length matches))))"

definition signal_path ::
    "((nat \<Rightarrow> string) \<Rightarrow> nat list \<Rightarrow> nat list) \<Rightarrow> hierarchy \<Rightarrow> hierarchy_path \<Rightarrow> lookup_error + signal" where
  "signal_path sort_by h path =
    and_then (variable_path sort_by h path) (\<lambda>v.
      case vd_signal (hi_variables h ! v) of
        Some index \<Rightarrow> Inr (signal_at h index)
      | None \<Rightarrow> Inl (NoSignal path))"

text \<open>\<open>scope_path\<close> walks all scopes; its candidates are compared by their full path.\<close>

definition scope_path :: "hierarchy \<Rightarrow> hierarchy_path \<Rightarrow> lookup_error + nat" where
  "scope_path h path =
    (let matches = filter (\<lambda>s. path \<noteq> [] \<and> sd_name (hi_scopes h ! s) = last path \<and>
           scope_path_at h (Some s) = Some path) [0..<length (hi_scopes h)]
     in case matches of
          [] \<Rightarrow> Inl (NotFound path)
        | [scope] \<Rightarrow> Inr scope
        | _ \<Rightarrow> Inl (Ambiguous path (length matches)))"

text \<open>The full path of a variable: the path of its scope and its own name.\<close>

definition variable_full_path :: "hierarchy \<Rightarrow> nat \<Rightarrow> string list option" where
  "variable_full_path h v =
    map_option (\<lambda>cs. cs @ [vd_name (hi_variables h ! v)])
      (scope_path_at h (vd_parent (hi_variables h ! v)))"

text \<open>The reference: among all variables, those with the path.\<close>

definition lookup_result :: "hierarchy_path \<Rightarrow> nat list \<Rightarrow> lookup_error + nat" where
  "lookup_result path matches =
    (case matches of
       [] \<Rightarrow> Inl (NotFound path)
     | [v] \<Rightarrow> Inr v
     | _ \<Rightarrow> Inl (Ambiguous path (length matches)))"

lemma lookup_result_mset: "mset xs = mset ys \<Longrightarrow> lookup_result path xs = lookup_result path ys"
proof -
  assume m: "mset xs = mset ys"
  then have len: "length xs = length ys" by (rule mset_eq_length)
  show ?thesis
  proof (cases xs)
    case Nil
    with len show ?thesis by (simp add: lookup_result_def)
  next
    case (Cons x xs')
    show ?thesis
    proof (cases xs')
      case Nil
      with m Cons have "ys = [x]" by (metis mset_single_iff_right mset.simps(1,2) mset_zero_iff)
      with Cons Nil show ?thesis by simp
    next
      case (Cons x' xs'')
      with \<open>xs = x # xs'\<close> len obtain y y' ys'' where "ys = y # y' # ys''"
        by (cases ys; cases "tl ys") auto
      with len Cons \<open>xs = x # xs'\<close> show ?thesis by (simp add: lookup_result_def)
    qed
  qed
qed

definition scope_at :: "hierarchy \<Rightarrow> nat option \<Rightarrow> string list \<Rightarrow> bool" where
  "scope_at h p cs \<longleftrightarrow>
    (case p of Some i \<Rightarrow> i < length (hi_scopes h) | None \<Rightarrow> True) \<and> scope_path_at h p = Some cs"

lemma scope_at_None [simp]: "scope_at h None cs \<longleftrightarrow> cs = []"
  by (auto simp: scope_at_def scope_path_at_def scope_components.simps)

lemma scope_parent_range:
  "hierarchy_ok h \<Longrightarrow> i < length (hi_scopes h) \<Longrightarrow> sd_parent (hi_scopes h ! i) = Some p \<Longrightarrow>
    p < length (hi_scopes h)"
  by (auto simp: hierarchy_ok_def dest: nth_mem)

lemma variable_parent_range:
  "hierarchy_ok h \<Longrightarrow> v < length (hi_variables h) \<Longrightarrow> vd_parent (hi_variables h ! v) = Some p \<Longrightarrow>
    p < length (hi_scopes h)"
  by (auto simp: hierarchy_ok_def dest: nth_mem)

lemma scope_at_Some:
  assumes "hierarchy_ok h"
  shows "scope_at h (Some i) cs \<longleftrightarrow>
    i < length (hi_scopes h) \<and> (\<exists>ps. cs = ps @ [sd_name (hi_scopes h ! i)] \<and>
      scope_at h (sd_parent (hi_scopes h ! i)) ps)"
  using scope_parent_range [OF assms, of i]
  by (auto simp: scope_at_def scope_path_at_def scope_components.simps [of h "Some i"] Let_def
      bind_eq_Some_conv split: option.split)

lemma scope_at_snoc:
  "hierarchy_ok h \<Longrightarrow> scope_at h (Some i) (cs @ [name]) \<longleftrightarrow>
    i < length (hi_scopes h) \<and> declaration_key h i = (sd_parent (hi_scopes h ! i), name) \<and>
    scope_at h (sd_parent (hi_scopes h ! i)) cs"
  by (auto simp: scope_at_Some declaration_key_def Let_def)

lemma scope_at_range: "scope_at h p cs \<Longrightarrow> case p of Some i \<Rightarrow> i < length (hi_scopes h) | None \<Rightarrow> True"
  by (simp add: scope_at_def)

text \<open>The declarations named in any parent of a list.\<close>

lemma named_in_parents:
  assumes sort: "unstable_sort sort_by" and ok: "hierarchy_ok h"
    and parents: "distinct parents" "set parents = {p. scope_at h p cs}"
  shows "distinct (concat (map (\<lambda>parent. declarations_named sort_by h parent name) parents))"
    and "set (concat (map (\<lambda>parent. declarations_named sort_by h parent name) parents)) =
      {i. i < declaration_count h \<and> (\<exists>p. scope_at h p cs \<and> declaration_key h i = (p, name))}"
proof -
  have named: "set (declarations_named sort_by h p name) =
      {i. i < declaration_count h \<and> declaration_key h i = (p, name)}"
    "distinct (declarations_named sort_by h p name)" if "p \<in> set parents" for p
    using declarations_named_set [OF sort ok scope_at_range] that parents(2) by auto
  show "set (concat (map (\<lambda>parent. declarations_named sort_by h parent name) parents)) =
      {i. i < declaration_count h \<and> (\<exists>p. scope_at h p cs \<and> declaration_key h i = (p, name))}"
    using named(1) parents(2) by auto
  have "distinct (concat (map (\<lambda>parent. declarations_named sort_by h parent name) ps))"
    if "distinct ps" "set ps \<subseteq> set parents" for ps
    using that
  proof (induction ps)
    case Nil
    show ?case by simp
  next
    case (Cons p ps)
    then have "set (declarations_named sort_by h p name) \<inter>
        set (concat (map (\<lambda>parent. declarations_named sort_by h parent name) ps)) = {}"
      using named(1) by (auto simp: subset_iff)
    with Cons named(2) show ?case by auto
  qed
  with parents(1) show "distinct (concat (map (\<lambda>parent. declarations_named sort_by h parent name) parents))"
    by simp
qed

lemma resolve_parents_spec:
  assumes sort: "unstable_sort sort_by" and ok: "hierarchy_ok h"
    and "distinct parents" and "set parents = {p. scope_at h p cs}"
  shows "case resolve_parents sort_by h names parents of
      None \<Rightarrow> \<forall>p. \<not> scope_at h p (cs @ names)
    | Some parents' \<Rightarrow> distinct parents' \<and> set parents' = {p. scope_at h p (cs @ names)}"
  using assms(3,4)
proof (induction names arbitrary: parents cs)
  case Nil
  then show ?case by simp
next
  case (Cons name names)
  let ?all = "concat (map (\<lambda>parent. declarations_named sort_by h parent name) parents)"
  let ?next = "map Some (filter (\<lambda>index. index < length (hi_scopes h)) ?all)"
  note named = named_in_parents [OF sort ok Cons.prems, of name]
  have d: "distinct ?next" using named(1) by (simp add: distinct_map)
  have s: "set ?next = {p. scope_at h p (cs @ [name])}"
  proof (rule set_eqI)
    fix p
    show "p \<in> set ?next \<longleftrightarrow> p \<in> {p. scope_at h p (cs @ [name])}"
    proof (cases p)
      case None
      then show ?thesis by auto
    next
      case (Some i)
      have "p \<in> set ?next \<longleftrightarrow> i \<in> set ?all \<and> i < length (hi_scopes h)"
        unfolding Some by (auto simp del: set_concat)
      also have "\<dots> \<longleftrightarrow> scope_at h p (cs @ [name])"
        unfolding named(2) Some scope_at_snoc [OF ok]
        by (auto simp: declaration_count_def declaration_key_def Let_def)
      finally show ?thesis by simp
    qed
  qed
  show ?case
  proof (cases "?next = []")
    case True
    have "\<not> scope_at h p (cs @ name # names)" for p
    proof
      assume "scope_at h p (cs @ name # names)"
      moreover have "scope_at h p (ms @ ns) \<Longrightarrow> \<exists>q. scope_at h q ms" for ms ns p
      proof (induction ns arbitrary: p rule: rev_induct)
        case Nil
        then show ?case by auto
      next
        case (snoc n ns)
        then show ?case using scope_at_snoc [OF ok, of _ "ms @ ns" n] by (cases p) auto
      qed
      ultimately have "\<exists>q. scope_at h q (cs @ [name])" by (metis append_Cons append_Nil append_assoc)
      with s True show False by (metis empty_iff empty_set mem_Collect_eq)
    qed
    moreover have "resolve_parents sort_by h (name # names) parents = None"
      using True by (simp only: resolve_parents.simps Let_def simp_thms if_True)
    ultimately show ?thesis by simp
  next
    case False
    then have "resolve_parents sort_by h (name # names) parents = resolve_parents sort_by h names ?next"
      by (simp only: resolve_parents.simps Let_def if_False)
    then show ?thesis using Cons.IH [OF d s] by (simp only: append_assoc append.simps)
  qed
qed

lemma map_filter_offset:
  "List.map_filter (\<lambda>i. if k \<le> i then Some (i - k) else None) xs =
    map (\<lambda>i. i - k) (filter (\<lambda>i. k \<le> i) xs)"
  by (induction xs) (simp_all add: map_filter_def)

lemma variable_full_path_at:
  assumes "hierarchy_ok h" and "v < length (hi_variables h)"
  shows "variable_full_path h v = Some (cs @ [name]) \<longleftrightarrow>
    vd_name (hi_variables h ! v) = name \<and> scope_at h (vd_parent (hi_variables h ! v)) cs"
  using variable_parent_range [OF assms]
  by (auto simp: variable_full_path_def scope_at_def split: option.splits)

text \<open>
  The lookup is the reference lookup: the variables whose full path is the asked one.
\<close>

lemma variable_path_spec:
  assumes sort: "unstable_sort sort_by" and ok: "hierarchy_ok h"
  shows "variable_path sort_by h path =
    lookup_result path (filter (\<lambda>v. variable_full_path h v = Some path) [0..<length (hi_variables h)])"
proof (cases path rule: rev_cases)
  case Nil
  have "filter (\<lambda>v. variable_full_path h v = Some []) [0..<length (hi_variables h)] = []"
    by (auto simp: filter_empty_conv variable_full_path_def)
  with Nil show ?thesis by (simp add: variable_path_def lookup_result_def)
next
  case (snoc cs name)
  let ?n = "length (hi_scopes h)" and ?m = "length (hi_variables h)"
  let ?ref = "filter (\<lambda>v. variable_full_path h v = Some path) [0..<?m]"
  have root: "distinct [None]" "set [None] = {p. scope_at h p []}"
    using scope_at_Some [OF ok] by (auto elim: option.exhaust) (metis option.exhaust snoc_eq_iff_butlast)
  note R = resolve_parents_spec [OF sort ok root, of cs]
  have full: "variable_full_path h v = Some path \<longleftrightarrow>
      vd_name (hi_variables h ! v) = name \<and> scope_at h (vd_parent (hi_variables h ! v)) cs"
    if "v < ?m" for v
    unfolding snoc by (rule variable_full_path_at [OF ok that])
  show ?thesis
  proof (cases "resolve_parents sort_by h cs [None]")
    case None
    with R full have "?ref = []" by (auto simp: filter_empty_conv)
    with None show ?thesis by (simp add: variable_path_def lookup_result_def snoc)
  next
    case (Some parents)
    let ?all = "concat (map (\<lambda>parent. declarations_named sort_by h parent name) parents)"
    let ?matches = "map (\<lambda>i. i - ?n) (filter (\<lambda>i. ?n \<le> i) ?all)"
    from R Some have P: "distinct parents" "set parents = {p. scope_at h p cs}" by simp_all
    note named = named_in_parents [OF sort ok P, of name]
    have "distinct ?matches" using named(1) by (auto simp: distinct_map inj_on_def)
    moreover have "set ?matches = set ?ref"
    proof (rule set_eqI)
      fix v
      have "v \<in> set ?matches \<longleftrightarrow> v + ?n \<in> set ?all" by force
      also have "\<dots> \<longleftrightarrow> v < ?m \<and> vd_name (hi_variables h ! v) = name \<and>
          scope_at h (vd_parent (hi_variables h ! v)) cs"
        unfolding named(2) by (auto simp: declaration_count_def declaration_key_def Let_def)
      also have "\<dots> \<longleftrightarrow> v \<in> set ?ref" using full by auto
      finally show "v \<in> set ?matches \<longleftrightarrow> v \<in> set ?ref" .
    qed
    ultimately have "mset ?matches = mset ?ref"
      by (subst set_eq_iff_mset_eq_distinct [symmetric]) simp_all
    then have "lookup_result path ?matches = lookup_result path ?ref" by (rule lookup_result_mset)
    moreover have "variable_path sort_by h path = lookup_result path ?matches"
      using Some by (simp add: variable_path_def lookup_result_def snoc map_filter_offset Let_def)
    ultimately show ?thesis by simp
  qed
qed

end
