(* ===== verification/Ondas_Text.thy ===== *)
theory Ondas_Text
  imports Ondas_Prelude
begin

text \<open>
  The parts of the Rust standard library on byte strings that the parsers use: UTF-8
  validity, splitting and trimming, prefix and suffix tests, and decimal parsing at the
  widths the sources use, overflow included.
\<close>

section \<open>UTF-8\<close>

text \<open>
  The length of the encoded scalar value at the head of the bytes, by the table of
  well-formed sequences (no overlong form, no surrogate, nothing above U+10FFFF); zero
  when the head is not well formed.
\<close>

definition continuation :: "char \<Rightarrow> bool" where
  "continuation c \<longleftrightarrow> 128 \<le> byte c \<and> byte c < 192"

fun utf8_head :: "string \<Rightarrow> nat" where
  "utf8_head [] = 0"
| "utf8_head (a # s) =
    (if byte a < 128 then 1
     else if 194 \<le> byte a \<and> byte a \<le> 223 then
       (case s of b # _ \<Rightarrow> if continuation b then 2 else 0 | _ \<Rightarrow> 0)
     else if 224 \<le> byte a \<and> byte a \<le> 239 then
       (case s of b # c # _ \<Rightarrow>
          if continuation b \<and> continuation c \<and> (byte a = 224 \<longrightarrow> 160 \<le> byte b) \<and>
             (byte a = 237 \<longrightarrow> byte b < 160)
          then 3 else 0
        | _ \<Rightarrow> 0)
     else if 240 \<le> byte a \<and> byte a \<le> 244 then
       (case s of b # c # d # _ \<Rightarrow>
          if continuation b \<and> continuation c \<and> continuation d \<and>
             (byte a = 240 \<longrightarrow> 144 \<le> byte b) \<and> (byte a = 244 \<longrightarrow> byte b < 144)
          then 4 else 0
        | _ \<Rightarrow> 0)
     else 0)"

function utf8_chars :: "string \<Rightarrow> string list option" where
  "utf8_chars s =
    (if s = [] then Some []
     else
       let n = utf8_head s
       in if n = 0 then None
          else map_option ((#) (take n s)) (utf8_chars (drop n s)))"
  by pat_completeness auto
termination
  by (relation "measure length") auto

declare utf8_chars.simps [simp del]

definition valid_utf8 :: "string \<Rightarrow> bool" where
  "valid_utf8 s \<longleftrightarrow> utf8_chars s \<noteq> None"

lemma utf8_chars_concat: "utf8_chars s = Some cs \<Longrightarrow> concat cs = s"
proof (induction s arbitrary: cs rule: utf8_chars.induct)
  case (1 s)
  show ?case
  proof (cases "s = []")
    case True
    with "1.prems" show ?thesis by (simp add: utf8_chars.simps)
  next
    case False
    with "1.prems" obtain ds where n: "utf8_head s \<noteq> 0" and ds: "utf8_chars (drop (utf8_head s) s) = Some ds"
      and cs: "cs = take (utf8_head s) s # ds"
      by (auto simp: utf8_chars.simps [of s] Let_def split: if_splits)
    from "1.IH" [OF False refl n ds] cs show ?thesis by simp
  qed
qed

lemma ascii_utf8_chars: "list_all is_ascii s \<Longrightarrow> utf8_chars s = Some (map (\<lambda>c. [c]) s)"
proof (induction s)
  case Nil
  show ?case by (simp add: utf8_chars.simps)
next
  case (Cons c s)
  then show ?case by (simp add: utf8_chars.simps [of "c # s"] is_ascii_def)
qed

lemma ascii_valid_utf8: "list_all is_ascii s \<Longrightarrow> valid_utf8 s"
  by (simp add: valid_utf8_def ascii_utf8_chars)

section \<open>Splitting and trimming\<close>

text \<open>\<open>split_once\<close> at the first occurrence of a one-byte character.\<close>

definition split_once :: "char \<Rightarrow> string \<Rightarrow> (string \<times> string) option" where
  "split_once c s =
    (case dropWhile (\<lambda>d. d \<noteq> c) s of
       [] \<Rightarrow> None
     | _ # rest \<Rightarrow> Some (takeWhile (\<lambda>d. d \<noteq> c) s, rest))"

lemma split_once_Some_iff:
  "split_once c s = Some (a, b) \<longleftrightarrow> s = a @ c # b \<and> c \<notin> set a"
proof
  assume "split_once c s = Some (a, b)"
  then obtain d where d: "dropWhile (\<lambda>d. d \<noteq> c) s = d # b" and a: "a = takeWhile (\<lambda>d. d \<noteq> c) s"
    by (auto simp: split_once_def split: list.splits)
  then have "d = c" using hd_dropWhile [of "\<lambda>d. d \<noteq> c" s] by auto
  with d a show "s = a @ c # b \<and> c \<notin> set a"
    by (metis set_takeWhileD takeWhile_dropWhile_id)
next
  assume "s = a @ c # b \<and> c \<notin> set a"
  then show "split_once c s = Some (a, b)"
    by (auto simp: split_once_def dropWhile_append takeWhile_append)
qed

lemma split_once_None_iff: "split_once c s = None \<longleftrightarrow> c \<notin> set s"
proof (cases "dropWhile (\<lambda>d. d \<noteq> c) s")
  case Nil
  then have "c \<notin> set s" by (auto simp: dropWhile_eq_Nil_conv)
  with Nil show ?thesis unfolding split_once_def Nil by simp
next
  case (Cons d r)
  then have "d = c" using hd_dropWhile [of "\<lambda>d. d \<noteq> c" s] by auto
  moreover have "d \<in> set s" using Cons set_dropWhileD [of d "\<lambda>d. d \<noteq> c" s] by simp
  ultimately show ?thesis using Cons by (simp add: split_once_def)
qed

definition starts_with :: "string \<Rightarrow> string \<Rightarrow> bool" where
  "starts_with s p \<longleftrightarrow> take (length p) s = p"

definition strip_prefix :: "string \<Rightarrow> string \<Rightarrow> string option" where
  "strip_prefix p s = (if starts_with s p then Some (drop (length p) s) else None)"

definition ends_with :: "string \<Rightarrow> string \<Rightarrow> bool" where
  "ends_with s p \<longleftrightarrow> length p \<le> length s \<and> drop (length s - length p) s = p"

definition strip_suffix :: "string \<Rightarrow> string \<Rightarrow> string option" where
  "strip_suffix p s = (if ends_with s p then Some (take (length s - length p) s) else None)"

lemma strip_prefix_append [simp]: "strip_prefix p (p @ s) = Some s"
  by (simp add: strip_prefix_def starts_with_def)

lemma strip_prefix_Some_iff: "strip_prefix p s = Some r \<longleftrightarrow> s = p @ r"
  by (auto simp: strip_prefix_def starts_with_def) (metis append_take_drop_id)

lemma strip_suffix_append [simp]: "strip_suffix p (s @ p) = Some s"
  by (simp add: strip_suffix_def ends_with_def)

definition trim_ascii :: "string \<Rightarrow> string" where
  "trim_ascii s = rev (dropWhile is_ascii_whitespace (rev (dropWhile is_ascii_whitespace s)))"

definition trim_end_matches :: "char \<Rightarrow> string \<Rightarrow> string" where
  "trim_end_matches c s = rev (dropWhile (\<lambda>d. d = c) (rev s))"

definition replace_char :: "char \<Rightarrow> char \<Rightarrow> string \<Rightarrow> string" where
  "replace_char a b s = map (\<lambda>c. if c = a then b else c) s"

text \<open>The position of the last occurrence, \<open>rposition\<close>.\<close>

fun rposition :: "char \<Rightarrow> string \<Rightarrow> nat option" where
  "rposition c [] = None"
| "rposition c (d # s) =
    (case rposition c s of
       Some i \<Rightarrow> Some (Suc i)
     | None \<Rightarrow> if d = c then Some 0 else None)"

section \<open>Decimal numbers\<close>

definition digit_value :: "char \<Rightarrow> nat" where
  "digit_value c = byte c - 48"

fun decimal :: "nat \<Rightarrow> string \<Rightarrow> nat" where
  "decimal n [] = n"
| "decimal n (c # s) = decimal (10 * n + digit_value c) s"

definition all_digits :: "string \<Rightarrow> bool" where
  "all_digits s \<longleftrightarrow> s \<noteq> [] \<and> list_all is_ascii_digit s"

text \<open>
  \<open>str::parse\<close> of an unsigned integer below a bound: an optional plus sign, at least one
  digit, and no overflow; of a signed one also a minus sign.
\<close>

definition parse_unsigned :: "nat \<Rightarrow> string \<Rightarrow> nat option" where
  "parse_unsigned bound s =
    (let t = (case s of c # r \<Rightarrow> if c = CHR ''+'' then r else s | [] \<Rightarrow> s)
     in if all_digits t \<and> decimal 0 t < bound then Some (decimal 0 t) else None)"

definition parse_u32 :: "string \<Rightarrow> u32 option" where
  "parse_u32 s = map_option word_of_nat (parse_unsigned (2 ^ 32) s)"

definition parse_u64 :: "string \<Rightarrow> u64 option" where
  "parse_u64 s = map_option word_of_nat (parse_unsigned (2 ^ 64) s)"

definition parse_u128 :: "string \<Rightarrow> nat option" where
  "parse_u128 s = parse_unsigned (2 ^ 128) s"

definition parse_i64 :: "string \<Rightarrow> 64 word option" where
  "parse_i64 s =
    (case s of
       c # r \<Rightarrow>
         if c = CHR ''-'' then
           (if all_digits r \<and> decimal 0 r \<le> 2 ^ 63 then Some (- word_of_nat (decimal 0 r)) else None)
         else map_option word_of_nat (parse_unsigned (2 ^ 63) s)
     | [] \<Rightarrow> None)"

lemma decimal_append: "decimal n (s @ t) = decimal (decimal n s) t"
  by (induction n s rule: decimal.induct) simp_all

lemma digit_value_char [simp]: "n < (10::nat) \<Longrightarrow> digit_value (char_of (48 + n)) = n"
  by (simp add: digit_value_def)

lemma digit_char [simp]: "n < (10::nat) \<Longrightarrow> is_ascii_digit (char_of (48 + n))"
  by (simp add: is_ascii_digit_def)

lemma decimal_show_nat: "decimal 0 (show_nat n) = n"
proof (induction n rule: show_nat.induct)
  case (1 n)
  show ?case
  proof (cases "n < 10")
    case True
    then show ?thesis by (simp add: show_nat.simps [of n])
  next
    case False
    with 1 show ?thesis by (simp add: show_nat.simps [of n] decimal_append)
  qed
qed

lemma all_digits_show_nat: "all_digits (show_nat n)"
proof (induction n rule: show_nat.induct)
  case (1 n)
  show ?case
  proof (cases "n < 10")
    case True
    then show ?thesis by (simp add: show_nat.simps [of n] all_digits_def)
  next
    case False
    with 1 show ?thesis by (simp add: show_nat.simps [of n] all_digits_def)
  qed
qed

lemma digit_not_sign: "is_ascii_digit c \<Longrightarrow> c \<noteq> CHR ''+'' \<and> c \<noteq> CHR ''-''"
  by (auto simp: is_ascii_digit_def byte_def)

lemma parse_unsigned_digits:
  "all_digits s \<Longrightarrow> parse_unsigned bound s = (if decimal 0 s < bound then Some (decimal 0 s) else None)"
  by (cases s) (auto simp: parse_unsigned_def all_digits_def dest: digit_not_sign)

lemma parse_show_nat: "n < bound \<Longrightarrow> parse_unsigned bound (show_nat n) = Some n"
  by (simp add: parse_unsigned_digits all_digits_show_nat decimal_show_nat)

end
