(* ===== verification/Ondas_Path.thy ===== *)
theory Ondas_Path
  imports Ondas_Names Ondas_Text
begin

text \<open>
  \<^verbatim>\<open>src/src/hierarchy/path.rs\<close> and \<open>HierarchyPath\<close> of \<^verbatim>\<open>src/src/hierarchy.rs\<close>: the path
  grammar with its quoted, escaped and plain components, its printers, the trailing slice
  of a selector, and the lookup of a signal by selector. A \<open>str\<close> is the list of its
  characters, each the list of its UTF-8 bytes, so that the parser can look at characters
  and count bytes. The JSON string reader and writer of \<open>serde_json\<close> are parameters;
  \<open>json_law\<close> states that the reader takes back what the writer printed.
\<close>

section \<open>Characters\<close>

type_synonym str = "string list"

definition char_of_bytes :: "nat list \<Rightarrow> string" where
  "char_of_bytes bs = map char_of bs"

text \<open>\<open>char::is_whitespace\<close>: the Unicode property \<open>White_Space\<close>.\<close>

definition whitespace_chars :: "string list" where
  "whitespace_chars =
    map char_of_bytes
      ([[9], [10], [11], [12], [13], [32], [0xC2, 0x85], [0xC2, 0xA0], [0xE1, 0x9A, 0x80]] @
       map (\<lambda>b. [0xE2, 0x80, b]) [0x80..<0x8B] @
       [[0xE2, 0x80, 0xA8], [0xE2, 0x80, 0xA9], [0xE2, 0x80, 0xAF], [0xE2, 0x81, 0x9F],
        [0xE3, 0x80, 0x80]])"

definition is_whitespace :: "string \<Rightarrow> bool" where
  "is_whitespace c \<longleftrightarrow> c \<in> set whitespace_chars"

definition is_control :: "string \<Rightarrow> bool" where
  "is_control c \<longleftrightarrow>
    (case c of
       [a] \<Rightarrow> byte a < 32 \<or> byte a = 127
     | [a, b] \<Rightarrow> byte a = 0xC2 \<and> 0x80 \<le> byte b \<and> byte b < 0xA0
     | _ \<Rightarrow> False)"

definition is_ascii_char :: "string \<Rightarrow> bool" where
  "is_ascii_char c \<longleftrightarrow> (case c of [a] \<Rightarrow> is_ascii a | _ \<Rightarrow> False)"

definition dot :: string where "dot = ''.''"
definition quote :: string where "quote = [CHR 0x22]"
definition backslash :: string where "backslash = [CHR 0x5C]"

definition byte_len :: "str \<Rightarrow> nat" where
  "byte_len cs = length (concat cs)"

lemma byte_len_simps [simp]:
  "byte_len [] = 0" "byte_len (c # cs) = length c + byte_len cs"
  "byte_len (cs @ ds) = byte_len cs + byte_len ds"
  by (simp_all add: byte_len_def)

section \<open>Parsing\<close>

text \<open>
  What \<open>serde_json\<close> answers for a string at the head of the input: its value and the
  number of characters read, or an error with its kind, line, column and text.
\<close>

record json_error =
  je_eof :: bool
  je_line :: nat
  je_column :: nat
  je_text :: string

type_synonym json_reader = "str \<Rightarrow> json_error + (string \<times> nat)"

text \<open>The byte length of the first \<open>k\<close> lines of \<open>split_inclusive('\n')\<close>.\<close>

fun lines_len :: "nat \<Rightarrow> str \<Rightarrow> nat" where
  "lines_len 0 cs = 0"
| "lines_len (Suc k) [] = 0"
| "lines_len (Suc k) (c # cs) =
    length c + lines_len (if c = ''\<newline>'' then k else Suc k) cs"

definition json_position :: "json_error \<Rightarrow> str \<Rightarrow> nat" where
  "json_position err input =
    (if je_eof err then byte_len input
     else (lines_len (je_line err - 1) input + je_column err) - 1)"

definition path_err :: "nat \<Rightarrow> string \<Rightarrow> path_error" where
  "path_err offset message = \<lparr>pe_offset = offset, pe_message = message\<rparr>"

definition quoted_component ::
    "json_reader \<Rightarrow> nat \<Rightarrow> str \<Rightarrow> path_error + (string \<times> nat \<times> str)" where
  "quoted_component json offset cs =
    (case json cs of
       Inl err \<Rightarrow> Inl (path_err (offset + json_position err cs) (je_text err))
     | Inr (component, k) \<Rightarrow> Inr (component, offset + byte_len (take k cs), drop k cs))"

definition escaped_component :: "nat \<Rightarrow> str \<Rightarrow> path_error + (string \<times> nat \<times> str)" where
  "escaped_component offset cs =
    (let name = takeWhile (\<lambda>c. \<not> is_whitespace c \<and> is_ascii_char c \<and> \<not> is_control c) cs;
         rest = dropWhile (\<lambda>c. \<not> is_whitespace c \<and> is_ascii_char c \<and> \<not> is_control c) cs;
         stop = offset + byte_len name
     in if rest \<noteq> [] \<and> \<not> is_whitespace (hd rest) then
          Inl (path_err stop ''escaped identifiers require printable ASCII'')
        else if name = [] then Inl (path_err stop ''empty escaped identifier'')
        else if rest = [] then
          Inl (path_err stop ''escaped identifier requires terminating whitespace'')
        else Inr (concat name, stop + byte_len (takeWhile is_whitespace rest),
               dropWhile is_whitespace rest))"

definition plain_char :: "string \<Rightarrow> bool" where
  "plain_char c \<longleftrightarrow> \<not> (is_whitespace c \<or> is_control c \<or> c = quote \<or> c = backslash)"

definition plain_component :: "nat \<Rightarrow> str \<Rightarrow> path_error + (string \<times> nat \<times> str)" where
  "plain_component offset cs =
    (let name = takeWhile (\<lambda>c. c \<noteq> dot \<and> plain_char c) cs;
         rest = dropWhile (\<lambda>c. c \<noteq> dot \<and> plain_char c) cs;
         stop = offset + byte_len name
     in if rest \<noteq> [] \<and> hd rest \<noteq> dot then Inl (path_err stop ''quote or escape this component'')
        else if name = [] then Inl (path_err stop ''empty path component'')
        else Inr (concat name, stop, rest))"

definition component :: "json_reader \<Rightarrow> nat \<Rightarrow> str \<Rightarrow> path_error + (string \<times> nat \<times> str)" where
  "component json offset cs =
    (if hd cs = quote then quoted_component json offset cs
     else if hd cs = backslash then escaped_component (offset + 1) (tl cs)
     else plain_component offset cs)"

lemma length_dropWhile_le': "length (dropWhile P xs) \<le> length xs"
  by (rule length_dropWhile_le)

lemma component_shrinks:
  "component json offset cs = Inr (name, offset', rest) \<Longrightarrow> length rest \<le> length cs"
  by (auto simp: component_def quoted_component_def escaped_component_def plain_component_def Let_def
      split: if_splits sum.splits prod.splits intro!: le_trans [OF length_dropWhile_le]
      le_trans [OF length_dropWhile_le'])

function parse_from :: "json_reader \<Rightarrow> nat \<Rightarrow> str \<Rightarrow> path_error + string list" where
  "parse_from json offset cs =
    (if cs = [] then Inr []
     else case component json offset cs of
       Inl e \<Rightarrow> Inl e
     | Inr (name, stop, rest) \<Rightarrow>
         if rest = [] then Inr [name]
         else if hd rest \<noteq> dot then Inl (path_err stop ''expected a component separator'')
         else if tl rest = [] then Inl (path_err (stop + 1) ''missing path component'')
         else and_then (parse_from json (stop + 1) (tl rest)) (\<lambda>names. Inr (name # names)))"
  by pat_completeness auto
termination
  by (relation "measure (\<lambda>(_, _, cs). length cs)")
    (auto dest!: component_shrinks simp: neq_Nil_conv)

declare parse_from.simps [simp del]

definition path_parse :: "json_reader \<Rightarrow> str \<Rightarrow> path_error + hierarchy_path" where
  "path_parse json cs = parse_from json 0 cs"

section \<open>Printing\<close>

text \<open>\<open>Display\<close>: a component with a special character is written as a JSON string.\<close>

definition special_char :: "string \<Rightarrow> bool" where
  "special_char c \<longleftrightarrow>
    is_whitespace c \<or> is_control c \<or> c \<in> {dot, ''['', '']'', quote, backslash}"

definition path_component_display :: "(str \<Rightarrow> str) \<Rightarrow> str \<Rightarrow> str" where
  "path_component_display json c = (if c = [] \<or> list_ex special_char c then json c else c)"

fun path_display :: "(str \<Rightarrow> str) \<Rightarrow> str list \<Rightarrow> str" where
  "path_display json [] = []"
| "path_display json [c] = path_component_display json c"
| "path_display json (c # cs) = path_component_display json c @ dot # path_display json cs"

fun to_verilog_from :: "str list \<Rightarrow> str \<Rightarrow> path_format_error + str" where
  "to_verilog_from [] out = Inr out"
| "to_verilog_from (c # cs) out =
    (if c = [] \<or> \<not> list_all (\<lambda>b. 33 \<le> byte b \<and> byte b \<le> 126) (concat c)
     then Inl (NotRepresentable (concat c))
     else to_verilog_from cs
       (out @ (if out \<noteq> [] then [dot] else []) @ backslash # c @ ['' '']))"

definition to_verilog :: "str list \<Rightarrow> path_format_error + str" where
  "to_verilog cs = to_verilog_from cs []"

definition json_law :: "(str \<Rightarrow> str) \<Rightarrow> json_reader \<Rightarrow> bool" where
  "json_law print reader \<longleftrightarrow>
    (\<forall>c rest. print c \<noteq> [] \<and> hd (print c) = quote \<and>
      reader (print c @ rest) = Inr (concat c, length (print c)))"

section \<open>Round trips\<close>

lemma component_json:
  assumes "json_law print reader"
  shows "component reader offset (print c @ rest) = Inr (concat c, offset + byte_len (print c), rest)"
proof -
  have "print c \<noteq> []" "hd (print c) = quote" "reader (print c @ rest) = Inr (concat c, length (print c))"
    using assms by (simp_all add: json_law_def)
  then show ?thesis by (simp add: component_def quoted_component_def)
qed

lemma component_plain:
  assumes "c \<noteq> []" and "\<not> list_ex special_char c" and "rest = [] \<or> hd rest = dot"
  shows "component reader offset (c @ rest) = Inr (concat c, offset + byte_len c, rest)"
proof -
  have plain: "\<forall>x \<in> set c. x \<noteq> dot \<and> plain_char x" and first: "hd c \<noteq> quote" "hd c \<noteq> backslash"
    using assms(1,2) by (auto simp: list_ex_iff special_char_def plain_char_def neq_Nil_conv)
  have "takeWhile (\<lambda>x. x \<noteq> dot \<and> plain_char x) (c @ rest) = c"
    "dropWhile (\<lambda>x. x \<noteq> dot \<and> plain_char x) (c @ rest) = rest"
    using plain assms(3) by (cases rest; simp add: takeWhile_append dropWhile_append)+
  with first assms show ?thesis by (auto simp: component_def plain_component_def)
qed

lemma component_display:
  assumes "json_law print reader" and "rest = [] \<or> hd rest = dot"
  shows "component reader offset (path_component_display print c @ rest) =
    Inr (concat c, offset + byte_len (path_component_display print c), rest)"
  using component_json [OF assms(1)] component_plain [OF _ _ assms(2)]
  by (simp add: path_component_display_def)

lemma display_not_empty: "json_law print reader \<Longrightarrow> path_component_display print c \<noteq> []"
  by (auto simp: path_component_display_def json_law_def)

lemma parse_from_display:
  assumes law: "json_law print reader"
  shows "cs \<noteq> [] \<Longrightarrow> parse_from reader offset (path_display print cs) = Inr (map concat cs)"
proof (induction cs arbitrary: offset rule: path_display.induct [of "\<lambda>_ cs. _ cs" print])
  case (1 json)
  then show ?case by simp
next
  case (2 json c)
  show ?case
    using component_display [OF law, of "[]" offset c] display_not_empty [OF law, of c]
    by (simp add: parse_from.simps [of _ _ "path_component_display print c"])
next
  case (3 json c d cs)
  let ?rest = "path_display print (d # cs)"
  have ne: "?rest \<noteq> []" using display_not_empty [OF law] by (cases cs) simp_all
  show ?case
    using component_display [OF law, of "dot # ?rest" offset c] ne 3 display_not_empty [OF law, of c]
    by (simp add: parse_from.simps [of _ _ "path_component_display print c @ dot # ?rest"])
qed

text \<open>A \<open>str\<close>: the characters of its bytes.\<close>

definition str_ok :: "str \<Rightarrow> bool" where
  "str_ok cs \<longleftrightarrow> utf8_chars (concat cs) = Some cs"

fun verilog_text :: "str list \<Rightarrow> str" where
  "verilog_text [] = []"
| "verilog_text [c] = backslash # c @ ['' '']"
| "verilog_text (c # cs) = backslash # c @ '' '' # dot # verilog_text cs"

definition printable :: "str \<Rightarrow> bool" where
  "printable c \<longleftrightarrow> c \<noteq> [] \<and> list_all (\<lambda>b. 33 \<le> byte b \<and> byte b \<le> 126) (concat c)"

lemma to_verilog_from_text:
  "to_verilog_from cs out = Inr t \<Longrightarrow>
    t = out @ (if out \<noteq> [] \<and> cs \<noteq> [] then [dot] else []) @ verilog_text cs \<and> list_all printable cs"
proof (induction cs out rule: to_verilog_from.induct)
  case (1 out)
  then show ?case by simp
next
  case (2 c cs out)
  then show ?case by (cases cs) (auto simp: printable_def split: if_splits)
qed

lemma eq_char_of_iff: "c = char_of (n :: nat) \<longleftrightarrow> take_bit 8 n = of_char c"
  by (metis char_of_eq_iff)

lemma whitespace_space [simp]: "is_whitespace '' ''"
  by (simp add: is_whitespace_def whitespace_chars_def char_of_bytes_def eq_char_of_iff)

lemma printable_not_whitespace: "33 \<le> byte b \<Longrightarrow> byte b \<le> 126 \<Longrightarrow> \<not> is_whitespace [b]"
  by (auto simp: is_whitespace_def whitespace_chars_def char_of_bytes_def)

lemma escaped_printable:
  assumes ok: "str_ok c" and print: "printable c" and rest: "rest = [] \<or> \<not> is_whitespace (hd rest)"
  shows "component reader offset (backslash # c @ '' '' # rest) =
    Inr (concat c, offset + byte_len (backslash # c @ ['' '']), rest)"
proof -
  have "list_all is_ascii (concat c)"
    using print by (fastforce simp: printable_def list_all_iff is_ascii_def)
  from ascii_utf8_chars [OF this] have c: "c = map (\<lambda>x. [x]) (concat c)" using ok by (simp add: str_ok_def)
  let ?P = "\<lambda>x. \<not> is_whitespace x \<and> is_ascii_char x \<and> \<not> is_control x"
  have "?P [b]" if "b \<in> set (concat c)" for b
  proof -
    have "33 \<le> byte b" "byte b \<le> 126" using print that by (auto simp: printable_def list_all_iff)
    with printable_not_whitespace [of b] show ?thesis
      by (simp add: is_ascii_char_def is_ascii_def is_control_def)
  qed
  then have all: "\<forall>x \<in> set c. ?P x" by (subst c) simp
  have "takeWhile ?P (c @ '' '' # rest) = c" "dropWhile ?P (c @ '' '' # rest) = '' '' # rest"
    using all by (simp_all add: takeWhile_append dropWhile_append)
  moreover have "takeWhile is_whitespace ('' '' # rest) = ['' '']"
    "dropWhile is_whitespace ('' '' # rest) = rest"
    using rest by (cases rest; simp)+
  moreover have "c \<noteq> []" using print by (simp add: printable_def)
  moreover have "backslash \<noteq> quote" by (simp add: backslash_def quote_def)
  moreover have "length backslash = 1" by (simp add: backslash_def)
  ultimately show ?thesis by (simp add: component_def escaped_component_def)
qed

lemma dot_not_whitespace [simp]: "\<not> is_whitespace dot"
  by (simp add: is_whitespace_def whitespace_chars_def char_of_bytes_def dot_def eq_char_of_iff)

lemma parse_from_verilog:
  "cs \<noteq> [] \<Longrightarrow> list_all printable cs \<Longrightarrow> list_all str_ok cs \<Longrightarrow>
    parse_from reader offset (verilog_text cs) = Inr (map concat cs)"
proof (induction cs arbitrary: offset rule: verilog_text.induct)
  case 1
  then show ?case by simp
next
  case (2 c)
  then show ?case
    using escaped_printable [of c "[]" reader offset] by (simp add: parse_from.simps [of _ _ "backslash # _"])
next
  case (3 c d cs)
  let ?rest = "verilog_text (d # cs)"
  have "?rest \<noteq> []" by (cases cs) simp_all
  with 3 show ?case
    using escaped_printable [of c "dot # ?rest" reader offset]
    by (simp add: parse_from.simps [of _ _ "backslash # _"])
qed

section \<open>Selectors\<close>

fun rfind_char :: "string \<Rightarrow> str \<Rightarrow> nat option" where
  "rfind_char c [] = None"
| "rfind_char c (d # s) =
    (case rfind_char c s of
       Some i \<Rightarrow> Some (Suc i)
     | None \<Rightarrow> if d = c then Some 0 else None)"

definition slice_index :: "string \<Rightarrow> nat \<Rightarrow> path_error + u32" where
  "slice_index digits offset =
    (if digits = [] \<or> \<not> list_all is_ascii_digit digits then
       Inl (path_err offset ''slice index must be an unsigned decimal integer'')
     else ok_or (path_err offset ''slice index exceeds u32'') (parse_u32 digits))"

definition selector :: "json_reader \<Rightarrow> str \<Rightarrow> path_error + (hierarchy_path \<times> u32 \<times> u32) option" where
  "selector json cs =
    (if cs = [] \<or> last cs \<noteq> '']'' then Inr None
     else case rfind_char ''['' (butlast cs) of
       None \<Rightarrow> Inr None
     | Some start \<Rightarrow>
         (case split_once CHR '':'' (concat (drop (start + 1) (butlast cs))) of
            None \<Rightarrow> Inr None
          | Some (msb, lsb) \<Rightarrow>
              (case path_parse json (take start cs) of
                 Inl _ \<Rightarrow> Inr None
               | Inr path \<Rightarrow>
                   let at = byte_len (take start cs)
                   in and_then (slice_index msb (at + 1)) (\<lambda>m.
                      and_then (slice_index lsb (at + length msb + 2)) (\<lambda>l.
                        Inr (Some (path, m, l)))))))"

text \<open>\<open>Hierarchy::signal\<close>: the exact path first, then a trailing slice.\<close>

definition signal_lookup ::
    "((nat \<Rightarrow> string) \<Rightarrow> nat list \<Rightarrow> nat list) \<Rightarrow> json_reader \<Rightarrow> hierarchy \<Rightarrow> str \<Rightarrow> lookup_error + signal" where
  "signal_lookup sort_by json h cs =
    (let exact = (case path_parse json cs of
            Inl e \<Rightarrow> Inl (InvalidPath e)
          | Inr path \<Rightarrow> signal_path sort_by h path)
     in if \<not> (case exact of Inl (NotFound _) \<Rightarrow> True | Inl (InvalidPath _) \<Rightarrow> True | _ \<Rightarrow> False)
        then exact
        else case selector json cs of
          Inl e \<Rightarrow> Inl (InvalidPath e)
        | Inr None \<Rightarrow> exact
        | Inr (Some (path, msb, lsb)) \<Rightarrow>
            and_then (signal_path sort_by h path) (\<lambda>s.
              case signal_slice s msb lsb of
                Inl e \<Rightarrow> Inl (InvalidSlice e)
              | Inr s' \<Rightarrow> Inr s'))"

lemma rfind_char_last: "c \<notin> set b \<Longrightarrow> rfind_char c (a @ c # b) = Some (length a)"
proof (induction a)
  case Nil
  have "c \<notin> set b \<Longrightarrow> rfind_char c b = None" for b
    by (induction b) auto
  with Nil show ?case by simp
next
  case (Cons x a)
  then show ?case by simp
qed

lemma slice_index_show:
  "slice_index (show_nat (unat m)) offset = Inr m"
proof -
  have "unat m < 2 ^ 32" using unat_u32_less [of m] by simp
  then show ?thesis
    using all_digits_show_nat [of "unat m"] parse_show_nat [of "unat m" "2 ^ 32"]
    by (simp add: slice_index_def all_digits_def parse_u32_def)
qed

text \<open>The suffix \<open>[msb:lsb]\<close> printed after any path that parses is read back.\<close>

definition slice_suffix :: "u32 \<Rightarrow> u32 \<Rightarrow> str" where
  "slice_suffix msb lsb =
    ''['' # map (\<lambda>x. [x]) (show_nat (unat msb)) @ '':'' # map (\<lambda>x. [x]) (show_nat (unat lsb)) @ ['']'']"

lemma digits_show: "x \<in> set (show_nat n) \<Longrightarrow> is_ascii_digit x"
  using all_digits_show_nat [of n] by (simp add: all_digits_def list_all_iff)

lemma concat_singletons [simp]: "concat (map (\<lambda>x. [x]) xs) = xs"
  by (induction xs) simp_all

lemma selector_suffix:
  assumes "path_parse json cs = Inr path"
  shows "selector json (cs @ slice_suffix msb lsb) = Inr (Some (path, msb, lsb))"
proof -
  let ?m = "map (\<lambda>x. [x]) (show_nat (unat msb))" and ?l = "map (\<lambda>x. [x]) (show_nat (unat lsb))"
  have b: "butlast (cs @ slice_suffix msb lsb) = cs @ ''['' # ?m @ '':'' # ?l"
    by (simp add: slice_suffix_def butlast_append)
  have no: "CHR ''['' \<notin> set (show_nat n)" "CHR '':'' \<notin> set (show_nat n)" for n
    using digits_show [of "CHR ''[''" n] digits_show [of "CHR '':''" n]
    by (auto simp: is_ascii_digit_def byte_def)
  then have "rfind_char ''['' (butlast (cs @ slice_suffix msb lsb)) = Some (length cs)"
    unfolding b by (intro rfind_char_last) auto
  moreover have "split_once CHR '':'' (concat (drop (length cs + 1) (butlast (cs @ slice_suffix msb lsb)))) =
      Some (show_nat (unat msb), show_nat (unat lsb))"
    unfolding b using no by (simp add: split_once_Some_iff)
  moreover have "last (cs @ slice_suffix msb lsb) = '']''" "cs @ slice_suffix msb lsb \<noteq> []"
    by (simp_all add: slice_suffix_def)
  moreover have "take (length cs) (cs @ slice_suffix msb lsb) = cs" by simp
  ultimately show ?thesis
    using assms by (simp add: selector_def slice_index_show)
qed

end
