(* ===== verification/Ondas_Lookup.thy ===== *)
theory Ondas_Lookup
  imports Ondas_Path
begin

text \<open>
  What a client relies on in \<^verbatim>\<open>src/src/hierarchy.rs\<close>: children come in declaration
  order, lookups by path are exact, printed paths are read back, and a selector reads a
  slice of the named signal unless the whole text is a name. The concrete hierarchy has two
  scopes and four variables, one of which is named like a slice of another.
\<close>

section \<open>A concrete hierarchy\<close>

definition demo_scope :: "string \<Rightarrow> nat option \<Rightarrow> scope_data" where
  "demo_scope name parent =
    \<lparr>sd_name = name, sd_name_was_escaped = False, sd_parent = parent, sd_kind = ''module'',
     sd_definition_name = None, sd_packing = None, sd_is_hidden = False\<rparr>"

definition demo_variable :: "string \<Rightarrow> nat option \<Rightarrow> nat option \<Rightarrow> variable_data" where
  "demo_variable name parent signal =
    \<lparr>vd_name = name, vd_reader_name = None, vd_name_was_escaped = False, vd_parent = parent,
     vd_kind = ''wire'', vd_direction = DirUnknown, vd_range = None, vd_is_constant = False,
     vd_type_name = None, vd_signedness = None, vd_logic_domain = None, vd_enumeration = None,
     vd_signal = signal\<rparr>"

definition demo_hierarchy :: hierarchy where
  "demo_hierarchy =
    \<lparr>hi_source = 1,
     hi_scopes = [demo_scope ''t'' None, demo_scope ''u'' (Some 0)],
     hi_variables =
       [demo_variable ''a'' (Some 1) (Some 0), demo_variable ''a[1:0]'' (Some 0) (Some 1),
        demo_variable ''b'' (Some 1) None, demo_variable ''b'' (Some 1) (Some 1)],
     hi_encodings = [Bits 4, Event]\<rparr>"

lemma demo_hierarchy_ok: "hierarchy_ok demo_hierarchy"
proof -
  have "\<exists>depth :: nat \<Rightarrow> nat. \<forall>i < 2. \<forall>p.
      sd_parent ([demo_scope ''t'' None, demo_scope ''u'' (Some 0)] ! i) = Some p \<longrightarrow> depth p < depth i"
    by (rule exI [of _ id]) (auto simp: demo_scope_def less_2_cases_iff)
  then show ?thesis
    by (simp add: hierarchy_ok_def demo_hierarchy_def usize_max_def)
      (simp add: demo_scope_def demo_variable_def numeral_2_eq_2)
qed

lemma demo_paths:
  "scope_path_at demo_hierarchy (Some 0) = Some [''t'']"
  "scope_path_at demo_hierarchy (Some (Suc 0)) = Some [''t'', ''u'']"
  "scope_path_at demo_hierarchy None = Some []"
  by (simp_all add: scope_path_at_def scope_components.simps Let_def)
    (simp_all add: demo_hierarchy_def demo_scope_def scope_components.simps Let_def)

lemma demo_variables:
  "length (hi_variables demo_hierarchy) = 4"
  "variable_full_path demo_hierarchy 0 = Some [''t'', ''u'', ''a'']"
  "variable_full_path demo_hierarchy 1 = Some [''t'', ''a[1:0]'']"
  "variable_full_path demo_hierarchy 2 = Some [''t'', ''u'', ''b'']"
  "variable_full_path demo_hierarchy 3 = Some [''t'', ''u'', ''b'']"
proof -
  have v: "hi_variables demo_hierarchy =
      [demo_variable ''a'' (Some 1) (Some 0), demo_variable ''a[1:0]'' (Some 0) (Some 1),
       demo_variable ''b'' (Some 1) None, demo_variable ''b'' (Some 1) (Some 1)]"
    by (simp add: demo_hierarchy_def)
  show "length (hi_variables demo_hierarchy) = 4"
    "variable_full_path demo_hierarchy 0 = Some [''t'', ''u'', ''a'']"
    "variable_full_path demo_hierarchy 1 = Some [''t'', ''a[1:0]'']"
    "variable_full_path demo_hierarchy 2 = Some [''t'', ''u'', ''b'']"
    "variable_full_path demo_hierarchy 3 = Some [''t'', ''u'', ''b'']"
    by (simp_all add: variable_full_path_def v demo_variable_def demo_paths)
qed

section \<open>Children\<close>

lemma distinct_concat_map:
  "distinct qs \<Longrightarrow> (\<And>q. q \<in> set qs \<Longrightarrow> distinct (f q)) \<Longrightarrow>
    (\<And>q r. q \<in> set qs \<Longrightarrow> r \<in> set qs \<Longrightarrow> q \<noteq> r \<Longrightarrow> set (f q) \<inter> set (f r) = {}) \<Longrightarrow>
    distinct (concat (map f qs))"
  by (induction qs) auto

text \<open>
  The children of a scope are its scopes in declaration order, then its variables in
  declaration order: following the linked lists of indices ends and loses nothing.
\<close>

theorem children_in_order:
  assumes "hierarchy_ok h" and "p < length (hi_scopes h)"
  shows "children_of h p = Some
    (filter (\<lambda>i. sd_parent (hi_scopes h ! i) = Some p) [0..<length (hi_scopes h)] @
     map ((+) (length (hi_scopes h)))
       (filter (\<lambda>v. vd_parent (hi_variables h ! v) = Some p) [0..<length (hi_variables h)]))"
  by (rule children_of_spec [OF assms])

lemma children_in_order_witness: "children_of demo_hierarchy 1 = Some [2, 4, 5]"
proof -
  have "1 < length (hi_scopes demo_hierarchy)" by (simp add: demo_hierarchy_def)
  from children_in_order [OF demo_hierarchy_ok this] show ?thesis
    by (simp add: demo_hierarchy_def demo_scope_def demo_variable_def upt_conv_Cons)
qed

text \<open>
  C19: Walking the hierarchy from its roots through the children of every scope meets every
  declaration exactly once.
\<close>

theorem tree_covers_declarations:
  assumes ok: "hierarchy_ok h"
  shows "distinct (roots h @ concat (map (\<lambda>p. the (children_of h p)) [0..<length (hi_scopes h)])) \<and>
    set (roots h @ concat (map (\<lambda>p. the (children_of h p)) [0..<length (hi_scopes h)])) =
      {0..<length (hi_scopes h) + length (hi_variables h)}"
proof -
  let ?n = "length (hi_scopes h)" and ?m = "length (hi_variables h)"
  let ?kids = "\<lambda>q. filter (\<lambda>i. sd_parent (hi_scopes h ! i) = q) [0..<?n] @
    map ((+) ?n) (filter (\<lambda>v. vd_parent (hi_variables h ! v) = q) [0..<?m])"
  let ?qs = "None # map Some [0..<?n]"
  have "roots h @ concat (map (\<lambda>p. the (children_of h p)) [0..<?n]) = concat (map ?kids ?qs)"
  proof -
    have "map (\<lambda>p. the (children_of h p)) [0..<?n] = map (\<lambda>p. ?kids (Some p)) [0..<?n]"
      by (rule map_cong) (simp_all add: children_of_spec [OF ok])
    then show ?thesis by (simp only: roots_def list.map map_map o_def concat.simps)
  qed
  moreover have "distinct (concat (map ?kids ?qs))"
    by (rule distinct_concat_map) (auto simp: distinct_map inj_on_def)
  moreover have "set (concat (map ?kids ?qs)) = {0..<?n + ?m}"
  proof (rule set_eqI)
    fix x
    have "sd_parent (hi_scopes h ! x) \<in> set ?qs" if "x < ?n"
      using ok that by (cases "sd_parent (hi_scopes h ! x)") (auto simp: hierarchy_ok_def all_set_conv_all_nth)
    moreover have "vd_parent (hi_variables h ! v) \<in> set ?qs" if "v < ?m" for v
      using ok that by (cases "vd_parent (hi_variables h ! v)") (auto simp: hierarchy_ok_def all_set_conv_all_nth)
    moreover have "x < ?n + ?m \<longleftrightarrow> x < ?n \<or> (\<exists>v < ?m. x = ?n + v)"
      by (cases "x < ?n") (auto simp: not_less le_iff_add)
    moreover have "x \<in> set (concat (map ?kids ?qs)) \<longleftrightarrow> (\<exists>q \<in> set ?qs.
        x < ?n \<and> sd_parent (hi_scopes h ! x) = q \<or>
        (\<exists>v < ?m. vd_parent (hi_variables h ! v) = q \<and> x = ?n + v))"
      by (simp only: set_concat set_map set_append set_filter set_upt atLeastLessThan_iff) auto
    ultimately show "x \<in> set (concat (map ?kids ?qs)) \<longleftrightarrow> x \<in> {0..<?n + ?m}"
      by (simp only: atLeastLessThan_iff) blast
  qed
  ultimately show ?thesis by simp
qed

lemma tree_covers_declarations_witness:
  "roots demo_hierarchy = [0] \<and>
    set (roots demo_hierarchy @ concat (map (\<lambda>p. the (children_of demo_hierarchy p)) [0..<2])) = {0..<6}"
  using tree_covers_declarations [OF demo_hierarchy_ok]
  by (simp add: roots_def demo_hierarchy_def demo_scope_def demo_variable_def numeral_eq_Suc)

section \<open>Lookup by path\<close>

text \<open>The variables a path names: those whose full path it is.\<close>

definition named_by :: "hierarchy \<Rightarrow> hierarchy_path \<Rightarrow> nat list" where
  "named_by h path =
    filter (\<lambda>v. variable_full_path h v = Some path) [0..<length (hi_variables h)]"

lemma signal_path_cases:
  assumes "unstable_sort sort_by" and "hierarchy_ok h"
  shows "signal_path sort_by h path =
    (case named_by h path of
       [] \<Rightarrow> Inl (NotFound path)
     | [v] \<Rightarrow> (case vd_signal (hi_variables h ! v) of
           Some i \<Rightarrow> Inr (signal_at h i) | None \<Rightarrow> Inl (NoSignal path))
     | _ \<Rightarrow> Inl (Ambiguous path (length (named_by h path))))"
  unfolding signal_path_def variable_path_spec [OF assms] lookup_result_def named_by_def [symmetric]
  by (cases "named_by h path") (auto split: list.splits option.splits)

text \<open>
  C14: Looking a signal up by path is exact: a path that one variable has answers that
  variable's signal (or that it has none), a path no variable has is not found, and a path
  that several variables share is reported ambiguous with their number. The counting sort
  over parents, the unstable sort by name and the binary searches never show.
\<close>

theorem lookup_is_exact:
  assumes "unstable_sort sort_by" and "hierarchy_ok h"
  shows "signal_path sort_by h path =
    (case filter (\<lambda>v. variable_full_path h v = Some path) [0..<length (hi_variables h)] of
       [] \<Rightarrow> Inl (NotFound path)
     | [v] \<Rightarrow> (case vd_signal (hi_variables h ! v) of
           Some i \<Rightarrow> Inr (signal_at h i) | None \<Rightarrow> Inl (NoSignal path))
     | vs \<Rightarrow> Inl (Ambiguous path (length vs)))"
  using signal_path_cases [OF assms, of path] unfolding named_by_def
  by (auto split: list.splits)

lemma demo_upt_4: "[0..<4] = [0, 1, 2, 3 :: nat]"
  by (simp add: upt_conv_Cons)

lemma lookup_is_exact_witness:
  "signal_path (\<lambda>key. sort_key key) demo_hierarchy [''t'', ''u'', ''b''] =
    Inl (Ambiguous [''t'', ''u'', ''b''] 2)"
  unfolding lookup_is_exact [OF stable_sort.unstable_sort_axioms demo_hierarchy_ok]
    demo_variables(1) demo_upt_4
  by (simp add: demo_variables [simplified])

section \<open>Path syntax\<close>

text \<open>
  A JSON string writer and reader without control characters: quotes and backslashes are
  escaped by a backslash.
\<close>

definition plain_json_writer :: "str \<Rightarrow> str" where
  "plain_json_writer c =
    quote # concat (map (\<lambda>x. if x = quote \<or> x = backslash then [backslash, x] else [x]) c) @ [quote]"

fun plain_json_body :: "str \<Rightarrow> (string \<times> nat) option" where
  "plain_json_body [] = None"
| "plain_json_body (x # cs) =
    (if x = quote then Some ([], 1)
     else if x = backslash then
       (case cs of
          [] \<Rightarrow> None
        | y # ds \<Rightarrow> map_option (\<lambda>(c, n). (y @ c, n + 2)) (plain_json_body ds))
     else map_option (\<lambda>(c, n). (x @ c, n + 1)) (plain_json_body cs))"

definition plain_json_reader :: json_reader where
  "plain_json_reader cs =
    (case plain_json_body (tl cs) of
       Some (c, n) \<Rightarrow> Inr (c, n + 1)
     | None \<Rightarrow> Inl \<lparr>je_eof = True, je_line = 1, je_column = length cs, je_text = ''EOF''\<rparr>)"

lemma plain_json: "json_law plain_json_writer plain_json_reader"
proof -
  have "quote \<noteq> backslash" by (simp add: quote_def backslash_def)
  then have "plain_json_body (concat (map (\<lambda>x. if x = quote \<or> x = backslash then [backslash, x] else [x]) c) @
      quote # rest) = Some (concat c, length (concat (map (\<lambda>x. if x = quote \<or> x = backslash
        then [backslash, x] else [x]) c)) + 1)" for c rest
    by (induction c) (auto split: option.splits)
  then show ?thesis by (simp add: json_law_def plain_json_writer_def plain_json_reader_def)
qed

text \<open>
  C16: The canonical text of a path is parsed back to its components, whatever characters
  they contain, for every JSON writer and reader that agree.
\<close>

theorem path_display_round_trip:
  assumes "json_law print reader" and "cs \<noteq> []"
  shows "path_parse reader (path_display print cs) = Inr (map concat cs)"
  unfolding path_parse_def by (rule parse_from_display [OF assms])

lemma path_display_round_trip_witness:
  "path_parse plain_json_reader
     (path_display plain_json_writer [[''a'', ''.'', [CHR 0x22]], [], [''b'']]) =
   Inr [[CHR ''a'', CHR ''.'', CHR 0x22], [], ''b'']"
  using path_display_round_trip [OF plain_json, of "[[''a'', ''.'', [CHR 0x22]], [], [''b'']]"] by simp

text \<open>
  C17: The SystemVerilog spelling of a path, where it exists, is parsed back to the same
  components by the same parser: no keyword or special character is lost.
\<close>

theorem verilog_round_trip:
  assumes "to_verilog cs = Inr t" and "cs \<noteq> []" and "list_all str_ok cs"
  shows "path_parse reader t = Inr (map concat cs)"
proof -
  from to_verilog_from_text [OF assms(1) [unfolded to_verilog_def]]
  have "t = verilog_text cs" "list_all printable cs" by simp_all
  with parse_from_verilog [OF assms(2) _ assms(3)] show ?thesis by (simp add: path_parse_def)
qed

lemma verilog_round_trip_witness:
  "path_parse plain_json_reader
     ([[CHR 0x5C], ''t'', '' '', ''.'', [CHR 0x5C], ''a'', ''.'', '' '']) = Inr [''t'', ''a.'']"
proof -
  have "to_verilog [[''t''], [''a'', ''.'']] =
      Inr [[CHR 0x5C], ''t'', '' '', ''.'', [CHR 0x5C], ''a'', ''.'', '' '']"
    by (simp add: to_verilog_def byte_def backslash_def dot_def)
  moreover have "list_all str_ok [[''t''], [''a'', ''.'']]"
    by (simp add: str_ok_def ascii_utf8_chars is_ascii_def byte_def)
  ultimately show ?thesis
    using verilog_round_trip [of "[[''t''], [''a'', ''.'']]"] by simp
qed

section \<open>Selectors\<close>

text \<open>
  C18: A selector with a slice suffix reads the slice of the signal its prefix names, when
  no variable has the whole text as its path; the errors of the slice are those of
  \<open>Signal::slice\<close>.
\<close>

theorem selector_reads_slice:
  assumes sort: "unstable_sort sort_by" and ok: "hierarchy_ok h"
    and path: "path_parse json cs = Inr path"
    and whole: "\<And>whole. path_parse json (cs @ slice_suffix msb lsb) = Inr whole \<Longrightarrow>
      named_by h whole = []"
    and one: "named_by h path = [v]" and sig: "vd_signal (hi_variables h ! v) = Some i"
  shows "signal_lookup sort_by json h (cs @ slice_suffix msb lsb) =
    (case signal_slice (signal_at h i) msb lsb of Inl e \<Rightarrow> Inl (InvalidSlice e) | Inr s \<Rightarrow> Inr s)"
proof -
  have inner: "signal_path sort_by h path = Inr (signal_at h i)"
    unfolding signal_path_cases [OF sort ok] by (simp add: one sig)
  show ?thesis
  proof (cases "path_parse json (cs @ slice_suffix msb lsb)")
    case (Inl e)
    with inner selector_suffix [OF path] show ?thesis by (simp add: signal_lookup_def Let_def)
  next
    case (Inr q)
    have "signal_path sort_by h q = Inl (NotFound q)" if "named_by h q = []"
      unfolding signal_path_cases [OF sort ok] by (simp add: that)
    with whole Inr inner selector_suffix [OF path] show ?thesis
      by (simp add: signal_lookup_def Let_def)
  qed
qed

lemma plain_letters:
  "plain_char ''t''" "plain_char ''u''" "plain_char ''a''" "plain_char ''[''" "plain_char '']''"
  "plain_char '':''" "plain_char ''3''" "plain_char ''2''" "plain_char ''1''" "plain_char ''0''"
  by (simp_all add: plain_char_def is_whitespace_def whitespace_chars_def char_of_bytes_def
      is_control_def byte_def quote_def backslash_def eq_char_of_iff)

lemmas plain_parse =
  path_parse_def parse_from.simps component_def plain_component_def Let_def plain_letters
  dot_def quote_def backslash_def

lemma demo_selector_parses:
  "path_parse json [''t'', ''.'', ''u'', ''.'', ''a''] = Inr [''t'', ''u'', ''a'']"
  "path_parse json [''t'', ''.'', ''u'', ''.'', ''a'', ''['', ''3'', '':'', ''2'', '']''] =
    Inr [''t'', ''u'', ''a[3:2]'']"
  "path_parse json [''t'', ''.'', ''a'', ''['', ''1'', '':'', ''0'', '']''] = Inr [''t'', ''a[1:0]'']"
  by (simp_all add: plain_parse)

lemma demo_suffix: "slice_suffix 3 2 = [''['', ''3'', '':'', ''2'', '']'']"
  by (simp add: slice_suffix_def show_nat.simps char_of_eq_iff)

lemma demo_named:
  "named_by demo_hierarchy [''t'', ''u'', ''a''] = [0]"
  "named_by demo_hierarchy [''t'', ''u'', ''a[3:2]''] = []"
  "named_by demo_hierarchy [''t'', ''a[1:0]''] = [1]"
  unfolding named_by_def demo_variables(1) demo_upt_4 by (simp_all add: demo_variables [simplified])

lemma selector_reads_slice_witness:
  "signal_lookup (\<lambda>key. sort_key key) plain_json_reader demo_hierarchy
     [''t'', ''.'', ''u'', ''.'', ''a'', ''['', ''3'', '':'', ''2'', '']''] =
   Inr \<lparr>sig_source = 1, sig_index = 0, sig_computed = False, sig_base_encoding = Bits 4,
     sig_encoding = Bits 2, sig_lsb = 2\<rparr>"
proof -
  have "named_by demo_hierarchy whole = []"
    if "path_parse plain_json_reader ([''t'', ''.'', ''u'', ''.'', ''a''] @ slice_suffix 3 2) = Inr whole"
    for whole
    using that demo_named by (auto simp: demo_suffix demo_selector_parses)
  moreover have "vd_signal (hi_variables demo_hierarchy ! 0) = Some 0"
    by (simp add: demo_hierarchy_def demo_variable_def)
  ultimately have "signal_lookup (\<lambda>key. sort_key key) plain_json_reader demo_hierarchy
      ([''t'', ''.'', ''u'', ''.'', ''a''] @ slice_suffix 3 2) =
    (case signal_slice (signal_at demo_hierarchy 0) 3 2 of
       Inl e \<Rightarrow> Inl (InvalidSlice e) | Inr s \<Rightarrow> Inr s)"
    by (rule selector_reads_slice [OF stable_sort.unstable_sort_axioms demo_hierarchy_ok
          demo_selector_parses(1) _ demo_named(1)])
  moreover have "signal_slice (signal_at demo_hierarchy 0) 3 2 =
      Inr \<lparr>sig_source = 1, sig_index = 0, sig_computed = False, sig_base_encoding = Bits 4,
        sig_encoding = Bits 2, sig_lsb = 2\<rparr>"
    by (simp add: signal_slice_def signal_width_def signal_at_def demo_hierarchy_def Let_def)
  ultimately show ?thesis by (simp add: demo_suffix)
qed

text \<open>
  A selector that is the path of one variable answers that whole signal, also when the
  text ends like a slice: brackets in names are never reinterpreted.
\<close>

theorem exact_name_wins:
  assumes "unstable_sort sort_by" and "hierarchy_ok h" and "path_parse json cs = Inr path"
    and "named_by h path = [v]" and "vd_signal (hi_variables h ! v) = Some i"
  shows "signal_lookup sort_by json h cs = Inr (signal_at h i)"
  using signal_path_cases [OF assms(1,2), of path] assms(3-5)
  by (simp add: signal_lookup_def Let_def)

lemma exact_name_wins_witness:
  "signal_lookup (\<lambda>key. sort_key key) plain_json_reader demo_hierarchy
     [''t'', ''.'', ''a'', ''['', ''1'', '':'', ''0'', '']''] = Inr (signal_at demo_hierarchy 1)"
  by (rule exact_name_wins [OF stable_sort.unstable_sort_axioms demo_hierarchy_ok
        demo_selector_parses(3) demo_named(3)])
    (simp add: demo_hierarchy_def demo_variable_def)

end
