(* ===== verification/Ondas_Typed.thy ===== *)
theory Ondas_Typed
  imports Ondas_Waveform
begin

text \<open>
  Type safety of a request: where a reader delivers, for the signals it is asked for, only
  values of their storage and fewer than \<open>2 ^ 64\<close> events, a planned selection records
  every tick. No projection fails, no record is for an unselected signal and no count
  overflows, so the panics and errors of the engine are unreachable.
\<close>

section \<open>Typed slots\<close>

definition slot_typed :: "signal \<Rightarrow> slot \<Rightarrow> bool" where
  "slot_typed s c \<longleftrightarrow>
    (\<forall>v. slot_pending c = Some v \<longrightarrow> value_has_encoding v (sig_encoding s)) \<and>
    (\<forall>st. slot_state c = Some st \<longrightarrow> value_has_encoding (st_value st) (sig_encoding s))"

definition slots_typed :: "signal list \<Rightarrow> slot list \<Rightarrow> bool" where
  "slots_typed retained slots \<longleftrightarrow>
    length slots = length retained \<and> (\<forall>i < length retained. slot_typed (retained ! i) (slots ! i))"

fun event_weight :: "wave_value \<Rightarrow> nat" where
  "event_weight (VEvent n) = unat n"
| "event_weight _ = 0"

definition records_weight :: "(nat \<times> wave_value) list \<Rightarrow> nat" where
  "records_weight rs = (\<Sum>(b, v)\<leftarrow>rs. event_weight v)"

definition events_below :: "nat \<Rightarrow> slot list \<Rightarrow> bool" where
  "events_below n slots \<longleftrightarrow> (\<forall>c \<in> set slots. unat (slot_events c) \<le> n)"

lemma events_below_nth: "events_below n slots \<Longrightarrow> i < length slots \<Longrightarrow> unat (slot_events (slots ! i)) \<le> n"
  by (simp add: events_below_def)

lemma slots_typed_update:
  "slots_typed retained slots \<Longrightarrow> slot_typed (retained ! k) c \<Longrightarrow> slots_typed retained (slots[k := c])"
  unfolding slots_typed_def by (metis length_list_update nth_list_update_eq nth_list_update_neq)

lemma record_slot_typed:
  assumes "in_base s" and "value_has_encoding v (sig_base_encoding s)" and "slot_typed s c"
    and "unat (slot_events c) + event_weight v < 2 ^ 64"
  obtains c' where "record_slot backend v s c = Inr c'" "slot_typed s c'"
    "unat (slot_events c') = unat (slot_events c) + event_weight v"
proof (cases v)
  case (VEvent n)
  with assms(4) have "checked_add (slot_events c) n = Some (slot_events c + n)"
    by (simp add: checked_add_def)
  moreover have "unat (slot_events c + n) = unat (slot_events c) + unat n"
    using assms(4) VEvent by (simp add: unat_word_ariths)
  ultimately show ?thesis using that assms(3) VEvent by (simp add: record_slot_def slot_typed_def)
next
  case (VBits b)
  obtain w where "project v s = Some w" "value_has_encoding w (sig_encoding s)"
    using assms(1,2) by (rule project_has_encoding)
  with that assms(3) VBits show ?thesis by (simp add: record_slot_def slot_typed_def)
next
  case (VReal x)
  obtain w where "project v s = Some w" "value_has_encoding w (sig_encoding s)"
    using assms(1,2) by (rule project_has_encoding)
  with that assms(3) VReal show ?thesis by (simp add: record_slot_def slot_typed_def)
next
  case (VString x)
  obtain w where "project v s = Some w" "value_has_encoding w (sig_encoding s)"
    using assms(1,2) by (rule project_has_encoding)
  with that assms(3) VString show ?thesis by (simp add: record_slot_def slot_typed_def)
qed

definition entry_accepts :: "signal list \<Rightarrow> wave_value \<Rightarrow> nat \<Rightarrow> bool" where
  "entry_accepts retained v i \<longleftrightarrow>
    i < length retained \<and> in_base (retained ! i) \<and> value_has_encoding v (sig_base_encoding (retained ! i))"

lemma store_typed:
  assumes "distinct is" and "list_all (entry_accepts retained v) is" and "slots_typed retained slots"
    and "\<forall>i \<in> set is. unat (slot_events (slots ! i)) \<le> n" and "events_below (n + event_weight v) slots"
    and "n + event_weight v < 2 ^ 64"
  obtains slots' where "store retained backend v is slots = Inr slots'" "slots_typed retained slots'"
    "events_below (n + event_weight v) slots'"
proof -
  have "\<exists>slots'. store retained backend v is slots = Inr slots' \<and> slots_typed retained slots' \<and>
      events_below (n + event_weight v) slots'"
    using assms
  proof (induction "is" arbitrary: slots)
    case Nil
    then show ?case by simp
  next
    case (Cons i "is")
    from Cons.prems(2) have i: "entry_accepts retained v i" by simp
    then have len: "i < length slots" using Cons.prems(3) by (simp add: entry_accepts_def slots_typed_def)
    have "slot_typed (retained ! i) (slots ! i)"
      using Cons.prems(3) i by (simp add: entry_accepts_def slots_typed_def)
    moreover have "unat (slot_events (slots ! i)) + event_weight v < 2 ^ 64"
      using Cons.prems(4,6) by (auto intro: le_less_trans [OF add_right_mono])
    ultimately obtain c where c: "record_slot backend v (retained ! i) (slots ! i) = Inr c"
      "slot_typed (retained ! i) c" "unat (slot_events c) = unat (slot_events (slots ! i)) + event_weight v"
      using i record_slot_typed unfolding entry_accepts_def by blast
    have "\<exists>slots'. store retained backend v is (slots[i := c]) = Inr slots' \<and> slots_typed retained slots' \<and>
        events_below (n + event_weight v) slots'"
    proof (rule Cons.IH)
      show "distinct is" "list_all (entry_accepts retained v) is" using Cons.prems(1,2) by simp_all
      show "slots_typed retained (slots[i := c])" using Cons.prems(3) c(2) by (rule slots_typed_update)
      show "\<forall>j \<in> set is. unat (slot_events (slots[i := c] ! j)) \<le> n"
        using Cons.prems(1,4) by (metis distinct.simps(2) list.set_intros(2) nth_list_update_neq)
      show "events_below (n + event_weight v) (slots[i := c])"
        using Cons.prems(4,5) c(3) set_update_subset_insert [of slots i c]
        by (auto simp: events_below_def)
      show "n + event_weight v < 2 ^ 64" by (rule Cons.prems(6))
    qed
    with c(1) show ?case by simp
  qed
  then show ?thesis using that by blast
qed

text \<open>A record of a tick finds its entries, and each can store its value.\<close>

definition record_ok :: "selection \<Rightarrow> nat \<times> wave_value \<Rightarrow> bool" where
  "record_ok sel r \<longleftrightarrow>
    (\<exists>is. sel_groups sel (fst r) = Some is \<and> distinct is \<and>
      list_all (entry_accepts (sel_retained sel) (snd r)) is)"

lemma records_weight_simps [simp]:
  "records_weight [] = 0" "records_weight ((b, v) # rs) = event_weight v + records_weight rs"
  by (simp_all add: records_weight_def)

lemma events_below_mono: "events_below n slots \<Longrightarrow> n \<le> m \<Longrightarrow> events_below m slots"
  by (auto simp: events_below_def)

lemma store_all_typed:
  "list_all (record_ok sel) rs \<Longrightarrow> slots_typed (sel_retained sel) slots \<Longrightarrow> events_below n slots \<Longrightarrow>
    n + records_weight rs < 2 ^ 64 \<Longrightarrow>
    \<exists>slots'. store_all sel backend rs slots = Inr slots' \<and> slots_typed (sel_retained sel) slots'"
proof (induction rs arbitrary: slots n)
  case Nil
  then show ?case by simp
next
  case (Cons r rs)
  obtain b v where r: "r = (b, v)" by fastforce
  from Cons.prems(1) r obtain "is" where g: "sel_groups sel b = Some is" "distinct is"
    "list_all (entry_accepts (sel_retained sel) v) is"
    by (auto simp: record_ok_def)
  have len: "\<forall>i \<in> set is. i < length slots"
    using g(3) Cons.prems(2) by (auto simp: list_all_iff entry_accepts_def slots_typed_def)
  have "\<forall>i \<in> set is. unat (slot_events (slots ! i)) \<le> n"
    using len Cons.prems(3) by (simp add: events_below_nth)
  moreover have "events_below (n + event_weight v) slots" using Cons.prems(3) by (rule events_below_mono) simp
  moreover have "n + event_weight v < 2 ^ 64" using Cons.prems(4) r by simp
  ultimately obtain mid where mid: "store (sel_retained sel) backend v is slots = Inr mid"
    "slots_typed (sel_retained sel) mid" "events_below (n + event_weight v) mid"
    using g(2,3) Cons.prems(2) store_typed by blast
  from Cons.IH [OF _ mid(2,3)] Cons.prems r obtain slots' where
    "store_all sel backend rs mid = Inr slots'" "slots_typed (sel_retained sel) slots'"
    by (auto simp: add.assoc)
  with r g(1) mid(1) show ?case by simp
qed

section \<open>Computed slots\<close>

text \<open>The operands and the slot of a computation, as the plan places them.\<close>

fun computation_typed :: "signal list \<Rightarrow> computation \<Rightarrow> bool" where
  "computation_typed retained (Slice k i s) \<longleftrightarrow>
    k < length retained \<and> retained ! k = s \<and> in_base s \<and> i < length retained \<and>
    sig_encoding (retained ! i) = sig_base_encoding s"
| "computation_typed retained (Concat k inputs n) \<longleftrightarrow>
    k < length retained \<and> sig_encoding (retained ! k) = Bits n \<and>
    list_all (\<lambda>(i, m). i < length retained \<and> sig_encoding (retained ! i) = Bits m) inputs \<and>
    unat n = (\<Sum>(i, m)\<leftarrow>inputs. unat m)"

lemma current_typed:
  "slot_typed s c \<Longrightarrow> current c = Some v \<Longrightarrow> value_has_encoding v (sig_encoding s)"
  by (auto simp: slot_typed_def current_def split: option.splits)

lemma logic_x: "is_logic_byte CHR ''x''"
  by (simp add: is_logic_byte_def to_ascii_lowercase_def is_ascii_uppercase_def byte_def)

lemma concat_bytes_typed:
  assumes "slots_typed retained slots"
    and "list_all (\<lambda>(i, m). i < length retained \<and> sig_encoding (retained ! i) = Bits m) inputs"
  shows "length (snd (concat_bytes slots inputs)) = (\<Sum>(i, m)\<leftarrow>inputs. unat m) \<and>
    list_all is_logic_byte (snd (concat_bytes slots inputs))"
  using assms(2)
proof (induction inputs)
  case Nil
  then show ?case by simp
next
  case (Cons x inputs)
  obtain i m where x: "x = (i, m)" by fastforce
  obtain observed bytes where b: "concat_bytes slots inputs = (observed, bytes)" by fastforce
  have "slot_typed (retained ! i) (slots ! i)" "sig_encoding (retained ! i) = Bits m"
    using Cons.prems assms(1) x by (simp_all add: slots_typed_def)
  then have v: "value_has_encoding v (Bits m)" if "current (slots ! i) = Some v" for v
    using current_typed that by metis
  have "\<exists>observed' d. concat_bytes slots (x # inputs) = (observed', d @ bytes) \<and> length d = unat m \<and>
      list_all is_logic_byte d"
  proof (cases "\<exists>d. current (slots ! i) = Some (VBits d)")
    case True
    with v x b show ?thesis by (auto simp: value_has_Bits_iff bits_ok_def)
  next
    case False
    then have "concat_bytes slots (x # inputs) = (observed, replicate (unat m) CHR ''x'' @ bytes)"
      using x b by (auto split: option.split wave_value.split)
    then show ?thesis by (intro exI conjI) (auto simp: list_all_iff logic_x)
  qed
  with Cons x b show ?case by auto
qed

lemma set_computed_typed:
  assumes "slots_typed retained slots" and "k < length retained"
    and "value_has_encoding v (sig_encoding (retained ! k))"
  shows "slots_typed retained (fst (set_computed k v slots active))"
proof -
  have "slot_typed (retained ! k) (slots ! k)" using assms by (simp add: slots_typed_def)
  with assms(3) have "slot_typed (retained ! k) ((slots ! k)\<lparr>slot_pending := Some v\<rparr>)"
    by (simp add: slot_typed_def)
  with assms(1) show ?thesis by (simp add: set_computed_def slots_typed_update)
qed

lemma computation_complete_typed:
  assumes "computation_typed retained c" and "slots_typed retained slots"
  obtains slots' active' where "computation_complete c slots active = Some (slots', active')"
    "slots_typed retained slots'"
proof (cases c)
  case (Concat k inputs n)
  with assms(1) have k: "k < length retained" "sig_encoding (retained ! k) = Bits n"
    and inputs: "list_all (\<lambda>(i, m). i < length retained \<and> sig_encoding (retained ! i) = Bits m) inputs"
    and n: "unat n = (\<Sum>(i, m)\<leftarrow>inputs. unat m)"
    by simp_all
  obtain observed bytes where b: "concat_bytes slots inputs = (observed, bytes)" by fastforce
  from concat_bytes_typed [OF assms(2) inputs] b n
  have "length bytes = unat n" "list_all is_logic_byte bytes" by simp_all
  then have "value_has_encoding (VBits (bits_from_validated_ascii bytes)) (Bits n)"
    using unat_u32_less [of n]
    by (auto simp: bits_ok_def bits_from_validated_ascii_def list_all_iff)
  then have t: "slots_typed retained (fst (set_computed k (VBits (bits_from_validated_ascii bytes)) slots active))"
    using set_computed_typed [OF assms(2) k(1)] k(2) by simp
  obtain slots1 active1 where s: "set_computed k (VBits (bits_from_validated_ascii bytes)) slots active = (slots1, active1)"
    by fastforce
  show ?thesis
  proof (cases "list_ex (\<lambda>(input, _). slot_pending (slots ! input) \<noteq> None) inputs \<and> observed")
    case True
    with Concat b s t show ?thesis by (intro that [of slots1 active1]) simp_all
  next
    case False
    with Concat b assms(2) show ?thesis by (intro that [of slots active]) auto
  qed
next
  case (Slice k i s)
  with assms have k: "k < length retained" "retained ! k = s" "in_base s"
    and i: "slot_typed (retained ! i) (slots ! i)" "sig_encoding (retained ! i) = sig_base_encoding s"
    by (simp_all add: slots_typed_def)
  show ?thesis
  proof (cases "slot_pending (slots ! i)")
    case None
    with Slice assms(2) show ?thesis by (intro that [of slots active]) simp_all
  next
    case (Some v)
    then have "value_has_encoding v (sig_base_encoding s)" using i by (simp add: slot_typed_def)
    with k(3) obtain w where w: "project v s = Some w" "value_has_encoding w (sig_encoding s)"
      by (rule project_has_encoding)
    obtain slots1 active1 where s1: "set_computed k (value_to_owned w) slots active = (slots1, active1)"
      by fastforce
    have "slots_typed retained slots1"
      using set_computed_typed [OF assms(2) k(1), of "value_to_owned w" active] w k(2) s1 by simp
    with Slice Some w s1 show ?thesis by (intro that [of slots1 active1]) simp_all
  qed
qed

lemma complete_all_typed:
  "list_all (computation_typed retained) cs \<Longrightarrow> slots_typed retained slots \<Longrightarrow>
    \<exists>slots' active'. complete_all cs slots active = Some (slots', active') \<and> slots_typed retained slots'"
proof (induction cs arbitrary: slots active)
  case Nil
  then show ?case by simp
next
  case (Cons c cs)
  obtain slots1 active1 where "computation_complete c slots active = Some (slots1, active1)"
    "slots_typed retained slots1"
    using Cons.prems computation_complete_typed [of retained c slots active] by auto
  with Cons show ?case by simp
qed

section \<open>Ticks\<close>

lemma slots_typed_map:
  "slots_typed retained slots \<Longrightarrow> (\<And>s c. slot_typed s c \<Longrightarrow> slot_typed s (f c)) \<Longrightarrow>
    slots_typed retained (map f slots)"
  by (simp add: slots_typed_def)

lemma mark_typed: "slot_typed s c \<Longrightarrow> slot_typed s (mark_changed c)"
  by (simp add: slot_typed_def mark_changed_def)

lemma commit_typed: "slot_typed s c \<Longrightarrow> slot_typed s (commit_slot t c)"
  by (auto simp: slot_typed_def commit_slot_def split: option.splits)

definition tick_ok :: "selection \<Rightarrow> tick \<Rightarrow> bool" where
  "tick_ok sel tk \<longleftrightarrow> list_all (record_ok sel) (snd tk) \<and> records_weight (snd tk) < 2 ^ 64"

lemma tick_slots_typed:
  assumes "list_all (record_ok sel) rs" and "records_weight rs < 2 ^ 64"
    and "list_all (computation_typed (sel_retained sel)) (sel_computations sel)"
    and "slots_typed (sel_retained sel) slots" and "events_below 0 slots"
  obtains m where "tick_slots sel backend rs slots = Inr m" "slots_typed (sel_retained sel) m"
proof -
  from store_all_typed [OF assms(1,4,5)] assms(2) obtain stored where
    s: "store_all sel backend rs slots = Inr stored" "slots_typed (sel_retained sel) stored" by auto
  from complete_all_typed [OF assms(3) s(2), of "[]"] obtain done' active' where
    c: "complete_all (sel_computations sel) stored [] = Some (done', active')"
      "slots_typed (sel_retained sel) done'" by blast
  show ?thesis
    using that [of "map mark_changed done'"] s c slots_typed_map [OF c(2) mark_typed]
    by (simp add: tick_slots_def complete_slots_def computed_def ok_or_def)
qed

lemma snapshots_typed:
  "list_all (tick_ok sel) tks \<Longrightarrow> list_all (computation_typed (sel_retained sel)) (sel_computations sel) \<Longrightarrow>
    slots_typed (sel_retained sel) slots \<Longrightarrow> events_below 0 slots \<Longrightarrow>
    \<exists>ss out. snapshots sel backend slots tks = (ss, Inr out) \<and>
      list_all (\<lambda>(t, m). slots_typed (sel_retained sel) m) ss"
proof (induction tks arbitrary: slots)
  case Nil
  then show ?case by simp
next
  case (Cons tk tks)
  obtain t rs where tk: "tk = (t, rs)" by fastforce
  obtain m where m: "tick_slots sel backend rs slots = Inr m" "slots_typed (sel_retained sel) m"
    using Cons.prems tk tick_slots_typed [of sel rs slots backend] by (auto simp: tick_ok_def)
  have "slots_typed (sel_retained sel) (map (commit_slot t) m)"
    using m(2) commit_typed by (rule slots_typed_map)
  moreover have "events_below 0 (map (commit_slot t) m)" by (simp add: events_below_def commit_slot_def)
  ultimately obtain ss out where "snapshots sel backend (map (commit_slot t) m) tks = (ss, Inr out)"
    "list_all (\<lambda>(t, m). slots_typed (sel_retained sel) m) ss"
    using Cons.IH [of "map (commit_slot t) m"] Cons.prems by auto
  with m tk show ?case by simp
qed

fun heard :: "(nat \<times> wave_value \<Rightarrow> bool) \<Rightarrow> notification \<Rightarrow> bool" where
  "heard P (Observed b (Inr v) t p) \<longleftrightarrow> P (b, v)"
| "heard P (Observed b (Inl e) t p) \<longleftrightarrow> False"
| "heard P (TickDone t) \<longleftrightarrow> True"

fun note_weight :: "notification \<Rightarrow> nat" where
  "note_weight (Observed b (Inr v) t p) = event_weight v"
| "note_weight _ = 0"

definition ticks_weight :: "tick list \<Rightarrow> nat" where
  "ticks_weight tks = (\<Sum>tk\<leftarrow>tks. records_weight (snd tk))"

lemma ticks_weight_simps [simp]:
  "ticks_weight [] = 0" "ticks_weight (tk # tks) = records_weight (snd tk) + ticks_weight tks"
  "ticks_weight (xs @ ys) = ticks_weight xs + ticks_weight ys"
  by (simp_all add: ticks_weight_def)

lemma records_weight_append [simp]: "records_weight (rs @ rs') = records_weight rs + records_weight rs'"
  by (simp add: records_weight_def)

lemma ticks_weight_member: "tk \<in> set tks \<Longrightarrow> records_weight (snd tk) \<le> ticks_weight tks"
  by (induction tks) auto

lemma group_notes_heard:
  "group_notes cur ns = (tks, unf, err) \<Longrightarrow> list_all (heard P) ns \<Longrightarrow>
    list_all (\<lambda>tk. list_all P (snd tk)) (unfinished_ticks cur) \<Longrightarrow>
    err = None \<and> list_all (\<lambda>tk. list_all P (snd tk)) (tks @ unfinished_ticks unf) \<and>
    ticks_weight (tks @ unfinished_ticks unf) = ticks_weight (unfinished_ticks cur) + (\<Sum>n\<leftarrow>ns. note_weight n)"
proof (induction cur ns arbitrary: tks unf err rule: group_notes.induct)
  case (3 tk t ns)
  then show ?case by (cases "group_notes None ns") (auto)
next
  case (7 t' rs b v t p ns)
  show ?case
  proof (cases "t' = t")
    case True
    with 7 show ?thesis by (auto)
  next
    case False
    obtain tks1 unf1 err1 where g: "group_notes (Some (t, [(b, v)])) ns = (tks1, unf1, err1)"
      by (cases "group_notes (Some (t, [(b, v)])) ns") auto
    from 7(2) [OF False g] 7(3-) False g show ?thesis by (auto)
  qed
qed (auto)

section \<open>Typed readers\<close>

definition asked_value :: "wave \<Rightarrow> signal list \<Rightarrow> nat \<times> wave_value \<Rightarrow> bool" where
  "asked_value w bases r \<longleftrightarrow>
    fst r \<in> sig_index ` set bases \<and>
    (hi_encodings (wv_hierarchy w) ! fst r \<noteq> Unsupported \<longrightarrow>
      value_has_encoding (snd r) (hi_encodings (wv_hierarchy w) ! fst r))"

definition typed_source :: "wave \<Rightarrow> source \<Rightarrow> bool" where
  "typed_source w src \<longleftrightarrow>
    (\<forall>bases stop. case src_read src bases stop None of
       (recorded, Inr _) \<Rightarrow>
         list_all (heard (asked_value w bases)) recorded \<and> (\<Sum>n\<leftarrow>recorded. note_weight n) < 2 ^ 64
     | (_, Inl _) \<Rightarrow> False)"

lemma typed_source_read:
  assumes "typed_source w src"
  shows "\<exists>recorded q. src_read src bases stop None = (recorded, Inr q) \<and>
    list_all (heard (asked_value w bases)) recorded \<and> (\<Sum>n\<leftarrow>recorded. note_weight n) < 2 ^ 64"
proof -
  obtain recorded out where "src_read src bases stop None = (recorded, out)" by fastforce
  moreover from assms have "case src_read src bases stop None of
      (recorded, Inr _) \<Rightarrow>
        list_all (heard (asked_value w bases)) recorded \<and> (\<Sum>n\<leftarrow>recorded. note_weight n) < 2 ^ 64
    | (_, Inl _) \<Rightarrow> False"
    unfolding typed_source_def by (elim allE [of _ bases] allE [of _ stop])
  ultimately show ?thesis by (cases out) simp_all
qed

lemma good_handle:
  assumes "good w s"
  shows "in_base s" "sig_encoding s \<noteq> Unsupported"
  using assms
  by (auto simp: good_iff wave_validate_def hierarchy_validate_def split: if_splits
      dest: valid_handle_in_base)

lemma good_source_signal:
  assumes "good w s" and "\<not> sig_computed s"
  shows "sig_base_encoding s = hi_encodings (wv_hierarchy w) ! sig_index s"
    "hi_encodings (wv_hierarchy w) ! sig_index s \<noteq> Unsupported"
proof -
  have h: "valid_handle (hi_source (wv_hierarchy w)) (Some (hi_encodings (wv_hierarchy w) ! sig_index s)) s"
    using assms by (auto simp: good_iff wave_validate_source hierarchy_validate_def valid_handle_def split: if_splits)
  then show base: "sig_base_encoding s = hi_encodings (wv_hierarchy w) ! sig_index s"
    by (simp add: valid_handle_def)
  have "sig_base_encoding s = Unsupported \<Longrightarrow> sig_encoding s = Unsupported"
    using h by (auto simp: valid_handle_def split: encoding.splits)
  with good_handle(2) [OF assms(1)] show "hi_encodings (wv_hierarchy w) ! sig_index s \<noteq> Unsupported"
    by (auto simp: base)
qed

lemma plan_record_ok:
  assumes "plan_inv w p" and "asked_value w (pl_bases p) r"
  shows "record_ok (selection_of signals p) r"
proof -
  obtain b v where r: "r = (b, v)" by fastforce
  have g: "groups_ok (pl_retained p) (pl_bases p) (pl_groups p)" and all: "\<forall>s \<in> set (pl_retained p). good w s"
    using assms(1) by (simp_all add: plan_inv_def)
  have "b \<in> set (map sig_index (pl_bases p))" using assms(2) r by (simp add: asked_value_def)
  then obtain js where js: "pl_groups p b = Some js" using g by (auto simp: groups_ok_def)
  then have "distinct js" using g strict_sorted_iff by (auto simp: groups_ok_def)
  moreover have "entry_accepts (pl_retained p) v j" if "j \<in> set js" for j
  proof -
    have j: "j < length (pl_retained p)" "\<not> sig_computed (pl_retained p ! j)" "sig_index (pl_retained p ! j) = b"
      using g js that unfolding groups_ok_def by blast+
    then have s: "good w (pl_retained p ! j)" using all by simp
    from good_source_signal [OF s j(2)] assms(2) r j(3) good_handle(1) [OF s] j(1)
    show ?thesis by (simp add: entry_accepts_def asked_value_def)
  qed
  ultimately show ?thesis using js r by (simp add: record_ok_def selection_of_def list_all_iff)
qed

lemma concat_inputs:
  "list_all2 (\<lambda>q (i, m). placed retained k i q \<and> signal_width q = Some m) parts inputs \<Longrightarrow>
    list_all (\<lambda>(i, m). i < length retained \<and> sig_encoding (retained ! i) = Bits m) inputs \<and>
    (\<Sum>(i, m)\<leftarrow>inputs. unat m) = (\<Sum>q\<leftarrow>parts. case signal_width q of Some n \<Rightarrow> unat n | None \<Rightarrow> 0)"
proof (induction parts inputs rule: list_all2_induct)
  case Nil
  then show ?case by simp
next
  case (Cons q parts x inputs)
  obtain i m where x: "x = (i, m)" by fastforce
  from Cons(1) x have "placed retained k i q" "signal_width q = Some m" by simp_all
  then have "i < length retained" "retained ! i = q" "sig_encoding q = Bits m"
    by (auto simp: placed_def signal_width_def split: encoding.splits)
  with Cons.IH x \<open>signal_width q = Some m\<close> show ?case by simp
qed

lemma plan_computation_typed:
  assumes "wave_ok w" and "plan_inv w p" and "c \<in> set (pl_computations p)"
  shows "computation_typed (pl_retained p) c"
proof -
  have all: "\<And>s. s \<in> set (pl_retained p) \<Longrightarrow> good w s" and c: "computes w (pl_retained p) c"
    using assms(2,3) by (auto simp: plan_inv_def)
  show ?thesis
  proof (cases c)
    case (Slice k i s)
    with c have k: "k < length (pl_retained p)" "pl_retained p ! k = s" "i < length (pl_retained p)"
      "pl_retained p ! i = signal_base s"
      by (auto simp: placed_def)
    then have "in_base s" using all good_handle(1) nth_mem by metis
    with Slice k show ?thesis by simp
  next
    case (Concat k inputs n)
    let ?s = "pl_retained p ! k"
    from c Concat have k: "k < length (pl_retained p)" "sig_computed ?s" "\<not> is_slice ?s" "signal_width ?s = Some n"
      and parts: "list_all2 (\<lambda>q (i, m). placed (pl_retained p) k i q \<and> signal_width q = Some m)
        (composition_parts w ?s) inputs"
      by simp_all
    have "good w ?s" using all k(1) by simp
    then have d: "sig_index ?s < length (wv_definitions w)"
      "sig_base_encoding ?s = Bits (snd (wv_definitions w ! sig_index ?s))"
      using k(2) by (auto simp: good_iff wave_validate_computed valid_handle_def)
    have enc: "sig_encoding ?s = sig_base_encoding ?s" using k(3) by (simp add: is_slice_iff)
    with d k(4) have n: "n = snd (wv_definitions w ! sig_index ?s)" by (simp add: signal_width_def)
    have "definition_ok w (sig_index ?s)" using assms(1) d(1) by (simp add: wave_ok_def)
    then have "unat n = (\<Sum>q\<leftarrow>composition_parts w ?s. case signal_width q of Some n \<Rightarrow> unat n | None \<Rightarrow> 0)"
      by (simp add: definition_ok_def composition_parts_def n split: prod.splits)
    with concat_inputs [OF parts] k(1) enc d(2) n Concat show ?thesis by simp
  qed
qed

lemma select_planned:
  assumes "wave_ok w" and "select_signals w signals = Some (Inr sel)"
  obtains p where "sel = selection_of signals p" "plan_inv w p"
proof -
  from assms(2) obtain p where p: "plan_new w signals = Some (Inr p)" "sel = selection_of signals p"
    by (auto simp: select_signals_def)
  with plan_new_spec [OF assms(1), of signals] have "plan_inv w p" by (auto split: option.splits)
  with p that show ?thesis by blast
qed

lemma default_typed: "slots_typed (sel_retained sel) (default_slots sel) \<and> events_below 0 (default_slots sel)"
  by (simp add: slots_typed_def default_slots_def slot_typed_def slot_default_def events_below_def)

lemma typed_recording:
  assumes "wave_ok w" and "typed_source w src" and "select_signals w signals = Some (Inr sel)"
  obtains ss where "recording src sel t = Some ss"
    "list_all (\<lambda>(t, m). slots_typed (sel_retained sel) m) ss"
proof -
  obtain p where sel: "sel = selection_of signals p" and inv: "plan_inv w p"
    using assms(1,3) by (rule select_planned)
  have bases: "sel_bases sel = pl_bases p" by (simp add: sel selection_of_def)
  obtain recorded q where read: "src_read src (sel_bases sel) t None = (recorded, Inr q)"
    and heard: "list_all (heard (asked_value w (sel_bases sel))) recorded"
    and weight: "(\<Sum>n\<leftarrow>recorded. note_weight n) < 2 ^ 64"
    using typed_source_read [OF assms(2)] by blast
  obtain tks unf err where g: "group_notes None recorded = (tks, unf, err)"
    by (cases "group_notes None recorded") auto
  let ?tks = "tks @ unfinished_ticks unf"
  have G: "err = None" "list_all (\<lambda>tk. list_all (asked_value w (sel_bases sel)) (snd tk)) ?tks"
    "ticks_weight ?tks = (\<Sum>n\<leftarrow>recorded. note_weight n)"
    using group_notes_heard [OF g heard] by simp_all
  have "list_all (tick_ok sel) ?tks"
  proof (unfold list_all_iff, intro ballI)
    fix tk assume tk: "tk \<in> set ?tks"
    then have "list_all (asked_value w (sel_bases sel)) (snd tk)" using G(2) by (simp add: list_all_iff)
    then have "list_all (record_ok sel) (snd tk)"
      unfolding sel using plan_record_ok [OF inv] by (simp add: list_all_iff selection_of_def)
    moreover have "records_weight (snd tk) < 2 ^ 64"
      using ticks_weight_member [OF tk] weight unfolding G(3) by (rule le_less_trans)
    ultimately show "tick_ok sel tk" by (simp add: tick_ok_def)
  qed
  moreover have "list_all (computation_typed (sel_retained sel)) (sel_computations sel)"
    using plan_computation_typed [OF assms(1) inv] by (simp add: sel selection_of_def list_all_iff)
  ultimately obtain ss out where ss: "snapshots sel (src_backend src) (default_slots sel) ?tks = (ss, Inr out)"
    "list_all (\<lambda>(t, m). slots_typed (sel_retained sel) m) ss"
    using snapshots_typed default_typed by blast
  have "recording src sel t = Some ss"
    unfolding recording_Some_iff using read g ss(1) unfolding G(1) by blast
  then show ?thesis using ss(2) by (rule that)
qed

section \<open>Typed answers\<close>

definition sample_typed :: "signal \<Rightarrow> sample \<Rightarrow> bool" where
  "sample_typed s x \<longleftrightarrow>
    sample_signal x = s \<and>
    (case x of
       SampleValue _ v _ \<Rightarrow> sig_encoding s \<noteq> Event \<and> value_has_encoding v (sig_encoding s)
     | SampleEvent _ _ \<Rightarrow> sig_encoding s = Event
     | Missing _ \<Rightarrow> sig_encoding s \<noteq> Event)"

lemma held_over_typed:
  "(\<And>w v. w \<in> set h \<Longrightarrow> tw_value w = Some v \<Longrightarrow> P v) \<Longrightarrow> (\<And>st. state = Some st \<Longrightarrow> P (st_value st)) \<Longrightarrow>
    held_over state h = Some st \<Longrightarrow> P (st_value st)"
proof (induction h arbitrary: state)
  case Nil
  then show ?case by simp
next
  case (Cons w h)
  have "P (st_value st')" if "apply_write w state = Some st'" for st'
    using that Cons.prems(1) [of w] Cons.prems(2)
    by (auto simp: apply_write_def update_state_def split: option.splits if_splits)
  with Cons.IH [of "apply_write w state"] Cons.prems show ?case by auto
qed

lemma point_sample_typed:
  assumes "list_all (\<lambda>(t, m). slots_typed retained m) ss" and "k < length retained"
  shows "sample_typed (retained ! k) (point_sample (retained ! k) (slot_history k ss) t)"
proof -
  let ?h = "filter (\<lambda>w. tw_time w \<le> t) (slot_history k ss)"
  have "value_has_encoding v (sig_encoding (retained ! k))" if "w \<in> set ?h" "tw_value w = Some v" for w v
    using that assms by (auto simp: slot_history_def list_all_iff slots_typed_def slot_typed_def)
  then have "value_has_encoding (st_value st) (sig_encoding (retained ! k))" if "held (slot_history k ss) t = Some st" for st
    using held_over_typed [of ?h "\<lambda>v. value_has_encoding v (sig_encoding (retained ! k))" None st] that
    by (simp add: held_def)
  then show ?thesis by (auto simp: point_sample_def sample_typed_def split: option.split)
qed

lemma typed_samples:
  assumes "wave_ok w" and "tick_reader (src_read src)" and "\<forall>bases t. src_prefix src bases t = None"
    and "typed_source w src" and "first_bad w signals = None"
  shows "\<exists>answer. wave_samples w src signals t = Some (Inr answer) \<and> list_all2 sample_typed signals answer"
proof -
  from select_signals_spec [OF assms(1), of signals] assms(5) obtain sel where
    sel: "select_signals w signals = Some (Inr sel)" "sel_signals sel = signals" "slots_in_range sel"
      "sel_ok sel (length (sel_retained sel))" "sel_replay sel = None" "sel_checkpoint sel = None"
    and at: "map (\<lambda>i. sel_retained sel ! i) (sel_slot_indices sel) = signals"
    by auto
  obtain ss where ss: "recording src sel t = Some ss" "list_all (\<lambda>(t, m). slots_typed (sel_retained sel) m) ss"
    using assms(1,4) sel(1) by (rule typed_recording)
  have "session_ok src sel" using assms(2,3) sel by (simp add: session_ok_def caches_ok_def)
  from samples_spec [OF this sel(3) ss(1)] have answer: "snd (samples src sel t) = Inr
      (map (\<lambda>i. point_sample (signals ! i) (entry_history sel ss i) t) [0..<length signals])"
    using sel(2) by fastforce
  have len: "length (sel_slot_indices sel) = length signals" using at by (metis length_map)
  have "sample_typed (signals ! i) (point_sample (signals ! i) (entry_history sel ss i) t)" if "i < length signals" for i
  proof -
    have "signals ! i = sel_retained sel ! (sel_slot_indices sel ! i)" using at that len by (metis nth_map)
    moreover have "sel_slot_indices sel ! i < length (sel_retained sel)"
      using sel(3) that len by (simp add: slots_in_range_def)
    ultimately show ?thesis
      using point_sample_typed [OF ss(2)] by (simp add: entry_history_def)
  qed
  then have "list_all2 sample_typed signals
      (map (\<lambda>i. point_sample (signals ! i) (entry_history sel ss i) t) [0..<length signals])"
    by (simp add: list_all2_conv_all_nth)
  with answer sel(1) show ?thesis by (simp add: wave_samples_def with_selection_def)
qed

end
