(* ===== verification/Ondas_Vcd_Tokens.thy ===== *)
theory Ondas_Vcd_Tokens
  imports Ondas_Error Ondas_Text
begin

text \<open>
  The tokenizer of \<^verbatim>\<open>src/src/backends/vcd.rs\<close>. The input is a \<open>BufRead\<close>: the bytes still to
  come arrive in buffers whose borders are not the program's choice. The state holds the
  buffers that later \<open>fill_buf\<close> calls answer, the failure at their end, if any, and the
  offset. Every operation is proved to depend on the bytes only, never on the borders.
\<close>

section \<open>The buffered input\<close>

definition malformed :: "string \<Rightarrow> error" where
  "malformed message = Malformed Vcd ''vcd-native'' message"

text \<open>
  \<open>tk_offset\<close> is a byte offset of an existing file, so it is a number below \<open>2 ^ 64\<close> and its
  additions do not overflow.
\<close>

record tokens =
  tk_chunks :: "string list"
  tk_fail :: "error option"
  tk_offset :: nat

definition fill_buf :: "tokens \<Rightarrow> error + string" where
  "fill_buf tk =
    (case dropWhile (\<lambda>c. c = []) (tk_chunks tk) of
       c # _ \<Rightarrow> Inr c
     | [] \<Rightarrow> (case tk_fail tk of Some e \<Rightarrow> Inl e | None \<Rightarrow> Inr []))"

definition advance :: "nat \<Rightarrow> tokens \<Rightarrow> tokens" where
  "advance n tk =
    tk\<lparr>tk_chunks :=
         (case dropWhile (\<lambda>c. c = []) (tk_chunks tk) of c # cs \<Rightarrow> drop n c # cs | [] \<Rightarrow> []),
       tk_offset := tk_offset tk + n\<rparr>"

text \<open>What the input is, whatever its buffers.\<close>

definition tk_bytes :: "tokens \<Rightarrow> string" where
  "tk_bytes tk = concat (tk_chunks tk)"

definition same_input :: "tokens \<Rightarrow> tokens \<Rightarrow> bool" where
  "same_input tk tk' \<longleftrightarrow>
    tk_bytes tk = tk_bytes tk' \<and> tk_fail tk = tk_fail tk' \<and> tk_offset tk = tk_offset tk'"

lemma concat_dropWhile_Nil: "concat (dropWhile (\<lambda>c. c = []) cs) = concat cs"
  by (induction cs) simp_all

lemma fill_buf_cases:
  obtains (failed) e where "fill_buf tk = Inl e" "tk_bytes tk = []" "tk_fail tk = Some e"
  | (eof) "fill_buf tk = Inr []" "tk_bytes tk = []" "tk_fail tk = None"
      "\<And>n. tk_bytes (advance n tk) = []"
  | (some) c rest where "fill_buf tk = Inr c" "c \<noteq> []" "tk_bytes tk = c @ rest"
      "\<And>n. n \<le> length c \<Longrightarrow> tk_bytes (advance n tk) = drop n c @ rest"
proof (cases "dropWhile (\<lambda>c. c = []) (tk_chunks tk)")
  case Nil
  then have b: "tk_bytes tk = []"
    using concat_dropWhile_Nil [of "tk_chunks tk"] by (simp add: tk_bytes_def)
  show ?thesis
  proof (cases "tk_fail tk")
    case None
    with b show ?thesis
      by (intro eof) (simp_all add: fill_buf_def Nil tk_bytes_def advance_def del: dropWhile_eq_Nil_conv)
  next
    case (Some e)
    with b show ?thesis by (intro failed) (simp_all only: fill_buf_def Nil list.case option.case)
  qed
next
  case (Cons c cs)
  then have ne: "c \<noteq> []" using hd_dropWhile [of "\<lambda>c. c = []" "tk_chunks tk"] by auto
  have "tk_bytes tk = c @ concat cs"
    using concat_dropWhile_Nil [of "tk_chunks tk"] Cons by (simp add: tk_bytes_def)
  with Cons ne show ?thesis by (intro some) (simp_all add: fill_buf_def advance_def tk_bytes_def)
qed

lemma advance_simps [simp]:
  "tk_fail (advance n tk) = tk_fail tk" "tk_offset (advance n tk) = tk_offset tk + n"
  by (simp_all add: advance_def)

lemma fill_buf_all:
  assumes "fill_buf tk = Inr c" and "c \<noteq> []"
  shows "length (tk_bytes (advance (length c) tk)) < length (tk_bytes tk)"
  using assms by (cases tk rule: fill_buf_cases) auto

section \<open>Runs and words\<close>

text \<open>\<open>Tokens::take\<close>: the run of (non-)whitespace at the head, over any number of buffers.\<close>

function take_run :: "bool \<Rightarrow> string \<Rightarrow> tokens \<Rightarrow> error + string \<times> tokens" where
  "take_run whitespace acc tk =
    (case fill_buf tk of
       Inl e \<Rightarrow> Inl e
     | Inr bytes \<Rightarrow>
         (let n = length (takeWhile (\<lambda>b. is_ascii_whitespace b = whitespace) bytes)
          in if n < length bytes \<or> bytes = [] then Inr (acc @ take n bytes, advance n tk)
             else take_run whitespace (acc @ take n bytes) (advance n tk)))"
  by pat_completeness auto
termination
proof (relation "measure (\<lambda>(_, _, tk). length (tk_bytes tk))", goal_cases)
  case 1
  show ?case by simp
next
  case (2 ws out tk bytes n)
  have "n \<le> length bytes" unfolding 2(2) by (rule length_takeWhile_le)
  then have "n = length bytes" "bytes \<noteq> []" using 2(3) by auto
  with fill_buf_all [OF 2(1)] show ?case by simp
qed

declare take_run.simps [simp del]

text \<open>\<open>next_into\<close>: the next word, and whether there is one.\<close>

function next_into :: "string \<Rightarrow> tokens \<Rightarrow> error + bool \<times> string \<times> tokens" where
  "next_into word tk =
    (case fill_buf tk of
       Inl e \<Rightarrow> Inl e
     | Inr bytes \<Rightarrow>
         if bytes = [] then Inr (word \<noteq> [], word, tk)
         else
           (let skip = (if word = [] then length (takeWhile is_ascii_whitespace bytes) else 0);
                len = length (takeWhile (\<lambda>b. \<not> is_ascii_whitespace b) (drop skip bytes));
                word' = word @ take len (drop skip bytes);
                consumed = skip + len
            in if consumed < length bytes then Inr (True, word', advance consumed tk)
               else next_into word' (advance consumed tk)))"
  by pat_completeness auto
termination
proof (relation "measure (\<lambda>(_, tk). length (tk_bytes tk))", goal_cases)
  case 1
  show ?case by simp
next
  case (2 word tk bytes skip len word' consumed)
  have "len \<le> length (drop skip bytes)" unfolding 2(4) by (rule length_takeWhile_le)
  moreover have "skip \<le> length bytes" unfolding 2(3) by (simp add: length_takeWhile_le)
  ultimately have "consumed = length bytes" using 2(6,7) by simp
  with fill_buf_all [OF 2(1,2)] show ?case by simp
qed

declare next_into.simps [simp del]

text \<open>The word at the head of the bytes, and what is left behind it.\<close>

definition first_word :: "string \<Rightarrow> string" where
  "first_word bytes = takeWhile (\<lambda>b. \<not> is_ascii_whitespace b) (dropWhile is_ascii_whitespace bytes)"

definition after_word :: "string \<Rightarrow> string" where
  "after_word bytes = dropWhile (\<lambda>b. \<not> is_ascii_whitespace b) (dropWhile is_ascii_whitespace bytes)"

lemma takeWhile_full: "\<not> length (takeWhile P c) < length c \<Longrightarrow> \<forall>x \<in> set c. P x"
  by (induction c) (auto split: if_splits)

lemma takeWhile_part: "length (takeWhile P c) < length c \<Longrightarrow> \<exists>x \<in> set c. \<not> P x"
  by (induction c) (auto split: if_splits)

lemma run_append:
  "\<not> length (takeWhile P c) < length c \<Longrightarrow>
    take (length (takeWhile P c)) c = c \<and> takeWhile P (c @ r) = c @ takeWhile P r \<and>
    dropWhile P (c @ r) = dropWhile P r"
  using takeWhile_full [of P c] by (simp add: takeWhile_append dropWhile_append)

lemma run_inside:
  "length (takeWhile P c) < length c \<Longrightarrow>
    take (length (takeWhile P c)) c = takeWhile P c \<and> takeWhile P (c @ r) = takeWhile P c \<and>
    dropWhile P (c @ r) = drop (length (takeWhile P c)) c @ r"
  using takeWhile_part [of P c]
  by (auto simp: takeWhile_append dropWhile_append takeWhile_eq_take [symmetric] dropWhile_eq_drop)

text \<open>
  The outcome of reading up to \<open>rest\<close>: the failure of the input where the reading runs
  into its end, and otherwise a value and a state that has \<open>rest\<close> still to come.
\<close>

definition reads_to :: "tokens \<Rightarrow> string \<Rightarrow> tokens \<Rightarrow> bool" where
  "reads_to tk rest tk' \<longleftrightarrow>
    tk_bytes tk' = rest \<and> tk_fail tk' = tk_fail tk \<and>
    tk_offset tk' + length rest = tk_offset tk + length (tk_bytes tk)"

definition reads :: "tokens \<Rightarrow> 'a \<Rightarrow> string \<Rightarrow> error + 'a \<times> tokens \<Rightarrow> bool" where
  "reads tk x rest r \<longleftrightarrow>
    (if rest = [] \<and> tk_fail tk \<noteq> None then r = Inl (the (tk_fail tk))
     else \<exists>tk'. r = Inr (x, tk') \<and> reads_to tk rest tk')"

lemma reads_advance:
  assumes "tk_bytes tk = c @ r" and "n \<le> length c" and "tk_bytes (advance n tk) = drop n c @ r"
    and "reads (advance n tk) x rest out"
  shows "reads tk x rest out"
  using assms by (auto simp: reads_def reads_to_def split: if_splits)

lemma take_run_spec:
  "reads tk (acc @ takeWhile (\<lambda>b. is_ascii_whitespace b = ws) (tk_bytes tk))
     (dropWhile (\<lambda>b. is_ascii_whitespace b = ws) (tk_bytes tk)) (take_run ws acc tk)"
proof (induction ws acc tk rule: take_run.induct)
  case (1 ws acc tk)
  let ?P = "\<lambda>b. is_ascii_whitespace b = ws"
  show ?case
  proof (cases tk rule: fill_buf_cases)
    case (failed e)
    then show ?thesis by (simp add: take_run.simps [of ws] reads_def)
  next
    case eof
    then show ?thesis by (simp add: take_run.simps [of ws] reads_def reads_to_def)
  next
    case (some c rest)
    let ?n = "length (takeWhile ?P c)"
    have n: "?n \<le> length c" by (rule length_takeWhile_le)
    show ?thesis
    proof (cases "?n < length c")
      case True
      with some n run_inside [OF True, of rest] show ?thesis
        by (auto simp: take_run.simps [of ws acc tk] reads_def reads_to_def)
    next
      case False
      have "reads (advance ?n tk) ((acc @ c) @ takeWhile ?P (tk_bytes (advance ?n tk)))
          (dropWhile ?P (tk_bytes (advance ?n tk))) (take_run ws (acc @ c) (advance ?n tk))"
        using 1 [OF some(1) refl] False some(2) run_append [OF False, of rest] by simp
      then have "reads (advance ?n tk) (acc @ takeWhile ?P (tk_bytes tk)) (dropWhile ?P (tk_bytes tk))
          (take_run ws acc tk)"
        using False some n run_append [OF False, of rest]
        by (simp add: take_run.simps [of ws acc tk] Let_def)
      with reads_advance [OF some(3) n some(4) [OF n]] show ?thesis .
    qed
  qed
qed

text \<open>A word continues the bytes already collected; white space is skipped only before it.\<close>

definition word_start :: "string \<Rightarrow> string \<Rightarrow> string" where
  "word_start word bytes = (if word = [] then dropWhile is_ascii_whitespace bytes else bytes)"

definition word_end :: "string \<Rightarrow> string" where
  "word_end bytes = dropWhile (\<lambda>b. \<not> is_ascii_whitespace b) bytes"

definition word_run :: "string \<Rightarrow> string" where
  "word_run bytes = takeWhile (\<lambda>b. \<not> is_ascii_whitespace b) bytes"

lemma next_into_spec:
  "reads tk (word @ word_run (word_start word (tk_bytes tk)) \<noteq> [],
      word @ word_run (word_start word (tk_bytes tk)))
     (word_end (word_start word (tk_bytes tk)))
     (map_sum id (\<lambda>(b, w, tk'). ((b, w), tk')) (next_into word tk))"
proof (induction word tk rule: next_into.induct)
  case (1 word tk)
  show ?case
  proof (cases tk rule: fill_buf_cases)
    case (failed e)
    then show ?thesis
      by (simp add: next_into.simps [of word] reads_def word_start_def word_end_def)
  next
    case eof
    then show ?thesis
      by (simp add: next_into.simps [of word] reads_def reads_to_def word_start_def word_end_def word_run_def)
  next
    case (some c rest)
    let ?P = "\<lambda>b. \<not> is_ascii_whitespace b"
    let ?skip = "if word = [] then length (takeWhile is_ascii_whitespace c) else 0"
    let ?n = "length (takeWhile ?P (drop ?skip c))"
    have skip: "?skip \<le> length c" by (simp add: length_takeWhile_le)
    have n: "?n \<le> length (drop ?skip c)" by (rule length_takeWhile_le)
    then have bound: "?skip + ?n \<le> length c" using skip by simp
    have start: "word_start word (c @ rest) = drop ?skip c @ rest" if "?skip < length c"
      using that run_inside [of is_ascii_whitespace c rest] by (auto simp: word_start_def)
    have first: "word @ take ?n (drop ?skip c) \<noteq> []" if "?skip < length c"
    proof (cases "word = []")
      case True
      then have "drop ?skip c = dropWhile is_ascii_whitespace c" by (simp add: dropWhile_eq_drop)
      moreover have "drop ?skip c \<noteq> []" using that by simp
      ultimately have "?P (hd (drop ?skip c))" using hd_dropWhile [of is_ascii_whitespace c] by simp
      with \<open>drop ?skip c \<noteq> []\<close> show ?thesis by (cases "drop ?skip c") simp_all
    qed simp
    show ?thesis
    proof (cases "?skip + ?n < length c")
      case True
      then have "?n < length (drop ?skip c)" and s: "?skip < length c" by auto
      note R = run_inside [OF this(1), of rest]
      have "next_into word tk = Inr (True, word @ take ?n (drop ?skip c), advance (?skip + ?n) tk)"
        using some(1,2) True by (simp add: next_into.simps [of word tk] Let_def)
      moreover have "reads_to tk (drop ?n (drop ?skip c) @ rest) (advance (?skip + ?n) tk)"
        using some(3) some(4) [OF bound] bound by (simp add: reads_to_def add.commute)
      moreover have "drop ?n (drop ?skip c) \<noteq> []" using True by simp
      ultimately show ?thesis
        using first [OF s] R unfolding some(3) start [OF s] word_run_def word_end_def
        by (simp add: reads_def)
    next
      case False
      with bound have all: "?skip + ?n = length c" by simp
      let ?word = "word @ take ?n (drop ?skip c)"
      have step: "next_into word tk = next_into ?word (advance (?skip + ?n) tk)"
        using some(1,2) False by (simp add: next_into.simps [of word tk] Let_def)
      have same: "?word @ word_run (word_start ?word rest) = word @ word_run (word_start word (c @ rest)) \<and>
          word_end (word_start ?word rest) = word_end (word_start word (c @ rest))"
      proof (cases "?skip < length c")
        case True
        have full: "\<not> ?n < length (drop ?skip c)" using all by simp
        have "word_start ?word rest = rest" using first [OF True] by (simp only: word_start_def if_False)
        moreover have "take ?n (drop ?skip c) @ word_run rest = word_run (drop ?skip c @ rest)"
          "word_end rest = word_end (drop ?skip c @ rest)"
          using run_append [OF full, of rest] by (simp_all only: word_run_def word_end_def)
        ultimately show ?thesis unfolding start [OF True] by (simp only: append_assoc)
      next
        case 2: False
        with some(2) have "word = []" "\<not> length (takeWhile is_ascii_whitespace c) < length c"
          by (auto split: if_splits)
        with run_append [OF this(2), of rest] 2 show ?thesis by (simp add: word_start_def)
      qed
      have "drop (?skip + ?n) c = []" using all by simp
      with some(4) [OF bound] have left: "tk_bytes (advance (?skip + ?n) tk) = rest" by simp
      have "reads (advance (?skip + ?n) tk)
          (?word @ word_run (word_start ?word (tk_bytes (advance (?skip + ?n) tk))) \<noteq> [],
            ?word @ word_run (word_start ?word (tk_bytes (advance (?skip + ?n) tk))))
          (word_end (word_start ?word (tk_bytes (advance (?skip + ?n) tk))))
          (map_sum id (\<lambda>(b, w, tk'). ((b, w), tk')) (next_into ?word (advance (?skip + ?n) tk)))"
        by (rule 1 [OF some(1,2) refl refl refl refl False])
      then have "reads (advance (?skip + ?n) tk)
          (word @ word_run (word_start word (tk_bytes tk)) \<noteq> [], word @ word_run (word_start word (tk_bytes tk)))
          (word_end (word_start word (tk_bytes tk)))
          (map_sum id (\<lambda>(b, w, tk'). ((b, w), tk')) (next_into word tk))"
        unfolding left step some(3) conjunct1 [OF same] conjunct2 [OF same] .
      with reads_advance [OF some(3) bound some(4) [OF bound]] show ?thesis .
    qed
  qed
qed

text \<open>The step of a fresh word.\<close>

lemma next_into_result:
  "next_into [] tk = Inr (found, w, tk') \<Longrightarrow>
    w = first_word (tk_bytes tk) \<and> (found \<longleftrightarrow> w \<noteq> []) \<and> reads_to tk (after_word (tk_bytes tk)) tk'"
  using next_into_spec [of tk "[]"]
  by (simp add: reads_def word_start_def word_end_def word_run_def first_word_def after_word_def
      split: if_splits)

lemma next_into_error:
  "next_into [] tk = Inl e \<Longrightarrow> tk_fail tk = Some e"
  using next_into_spec [of tk "[]"] by (auto simp: reads_def split: if_splits)

lemma next_into_ok:
  "after_word (tk_bytes tk) \<noteq> [] \<or> tk_fail tk = None \<Longrightarrow>
    \<exists>tk'. next_into [] tk = Inr (first_word (tk_bytes tk) \<noteq> [], first_word (tk_bytes tk), tk') \<and>
      reads_to tk (after_word (tk_bytes tk)) tk'"
  using next_into_spec [of tk "[]"]
  by (cases "next_into [] tk")
    (auto simp: reads_def word_start_def word_end_def word_run_def first_word_def after_word_def
      split: if_splits)

lemma word_length: "length (first_word b) + length (after_word b) \<le> length b"
proof -
  have "length (first_word b) + length (after_word b) = length (dropWhile is_ascii_whitespace b)"
    unfolding first_word_def after_word_def length_append [symmetric] takeWhile_dropWhile_id ..
  then show ?thesis using length_dropWhile_le [of is_ascii_whitespace b] by simp
qed

lemma next_into_shrinks:
  "next_into [] tk = Inr (found, w, tk') \<Longrightarrow>
    length (tk_bytes tk') \<le> length (tk_bytes tk) \<and> (found \<longrightarrow> length (tk_bytes tk') < length (tk_bytes tk))"
proof -
  assume "next_into [] tk = Inr (found, w, tk')"
  from next_into_result [OF this] have "found \<longleftrightarrow> 0 < length (first_word (tk_bytes tk))"
    "tk_bytes tk' = after_word (tk_bytes tk)"
    by (auto simp: reads_to_def)
  with word_length [of "tk_bytes tk"] show ?thesis by (auto simp del: length_greater_0_conv)
qed

section \<open>Tokens, metadata text and errors\<close>

definition token_error :: "tokens \<Rightarrow> string \<Rightarrow> error" where
  "token_error tk message = malformed (''byte '' @ show_nat (tk_offset tk) @ '': '' @ message)"

definition next_token :: "tokens \<Rightarrow> error + string option \<times> tokens" where
  "next_token tk =
    and_then (next_into [] tk) (\<lambda>(found, word, tk').
      Inr (if found then Some word else None, tk'))"

definition required :: "tokens \<Rightarrow> error + string \<times> tokens" where
  "required tk =
    and_then (next_token tk) (\<lambda>(word, tk').
      case word of None \<Rightarrow> Inl (token_error tk' ''unexpected EOF'') | Some w \<Rightarrow> Inr (w, tk'))"

definition expect_end :: "tokens \<Rightarrow> error + tokens" where
  "expect_end tk =
    and_then (required tk) (\<lambda>(word, tk').
      if word \<noteq> ''$end'' then Inl (token_error tk' ''expected $end'') else Inr tk')"

definition utf8 :: "string \<Rightarrow> error + string" where
  "utf8 bytes =
    (if valid_utf8 bytes then Inr bytes
     else Inl (malformed ''invalid UTF-8 declaration or metadata''))"

lemma required_shrinks:
  "required tk = Inr (w, tk') \<Longrightarrow> length (tk_bytes tk') < length (tk_bytes tk)"
  by (auto simp: required_def next_token_def dest!: next_into_shrinks split: if_splits option.splits)

lemma take_run_shrinks:
  "take_run ws acc tk = Inr (out, tk') \<Longrightarrow> length (tk_bytes tk') \<le> length (tk_bytes tk)"
  using take_run_spec [of tk acc ws] length_dropWhile_le
  by (auto simp: reads_def reads_to_def split: if_splits)

function text_from :: "string \<Rightarrow> tokens \<Rightarrow> error + string \<times> tokens" where
  "text_from acc tk =
    and_then (take_run True acc tk) (\<lambda>(acc', tk1).
      and_then (required tk1) (\<lambda>(word, tk2).
        if word = ''$end'' then Inr (acc', tk2) else text_from (acc' @ word) tk2))"
  by pat_completeness auto
termination
  by (relation "measure (\<lambda>(_, tk). length (tk_bytes tk))")
    (auto dest!: take_run_shrinks required_shrinks)

declare text_from.simps [simp del]

definition token_text :: "tokens \<Rightarrow> error + string \<times> tokens" where
  "token_text tk =
    and_then (text_from [] tk) (\<lambda>(bytes, tk').
      and_then (utf8 (trim_ascii bytes)) (\<lambda>t. Inr (t, tk')))"

section \<open>Buffers do not matter\<close>

definition same_result :: "error + 'a \<times> tokens \<Rightarrow> error + 'a \<times> tokens \<Rightarrow> bool" where
  "same_result = rel_sum (=) (rel_prod (=) same_input)"

lemma same_result_Inr [simp]:
  "same_result (Inr (x, tk)) (Inr (y, tk')) \<longleftrightarrow> x = y \<and> same_input tk tk'"
  "same_result (Inl e) (Inl e') \<longleftrightarrow> e = e'"
  "\<not> same_result (Inr z) (Inl e)" "\<not> same_result (Inl e) (Inr z)"
  by (simp_all add: same_result_def)

lemma same_input_refl [simp]: "same_input tk tk"
  by (simp add: same_input_def)

lemma same_input_sym: "same_input tk tk' \<Longrightarrow> same_input tk' tk"
  by (simp add: same_input_def)

lemma same_input_trans: "same_input a b \<Longrightarrow> same_input b c \<Longrightarrow> same_input a c"
  by (simp add: same_input_def)

lemma same_result_then:
  assumes "same_result r r'"
    and "\<And>x t t'. r = Inr (x, t) \<Longrightarrow> r' = Inr (x, t') \<Longrightarrow> same_input t t' \<Longrightarrow> same_result (f (x, t)) (f' (x, t'))"
  shows "same_result (and_then r f) (and_then r' f')"
  using assms by (cases r; cases r') (auto simp: same_result_def)

lemma reads_same:
  assumes "reads tk x rest r" and "reads tk' x rest r'" and "same_input tk tk'"
  shows "same_result r r'"
  using assms by (auto simp: reads_def reads_to_def same_input_def split: if_splits)

lemma same_error: "same_input tk tk' \<Longrightarrow> token_error tk m = token_error tk' m"
  by (simp add: token_error_def same_input_def)

lemma take_run_same:
  assumes "same_input tk tk'"
  shows "same_result (take_run ws acc tk) (take_run ws acc tk')"
  using reads_same [OF take_run_spec [of tk acc ws] _ assms] take_run_spec [of tk' acc ws] assms
  by (simp add: same_input_def)

lemma next_token_same:
  assumes "same_input tk tk'"
  shows "same_result (next_token tk) (next_token tk')"
proof -
  have "same_result (map_sum id (\<lambda>(b, w, t). ((b, w), t)) (next_into [] tk))
      (map_sum id (\<lambda>(b, w, t). ((b, w), t)) (next_into [] tk'))"
    using reads_same [OF next_into_spec [of tk "[]"] _ assms] next_into_spec [of tk' "[]"] assms
    by (simp add: same_input_def)
  then show ?thesis
    by (cases "next_into [] tk"; cases "next_into [] tk'") (auto simp: next_token_def)
qed

lemma required_same:
  assumes "same_input tk tk'"
  shows "same_result (required tk) (required tk')"
  unfolding required_def
  by (rule same_result_then [OF next_token_same [OF assms]])
    (auto simp: same_error split: option.split)

lemma text_from_same:
  "same_input tk tk' \<Longrightarrow> same_result (text_from acc tk) (text_from acc tk')"
proof (induction acc tk arbitrary: tk' rule: text_from.induct)
  case (1 acc tk)
  show ?case
    unfolding text_from.simps [of acc]
    by (rule same_result_then [OF take_run_same [OF "1.prems"]], simp only: prod.case,
        rule same_result_then [OF required_same]) (auto intro: "1.IH")
qed

lemma token_text_same:
  assumes "same_input tk tk'"
  shows "same_result (token_text tk) (token_text tk')"
  unfolding token_text_def
  by (rule same_result_then [OF text_from_same [OF assms]])
    (auto simp: utf8_def)

section \<open>The words of an input\<close>

text \<open>The words as a specification: the nonempty pieces between white space.\<close>

fun pieces :: "string \<Rightarrow> string list" where
  "pieces [] = [[]]"
| "pieces (c # s) =
    (if is_ascii_whitespace c then [] # pieces s else (c # hd (pieces s)) # tl (pieces s))"

definition split_words :: "string \<Rightarrow> string list" where
  "split_words bytes = filter (\<lambda>w. w \<noteq> []) (pieces bytes)"

text \<open>Asking for the next word until there is none.\<close>

function all_tokens :: "tokens \<Rightarrow> error + string list" where
  "all_tokens tk =
    and_then (next_token tk) (\<lambda>(word, tk').
      case word of
        None \<Rightarrow> Inr []
      | Some w \<Rightarrow> and_then (all_tokens tk') (\<lambda>ws. Inr (w # ws)))"
  by pat_completeness auto
termination
  by (relation "measure (\<lambda>tk. length (tk_bytes tk))")
    (auto simp: next_token_def dest!: next_into_shrinks split: if_splits)

declare all_tokens.simps [simp del]

lemma pieces_not_Nil [simp]: "pieces s \<noteq> []"
  by (cases s) auto

lemma pieces_word:
  "list_all (\<lambda>b. \<not> is_ascii_whitespace b) w \<Longrightarrow>
    pieces (w @ s) = (w @ hd (pieces s)) # tl (pieces s)"
  by (induction w) auto

lemma split_words_skip: "split_words (dropWhile is_ascii_whitespace b) = split_words b"
  by (induction b) (simp_all add: split_words_def)

lemma split_words_step:
  "split_words b = (if first_word b = [] then [] else first_word b # split_words (after_word b))"
proof -
  let ?b = "dropWhile is_ascii_whitespace b"
  have whole: "?b = first_word b @ after_word b"
    by (simp add: first_word_def after_word_def)
  have word: "list_all (\<lambda>b. \<not> is_ascii_whitespace b) (first_word b)"
    unfolding first_word_def list_all_iff using set_takeWhileD by fast
  have "after_word b = [] \<or> is_ascii_whitespace (hd (after_word b))"
    unfolding after_word_def by (metis hd_dropWhile)
  then have hd: "hd (pieces (after_word b)) = []"
    by (cases "after_word b") auto
  have p: "pieces ?b = first_word b # tl (pieces (after_word b))"
    unfolding whole pieces_word [OF word] hd by simp
  have "split_words (after_word b) = filter (\<lambda>w. w \<noteq> []) (tl (pieces (after_word b)))"
    using hd by (cases "pieces (after_word b)") (simp_all add: split_words_def)
  moreover have "first_word b = [] \<Longrightarrow> after_word b = []"
    unfolding first_word_def after_word_def
    by (metis dropWhile.simps(1) hd_dropWhile takeWhile_eq_Nil_iff)
  ultimately show ?thesis
    using p unfolding split_words_skip [symmetric, of b] by (auto simp: split_words_def)
qed

lemma all_tokens_spec: "tk_fail tk = None \<Longrightarrow> all_tokens tk = Inr (split_words (tk_bytes tk))"
proof (induction tk rule: all_tokens.induct)
  case (1 tk)
  from next_into_ok [of tk] 1(2) obtain tk' where
    n: "next_into [] tk = Inr (first_word (tk_bytes tk) \<noteq> [], first_word (tk_bytes tk), tk')"
    and r: "reads_to tk (after_word (tk_bytes tk)) tk'" by auto
  have t: "tk_fail tk' = None" "tk_bytes tk' = after_word (tk_bytes tk)" using r 1(2) by (simp_all add: reads_to_def)
  show ?case
  proof (cases "first_word (tk_bytes tk) = []")
    case True
    with n show ?thesis
      by (simp add: all_tokens.simps [of tk] next_token_def split_words_step [of "tk_bytes tk"])
  next
    case False
    then have nt: "next_token tk = Inr (Some (first_word (tk_bytes tk)), tk')"
      using n by (simp add: next_token_def)
    from 1(1) [OF nt refl refl] t have "all_tokens tk' = Inr (split_words (after_word (tk_bytes tk)))" by simp
    with nt False show ?thesis
      by (simp add: all_tokens.simps [of tk] split_words_step [of "tk_bytes tk"])
  qed
qed

text \<open>
  C34: However the operating system cuts a file into buffers, also inside a word, the
  tokenizer delivers the words between white space, each whole and none invented.
\<close>

theorem tokens_are_words:
  assumes "concat chunks = bytes"
  shows "all_tokens \<lparr>tk_chunks = chunks, tk_fail = None, tk_offset = start\<rparr> = Inr (split_words bytes)"
  using all_tokens_spec [of "\<lparr>tk_chunks = chunks, tk_fail = None, tk_offset = start\<rparr>"] assms
  by (simp add: tk_bytes_def)

lemma tokens_are_words_witness:
  "all_tokens \<lparr>tk_chunks = ['' #1'', [], ''2 b0 '', ''! ''], tk_fail = None, tk_offset = 0\<rparr> =
    Inr [''#12'', ''b0'', ''!'']"
  using tokens_are_words [of "['' #1'', [], ''2 b0 '', ''! '']" "'' #12 b0 ! ''" 0]
  by (simp add: split_words_def is_ascii_whitespace_def byte_def)

end
