(* ===== verification/Ondas_Vcd_Lex.thy ===== *)
theory Ondas_Vcd_Lex
  imports Ondas_Vcd_Tokens Ondas_Hierarchy Ondas_Time
begin

text \<open>
  The words of a VCD file and what they mean: the helper functions of
  \<^verbatim>\<open>src/src/backends/vcd.rs\<close>. Identifier codes are numbers in a bijective base 94; times
  are decimal integers with an optional fraction of zeros; strings carry C escapes; a
  timescale is an exact number of seconds; a reference may carry a bit range. The parser
  \<open>str::parse::<f64>\<close> is a parameter.
\<close>

section \<open>Identifier codes\<close>

text \<open>\<open>usize\<close> is 64 bits wide; \<open>None\<close> also stands for its overflow.\<close>

fun identifier_from :: "nat \<Rightarrow> string \<Rightarrow> nat option" where
  "identifier_from number [] = Some number"
| "identifier_from number (b # bytes) =
    (if \<not> (33 \<le> byte b \<and> byte b \<le> 126) then None
     else if 2 ^ 64 \<le> number * 94 then None
     else if 2 ^ 64 \<le> number * 94 + (byte b - 32) then None
     else identifier_from (number * 94 + (byte b - 32)) bytes)"

definition identifier_number :: "string \<Rightarrow> nat option" where
  "identifier_number code = identifier_from 0 (rev code)"

fun identifier_value :: "string \<Rightarrow> nat" where
  "identifier_value [] = 0"
| "identifier_value (b # bytes) = (byte b - 32) + 94 * identifier_value bytes"

lemma identifier_from_Some:
  "identifier_from number s = Some n \<Longrightarrow>
    list_all (\<lambda>b. 33 \<le> byte b \<and> byte b \<le> 126) s \<and>
    n = number * 94 ^ length s + identifier_value (rev s)"
proof (induction number s arbitrary: n rule: identifier_from.induct)
  case (1 number)
  then show ?case by simp
next
  case (2 number b bytes)
  have value_append: "identifier_value (xs @ [x]) = identifier_value xs + (byte x - 32) * 94 ^ length xs" for xs x
    by (induction xs) (simp_all add: algebra_simps)
  from 2 show ?case by (auto simp: value_append algebra_simps split: if_splits)
qed

lemma digit_94: "0 < d \<Longrightarrow> d \<le> 94 \<Longrightarrow> 0 < e \<Longrightarrow> e \<le> 94 \<Longrightarrow> d + 94 * v = e + 94 * w \<Longrightarrow> v = (w :: nat)"
  by arith

lemma identifier_value_inj:
  "list_all (\<lambda>b. 33 \<le> byte b \<and> byte b \<le> 126) s \<Longrightarrow> list_all (\<lambda>b. 33 \<le> byte b \<and> byte b \<le> 126) t \<Longrightarrow>
    identifier_value s = identifier_value t \<Longrightarrow> s = t"
proof (induction s arbitrary: t)
  case Nil
  then show ?case by (cases t) auto
next
  case (Cons b s)
  show ?case
  proof (cases t)
    case Nil
    with Cons.prems show ?thesis by auto
  next
    case (Cons c u)
    let ?v = "identifier_value s" and ?w = "identifier_value u"
    have d: "0 < byte b - 32" "byte b - 32 \<le> 94" "0 < byte c - 32" "byte c - 32 \<le> 94"
      and eq: "(byte b - 32) + 94 * ?v = (byte c - 32) + 94 * ?w"
      using Cons.prems Cons by auto
    have "?v = ?w" by (rule digit_94 [OF d eq])
    with eq have "byte b - 32 = byte c - 32" by simp
    with d have "byte b = byte c" by linarith
    with Cons.IH [of u] Cons.prems Cons \<open>?v = ?w\<close> show ?thesis by simp
  qed
qed

lemma identifier_number_Some:
  "identifier_number code = Some n \<Longrightarrow>
    list_all (\<lambda>b. 33 \<le> byte b \<and> byte b \<le> 126) code \<and> n = identifier_value code"
  unfolding identifier_number_def by (drule identifier_from_Some) (simp add: list_all_iff)

text \<open>Two codes with the same number are the same code.\<close>

lemma identifier_number_inj:
  assumes "identifier_number code = Some n" and "identifier_number code' = Some n"
  shows "code = code'"
  using identifier_number_Some [OF assms(1)] identifier_number_Some [OF assms(2)]
  by (intro identifier_value_inj) auto

section \<open>Times\<close>

definition integer :: "string \<Rightarrow> error + u64" where
  "integer bytes =
    (if \<not> valid_utf8 bytes then Inl (malformed ''invalid time'')
     else
       let (whole, fraction) = (case split_once CHR ''.'' bytes of Some p \<Rightarrow> p | None \<Rightarrow> (bytes, []))
       in if whole = [] \<or> \<not> list_all is_ascii_digit whole \<or> \<not> list_all (\<lambda>b. b = CHR ''0'') fraction \<or>
             (CHR ''.'' \<in> set bytes \<and> fraction = [])
          then Inl (malformed ''nonintegral or invalid time'')
          else ok_or (malformed ''time overflow'') (parse_u64 whole))"

text \<open>
  C37: A timestamp is read exactly: a decimal numeral, also with a fraction of zeros, means
  its value, and a value that does not fit 64 bits is an error, never a wrapped time.
\<close>

theorem timestamps_are_exact:
  "integer (show_nat n @ (if k = 0 then [] else CHR ''.'' # replicate k CHR ''0'')) =
    (if n < 2 ^ 64 then Inr (word_of_nat n) else Inl (malformed ''time overflow''))"
proof -
  let ?f = "if k = 0 then [] else CHR ''.'' # replicate k CHR ''0''"
  have d: "show_nat n \<noteq> []" "list_all is_ascii_digit (show_nat n)"
    using all_digits_show_nat [of n] by (simp_all add: all_digits_def)
  have "list_all is_ascii (show_nat n @ ?f)"
    using d(2) by (auto simp: list_all_iff is_ascii_digit_def is_ascii_def byte_def)
  then have v: "valid_utf8 (show_nat n @ ?f)" by (rule ascii_valid_utf8)
  have dot: "CHR ''.'' \<notin> set (show_nat n)"
    using d(2) by (auto simp: list_all_iff is_ascii_digit_def byte_def)
  have p: "parse_u64 (show_nat n) = (if n < 2 ^ 64 then Some (word_of_nat n) else None)"
    by (simp add: parse_u64_def parse_unsigned_digits all_digits_show_nat decimal_show_nat)
  have s: "split_once CHR ''.'' (show_nat n @ ?f) =
      (if k = 0 then None else Some (show_nat n, replicate k CHR ''0''))"
    using dot by (simp add: split_once_Some_iff split_once_None_iff)
  show ?thesis using v d dot p by (auto simp: integer_def s ok_or_def list_all_iff)
qed

section \<open>Reals\<close>

text \<open>Values of \<open>f64\<close> are their bits, as everywhere in this development.\<close>

definition f64_finite :: "u64 \<Rightarrow> bool" where
  "f64_finite bits \<longleftrightarrow> (unat bits div 2 ^ 52) mod 2 ^ 11 \<noteq> 2 ^ 11 - 1"

definition real :: "(string \<Rightarrow> u64 option) \<Rightarrow> string \<Rightarrow> error + u64" where
  "real parse_f64 bytes =
    (if \<not> valid_utf8 bytes then Inl (malformed ''invalid real value'')
     else case parse_f64 bytes of
       None \<Rightarrow> Inl (malformed ''invalid real value'')
     | Some v \<Rightarrow>
         let named = map to_ascii_lowercase (dropWhile (\<lambda>b. b = CHR ''+'' \<or> b = CHR ''-'') bytes)
         in if \<not> f64_finite v \<and> named \<notin> {''nan'', ''inf'', ''infinity''}
            then Inl (malformed ''real value overflow'') else Inr v)"

section \<open>Strings\<close>

definition is_octal :: "char \<Rightarrow> bool" where
  "is_octal b \<longleftrightarrow> 48 \<le> byte b \<and> byte b \<le> 55"

definition is_ascii_hexdigit :: "char \<Rightarrow> bool" where
  "is_ascii_hexdigit b \<longleftrightarrow>
    is_ascii_digit b \<or> 65 \<le> byte b \<and> byte b \<le> 70 \<or> 97 \<le> byte b \<and> byte b \<le> 102"

definition hex_value :: "char \<Rightarrow> nat" where
  "hex_value b =
    (if is_ascii_digit b then byte b - 48 else if byte b \<le> 70 then byte b - 55 else byte b - 87)"

text \<open>One escape behind its backslash: the byte it stands for and what follows it.\<close>

definition simple_escape :: "char \<Rightarrow> char option" where
  "simple_escape b =
    map_of
      [(CHR ''a'', char_of (7 :: nat)), (CHR ''b'', char_of (8 :: nat)), (CHR ''f'', char_of (12 :: nat)),
       (CHR ''n'', char_of (10 :: nat)), (CHR ''r'', char_of (13 :: nat)), (CHR ''t'', char_of (9 :: nat)),
       (CHR ''v'', char_of (11 :: nat)), (CHR 0x5C, CHR 0x5C), (CHR 0x22, CHR 0x22),
       (CHR 0x27, CHR 0x27), (CHR ''?'', CHR ''?'')] b"

definition octal_byte :: "char \<Rightarrow> string \<Rightarrow> error + char \<times> string" where
  "octal_byte b rest =
    (let more = takeWhile is_octal (take 2 rest);
         octet = fold (\<lambda>c n. n * 8 + (byte c - 48)) more (byte b - 48)
     in if octet < 256 then Inr (char_of octet, drop (length more) rest)
        else Inl (malformed ''string octal escape overflow''))"

definition hex_byte :: "string \<Rightarrow> error + char \<times> string" where
  "hex_byte rest =
    (case rest of
       h # l # rest' \<Rightarrow>
         if is_ascii_hexdigit h \<and> is_ascii_hexdigit l
         then Inr (char_of (16 * hex_value h + hex_value l), rest')
         else Inl (malformed ''invalid hex escape'')
     | _ \<Rightarrow> Inl (malformed ''truncated hex escape''))"

definition decode_escape :: "string \<Rightarrow> error + char \<times> string" where
  "decode_escape bytes =
    (case bytes of
       [] \<Rightarrow> Inl (malformed ''truncated string escape'')
     | b # rest \<Rightarrow>
         (case simple_escape b of
            Some c \<Rightarrow> Inr (c, rest)
          | None \<Rightarrow>
              if is_octal b then octal_byte b rest
              else if b = CHR ''x'' then hex_byte rest
              else Inl (malformed ''unknown string escape'')))"

lemma decode_escape_shrinks:
  "decode_escape bytes = Inr (b, rest) \<Longrightarrow> length rest < length bytes"
  by (auto simp: decode_escape_def octal_byte_def hex_byte_def Let_def split: list.splits option.splits if_splits)

function decode_string :: "string \<Rightarrow> string \<Rightarrow> bool \<Rightarrow> time \<Rightarrow> error + string" where
  "decode_string [] acc materialize time = Inr acc"
| "decode_string (b # bytes) acc materialize time =
    and_then (if b = CHR 0x5C then decode_escape bytes else Inr (b, bytes)) (\<lambda>(c, rest).
      if \<not> is_ascii c then Inl (NonAsciiString Vcd ''vcd-native'' time)
      else decode_string rest (if materialize then acc @ [c] else acc) materialize time)"
  by pat_completeness auto
termination
  by (relation "measure (\<lambda>(bytes, _). length bytes)")
    (auto dest!: decode_escape_shrinks split: if_splits)

text \<open>
  The value does not depend on whether it is kept, and a writer that escapes every byte in
  octal loses nothing: \<open>write_octal\<close> is how simulators write strings with any bytes.
\<close>

definition octal_escape :: "char \<Rightarrow> string" where
  "octal_escape c =
    [CHR 0x5C, char_of (48 + byte c div 64), char_of (48 + byte c div 8 mod 8),
     char_of (48 + byte c mod 8)]"

definition write_octal :: "(char \<Rightarrow> bool) \<Rightarrow> string \<Rightarrow> string" where
  "write_octal plain s = concat (map (\<lambda>c. if plain c then [c] else octal_escape c) s)"

lemma octal_digits: "n < 8 \<Longrightarrow> is_octal (char_of (48 + n))" "n < (8 :: nat) \<Longrightarrow> byte (char_of (48 + n)) = 48 + n"
  by (simp_all add: is_octal_def)

lemma decode_octal: "decode_escape (tl (octal_escape c) @ rest) = Inr (c, rest)"
proof -
  let ?a = "char_of (48 + byte c div 64)" and ?b = "char_of (48 + byte c div 8 mod 8)"
    and ?d = "char_of (48 + byte c mod 8)"
  have small: "byte c div 64 < 8" 
    by (intro less_mult_imp_div_less less_trans [OF byte_less_256]) simp
  have a: "is_octal ?a" "byte ?a = 48 + byte c div 64" using octal_digits [OF small] by simp_all
  have bd: "is_octal ?b" "is_octal ?d" "byte ?b = 48 + byte c div 8 mod 8" "byte ?d = 48 + byte c mod 8"
    using octal_digits by simp_all
  have "?a \<noteq> x" if "55 < byte x \<or> byte x < 48" for x
    using a(1) that by (auto simp: is_octal_def)
  then have simple: "simple_escape ?a = None" by (simp add: simple_escape_def byte_def)
  have "byte c div 64 = byte c div 8 div 8" by (simp add: div_mult2_eq [symmetric])
  then have sum: "(byte c div 64 * 8 + byte c div 8 mod 8) * 8 + byte c mod 8 = byte c"
    by (simp only: div_mult_mod_eq)
  have T: "takeWhile is_octal (take 2 (?b # ?d # rest)) = [?b, ?d]"
    using bd by (simp add: numeral_2_eq_2)
  have F: "fold (\<lambda>c n. n * 8 + (byte c - 48)) [?b, ?d] (byte ?a - 48) = byte c"
    using a bd sum by simp
  have "octal_byte ?a (?b # ?d # rest) = Inr (c, rest)"
    unfolding octal_byte_def T F Let_def by simp
  then show ?thesis using a(1) simple by (simp add: octal_escape_def decode_escape_def)
qed

text \<open>
  C38: A string written with octal escapes for any of its bytes is decoded to exactly that
  string, when it is ASCII; otherwise the first other byte is the documented error.
\<close>

theorem escaped_strings_round_trip:
  assumes "\<not> plain (CHR 0x5C)"
  shows "decode_string (write_octal plain s) acc True time =
    (if list_all is_ascii s then Inr (acc @ s) else Inl (NonAsciiString Vcd ''vcd-native'' time))"
proof (induction s arbitrary: acc)
  case Nil
  then show ?case by (simp add: write_octal_def)
next
  case (Cons c s)
  have cons: "write_octal plain (c # s) = (if plain c then [c] else octal_escape c) @ write_octal plain s"
    by (simp add: write_octal_def)
  show ?case
  proof (cases "plain c")
    case True
    with assms have "c \<noteq> CHR 0x5C" by auto
    with True Cons [of "acc @ [c]"] show ?thesis by (simp add: cons)
  next
    case False
    have "octal_escape c @ write_octal plain s = CHR 0x5C # tl (octal_escape c) @ write_octal plain s"
      by (simp add: octal_escape_def)
    then have "decode_string (octal_escape c @ write_octal plain s) acc True time =
        decode_string (CHR 0x5C # tl (octal_escape c) @ write_octal plain s) acc True time" by (rule arg_cong)
    with False Cons [of "acc @ [c]"] decode_octal [of c "write_octal plain s"] show ?thesis
      by (simp add: cons)
  qed
qed

lemma escaped_strings_round_trip_witness:
  "decode_string (write_octal (\<lambda>c. c = CHR ''a'') ''a b'') [] True (Time 0) = Inr ''a b'' \<and>
    write_octal (\<lambda>c. c = CHR ''a'') ''a b'' =
      [CHR ''a'', CHR 0x5C, CHR ''0'', CHR ''4'', CHR ''0'', CHR 0x5C, CHR ''1'', CHR ''4'', CHR ''2'']"
  using escaped_strings_round_trip [of "\<lambda>c. c = CHR ''a''" "''a b''" "[]" "Time 0"]
  by (simp add: is_ascii_def byte_def write_octal_def octal_escape_def char_of_eq_iff)

section \<open>Timescales\<close>

definition time_units :: "time_unit list" where
  "time_units =
    [Second, Millisecond, Microsecond, Nanosecond, Picosecond, Femtosecond, Attosecond, Zeptosecond]"

definition unit_index :: "string \<Rightarrow> nat option" where
  "unit_index t =
    map_of
      [(''s'', 0), (''sec'', 0), (''ms'', 1), (''us'', 2), (''ns'', 3), (''ps'', 4), (''fs'', 5),
       (''as'', 6), (''zs'', 7)] t"

text \<open>The loop to smaller units; \<open>None\<close> is the overflow of \<open>u128\<close>.\<close>

function refine_unit :: "nat \<Rightarrow> nat \<Rightarrow> nat \<Rightarrow> (nat \<times> nat) option" where
  "refine_unit denominator numerator unit =
    (if numerator mod denominator \<noteq> 0 \<and> unit < 7 then
       (if 2 ^ 128 \<le> numerator * 1000 then None
        else refine_unit denominator (numerator * 1000) (unit + 1))
     else Some (numerator, unit))"
  by pat_completeness auto
termination
  by (relation "measure (\<lambda>(_, _, unit). 7 - unit)") auto

declare refine_unit.simps [simp del]

definition timescale_text :: "string \<Rightarrow> error + timescale" where
  "timescale_text source =
    (let text = filter (\<lambda>c. \<not> is_ascii_whitespace c) source;
         number = takeWhile (\<lambda>c. \<not> is_ascii_alphabetic c) text;
         unit_name = dropWhile (\<lambda>c. \<not> is_ascii_alphabetic c) text
     in if unit_name = [] then Inl (malformed ''missing timescale unit'')
        else case unit_index unit_name of
          None \<Rightarrow> Inl (malformed ''unknown timescale unit'')
        | Some unit \<Rightarrow>
            (let (whole, fraction0) =
                   (case split_once CHR ''.'' number of Some p \<Rightarrow> p | None \<Rightarrow> (number, []))
             in if whole = [] \<or> \<not> list_all is_ascii_digit (whole @ fraction0)
                then Inl (malformed ''invalid timescale number'')
                else
                  (let fraction = trim_end_matches CHR ''0'' fraction0
                   in and_then (ok_or (malformed ''timescale overflow'') (parse_u128 (whole @ fraction)))
                        (\<lambda>numerator.
                      if 2 ^ 32 \<le> length fraction \<or> 2 ^ 128 \<le> (10 :: nat) ^ length fraction
                      then Inl (malformed ''timescale precision overflow'')
                      else
                        (let denominator = 10 ^ length fraction
                         in case refine_unit denominator numerator unit of
                              None \<Rightarrow> Inl (malformed ''timescale overflow'')
                            | Some (n, u) \<Rightarrow>
                                if n = 0 \<or> n mod denominator \<noteq> 0 then
                                  Inl (malformed ''timescale is zero or not exactly representable'')
                                else if 2 ^ 32 \<le> n div denominator then
                                  Inl (malformed ''timescale factor overflow'')
                                else Inr (timescale_new (word_of_nat (n div denominator))
                                       (time_units ! u)))))))"

lemma refine_unit_Some:
  "refine_unit d n u = Some (n', u') \<Longrightarrow> u \<le> u' \<and> n' = n * 1000 ^ (u' - u) \<and> (u \<le> 7 \<longrightarrow> u' \<le> 7)"
proof (induction d n u rule: refine_unit.induct)
  case (1 d n u)
  show ?case
  proof (cases "n mod d \<noteq> 0 \<and> u < 7")
    case True
    with 1(2) have go: "\<not> 2 ^ 128 \<le> n * 1000" and r: "refine_unit d (n * 1000) (u + 1) = Some (n', u')"
      by (auto simp: refine_unit.simps [of d n] split: if_splits)
    from 1(1) [OF True go r] have "Suc u \<le> u'" "n' = n * 1000 * 1000 ^ (u' - Suc u)" "u < 7 \<longrightarrow> u' \<le> 7"
      by auto
    moreover from this have "u' - u = Suc (u' - Suc u)" by simp
    ultimately show ?thesis using True by simp
  next
    case False
    with 1(2) show ?thesis by (auto simp: refine_unit.simps [of d n])
  qed
qed

text \<open>The tick duration in units of \<open>10 ^ -21\<close> seconds, the smallest unit.\<close>

definition zeptoseconds :: "timescale \<Rightarrow> nat" where
  "zeptoseconds ts =
    unat (ts_factor ts) * 1000 ^ (7 - (LEAST i. i < 8 \<and> time_units ! i = ts_unit ts))"

lemma unit_position: "u \<le> 7 \<Longrightarrow> (LEAST i. i < 8 \<and> time_units ! i = time_units ! u) = u"
proof (rule Least_equality)
  show "u \<le> 7 \<Longrightarrow> u < 8 \<and> time_units ! u = time_units ! u" by simp
  fix y
  assume u: "u \<le> 7" and y: "y < 8 \<and> time_units ! y = time_units ! u"
  have "distinct time_units" "length time_units = 8" by (simp_all add: time_units_def)
  with u y nth_eq_iff_index_eq [of time_units y u] have "y = u" by simp
  then show "u \<le> y" by simp
qed

lemma decimal_zeros: "decimal n (s @ replicate k CHR ''0'') = decimal n s * 10 ^ k"
proof -
  have "decimal n (replicate k CHR ''0'') = n * 10 ^ k" for n
    by (induction k arbitrary: n) (simp_all add: digit_value_def byte_def)
  then show ?thesis by (simp add: decimal_append)
qed

lemma trim_end_zeros: "\<exists>k. s = trim_end_matches c s @ replicate k c"
proof -
  have "rev s = takeWhile (\<lambda>d. d = c) (rev s) @ dropWhile (\<lambda>d. d = c) (rev s)" by simp
  moreover have "takeWhile (\<lambda>d. d = c) t = replicate (length (takeWhile (\<lambda>d. d = c) t)) c" for t
    by (induction t) auto
  ultimately have "s = rev (dropWhile (\<lambda>d. d = c) (rev s)) @ rev (replicate (length (takeWhile (\<lambda>d. d = c) (rev s))) c)"
    by (metis rev_append rev_rev_ident)
  then show ?thesis by (auto simp: trim_end_matches_def)
qed

text \<open>The number and the unit of a timescale, white space removed.\<close>

definition written_number :: "string \<Rightarrow> string" where
  "written_number source =
    takeWhile (\<lambda>c. \<not> is_ascii_alphabetic c) (filter (\<lambda>c. \<not> is_ascii_whitespace c) source)"

definition written_unit :: "string \<Rightarrow> string" where
  "written_unit source =
    dropWhile (\<lambda>c. \<not> is_ascii_alphabetic c) (filter (\<lambda>c. \<not> is_ascii_whitespace c) source)"

text \<open>A decimal number: its digits as one number, and how many of them are decimals.\<close>

definition scaled :: "string \<Rightarrow> nat \<times> nat" where
  "scaled number =
    (case split_once CHR ''.'' number of
       Some (whole, fraction) \<Rightarrow> (decimal 0 (whole @ fraction), length fraction)
     | None \<Rightarrow> (decimal 0 number, 0))"

lemma unit_index_le: "unit_index t = Some u \<Longrightarrow> u \<le> 7"
  by (auto simp: unit_index_def split: if_splits)

lemma exact_scaling:
  fixes q :: nat
  assumes "n = q * 10 ^ len" and "n = numerator * 1000 ^ (u' - u)" and "u \<le> u'" "u' \<le> 7"
  shows "q * 1000 ^ (7 - u') * 10 ^ (len + z) = numerator * 10 ^ z * 1000 ^ (7 - u)"
proof -
  have "(1000 :: nat) ^ (7 - u) = 1000 ^ (u' - u) * 1000 ^ (7 - u')"
    using assms(3,4) by (simp add: power_add [symmetric])
  then have "numerator * 10 ^ z * 1000 ^ (7 - u) = n * 10 ^ z * 1000 ^ (7 - u')"
    using assms(2) by simp
  then show ?thesis using assms(1) by (simp add: power_add)
qed

text \<open>
  C35: A timescale is read exactly: whatever unit the reader settles on, the tick duration
  is the written number of the written unit, with no rounding, and it is never zero.
\<close>

theorem timescales_are_exact:
  assumes "timescale_text source = Inr ts"
  shows "\<exists>u. unit_index (written_unit source) = Some u \<and> ts_factor ts \<noteq> 0 \<and>
    zeptoseconds ts * 10 ^ snd (scaled (written_number source)) =
      fst (scaled (written_number source)) * 1000 ^ (7 - u)"
proof -
  let ?text = "filter (\<lambda>c. \<not> is_ascii_whitespace c) source"
  let ?number = "takeWhile (\<lambda>c. \<not> is_ascii_alphabetic c) ?text"
  let ?name = "dropWhile (\<lambda>c. \<not> is_ascii_alphabetic c) ?text"
  obtain whole fraction where p: "(case split_once CHR ''.'' ?number of Some p \<Rightarrow> p | None \<Rightarrow> (?number, [])) =
      (whole, fraction)"
    by fastforce
  let ?f = "trim_end_matches CHR ''0'' fraction"
  from assms p obtain u numerator n u' where
    name: "unit_index ?name = Some u" and digits: "whole \<noteq> []" "list_all is_ascii_digit (whole @ fraction)"
    and num: "parse_u128 (whole @ ?f) = Some numerator"
    and ref: "refine_unit (10 ^ length ?f) numerator u = Some (n, u')"
    and exact: "n \<noteq> 0" "n mod 10 ^ length ?f = 0" and fits: "n div 10 ^ length ?f < 2 ^ 32"
    and ts: "ts = timescale_new (word_of_nat (n div 10 ^ length ?f)) (time_units ! u')"
    by (auto simp: timescale_text_def Let_def ok_or_def split: if_splits option.splits)
  let ?q = "n div 10 ^ length ?f"
  obtain z where z: "fraction = ?f @ replicate z CHR ''0''" using trim_end_zeros by blast
  then have "list_all is_ascii_digit ?f" using digits(2) by (metis list_all_append)
  then have "all_digits (whole @ ?f)" using digits by (simp add: all_digits_def)
  then have numerator: "numerator = decimal 0 (whole @ ?f)"
    using num by (simp add: parse_u128_def parse_unsigned_digits split: if_splits)
  have len: "length fraction = length ?f + z" using z by (metis length_append length_replicate)
  have "whole @ fraction = (whole @ ?f) @ replicate z CHR ''0''" using z by simp
  then have m: "decimal 0 (whole @ fraction) = numerator * 10 ^ z"
    unfolding numerator by (simp only: decimal_zeros)
  have scaled: "scaled ?number = (numerator * 10 ^ z, length ?f + z)"
    using p m len by (auto simp: scaled_def split: option.splits)
  note u = refine_unit_Some [OF ref]
  have "u \<le> 7" using unit_index_le [OF name] .
  then have u': "u \<le> u'" "u' \<le> 7" "n = numerator * 1000 ^ (u' - u)" using u by simp_all
  have q: "n = ?q * 10 ^ length ?f" using exact(2) by (metis add.right_neutral div_mult_mod_eq)
  have "unat (word_of_nat ?q :: u32) = ?q" using fits by (simp add: unsigned_of_nat take_bit_nat_eq_self)
  then have zept: "zeptoseconds ts = ?q * 1000 ^ (7 - u')" and "ts_factor ts \<noteq> 0"
    using ts unit_position [OF u'(2)] q exact(1) by (auto simp: zeptoseconds_def timescale_new_def)
  moreover have "zeptoseconds ts * 10 ^ (length ?f + z) = numerator * 10 ^ z * 1000 ^ (7 - u)"
    unfolding zept by (rule exact_scaling [OF q u'(3,1,2)])
  ultimately show ?thesis
    using name scaled by (simp add: written_unit_def written_number_def)
qed

lemma timescales_are_exact_witness:
  "timescale_text ''1.50 ns'' = Inr \<lparr>ts_factor = 1500, ts_unit = Picosecond\<rparr> \<and>
    zeptoseconds \<lparr>ts_factor = 1500, ts_unit = Picosecond\<rparr> * 100 = 150 * 1000 ^ 4"
proof -
  have run: "timescale_text ''1.50 ns'' = Inr \<lparr>ts_factor = 1500, ts_unit = Picosecond\<rparr>"
    by (simp add: timescale_text_def is_ascii_whitespace_def is_ascii_alphabetic_def is_ascii_digit_def
        byte_def unit_index_def split_once_def trim_end_matches_def parse_u128_def parse_unsigned_def
        all_digits_def digit_value_def ok_or_def refine_unit.simps timescale_new_def time_units_def)
  have parts: "written_number ''1.50 ns'' = ''1.50''" "written_unit ''1.50 ns'' = ''ns''"
    by (simp_all add: written_number_def written_unit_def is_ascii_whitespace_def is_ascii_alphabetic_def
        byte_def)
  then show ?thesis
    using run timescales_are_exact [OF run]
    by (simp add: scaled_def split_once_def unit_index_def digit_value_def byte_def)
qed

section \<open>Names, scope kinds and ranges\<close>

definition vcd_name :: "string \<Rightarrow> error + string" where
  "vcd_name bytes = and_then (utf8 bytes) (\<lambda>s. Inr (fst (normalize_name s)))"

definition scope_kinds :: "string list" where
  "scope_kinds =
    [''module'', ''task'', ''function'', ''begin'', ''fork'', ''generate'', ''struct'', ''union'',
     ''class'', ''interface'', ''package'', ''program'', ''architecture'', ''procedure'', ''record'',
     ''process'', ''block'', ''for-generate'', ''if-generate'']"

definition scope_kind :: "string \<Rightarrow> error + string" where
  "scope_kind raw =
    (let kind = replace_char CHR ''_'' CHR ''-''
           (case strip_prefix ''vhdl_'' raw of Some s \<Rightarrow> s | None \<Rightarrow> raw)
     in if kind \<in> set scope_kinds then Inr kind else Inl (malformed ''unsupported scope kind''))"

text \<open>The bounds inside the brackets of a range.\<close>

definition parse_range :: "string \<Rightarrow> error + bit_range" where
  "parse_range suffix =
    and_then (utf8 suffix) (\<lambda>s.
      and_then (ok_or (malformed ''invalid reference range'')
          (Option.bind (strip_prefix ''['' s) (strip_suffix '']''))) (\<lambda>text.
        let (msb, lsb) = (case split_once CHR '':'' text of Some p \<Rightarrow> p | None \<Rightarrow> (text, text))
        in and_then (ok_or (malformed ''invalid range index'') (parse_i64 msb)) (\<lambda>m.
           and_then (ok_or (malformed ''invalid range index'') (parse_i64 lsb)) (\<lambda>l.
             Inr \<lparr>range_msb = m, range_lsb = l\<rparr>))))"

definition reference_name ::
    "string \<Rightarrow> string \<Rightarrow> encoding \<Rightarrow> error + string \<times> bit_range option" where
  "reference_name original suffix0 encoding =
    (let attached = (suffix0 = []);
         bits = (case encoding of Bits _ \<Rightarrow> True | _ \<Rightarrow> False)
     in if \<not> bits \<and> attached then and_then (vcd_name original) (\<lambda>n. Inr (n, None))
        else
          (let (reference, suffix) =
                 (if attached \<and> \<not> starts_with original [CHR 0x5C] \<and> ends_with original '']'' \<and>
                     (case rposition CHR ''['' original of
                        Some i \<Rightarrow> CHR '':'' \<in> set (drop i original) | None \<Rightarrow> False)
                  then (case rposition CHR ''['' original of
                          Some i \<Rightarrow> (take i original, drop i original)
                        | None \<Rightarrow> (original, suffix0))
                  else (original, suffix0))
           in and_then (if suffix = [] then Inr None else and_then (parse_range suffix) (\<lambda>r. Inr (Some r)))
             (\<lambda>parsed.
               case (encoding, parsed) of
                 (Bits width, Some r) \<Rightarrow>
                   if range_width r \<noteq> Some (ucast width) then
                     (if attached then and_then (vcd_name original) (\<lambda>n. Inr (n, None))
                      else Inl (malformed ''range conflicts with declared width''))
                   else and_then (vcd_name reference) (\<lambda>n. Inr (n, Some r))
               | (Bits _, None) \<Rightarrow> and_then (vcd_name reference) (\<lambda>n. Inr (n, None))
               | _ \<Rightarrow> and_then (vcd_name reference) (\<lambda>n. Inr (n, None)))))"

lemma and_then_splits_Inr:
  "and_then r (\<lambda>x. Inr (f x)) = Inr y \<longleftrightarrow> (\<exists>x. r = Inr x \<and> y = f x)"
  by auto

lemma reference_name_range:
  assumes "reference_name original suffix encoding = Inr (n, Some r)"
  shows "\<exists>w. encoding = Bits w \<and> \<bar>sint (range_msb r) - sint (range_lsb r)\<bar> + 1 = uint w"
proof -
  from assms obtain w where w: "encoding = Bits w" "range_width r = Some (ucast w)"
    by (cases encoding)
      (auto simp: reference_name_def Let_def split: if_splits option.splits prod.splits encoding.splits)
  have diff: "uint (abs_diff (range_msb r) (range_lsb r)) = \<bar>sint (range_msb r) - sint (range_lsb r)\<bar>"
  proof -
    have "- (2 ^ 63) \<le> sint x" "sint x < 2 ^ 63" for x :: "64 word"
      using sint_greater_eq [of x] sint_less [of x] by simp_all
    from this(1) [of "range_msb r"] this(2) [of "range_msb r"] this(1) [of "range_lsb r"] this(2) [of "range_lsb r"]
    have "\<bar>sint (range_msb r) - sint (range_lsb r)\<bar> < 2 ^ 64"
      by (simp add: abs_less_iff)
    then show ?thesis by (simp add: abs_diff_def uint_word_of_int take_bit_int_eq_self)
  qed
  have "unat (ucast w :: u64) = unat (abs_diff (range_msb r) (range_lsb r)) + 1"
    using checked_add_Some_unat [of "abs_diff (range_msb r) (range_lsb r)" 1] w(2)
    by (simp add: range_width_def)
  moreover have "unat (ucast w :: u64) = unat w"
    using unat_u32_less [of w] by (simp add: unsigned_ucast_eq take_bit_nat_eq_self)
  ultimately have "int (unat w) = int (unat (abs_diff (range_msb r) (range_lsb r))) + 1" by simp
  then have "uint w = uint (abs_diff (range_msb r) (range_lsb r)) + 1" by (simp only: uint_nat)
  with diff w(1) show ?thesis by simp
qed

text \<open>
  C39: A range kept for a declaration fits it: the signal is a bit vector of exactly as many
  bits as the range counts, so every HDL slice of the declaration is answered.
\<close>

theorem declared_ranges_fit:
  assumes "reference_name original suffix encoding = Inr (n, Some r)"
  shows "\<exists>w. encoding = Bits w \<and> \<bar>sint (range_msb r) - sint (range_lsb r)\<bar> + 1 = uint w"
  using assms by (rule reference_name_range)

lemma declared_ranges_fit_witness:
  "reference_name ''a[7:4]'' [] (Bits 4) = Inr (''a'', Some \<lparr>range_msb = 7, range_lsb = 4\<rparr>) \<and>
    \<bar>sint (7 :: i64) - sint (4 :: i64)\<bar> + 1 = uint (4 :: u32)"
proof -
  have "list_all is_ascii ''[7:4]''" "list_all is_ascii ''a''" by (simp_all add: is_ascii_def byte_def)
  then have v: "valid_utf8 ''[7:4]''" "valid_utf8 ''a''" by (simp_all add: ascii_valid_utf8)
  have p: "parse_i64 ''7'' = Some 7" "parse_i64 ''4'' = Some 4"
    by (simp_all add: parse_i64_def parse_unsigned_def all_digits_def is_ascii_digit_def digit_value_def byte_def)
  have w: "range_width \<lparr>range_msb = 7, range_lsb = 4\<rparr> = Some (ucast (4 :: u32))"
    by (simp add: range_width_def abs_diff_def checked_add_def)
  have run: "reference_name ''a[7:4]'' [] (Bits 4) = Inr (''a'', Some \<lparr>range_msb = 7, range_lsb = 4\<rparr>)"
    using v p w
    by (simp add: reference_name_def parse_range_def utf8_def starts_with_def ends_with_def strip_prefix_def
        strip_suffix_def split_once_def vcd_name_def normalize_name_def ok_or_def)
  from declared_ranges_fit [OF run] run show ?thesis by simp
qed

end
