(* ===== verification/Ondas_Vcd_Body.thy ===== *)
theory Ondas_Vcd_Body
  imports Ondas_Vcd_Lex Ondas_Replay
begin

text \<open>
  The body of a VCD file (\<open>Reader::read_from\<close> and \<open>Reader::walk_inner\<close> of
  \<^verbatim>\<open>src/src/backends/vcd.rs\<close>): timestamps, dump blocks, comments and value records. The
  visitor is the list of notifications it would get, each with the position of its record;
  a visitor that breaks sees a prefix of that list. Progress callbacks only serve the
  parallel reader and are left out.

  The lemmas follow the input through a step, and compare a step with the same step on
  other buffers and with another end tick.
\<close>

section \<open>The reader\<close>

text \<open>
  \<open>vr_cuts\<close> decides the buffers the input delivers after a seek; the last one has the rest.
\<close>

record vcd_input =
  vr_bytes :: string
  vr_fail :: "error option"
  vr_cuts :: "nat \<Rightarrow> nat list"

record vcd = vcd_input +
  vr_body :: nat
  vr_ids :: "(string \<times> nat) list"
  vr_dense :: "nat option list"
  vr_encodings :: "encoding list"

fun cut_by :: "nat list \<Rightarrow> string \<Rightarrow> string list" where
  "cut_by [] s = [s]"
| "cut_by (n # ns) s = take n s # cut_by ns (drop n s)"

definition seek_input :: "'a vcd_input_scheme \<Rightarrow> nat \<Rightarrow> tokens" where
  "seek_input r start =
    \<lparr>tk_chunks = cut_by (vr_cuts r start) (drop start (vr_bytes r)), tk_fail = vr_fail r,
     tk_offset = start\<rparr>"

definition lookup_index :: "vcd \<Rightarrow> string \<Rightarrow> nat option" where
  "lookup_index r code =
    (if vr_dense r = [] then map_of (vr_ids r) code
     else
       case Option.bind (identifier_number code)
           (\<lambda>n. if n < length (vr_dense r) then vr_dense r ! n else None) of
         Some i \<Rightarrow> Some i
       | None \<Rightarrow> map_of (vr_ids r) code)"

section \<open>Values\<close>

text \<open>Left extension and truncation to the declared width.\<close>

definition fit_bits :: "nat \<Rightarrow> string \<Rightarrow> string" where
  "fit_bits width payload =
    (let fill = (let c = to_ascii_lowercase (hd payload)
                 in if c = CHR ''0'' \<or> c = CHR ''1'' then CHR ''0'' else c)
     in replicate (width - length payload) fill @ drop (length payload - width) payload)"

text \<open>
  The value of a record. \<open>Inr None\<close> is the \<open>continue\<close> for a valid bit value nobody asked for.
\<close>

definition record_value ::
    "(string \<Rightarrow> u64 option) \<Rightarrow> tokens \<Rightarrow> encoding \<Rightarrow> char \<Rightarrow> string \<Rightarrow> bool \<Rightarrow> time \<Rightarrow> error + wave_value option" where
  "record_value parse_f64 tk encoding prefix payload selected time =
    (if encoding = Real \<and> prefix = CHR ''r'' then
       and_then (real parse_f64 payload) (\<lambda>v. Inr (Some (VReal v)))
     else if encoding = String \<and> prefix = CHR ''s'' then
       and_then (decode_string payload [] selected time) (\<lambda>s. Inr (Some (VString s)))
     else if encoding \<noteq> Real \<and> encoding \<noteq> String \<and> prefix \<noteq> CHR ''r'' \<and> prefix \<noteq> CHR ''s'' then
       (if (payload = [] \<and> \<not> (encoding = Unsupported \<and> prefix = CHR ''b'')) \<or>
           bits_from_ascii payload = None
        then Inl (token_error tk ''invalid bit value'')
        else case encoding of
          Bits width \<Rightarrow>
            if \<not> selected then Inr None
            else Inr (Some (VBits (fit_bits (unat width) payload)))
        | _ \<Rightarrow> Inr (Some (VEvent 1)))
     else Inl (token_error tk ''value conflicts with storage encoding''))"

section \<open>One word of the body\<close>

record walker =
  wk_tokens :: tokens
  wk_time :: u64
  wk_span :: "time_span option"
  wk_block :: bool
  wk_seen :: "bool list"
  wk_encodings :: "encoding list"
  wk_comments :: "string list"

datatype step =
  Go walker "notification option"
| Stop walker position
| Fail error

definition walk_position :: "nat \<Rightarrow> walker \<Rightarrow> position" where
  "walk_position offset w = \<lparr>pos_offset = offset, pos_time = wk_time w, pos_block = wk_block w\<rparr>"

text \<open>\<open>tk\<close> is the input behind the word, \<open>offset\<close> the one before it.\<close>

definition walk_time :: "u64 \<Rightarrow> nat \<Rightarrow> string \<Rightarrow> tokens \<Rightarrow> walker \<Rightarrow> step" where
  "walk_time stop offset digits tk w =
    (if wk_block w then Fail (token_error tk ''timestamp inside dump block'')
     else case integer digits of
       Inl e \<Rightarrow> Fail e
     | Inr next \<Rightarrow>
         if next < wk_time w then Fail (token_error tk ''backwards timestamp'')
         else if stop < next then Stop (w\<lparr>wk_tokens := tk\<rparr>) (walk_position offset w)
         else Go (w\<lparr>wk_tokens := tk, wk_time := next,
                    wk_span := Some \<lparr>span_first = (case wk_span w of Some s \<Rightarrow> span_first s | None \<Rightarrow> Time next),
                                     span_last = Time next\<rparr>\<rparr>) None)"

text \<open>Comments are collected in \<open>wk_comments\<close>; a read without a collector ignores them.\<close>

definition walk_command :: "string \<Rightarrow> tokens \<Rightarrow> walker \<Rightarrow> step" where
  "walk_command word tk w =
    (if word \<in> {''$dumpvars'', ''$dumpall'', ''$dumpoff'', ''$dumpon''} \<and> \<not> wk_block w then
       Go (w\<lparr>wk_tokens := tk, wk_block := True\<rparr>) None
     else if word = ''$end'' \<and> wk_block w then Go (w\<lparr>wk_tokens := tk, wk_block := False\<rparr>) None
     else if word = ''$comment'' \<and> \<not> wk_block w then
       (case token_text tk of
          Inl e \<Rightarrow> Fail e
        | Inr (t, tk') \<Rightarrow> Go (w\<lparr>wk_tokens := tk', wk_comments := wk_comments w @ [t]\<rparr>) None)
     else Fail (token_error tk ''unexpected body command''))"

text \<open>The payload and the identifier code of a record that starts with \<open>word\<close>.\<close>

definition record_parts :: "string \<Rightarrow> tokens \<Rightarrow> error + (string \<times> string) \<times> tokens" where
  "record_parts word tk =
    (if to_ascii_lowercase (hd word) \<in> {CHR ''b'', CHR ''r'', CHR ''s''} then
       and_then (next_token tk) (\<lambda>(code, tk').
         case code of
           None \<Rightarrow> Inl (token_error tk' ''unexpected EOF'')
         | Some code \<Rightarrow> Inr ((tl word, code), tk'))
     else Inr (([hd word], tl word), tk))"

definition walk_record ::
    "(string \<Rightarrow> u64 option) \<Rightarrow> vcd \<Rightarrow> nat list option \<Rightarrow> nat \<Rightarrow> string \<Rightarrow> tokens \<Rightarrow> walker \<Rightarrow> step" where
  "walk_record parse_f64 r selected offset word tk w =
    (case record_parts word tk of
       Inl e \<Rightarrow> Fail e
     | Inr ((payload, code), tk') \<Rightarrow>
         (case lookup_index r code of
            None \<Rightarrow> Fail (token_error tk' ''unknown identifier code'')
          | Some index \<Rightarrow>
              (let prefix = to_ascii_lowercase (hd word);
                   encodings =
                     (if selected = None \<and> prefix = CHR ''s'' \<and> wk_encodings w ! index = Real \<and>
                         \<not> wk_seen w ! index
                      then (wk_encodings w)[index := String] else wk_encodings w);
                   w' = w\<lparr>wk_tokens := tk', wk_encodings := encodings,
                          wk_seen := (if selected = None then (wk_seen w)[index := True] else wk_seen w),
                          wk_span := (case wk_span w of
                              None \<Rightarrow> Some \<lparr>span_first = time_zero, span_last = time_zero\<rparr>
                            | Some s \<Rightarrow> Some s)\<rparr>;
                   asked = (case selected of Some is \<Rightarrow> index \<in> set is | None \<Rightarrow> False)
               in case record_value parse_f64 tk' (encodings ! index) prefix payload asked (Time (wk_time w)) of
                    Inl e \<Rightarrow> Fail e
                  | Inr None \<Rightarrow> Go w' None
                  | Inr (Some v) \<Rightarrow>
                      Go w'
                        (if asked \<and> \<not> (wk_block w \<and> is_event_value v)
                         then Some (Observed index (Inr v) (Time (wk_time w)) (Some (walk_position offset w)))
                         else None))))"

definition walk_step ::
    "(string \<Rightarrow> u64 option) \<Rightarrow> vcd \<Rightarrow> u64 \<Rightarrow> nat list option \<Rightarrow> walker \<Rightarrow> step" where
  "walk_step parse_f64 r stop selected w =
    (let offset = tk_offset (wk_tokens w)
     in case next_token (wk_tokens w) of
          Inl e \<Rightarrow> Fail e
        | Inr (None, tk) \<Rightarrow>
            if wk_block w then Fail (token_error tk ''unterminated dump block'')
            else Stop (w\<lparr>wk_tokens := tk\<rparr>) (walk_position (tk_offset tk) w)
        | Inr (Some word, tk) \<Rightarrow>
            if hd word = CHR ''#'' then walk_time stop offset (tl word) tk w
            else if hd word = CHR ''$'' then walk_command word tk w
            else walk_record parse_f64 r selected offset word tk w)"

section \<open>Progress\<close>

text \<open>How far an operation moved in the input.\<close>

definition moves :: "tokens \<Rightarrow> tokens \<Rightarrow> bool" where
  "moves tk tk' \<longleftrightarrow>
    (\<exists>n \<le> length (tk_bytes tk). tk_bytes tk' = drop n (tk_bytes tk) \<and>
      tk_offset tk' = tk_offset tk + n) \<and> tk_fail tk' = tk_fail tk"

lemma moves_refl [simp]: "moves tk tk"
  by (auto simp: moves_def)

lemma moves_trans: "moves a b \<Longrightarrow> moves b c \<Longrightarrow> moves a c"
proof -
  assume "moves a b" "moves b c"
  then obtain n m where "n \<le> length (tk_bytes a)" "m \<le> length (tk_bytes a) - n"
    "tk_bytes c = drop (n + m) (tk_bytes a)" "tk_offset c = tk_offset a + (n + m)" "tk_fail c = tk_fail a"
    by (auto simp: moves_def add.commute)
  then show "moves a c" unfolding moves_def by (intro conjI exI [of _ "n + m"]) simp_all
qed

lemma reads_to_moves: "reads_to tk (drop n (tk_bytes tk)) tk' \<Longrightarrow> moves tk tk'"
  by (cases "n \<le> length (tk_bytes tk)")
    (auto simp: reads_to_def moves_def intro: exI [of _ n] exI [of _ "length (tk_bytes tk)"])

lemma dropWhile_drop: "\<exists>n. dropWhile P xs = drop n xs"
  by (auto simp: dropWhile_eq_drop)

lemma next_token_moves:
  assumes "next_token tk = Inr (w, tk')"
  shows "moves tk tk'"
proof -
  obtain found word where n: "next_into [] tk = Inr (found, word, tk')"
    using assms by (auto simp: next_token_def)
  obtain m where "after_word (tk_bytes tk) = drop m (tk_bytes tk)"
    unfolding after_word_def by (metis dropWhile_drop drop_drop)
  with next_into_result [OF n] show ?thesis by (auto intro: reads_to_moves)
qed

lemma next_token_word:
  "next_token tk = Inr (Some w, tk') \<Longrightarrow> w \<noteq> [] \<and> length (tk_bytes tk') < length (tk_bytes tk)"
  by (auto simp: next_token_def dest: next_into_result next_into_shrinks split: if_splits)

lemma next_token_none:
  "next_token tk = Inr (None, tk') \<Longrightarrow> tk_bytes tk' = [] \<and> tk_fail tk' = None"
proof -
  assume "next_token tk = Inr (None, tk')"
  then obtain word where n: "next_into [] tk = Inr (False, word, tk')"
    by (auto simp: next_token_def split: if_splits)
  have "word_end (dropWhile is_ascii_whitespace (tk_bytes tk)) = []"
    using next_into_result [OF n] unfolding first_word_def word_end_def
    by (metis dropWhile.simps(1) hd_dropWhile takeWhile_eq_Nil_iff)
  with next_into_spec [of tk "[]"] n show ?thesis
    by (auto simp: reads_def reads_to_def word_start_def split: if_splits)
qed

lemma next_token_eof: "tk_bytes tk = [] \<Longrightarrow> tk_fail tk = None \<Longrightarrow> next_token tk = Inr (None, tk)"
  by (cases tk rule: fill_buf_cases) (simp_all add: next_token_def next_into.simps [of "[]" tk])

lemma required_moves: "required tk = Inr (w, tk') \<Longrightarrow> moves tk tk'"
  by (auto simp: required_def dest!: next_token_moves split: option.splits)

lemma take_run_moves:
  assumes "take_run ws acc tk = Inr (out, tk')"
  shows "moves tk tk'"
  using take_run_spec [of tk acc ws] assms
    dropWhile_drop [of "\<lambda>b. is_ascii_whitespace b = ws" "tk_bytes tk"]
  by (auto simp: reads_def intro: reads_to_moves split: if_splits)

lemma text_from_moves: "text_from acc tk = Inr (out, tk') \<Longrightarrow> moves tk tk'"
proof (induction acc tk rule: text_from.induct)
  case (1 acc tk)
  from 1(2) obtain acc' tk1 word tk2 where run: "take_run True acc tk = Inr (acc', tk1)"
    "required tk1 = Inr (word, tk2)"
    and rest: "if word = ''$end'' then (acc', tk2) = (out, tk') else text_from (acc' @ word) tk2 = Inr (out, tk')"
    by (auto simp: text_from.simps [of acc] split: if_splits)
  have m: "moves tk tk2" using take_run_moves [OF run(1)] required_moves [OF run(2)] by (rule moves_trans)
  show ?case
  proof (cases "word = ''$end''")
    case True
    with m rest show ?thesis by simp
  next
    case False
    with 1(1) [OF run(1) refl run(2) refl] rest m show ?thesis by (auto intro: moves_trans)
  qed
qed

lemma token_text_moves: "token_text tk = Inr (t, tk') \<Longrightarrow> moves tk tk'"
  by (auto simp: token_text_def dest: text_from_moves)

lemma record_parts_moves: "record_parts word tk = Inr (parts, tk') \<Longrightarrow> moves tk tk'"
  by (auto simp: record_parts_def dest!: next_token_moves split: if_splits option.splits)

lemma moves_shorter: "moves tk tk' \<Longrightarrow> length (tk_bytes tk') \<le> length (tk_bytes tk)"
  by (auto simp: moves_def)

lemmas step_defs = walk_step_def walk_time_def walk_command_def walk_record_def Let_def

lemma walk_step_Go:
  assumes "walk_step parse_f64 r stop selected w = Go w' n"
  obtains word tk where "next_token (wk_tokens w) = Inr (Some word, tk)" "moves tk (wk_tokens w')"
  using assms
  by (auto simp: step_defs dest: token_text_moves record_parts_moves
      split: sum.splits prod.splits option.splits if_splits)

section \<open>The walk and a read\<close>

function walk ::
    "(string \<Rightarrow> u64 option) \<Rightarrow> vcd \<Rightarrow> u64 \<Rightarrow> nat list option \<Rightarrow> walker \<Rightarrow>
     notification list \<times> (error + walker \<times> position)" where
  "walk parse_f64 r stop selected w =
    (case walk_step parse_f64 r stop selected w of
       Fail e \<Rightarrow> ([], Inl e)
     | Stop w' p \<Rightarrow> ([], Inr (w', p))
     | Go w' note \<Rightarrow>
         (let (notes, out) = walk parse_f64 r stop selected w'
          in (case note of Some n \<Rightarrow> n # notes | None \<Rightarrow> notes, out)))"
  by pat_completeness auto
termination
  by (relation "measure (\<lambda>(_, _, _, _, w). length (tk_bytes (wk_tokens w)))")
    (auto elim!: walk_step_Go dest!: next_token_word moves_shorter)

declare walk.simps [simp del]

definition walk_start :: "vcd \<Rightarrow> position \<Rightarrow> bool list \<Rightarrow> walker" where
  "walk_start r p seen =
    \<lparr>wk_tokens = seek_input r (pos_offset p), wk_time = pos_time p, wk_span = None,
     wk_block = pos_block p, wk_seen = seen, wk_encodings = vr_encodings r, wk_comments = []\<rparr>"

definition body_position :: "vcd \<Rightarrow> position" where
  "body_position r = \<lparr>pos_offset = vr_body r, pos_time = 0, pos_block = False\<rparr>"

definition vcd_read ::
    "(string \<Rightarrow> u64 option) \<Rightarrow> vcd \<Rightarrow> signal list \<Rightarrow> time \<Rightarrow> position option \<Rightarrow>
     notification list \<times> (error + position option)" where
  "vcd_read parse_f64 r signals stop position =
    (let start = (case position of Some p \<Rightarrow> p | None \<Rightarrow> body_position r);
         (notes, out) = walk parse_f64 r (ticks stop) (Some (map sig_index signals)) (walk_start r start [])
     in (notes, and_then out (\<lambda>(_, p). Inr (Some p))))"

fun read_outcome :: "error + walker \<times> position \<Rightarrow> error + position option" where
  "read_outcome (Inl e) = Inl e"
| "read_outcome (Inr (w, p)) = Inr (Some p)"

definition emitted :: "notification option \<Rightarrow> notification list" where
  "emitted note = (case note of Some n \<Rightarrow> [n] | None \<Rightarrow> [])"

lemma emitted_simps [simp]: "emitted None = []" "emitted (Some n) = [n]"
  by (simp_all add: emitted_def)

lemma walk_run:
  "walk_step parse_f64 r stop selected w = Go w' n \<Longrightarrow> walk parse_f64 r stop selected w =
    (emitted n @ fst (walk parse_f64 r stop selected w'), snd (walk parse_f64 r stop selected w'))"
  "walk_step parse_f64 r stop selected w = Stop w' p \<Longrightarrow> walk parse_f64 r stop selected w = ([], Inr (w', p))"
  "walk_step parse_f64 r stop selected w = Fail e \<Longrightarrow> walk parse_f64 r stop selected w = ([], Inl e)"
  by (simp_all add: walk.simps [of parse_f64 r stop selected w] emitted_def split: prod.split option.split)

text \<open>\<open>walk_induct\<close> follows the steps of a walk.\<close>

lemma walk_induct [case_names step]:
  assumes "\<And>w. (\<And>w' n. walk_step parse_f64 r stop selected w = Go w' n \<Longrightarrow> P w') \<Longrightarrow> P w"
  shows "P w"
proof (induction "length (tk_bytes (wk_tokens w))" arbitrary: w rule: less_induct)
  case less
  show ?case
  proof (rule assms)
    fix w' n
    assume "walk_step parse_f64 r stop selected w = Go w' n"
    then have "length (tk_bytes (wk_tokens w')) < length (tk_bytes (wk_tokens w))"
      by (auto elim!: walk_step_Go dest!: next_token_word moves_shorter)
    then show "P w'" by (rule less)
  qed
qed

section \<open>Equal inputs\<close>

text \<open>
  Two states from which a read of selected signals cannot be told apart: they differ at
  most in their buffers and in what a read does not use.
\<close>

definition alike_walk :: "walker \<Rightarrow> walker \<Rightarrow> bool" where
  "alike_walk w w' \<longleftrightarrow>
    same_input (wk_tokens w) (wk_tokens w') \<and> wk_time w = wk_time w' \<and> wk_block w = wk_block w' \<and>
    wk_encodings w = wk_encodings w'"

fun alike_step :: "step \<Rightarrow> step \<Rightarrow> bool" where
  "alike_step (Go w n) (Go w' n') \<longleftrightarrow> alike_walk w w' \<and> n = n'"
| "alike_step (Stop w p) (Stop w' p') \<longleftrightarrow> p = p'"
| "alike_step (Fail e) (Fail e') \<longleftrightarrow> e = e'"
| "alike_step _ _ \<longleftrightarrow> False"

lemma same_result_cases:
  assumes "same_result r r'"
  obtains (failed) e where "r = Inl e" "r' = Inl e"
  | (ok) x tk tk' where "r = Inr (x, tk)" "r' = Inr (x, tk')" "same_input tk tk'"
  using assms by (cases r; cases r') (auto simp: same_result_def)

lemma record_parts_same:
  "same_input tk tk' \<Longrightarrow> same_result (record_parts word tk) (record_parts word tk')"
  unfolding record_parts_def
  by (auto intro!: same_result_then [OF next_token_same] simp: same_error split: option.split)

lemma record_value_same:
  assumes "same_input tk tk'"
  shows "record_value parse_f64 tk encoding prefix payload asked time =
    record_value parse_f64 tk' encoding prefix payload asked time"
  unfolding record_value_def same_error [OF assms] ..

lemma walk_time_alike:
  "alike_walk w w' \<Longrightarrow> same_input tk tk' \<Longrightarrow>
    alike_step (walk_time stop offset digits tk w) (walk_time stop offset digits tk' w')"
  by (auto simp: walk_time_def alike_walk_def walk_position_def same_error split: sum.split)

lemma walk_command_alike:
  assumes "alike_walk w w'" and "same_input tk tk'"
  shows "alike_step (walk_command word tk w) (walk_command word tk' w')"
  using token_text_same [OF assms(2)]
proof (cases rule: same_result_cases)
  case (failed e)
  with assms show ?thesis by (simp add: walk_command_def alike_walk_def same_error)
next
  case (ok t tk1 tk1')
  with assms show ?thesis by (simp add: walk_command_def alike_walk_def same_error)
qed

lemma walk_record_alike:
  assumes "alike_walk w w'" and "same_input tk tk'"
  shows "alike_step (walk_record parse_f64 r (Some sel) offset word tk w)
    (walk_record parse_f64 r (Some sel) offset word tk' w')"
  using record_parts_same [OF assms(2), of word]
proof (cases rule: same_result_cases)
  case (failed e)
  then show ?thesis by (simp add: walk_record_def)
next
  case (ok parts t t')
  obtain payload code where p: "parts = (payload, code)" by fastforce
  show ?thesis
  proof (cases "lookup_index r code")
    case None
    with ok p show ?thesis by (simp add: walk_record_def same_error)
  next
    case (Some index)
    let ?v = "\<lambda>t. record_value parse_f64 t (wk_encodings w ! index) (to_ascii_lowercase (hd word)) payload
      (index \<in> set sel) (Time (wk_time w))"
    have "?v t = ?v t'" by (rule record_value_same [OF ok(3)])
    with ok p Some assms(1) show ?thesis
      by (cases "?v t'") (auto simp: walk_record_def Let_def alike_walk_def walk_position_def split: option.split)
  qed
qed

lemma walk_step_alike:
  assumes "alike_walk w w'"
  shows "alike_step (walk_step parse_f64 r stop (Some sel) w) (walk_step parse_f64 r stop (Some sel) w')"
proof -
  have same: "same_input (wk_tokens w) (wk_tokens w')" using assms by (simp add: alike_walk_def)
  then have off: "tk_offset (wk_tokens w) = tk_offset (wk_tokens w')" by (simp add: same_input_def)
  from next_token_same [OF same] show ?thesis
  proof (cases rule: same_result_cases)
    case (failed e)
    then show ?thesis by (simp add: walk_step_def)
  next
    case (ok word tk tk')
    show ?thesis
    proof (cases word)
      case None
      have w: "wk_block w = wk_block w'" "wk_time w = wk_time w'" using assms by (simp_all add: alike_walk_def)
      have "tk_offset tk = tk_offset tk'" using ok(3) by (simp add: same_input_def)
      with ok None w same_error [OF ok(3)] show ?thesis
        by (simp add: walk_step_def walk_position_def)
    next
      case (Some x)
      with ok off walk_time_alike [OF assms ok(3)] walk_command_alike [OF assms ok(3)]
        walk_record_alike [OF assms ok(3)]
      show ?thesis by (simp add: walk_step_def Let_def)
    qed
  qed
qed

lemma walk_alike:
  "alike_walk w w' \<Longrightarrow>
    fst (walk parse_f64 r stop (Some sel) w) = fst (walk parse_f64 r stop (Some sel) w') \<and>
    read_outcome (snd (walk parse_f64 r stop (Some sel) w)) =
      read_outcome (snd (walk parse_f64 r stop (Some sel) w'))"
proof (induction w arbitrary: w' rule: walk_induct [of parse_f64 r stop "Some sel"])
  case (step w)
  let ?s = "walk_step parse_f64 r stop (Some sel)"
  have a: "alike_step (?s w) (?s w')" by (rule walk_step_alike [OF step(2)])
  show ?case
  proof (cases "?s w")
    case (Go v n)
    with a obtain v' where g: "?s w' = Go v' n" "alike_walk v v'" by (cases "?s w'") auto
    from step(1) [OF Go g(2)] show ?thesis by (simp add: walk_run(1) [OF Go] walk_run(1) [OF g(1)])
  next
    case (Stop v p)
    with a obtain v' where "?s w' = Stop v' p" by (cases "?s w'") auto
    then show ?thesis by (simp add: walk_run(2) [OF Stop] walk_run(2))
  next
    case (Fail e)
    with a have "?s w' = Fail e" by (cases "?s w'") auto
    then show ?thesis by (simp add: walk_run(3) [OF Fail] walk_run(3))
  qed
qed

section \<open>Steps and the end of a read\<close>

text \<open>What a step does to the state of a read, and how it depends on the end tick.\<close>

lemma walk_time_Go:
  "walk_time stop offset digits tk w = Go w' n \<longleftrightarrow>
    (\<exists>next. \<not> wk_block w \<and> integer digits = Inr next \<and> wk_time w \<le> next \<and> next \<le> stop \<and> n = None \<and>
      w' = w\<lparr>wk_tokens := tk, wk_time := next,
        wk_span := Some \<lparr>span_first = (case wk_span w of Some s \<Rightarrow> span_first s | None \<Rightarrow> Time next),
                         span_last = Time next\<rparr>\<rparr>)"
  by (auto simp: walk_time_def not_less split: sum.splits)

lemma walk_command_Go:
  assumes "walk_command word tk w = Go w' n"
  shows "n = None \<and> moves tk (wk_tokens w') \<and> wk_time w' = wk_time w \<and> wk_encodings w' = wk_encodings w"
  using assms by (auto simp: walk_command_def dest: token_text_moves split: if_splits sum.splits)

lemma walk_record_Go:
  assumes "walk_record parse_f64 r (Some sel) offset word tk w = Go w' n"
  shows "moves tk (wk_tokens w') \<and> wk_time w' = wk_time w \<and> wk_encodings w' = wk_encodings w \<and>
    (\<forall>note. n = Some note \<longrightarrow> (\<exists>b v.
      note = Observed b (Inr v) (Time (wk_time w)) (Some (walk_position offset w))))"
  using assms
  by (auto simp: walk_record_def Let_def dest: record_parts_moves
      split: sum.splits prod.splits option.splits if_splits)

lemma walk_command_not_Stop: "walk_command word tk w \<noteq> Stop w' p"
  by (auto simp: walk_command_def split: sum.split)

lemma walk_record_not_Stop: "walk_record parse_f64 r selected offset word tk w \<noteq> Stop w' p"
  by (auto simp: walk_record_def Let_def split: sum.split prod.split option.split)

lemma walk_step_cases:
  obtains (failed) e where "walk_step parse_f64 r stop selected w = Fail e"
      "\<And>stop'. walk_step parse_f64 r stop' selected w = Fail e"
  | (eof) tk where "next_token (wk_tokens w) = Inr (None, tk)" "\<not> wk_block w"
      "\<And>stop'. walk_step parse_f64 r stop' selected w =
        Stop (w\<lparr>wk_tokens := tk\<rparr>) (walk_position (tk_offset tk) w)"
  | (timed) word tk where "next_token (wk_tokens w) = Inr (Some word, tk)"
      "\<And>stop'. walk_step parse_f64 r stop' selected w =
        walk_time stop' (tk_offset (wk_tokens w)) (tl word) tk w"
  | (command) word tk where "next_token (wk_tokens w) = Inr (Some word, tk)"
      "\<And>stop'. walk_step parse_f64 r stop' selected w = walk_command word tk w"
  | (recorded) word tk where "next_token (wk_tokens w) = Inr (Some word, tk)"
      "\<And>stop'. walk_step parse_f64 r stop' selected w =
        walk_record parse_f64 r selected (tk_offset (wk_tokens w)) word tk w"
proof (cases "next_token (wk_tokens w)")
  case (Inl e)
  then show ?thesis by (intro failed) (simp_all add: walk_step_def)
next
  case (Inr x)
  then obtain word tk where n: "next_token (wk_tokens w) = Inr (word, tk)" by (cases x) auto
  show ?thesis
  proof (cases word)
    case None
    show ?thesis
    proof (cases "wk_block w")
      case True
      with n None show ?thesis by (intro failed) (simp_all add: walk_step_def)
    next
      case False
      with n None show ?thesis by (intro eof) (simp_all add: walk_step_def)
    qed
  next
    case (Some x)
    consider "hd x = CHR ''#''" | "hd x \<noteq> CHR ''#''" "hd x = CHR ''$''" | "hd x \<noteq> CHR ''#''" "hd x \<noteq> CHR ''$''"
      by blast
    then show ?thesis
    proof cases
      case 1
      with n Some show ?thesis by (intro timed) (simp_all add: walk_step_def Let_def)
    next
      case 2
      with n Some show ?thesis by (intro command) (simp_all add: walk_step_def Let_def)
    next
      case 3
      with n Some show ?thesis by (intro recorded) (simp_all add: walk_step_def Let_def)
    qed
  qed
qed

lemma walk_step_Go_facts:
  assumes "walk_step parse_f64 r stop (Some sel) w = Go w' n"
  shows "moves (wk_tokens w) (wk_tokens w') \<and> wk_time w \<le> wk_time w' \<and> wk_encodings w' = wk_encodings w \<and>
    (wk_time w' = wk_time w \<or> wk_time w' \<le> stop) \<and> (wk_time w \<le> stop \<longrightarrow> wk_time w' \<le> stop) \<and>
    (\<forall>note. n = Some note \<longrightarrow> wk_time w' = wk_time w \<and> (\<exists>b v. note =
      Observed b (Inr v) (Time (wk_time w)) (Some (walk_position (tk_offset (wk_tokens w)) w))))"
proof (cases rule: walk_step_cases [of parse_f64 r stop "Some sel" w])
  case (failed e)
  with assms show ?thesis by simp
next
  case (eof tk)
  with assms show ?thesis by simp
next
  case (timed word tk)
  with assms next_token_moves [OF timed(1)] show ?thesis by (auto simp: walk_time_Go)
next
  case (command word tk)
  with assms walk_command_Go [of word tk w w' n] next_token_moves [OF command(1)] show ?thesis
    by (auto intro: moves_trans)
next
  case (recorded word tk)
  with assms walk_record_Go [of parse_f64 r sel "tk_offset (wk_tokens w)" word tk w w' n]
    next_token_moves [OF recorded(1)] show ?thesis
    by (auto intro: moves_trans)
qed

lemma walk_step_other_end:
  assumes "walk_step parse_f64 r stop (Some sel) w = Go w' n" and "wk_time w \<le> stop'"
  shows "if wk_time w' \<le> stop' then walk_step parse_f64 r stop' (Some sel) w = Go w' n
    else n = None \<and> (\<exists>v p. walk_step parse_f64 r stop' (Some sel) w = Stop v p)"
proof (cases rule: walk_step_cases [of parse_f64 r stop "Some sel" w])
  case (failed e)
  with assms show ?thesis by simp
next
  case (eof tk)
  with assms show ?thesis by simp
next
  case (timed word tk)
  with assms show ?thesis by (auto simp: walk_time_Go) (auto simp: walk_time_def)
next
  case (command word tk)
  with assms walk_command_Go [of word tk w w' n] show ?thesis by simp
next
  case (recorded word tk)
  with assms walk_record_Go [of parse_f64 r sel "tk_offset (wk_tokens w)" word tk w w' n] show ?thesis
    by simp
qed

lemma walk_step_Stop_cases:
  assumes "walk_step parse_f64 r stop (Some sel) w = Stop v p"
  obtains (later) "p = walk_position (tk_offset (wk_tokens w)) w"
  | (eof) tk where "next_token (wk_tokens w) = Inr (None, tk)" "\<not> wk_block w"
      "p = walk_position (tk_offset tk) w"
      "\<And>stop'. walk_step parse_f64 r stop' (Some sel) w = Stop (w\<lparr>wk_tokens := tk\<rparr>) p"
proof (cases rule: walk_step_cases [of parse_f64 r stop "Some sel" w])
  case (failed e)
  with assms show ?thesis by simp
next
  case (eof tk)
  with assms show ?thesis by (intro that(2)) auto
next
  case (timed word tk)
  with assms show ?thesis
    by (intro that(1)) (auto simp: walk_time_def split: if_splits sum.splits)
next
  case (command word tk)
  with assms show ?thesis by (simp add: walk_command_not_Stop)
next
  case (recorded word tk)
  with assms show ?thesis by (simp add: walk_record_not_Stop)
qed

end
