(* ===== verification/Ondas_Vcd_Reader.thy ===== *)
theory Ondas_Vcd_Reader
  imports Ondas_Vcd_Body
begin

text \<open>
  The VCD reader keeps the contract \<open>tick_reader\<close> for every file and every way of buffering
  it, so every theorem of the query engine holds for it; the values it delivers have the
  declared storage.
\<close>

section \<open>Positions\<close>

definition in_file :: "'a vcd_input_scheme \<Rightarrow> tokens \<Rightarrow> bool" where
  "in_file r tk \<longleftrightarrow> tk_bytes tk = drop (tk_offset tk) (vr_bytes r) \<and> tk_fail tk = vr_fail r"

lemma concat_cut_by [simp]: "concat (cut_by ns s) = s"
  by (induction ns s rule: cut_by.induct) simp_all

lemma in_file_seek [simp]: "in_file r (seek_input r start)"
  by (simp add: in_file_def seek_input_def tk_bytes_def)

lemma in_file_moves: "in_file r tk \<Longrightarrow> moves tk tk' \<Longrightarrow> in_file r tk'"
  by (auto simp: in_file_def moves_def add.commute)

lemma in_file_same: "in_file r tk \<Longrightarrow> same_input tk (seek_input r (tk_offset tk))"
  by (simp add: in_file_def same_input_def seek_input_def tk_bytes_def)

definition walk_inv :: "vcd \<Rightarrow> walker \<Rightarrow> bool" where
  "walk_inv r w \<longleftrightarrow> in_file r (wk_tokens w) \<and> wk_encodings w = vr_encodings r"

lemma walk_inv_start [simp]: "walk_inv r (walk_start r p seen)"
  by (simp add: walk_inv_def walk_start_def)

lemma walk_inv_step:
  "walk_inv r w \<Longrightarrow> walk_step parse_f64 r stop (Some sel) w = Go w' n \<Longrightarrow> walk_inv r w'"
  by (auto simp: walk_inv_def dest!: walk_step_Go_facts intro: in_file_moves)

text \<open>A position taken in front of a word leads back to the state it was taken in.\<close>

lemma resume_alike:
  "walk_inv r w \<Longrightarrow> alike_walk w (walk_start r (walk_position (tk_offset (wk_tokens w)) w) seen)"
  by (simp add: alike_walk_def walk_inv_def walk_start_def walk_position_def in_file_same)

section \<open>The contract\<close>

lemma walk_notes:
  "n \<in> set (fst (walk parse_f64 r stop (Some sel) w)) \<Longrightarrow> wk_time w \<le> stop \<Longrightarrow>
    \<exists>b v t p. n = Observed b (Inr v) (Time t) (Some p) \<and> pos_time p = t \<and> wk_time w \<le> t \<and> t \<le> stop"
proof (induction w rule: walk_induct [of parse_f64 r stop "Some sel"])
  case (step w)
  show ?case
  proof (cases "walk_step parse_f64 r stop (Some sel) w")
    case (Go w' obs)
    note F = walk_step_Go_facts [OF Go]
    from step(2) have "n \<in> set (emitted obs) \<or> n \<in> set (fst (walk parse_f64 r stop (Some sel) w'))"
      by (simp add: walk_run(1) [OF Go])
    then show ?thesis
    proof
      assume "n \<in> set (emitted obs)"
      then have "obs = Some n" by (cases obs) simp_all
      with F step(3) show ?thesis by (auto simp: walk_position_def)
    next
      assume "n \<in> set (fst (walk parse_f64 r stop (Some sel) w'))"
      from step(1) [OF Go this] F step(3) show ?thesis by fastforce
    qed
  next
    case (Stop v p)
    with step(2) show ?thesis by (simp add: walk_run(2))
  next
    case (Fail e)
    with step(2) show ?thesis by (simp add: walk_run(3))
  qed
qed

lemma walk_ordered:
  "wk_time w \<le> stop \<Longrightarrow> ordered_notes (fst (walk parse_f64 r stop (Some sel) w))"
proof (induction w rule: walk_induct [of parse_f64 r stop "Some sel"])
  case (step w)
  show ?case
  proof (cases "walk_step parse_f64 r stop (Some sel) w")
    case (Go w' obs)
    note F = walk_step_Go_facts [OF Go]
    have "ordered_notes (fst (walk parse_f64 r stop (Some sel) w'))" using step F Go by blast
    moreover have "before_note n m" if "obs = Some n" "m \<in> set (fst (walk parse_f64 r stop (Some sel) w'))" for n m
      using walk_notes [OF that(2)] F that(1) step(2) by (auto simp: before_note_def)
    ultimately show ?thesis by (cases obs) (simp_all add: walk_run(1) [OF Go])
  next
    case (Stop v p)
    then show ?thesis by (simp add: walk_run(2))
  next
    case (Fail e)
    then show ?thesis by (simp add: walk_run(3))
  qed
qed

lemma walk_prefix:
  "walk parse_f64 r stop (Some sel) w = (xs, Inr q) \<Longrightarrow> earlier \<le> stop \<Longrightarrow> wk_time w \<le> earlier \<Longrightarrow>
    \<exists>q'. walk parse_f64 r earlier (Some sel) w = (filter (\<lambda>n. note_time n \<le> Time earlier) xs, Inr q')"
proof (induction w arbitrary: xs rule: walk_induct [of parse_f64 r stop "Some sel"])
  case (step w)
  show ?case
  proof (cases "walk_step parse_f64 r stop (Some sel) w")
    case (Go w' obs)
    note F = walk_step_Go_facts [OF Go]
    obtain ys where ys: "walk parse_f64 r stop (Some sel) w' = (ys, Inr q)" "xs = emitted obs @ ys"
      using step(2) by (simp add: walk_run(1) [OF Go] prod_eq_iff)
    have obs: "\<forall>n \<in> set (emitted obs). note_time n \<le> Time earlier"
      using F step(4) by (cases obs) auto
    show ?thesis
    proof (cases "wk_time w' \<le> earlier")
      case True
      with walk_step_other_end [OF Go step(4)]
      have go: "walk_step parse_f64 r earlier (Some sel) w = Go w' obs" by simp
      from step(1) [OF Go ys(1) step(3) True] obs show ?thesis
        by (auto simp: walk_run(1) [OF go] ys(2))
    next
      case False
      with walk_step_other_end [OF Go step(4)] obtain v p where
        none: "obs = None" and stop: "walk_step parse_f64 r earlier (Some sel) w = Stop v p" by auto
      have "wk_time w' \<le> stop" using F step(3,4) by simp
      have "note_time n > Time earlier" if "n \<in> set ys" for n
        using walk_notes [of n parse_f64 r stop sel w'] that ys(1) \<open>wk_time w' \<le> stop\<close> False by auto
      then have "filter (\<lambda>n. note_time n \<le> Time earlier) ys = []" by (auto simp: filter_empty_conv not_le)
      then show ?thesis by (simp add: walk_run(2) [OF stop] ys(2) none)
    qed
  next
    case (Stop v p)
    with step(2) have "xs = []" by (simp add: walk_run(2))
    have "\<exists>v p. walk_step parse_f64 r earlier (Some sel) w = Stop v p"
    proof (cases rule: walk_step_cases [of parse_f64 r stop "Some sel" w])
      case (timed word tk)
      with Stop step(3) show ?thesis
        by (auto simp: walk_time_def split: if_splits sum.splits)
    next
      case (command word tk)
      with Stop show ?thesis by (simp add: walk_command_not_Stop)
    next
      case (recorded word tk)
      with Stop show ?thesis by (simp add: walk_record_not_Stop)
    qed (use Stop in simp_all)
    with \<open>xs = []\<close> show ?thesis by (auto simp: walk_run(2))
  next
    case (Fail e)
    with step(2) show ?thesis by (simp add: walk_run(3))
  qed
qed

lemma walk_record_resumes:
  "walk parse_f64 r stop (Some sel) w = (xs @ Observed b v t (Some p) # ys, out) \<Longrightarrow>
    walk_inv r w \<Longrightarrow> wk_time w \<le> stop \<Longrightarrow> wk_time w \<le> stop' \<Longrightarrow> t \<le> Time stop' \<Longrightarrow>
    \<exists>ys' out'. walk parse_f64 r stop' (Some sel) w = (xs @ Observed b v t (Some p) # ys', out') \<and>
      fst (walk parse_f64 r stop' (Some sel) (walk_start r p [])) = Observed b v t (Some p) # ys' \<and>
      read_outcome (snd (walk parse_f64 r stop' (Some sel) (walk_start r p []))) = read_outcome out'"
proof (induction w arbitrary: xs rule: walk_induct [of parse_f64 r stop "Some sel"])
  case (step w)
  let ?n = "Observed b v t (Some p)"
  show ?case
  proof (cases "walk_step parse_f64 r stop (Some sel) w")
    case (Go w' obs)
    note F = walk_step_Go_facts [OF Go]
    obtain zs where zs: "walk parse_f64 r stop (Some sel) w' = (zs, out)" "xs @ ?n # ys = emitted obs @ zs"
      using step(2) by (simp add: walk_run(1) [OF Go] prod_eq_iff)
    have stop: "wk_time w' \<le> stop" using F step(4) by blast
    have "?n \<in> set (emitted obs @ zs)" unfolding zs(2) [symmetric] by simp
    then have "Time (wk_time w') \<le> t"
    proof (cases "?n \<in> set zs")
      case True
      with walk_notes [of ?n parse_f64 r stop sel w'] zs(1) stop show ?thesis by auto
    next
      case False
      with \<open>?n \<in> set (emitted obs @ zs)\<close> have "obs = Some ?n" by (cases obs) auto
      with F show ?thesis by auto
    qed
    from order_trans [OF this step(6)] have "Time (wk_time w') \<le> Time stop'" .
    then have low: "wk_time w' \<le> stop'" by simp
    with walk_step_other_end [OF Go step(5)]
    have go: "walk_step parse_f64 r stop' (Some sel) w = Go w' obs" by simp
    show ?thesis
    proof (cases "xs = [] \<and> obs \<noteq> None")
      case True
      with zs(2) have obs: "obs = Some ?n" by (cases obs) auto
      with F have p: "p = walk_position (tk_offset (wk_tokens w)) w" by auto
      from walk_alike [OF resume_alike [OF step(3)], of parse_f64 r stop' sel "[]"] show ?thesis
        unfolding p [symmetric] walk_run(1) [OF go] using True obs
        by (intro exI [of _ "fst (walk parse_f64 r stop' (Some sel) w')"]
            exI [of _ "snd (walk parse_f64 r stop' (Some sel) w')"]) simp_all
    next
      case False
      then obtain xs' where xs: "xs = emitted obs @ xs'" "zs = xs' @ ?n # ys"
        using zs(2) by (cases obs; cases xs) auto
      from step(1) [OF Go _ walk_inv_step [OF step(3) Go] stop low step(6)] zs(1) xs(2) obtain ys' out' where
        "walk parse_f64 r stop' (Some sel) w' = (xs' @ ?n # ys', out')"
        "fst (walk parse_f64 r stop' (Some sel) (walk_start r p [])) = ?n # ys'"
        "read_outcome (snd (walk parse_f64 r stop' (Some sel) (walk_start r p []))) = read_outcome out'"
        by blast
      then show ?thesis by (simp add: walk_run(1) [OF go] xs(1))
    qed
  next
    case (Stop v p)
    with step(2) show ?thesis by (simp add: walk_run(2))
  next
    case (Fail e)
    with step(2) show ?thesis by (simp add: walk_run(3))
  qed
qed

lemma walk_end_resumes:
  "walk parse_f64 r stop (Some sel) w = (xs, Inr (v, p)) \<Longrightarrow>
    walk_inv r w \<Longrightarrow> stop \<le> stop' \<Longrightarrow> wk_time w \<le> stop' \<Longrightarrow>
    \<exists>ys' out'. walk parse_f64 r stop' (Some sel) w = (xs @ ys', out') \<and>
      fst (walk parse_f64 r stop' (Some sel) (walk_start r p [])) = ys' \<and>
      read_outcome (snd (walk parse_f64 r stop' (Some sel) (walk_start r p []))) = read_outcome out'"
proof (induction w arbitrary: xs rule: walk_induct [of parse_f64 r stop "Some sel"])
  case (step w)
  show ?case
  proof (cases "walk_step parse_f64 r stop (Some sel) w")
    case (Go w' obs)
    note F = walk_step_Go_facts [OF Go]
    obtain zs where zs: "walk parse_f64 r stop (Some sel) w' = (zs, Inr (v, p))" "xs = emitted obs @ zs"
      using step(2) by (simp add: walk_run(1) [OF Go] prod_eq_iff)
    have low: "wk_time w' \<le> stop'" using F step(4,5) by auto
    with walk_step_other_end [OF Go step(5)]
    have go: "walk_step parse_f64 r stop' (Some sel) w = Go w' obs" by simp
    from step(1) [OF Go zs(1) walk_inv_step [OF step(3) Go] step(4) low] show ?thesis
      by (auto simp: walk_run(1) [OF go] zs(2))
  next
    case (Stop v' p')
    with step(2) have eq: "xs = []" "v' = v" "p' = p" by (simp_all add: walk_run(2))
    from Stop show ?thesis
    proof (cases rule: walk_step_Stop_cases)
      case later
      from walk_alike [OF resume_alike [OF step(3)], of parse_f64 r stop' sel "[]"] show ?thesis
        unfolding eq later [symmetric, unfolded eq] append_Nil by (metis prod.collapse)
    next
      case (eof tk)
      let ?w = "walk_start r p []"
      have "in_file r tk" using step(3) next_token_moves [OF eof(1)] by (auto simp: walk_inv_def intro: in_file_moves)
      moreover have "pos_offset p = tk_offset tk" "pos_block p = False" "pos_time p = wk_time w"
        using eof(2,3) eq by (simp_all add: walk_position_def)
      ultimately have same: "same_input tk (wk_tokens ?w)"
        by (simp add: walk_start_def in_file_same)
      moreover have "tk_bytes tk = []" "tk_fail tk = None" using next_token_none [OF eof(1)] by simp_all
      ultimately have "next_token (wk_tokens ?w) = Inr (None, wk_tokens ?w)"
        by (intro next_token_eof) (simp_all add: same_input_def)
      then have "walk_step parse_f64 r stop' (Some sel) ?w = Stop ?w p"
        using \<open>pos_block p = False\<close> by (simp add: walk_step_def Let_def walk_start_def walk_position_def seek_input_def)
      then show ?thesis using eq by (simp add: walk_run(2) [OF eof(4)] walk_run(2))
    qed
  next
    case (Fail e)
    with step(2) show ?thesis by (simp add: walk_run(3))
  qed
qed

lemma vcd_read_walk:
  "vcd_read parse_f64 r bases stop position =
    (let w = walk parse_f64 r (ticks stop) (Some (map sig_index bases))
           (walk_start r (case position of Some p \<Rightarrow> p | None \<Rightarrow> body_position r) [])
     in (fst w, read_outcome (snd w)))"
proof -
  have "and_then out (\<lambda>(_, p). Inr (Some p)) = read_outcome out" for out :: "error + walker \<times> position"
    by (cases out rule: read_outcome.cases) simp_all
  then show ?thesis by (simp add: vcd_read_def Let_def split: prod.split)
qed

lemma body_time [simp]: "wk_time (walk_start r (body_position r) seen) = 0"
  by (simp add: walk_start_def body_position_def)

lemma tick_reader_vcd: "tick_reader (vcd_read parse_f64 r)"
proof
  fix bases :: "signal list" and stop :: time
  let ?W = "\<lambda>stop. walk parse_f64 r (ticks stop) (Some (map sig_index bases)) (walk_start r (body_position r) [])"
  have none: "vcd_read parse_f64 r bases stop None = (fst (?W stop), read_outcome (snd (?W stop)))" for stop
    by (simp add: vcd_read_walk Let_def)
  have heard: "\<exists>b v t p. n = Observed b (Inr v) (Time t) (Some p) \<and> pos_time p = t \<and> t \<le> ticks stop"
    if "n \<in> set (fst (?W stop))" for n stop
    using walk_notes [OF that] by auto
  show "ordered_notes (fst (vcd_read parse_f64 r bases stop None))"
    by (simp add: none walk_ordered)
  show "note_time n \<le> stop" if "n \<in> set (fst (vcd_read parse_f64 r bases stop None))" for n
    using heard [of n stop] that by (cases stop) (auto simp: none)
  show "position_time p = t" if "Observed b v t (Some p) \<in> set (fst (vcd_read parse_f64 r bases stop None))"
    for b v t p
    using heard [of "Observed b v t (Some p)" stop] that by (auto simp: none position_time_def)
  show "TickDone u \<notin> set (fst (vcd_read parse_f64 r bases stop None))" for u
    using heard [of "TickDone u" stop] by (auto simp: none)
  then show "TickDone t \<notin> set xs" if "vcd_read parse_f64 r bases stop None = (xs, Inr (Some p))" for xs p t
    by (metis fst_conv that)
  show "\<exists>q'. vcd_read parse_f64 r bases earlier None = (filter (\<lambda>n. note_time n \<le> earlier) xs, Inr q')"
    if "vcd_read parse_f64 r bases stop None = (xs, Inr q)" and "earlier \<le> stop" for xs q earlier
  proof -
    from that(1) obtain v p where "?W stop = (xs, Inr (v, p))"
      by (cases "?W stop"; cases "snd (?W stop)") (auto simp: none)
    moreover have "ticks earlier \<le> ticks stop" using that(2) by (cases earlier; cases stop) simp
    ultimately obtain q' where "?W earlier = (filter (\<lambda>n. note_time n \<le> Time (ticks earlier)) xs, Inr q')"
      using walk_prefix by fastforce
    then show ?thesis by (cases q') (simp add: none)
  qed
  show "\<exists>ys' out'. vcd_read parse_f64 r bases stop' None = (xs @ Observed b v t (Some p) # ys', out') \<and>
      vcd_read parse_f64 r bases stop' (Some p) = (Observed b v t (Some p) # ys', out')"
    if "vcd_read parse_f64 r bases stop None = (xs @ Observed b v t (Some p) # ys, out)" and "t \<le> stop'"
    for xs b v t p ys out stop'
  proof -
    have "?W stop = (xs @ Observed b v t (Some p) # ys, snd (?W stop))"
      using that(1) by (simp add: none prod_eq_iff)
    moreover have "t \<le> Time (ticks stop')" using that(2) by simp
    ultimately obtain ys' out' where
      "?W stop' = (xs @ Observed b v t (Some p) # ys', out')"
      "fst (walk parse_f64 r (ticks stop') (Some (map sig_index bases)) (walk_start r p [])) =
        Observed b v t (Some p) # ys'"
      "read_outcome (snd (walk parse_f64 r (ticks stop') (Some (map sig_index bases)) (walk_start r p []))) =
        read_outcome out'"
      using walk_record_resumes [of parse_f64 r "ticks stop" "map sig_index bases"
          "walk_start r (body_position r) []" xs b v t p ys "snd (?W stop)" "ticks stop'"] by auto
    then show ?thesis by (simp add: none vcd_read_walk [of _ _ _ _ "Some p"] Let_def)
  qed
  show "\<exists>ys' out'. vcd_read parse_f64 r bases stop' None = (xs @ ys', out') \<and>
      vcd_read parse_f64 r bases stop' (Some p) = (ys', out')"
    if "vcd_read parse_f64 r bases stop None = (xs, Inr (Some p))" and "stop \<le> stop'" for xs p stop'
  proof -
    from that(1) obtain v where "?W stop = (xs, Inr (v, p))"
      by (cases "?W stop"; cases "snd (?W stop)") (auto simp: none)
    moreover have "ticks stop \<le> ticks stop'" using that(2) by (cases stop; cases stop') simp
    ultimately obtain ys' out' where
      "?W stop' = (xs @ ys', out')"
      "fst (walk parse_f64 r (ticks stop') (Some (map sig_index bases)) (walk_start r p [])) = ys'"
      "read_outcome (snd (walk parse_f64 r (ticks stop') (Some (map sig_index bases)) (walk_start r p []))) =
        read_outcome out'"
      using walk_end_resumes [of parse_f64 r "ticks stop" "map sig_index bases"
          "walk_start r (body_position r) []" xs v p "ticks stop'"] by auto
    then show ?thesis by (simp add: none vcd_read_walk [of _ _ _ _ "Some p"] Let_def)
  qed
qed

interpretation vcd: tick_reader "vcd_read parse_f64 r" for parse_f64 r
  by (rule tick_reader_vcd)

text \<open>
  C25: the VCD reader keeps the contract of the query engine: notifications in time order up
  to the end of the read, each position resuming the read at its record.
\<close>

theorem vcd_keeps_the_contract:
  "tick_reader (vcd_read parse_f64 r)"
  by (rule vcd.tick_reader_axioms)

section \<open>What a read delivers\<close>

text \<open>A value of the declared storage; the digits of a bit vector are logic bytes.\<close>

definition stored_as :: "encoding \<Rightarrow> wave_value \<Rightarrow> bool" where
  "stored_as encoding v \<longleftrightarrow>
    (case encoding of
       Bits width \<Rightarrow> (\<exists>d. v = VBits d \<and> length d = unat width \<and> list_all is_logic_byte d)
     | Real \<Rightarrow> (\<exists>x. v = VReal x)
     | String \<Rightarrow> (\<exists>s. v = VString s \<and> list_all is_ascii s)
     | _ \<Rightarrow> v = VEvent 1)"

lemma decode_string_ascii:
  "decode_string bytes acc materialize time = Inr s \<Longrightarrow> list_all is_ascii acc \<Longrightarrow> list_all is_ascii s"
proof (induction bytes acc materialize time arbitrary: s rule: decode_string.induct)
  case (1 acc materialize time)
  then show ?case by simp
next
  case (2 b bytes acc materialize time)
  let ?r = "if b = CHR 0x5C then decode_escape bytes else Inr (b, bytes)"
  from 2(2) obtain c rest where r: "?r = Inr (c, rest)"
    by (cases ?r) (auto split: if_splits)
  with 2(2) have c: "is_ascii c"
    and rest: "decode_string rest (if materialize then acc @ [c] else acc) materialize time = Inr s"
    by (simp_all split: if_splits)
  from 2(3) c have "list_all is_ascii (if materialize then acc @ [c] else acc)" by simp
  with 2(1) [OF r refl] c rest show ?case by blast
qed

lemma fit_bits_length: "payload \<noteq> [] \<Longrightarrow> length (fit_bits width payload) = width"
  by (simp add: fit_bits_def Let_def)

lemma fit_bits_logic:
  assumes "list_all is_logic_byte payload" and "payload \<noteq> []"
  shows "list_all is_logic_byte (fit_bits width payload)"
proof -
  have "is_logic_byte (hd payload)" using assms by (cases payload) simp_all
  then have "is_logic_byte (to_ascii_lowercase (hd payload))" by simp
  moreover have "is_logic_byte CHR ''0''" by (simp add: is_logic_byte_def to_ascii_lowercase_def is_ascii_uppercase_def byte_def)
  moreover have "list_all is_logic_byte (drop n payload)" for n
    using assms(1) by (auto simp: list_all_iff dest: in_set_dropD)
  ultimately show ?thesis by (auto simp: fit_bits_def Let_def list_all_iff)
qed

lemma record_value_stored:
  assumes "record_value parse_f64 tk encoding prefix payload asked time = Inr (Some v)"
  shows "stored_as encoding v"
proof (cases encoding)
  case (Bits width)
  with assms have p: "payload \<noteq> []" "bits_from_ascii payload \<noteq> None"
    and v: "v = VBits (fit_bits (unat width) payload)"
    by (auto simp: record_value_def split: if_splits)
  from p(2) have "list_all is_logic_byte payload" by (auto simp: bits_from_ascii_Some_iff bits_ok_def)
  then have "list_all is_logic_byte (fit_bits (unat width) payload)" using p(1) by (rule fit_bits_logic)
  with Bits v fit_bits_length [OF p(1)] show ?thesis by (simp add: stored_as_def)
next
  case String
  with assms show ?thesis
    by (auto simp: record_value_def stored_as_def decode_string_ascii and_then_def
        split: if_splits sum.splits)
qed (use assms in \<open>auto simp: record_value_def stored_as_def and_then_def split: if_splits sum.splits\<close>)

definition delivered :: "vcd \<Rightarrow> nat list \<Rightarrow> notification \<Rightarrow> bool" where
  "delivered r sel n =
    (case n of
       Observed b (Inr v) t (Some p) \<Rightarrow>
         b \<in> set sel \<and> stored_as (vr_encodings r ! b) v \<and> pos_time p = ticks t \<and>
         \<not> (pos_block p \<and> is_event_value v)
     | _ \<Rightarrow> False)"

lemma walk_record_delivers:
  assumes "walk_record parse_f64 r (Some sel) offset word tk w = Go w' (Some n)"
    and "wk_encodings w = vr_encodings r"
  shows "delivered r sel n"
  using assms
  by (auto simp: walk_record_def Let_def delivered_def walk_position_def dest: record_value_stored
      split: sum.splits prod.splits option.splits if_splits)

lemma walk_delivers:
  "wk_encodings w = vr_encodings r \<Longrightarrow>
    list_all (delivered r sel) (fst (walk parse_f64 r stop (Some sel) w))"
proof (induction w rule: walk_induct [of parse_f64 r stop "Some sel"])
  case (step w)
  show ?case
  proof (cases "walk_step parse_f64 r stop (Some sel) w")
    case (Go w' obs)
    have "wk_encodings w' = vr_encodings r" using walk_step_Go_facts [OF Go] step(2) by simp
    with step(1) [OF Go] have rest: "list_all (delivered r sel) (fst (walk parse_f64 r stop (Some sel) w'))" .
    have "list_all (delivered r sel) (emitted obs)"
    proof (cases obs)
      case (Some n)
      from Go show ?thesis
      proof (cases rule: walk_step_cases [of parse_f64 r stop "Some sel" w])
        case (timed word tk)
        with Go Some show ?thesis by (simp add: walk_time_Go)
      next
        case (command word tk)
        with Go Some walk_command_Go show ?thesis by fastforce
      next
        case (recorded word tk)
        with Go Some walk_record_delivers step(2) show ?thesis by fastforce
      qed (use Go in simp_all)
    qed simp
    with rest show ?thesis by (simp add: walk_run(1) [OF Go])
  qed (simp_all add: walk_run)
qed

text \<open>
  C26: a read notifies only asked signals, each value has the storage of its signal (bit
  vectors of exactly the declared width, logic digits only; ASCII strings), the position
  carries the time of the record, and events inside dump blocks are not delivered.
\<close>

theorem vcd_reads_are_typed:
  "list_all (delivered r (map sig_index bases)) (fst (vcd_read parse_f64 r bases stop position))"
  unfolding vcd_read_walk Let_def fst_conv by (rule walk_delivers) (simp add: walk_start_def)

end
