(* ===== verification/Ondas_Vcd_Header.thy ===== *)
theory Ondas_Vcd_Header
  imports Ondas_Vcd_Reader Ondas_Hierarchy
begin

text \<open>
  Opening a VCD file (\<open>Reader::open\<close> of \<^verbatim>\<open>src/src/backends/vcd.rs\<close>): the header commands
  build the scopes, the variables, the identifier codes and the storage of every signal;
  a walk over the whole body then checks every record, settles which real signals hold
  strings, and finds the time span. The walk is the sequential one; the parallel one
  follows in a theory of its own.
\<close>

section \<open>The state of the header\<close>

record metadata =
  md_source_name :: string
  md_timescale :: "timescale option"
  md_time_span :: "time_span option"
  md_writer :: "string option"
  md_date :: "string option"
  md_comments :: "string list"

text \<open>\<open>vh_stack\<close> has the innermost scope first.\<close>

record vcd_header =
  vh_metadata :: metadata
  vh_scopes :: "scope_data list"
  vh_variables :: "variable_data list"
  vh_stack :: "nat list"
  vh_scope_ids :: "nat option \<times> string \<Rightarrow> nat option"
  vh_ids :: "(string \<times> nat) list"
  vh_encodings :: "encoding list"
  vh_declarations :: "(nat option \<times> string \<times> string \<times> nat \<times> (i64 \<times> i64) option) set"

definition header_start :: "string \<Rightarrow> vcd_header" where
  "header_start source_name =
    \<lparr>vh_metadata = \<lparr>md_source_name = source_name, md_timescale = None, md_time_span = None,
       md_writer = None, md_date = None, md_comments = []\<rparr>,
     vh_scopes = [], vh_variables = [], vh_stack = [], vh_scope_ids = (\<lambda>_. None), vh_ids = [],
     vh_encodings = [], vh_declarations = {}\<rparr>"

definition innermost :: "nat list \<Rightarrow> nat option" where
  "innermost stack = (case stack of [] \<Rightarrow> None | p # _ \<Rightarrow> Some p)"

section \<open>Scopes\<close>

definition enter_scope :: "string \<Rightarrow> string \<Rightarrow> string \<Rightarrow> vcd_header \<Rightarrow> vcd_header option" where
  "enter_scope kind spelling name h =
    (let parent = innermost (vh_stack h)
     in case vh_scope_ids h (parent, spelling) of
          Some index \<Rightarrow>
            if sd_kind (vh_scopes h ! index) \<noteq> kind then None
            else Some (h\<lparr>vh_stack := index # vh_stack h\<rparr>)
        | None \<Rightarrow>
            let index = length (vh_scopes h)
            in Some (h\<lparr>vh_scopes := vh_scopes h @
                 [\<lparr>sd_name = name, sd_name_was_escaped = starts_with spelling [CHR 0x5C],
                   sd_parent = parent, sd_kind = kind, sd_definition_name = None,
                   sd_packing = None, sd_is_hidden = False\<rparr>],
               vh_scope_ids := (vh_scope_ids h)((parent, spelling) \<mapsto> index),
               vh_stack := index # vh_stack h\<rparr>))"

definition header_scope :: "tokens \<Rightarrow> vcd_header \<Rightarrow> error + vcd_header \<times> tokens" where
  "header_scope tk h =
    and_then (required tk) (\<lambda>(raw, tk1).
    and_then (and_then (utf8 raw) scope_kind) (\<lambda>kind.
    and_then (required tk1) (\<lambda>(spelling, tk2).
    and_then (vcd_name spelling) (\<lambda>name.
    and_then (expect_end tk2) (\<lambda>tk3.
      case enter_scope kind spelling name h of
        None \<Rightarrow> Inl (token_error tk3 ''conflicting scope kind'')
      | Some h' \<Rightarrow> Inr (h', tk3))))))"

definition header_upscope :: "tokens \<Rightarrow> vcd_header \<Rightarrow> error + vcd_header \<times> tokens" where
  "header_upscope tk h =
    and_then (expect_end tk) (\<lambda>tk'.
      case vh_stack h of
        [] \<Rightarrow> Inl (token_error tk' ''scope stack underflow'')
      | _ # stack \<Rightarrow> Inr (h\<lparr>vh_stack := stack\<rparr>, tk'))"

section \<open>Variables\<close>

definition bit_kinds :: "string list" where
  "bit_kinds =
    [''wire'', ''reg'', ''parameter'', ''integer'', ''time'', ''supply0'', ''supply1'', ''tri'',
     ''triand'', ''trior'', ''trireg'', ''tri0'', ''tri1'', ''wand'', ''wor'', ''bit'', ''logic'',
     ''int'', ''shortint'', ''longint'', ''byte'', ''enum'', ''port'']"

definition var_encoding :: "string \<Rightarrow> u32 \<Rightarrow> encoding option" where
  "var_encoding kind width =
    (if kind = ''event'' then Some Event
     else if kind \<in> {''real'', ''realtime'', ''shortreal'', ''real_parameter''} then Some Real
     else if kind = ''string'' then Some String
     else if kind \<in> set bit_kinds then Some (if width = 0 then Unsupported else Bits width)
     else None)"

text \<open>The width: decimal digits only, in 32 bits.\<close>

definition var_width :: "string \<Rightarrow> u32 option" where
  "var_width bytes = (if list_all is_ascii_digit bytes then parse_u32 bytes else None)"

definition is_identifier_byte :: "char \<Rightarrow> bool" where
  "is_identifier_byte c \<longleftrightarrow> 33 \<le> byte c \<and> byte c \<le> 126"

function read_suffix :: "string \<Rightarrow> tokens \<Rightarrow> error + string \<times> tokens" where
  "read_suffix suffix tk =
    and_then (required tk) (\<lambda>(word, tk').
      if word = ''$end'' then Inr (suffix, tk') else read_suffix (suffix @ word) tk')"
  by pat_completeness auto
termination
  by (relation "measure (\<lambda>(_, tk). length (tk_bytes tk))") (auto dest: required_shrinks)

declare read_suffix.simps [simp del]

text \<open>The signal of an identifier code; an alias must have the same storage.\<close>

definition declare_id :: "string \<Rightarrow> encoding \<Rightarrow> vcd_header \<Rightarrow> (nat \<times> vcd_header) option" where
  "declare_id code encoding h =
    (case map_of (vh_ids h) code of
       Some index \<Rightarrow> if vh_encodings h ! index \<noteq> encoding then None else Some (index, h)
     | None \<Rightarrow>
         let index = length (vh_encodings h)
         in Some (index, h\<lparr>vh_encodings := vh_encodings h @ [encoding],
              vh_ids := (code, index) # vh_ids h\<rparr>))"

text \<open>Repeated declarations are kept once.\<close>

definition declare_variable ::
    "string \<Rightarrow> string \<Rightarrow> string \<Rightarrow> bit_range option \<Rightarrow> nat \<Rightarrow> vcd_header \<Rightarrow> vcd_header" where
  "declare_variable raw_kind reference name bounds index h =
    (let parent = innermost (vh_stack h);
         kind = replace_char CHR ''_'' CHR ''-'' raw_kind;
         key = (parent, reference, kind, index, map_option (\<lambda>r. (range_msb r, range_lsb r)) bounds)
     in if key \<in> vh_declarations h then h
        else h\<lparr>vh_declarations := insert key (vh_declarations h),
               vh_variables := vh_variables h @
                 [\<lparr>vd_name = name, vd_reader_name = None,
                   vd_name_was_escaped = starts_with reference [CHR 0x5C], vd_parent = parent,
                   vd_kind = kind, vd_direction = DirImplicit, vd_range = bounds,
                   vd_is_constant = kind \<in> {''parameter'', ''real-parameter''},
                   vd_type_name = None, vd_signedness = None, vd_logic_domain = None,
                   vd_enumeration = None, vd_signal = Some index\<rparr>]\<rparr>)"

definition header_var :: "tokens \<Rightarrow> vcd_header \<Rightarrow> error + vcd_header \<times> tokens" where
  "header_var tk h =
    and_then (required tk) (\<lambda>(raw, tk1).
    and_then (utf8 raw) (\<lambda>kind.
    and_then (required tk1) (\<lambda>(width_token, tk2).
    and_then (ok_or (token_error tk2 ''invalid width'') (var_width width_token)) (\<lambda>width.
    and_then (required tk2) (\<lambda>(code, tk3).
    if \<not> list_all is_identifier_byte code then Inl (token_error tk3 ''invalid identifier code'')
    else and_then (required tk3) (\<lambda>(reference, tk4).
    and_then (read_suffix [] tk4) (\<lambda>(suffix, tk5).
    and_then (ok_or (token_error tk5 ''unsupported variable kind'') (var_encoding kind width)) (\<lambda>encoding.
    and_then (ok_or (token_error tk5 ''incompatible aliases'') (declare_id code encoding h)) (\<lambda>(index, h').
    and_then (reference_name reference suffix encoding) (\<lambda>(name, bounds).
      Inr (declare_variable kind reference name bounds index h', tk5)))))))))))"

section \<open>Header commands\<close>

text \<open>A text that only goes into the metadata.\<close>

definition header_text ::
    "tokens \<Rightarrow> vcd_header \<Rightarrow> (string \<Rightarrow> metadata \<Rightarrow> error + metadata) \<Rightarrow> error + vcd_header \<times> tokens" where
  "header_text tk h put =
    and_then (token_text tk) (\<lambda>(t, tk').
    and_then (put t (vh_metadata h)) (\<lambda>m. Inr (h\<lparr>vh_metadata := m\<rparr>, tk')))"

definition header_timezero :: "tokens \<Rightarrow> vcd_header \<Rightarrow> error + vcd_header \<times> tokens" where
  "header_timezero tk h =
    and_then (token_text tk) (\<lambda>(t, tk').
    and_then (integer t) (\<lambda>n.
      if n \<noteq> 0 then Inl (token_error tk' ''nonzero timezero is unsupported'') else Inr (h, tk')))"

definition store_date :: "string \<Rightarrow> metadata \<Rightarrow> error + metadata" where
  "store_date t m = Inr (m\<lparr>md_date := Some t\<rparr>)"

definition store_writer :: "string \<Rightarrow> metadata \<Rightarrow> error + metadata" where
  "store_writer t m = Inr (m\<lparr>md_writer := Some t\<rparr>)"

definition store_comment :: "string \<Rightarrow> metadata \<Rightarrow> error + metadata" where
  "store_comment t m = Inr (m\<lparr>md_comments := md_comments m @ [t]\<rparr>)"

definition store_timescale :: "string \<Rightarrow> metadata \<Rightarrow> error + metadata" where
  "store_timescale t m = and_then (timescale_text t) (\<lambda>s. Inr (m\<lparr>md_timescale := Some s\<rparr>))"

definition ignore_text :: "string \<Rightarrow> metadata \<Rightarrow> error + metadata" where
  "ignore_text t m = Inr m"

text \<open>One command; a number is the offset of the body and ends the header.\<close>

definition header_command ::
    "vcd_input \<Rightarrow> nat \<Rightarrow> string \<Rightarrow> tokens \<Rightarrow> vcd_header \<Rightarrow> error + vcd_header \<times> tokens \<times> nat option" where
  "header_command input start command tk h =
    (let more = (\<lambda>r. and_then r (\<lambda>(h', tk'). Inr (h', tk', None)))
     in if command = ''$date'' then more (header_text tk h store_date)
        else if command = ''$version'' then more (header_text tk h store_writer)
        else if command = ''$comment'' then more (header_text tk h store_comment)
        else if command = ''$timescale'' then more (header_text tk h store_timescale)
        else if command \<in> {''$attrbegin'', ''$attrend''} then more (header_text tk h ignore_text)
        else if command = ''$timezero'' then more (header_timezero tk h)
        else if command = ''$dumpvars'' \<and> vh_stack h = [] then
          Inr (h, seek_input input start, Some start)
        else if command = ''$scope'' then more (header_scope tk h)
        else if command = ''$upscope'' then more (header_upscope tk h)
        else if command = ''$var'' then more (header_var tk h)
        else if command = ''$enddefinitions'' then
          and_then (expect_end tk) (\<lambda>tk'. Inr (h, tk', Some (tk_offset tk')))
        else Inl (token_error tk ''unsupported header command''))"

text \<open>The command of the loop, without the byte order mark at the start of the file.\<close>

definition header_word :: "tokens \<Rightarrow> error + string \<times> tokens" where
  "header_word tk =
    and_then (required tk) (\<lambda>(command, tk').
      if tk_offset tk = 0 \<and> starts_with command [CHR 0xEF, CHR 0xBB, CHR 0xBF] then
        (if drop 3 command = [] then required tk' else Inr (drop 3 command, tk'))
      else Inr (command, tk'))"

lemma required_moves_shrinks:
  "required tk = Inr (w, tk') \<Longrightarrow> moves tk tk' \<and> length (tk_bytes tk') < length (tk_bytes tk)"
  by (auto dest: required_moves required_shrinks)

lemma header_word_moves:
  "header_word tk = Inr (w, tk') \<Longrightarrow> moves tk tk' \<and> length (tk_bytes tk') < length (tk_bytes tk)"
  by (auto simp: header_word_def dest!: required_moves_shrinks split: if_splits
      intro: moves_trans less_trans)

lemma expect_end_moves: "expect_end tk = Inr tk' \<Longrightarrow> moves tk tk'"
  by (auto simp: expect_end_def dest: required_moves split: if_splits)

lemma read_suffix_moves: "read_suffix suffix tk = Inr (out, tk') \<Longrightarrow> moves tk tk'"
proof (induction suffix tk rule: read_suffix.induct)
  case (1 suffix tk)
  from 1(2) show ?case
    by (subst (asm) read_suffix.simps) (auto split: if_splits dest: required_moves intro: moves_trans 1(1))
qed

lemma header_text_moves: "header_text tk h put = Inr (h', tk') \<Longrightarrow> moves tk tk'"
  by (auto simp: header_text_def dest: token_text_moves)

lemma header_timezero_moves: "header_timezero tk h = Inr (h', tk') \<Longrightarrow> moves tk tk' \<and> h' = h"
  by (auto simp: header_timezero_def dest: token_text_moves split: if_splits)

lemma header_scope_moves: "header_scope tk h = Inr (h', tk') \<Longrightarrow> moves tk tk'"
  by (auto simp: header_scope_def dest!: required_moves expect_end_moves split: option.splits
      intro: moves_trans)

lemma header_upscope_moves: "header_upscope tk h = Inr (h', tk') \<Longrightarrow> moves tk tk'"
  by (cases "vh_stack h") (auto simp: header_upscope_def dest: expect_end_moves)

lemma header_var_moves:
  assumes "header_var tk h = Inr (h', tk')"
  shows "moves tk tk'"
proof -
  from assms obtain raw tk1 wt tk2 code tk3 rf tk4 sf where
    "required tk = Inr (raw, tk1)" "required tk1 = Inr (wt, tk2)" "required tk2 = Inr (code, tk3)"
    "required tk3 = Inr (rf, tk4)" and s: "read_suffix [] tk4 = Inr (sf, tk')"
    by (auto simp: header_var_def split: if_splits)
  then have "moves tk tk1" "moves tk1 tk2" "moves tk2 tk3" "moves tk3 tk4"
    by (auto dest: required_moves)
  then have "moves tk tk4" by (meson moves_trans)
  with read_suffix_moves [OF s] show ?thesis by (rule moves_trans [rotated])
qed

lemmas header_moves = header_text_moves header_timezero_moves header_scope_moves
  header_upscope_moves header_var_moves

lemma more_Inr: "and_then r (\<lambda>(h, tk). Inr (h, tk, None)) = Inr (h', tk', body) \<longleftrightarrow> r = Inr (h', tk') \<and> body = None"
  by auto

lemma if_either: "(if P then a else b) = r \<Longrightarrow> (a = r \<Longrightarrow> Q) \<Longrightarrow> (b = r \<Longrightarrow> Q) \<Longrightarrow> Q"
  by (cases P) simp_all

text \<open>What a command that does not end the header ran.\<close>

lemma header_command_cases:
  assumes "header_command input start command tk h = Inr (h', tk', None)"
  obtains (noted) put where "header_text tk h put = Inr (h', tk')"
  | (zero) "header_timezero tk h = Inr (h', tk')"
  | (scope) "header_scope tk h = Inr (h', tk')"
  | (upscope) "header_upscope tk h = Inr (h', tk')"
  | (var) "header_var tk h = Inr (h', tk')"
proof -
  have "(\<exists>put. header_text tk h put = Inr (h', tk')) \<or> header_timezero tk h = Inr (h', tk') \<or>
      header_scope tk h = Inr (h', tk') \<or> header_upscope tk h = Inr (h', tk') \<or> header_var tk h = Inr (h', tk')"
    using assms unfolding header_command_def Let_def
    by (elim if_either) (auto simp: more_Inr)
  then show ?thesis using that by blast
qed

lemma header_command_moves:
  assumes "header_command input start command tk h = Inr (h', tk', None)"
  shows "moves tk tk'"
  using assms by (cases rule: header_command_cases) (auto dest: header_moves)

section \<open>The header\<close>

function header_loop :: "vcd_input \<Rightarrow> tokens \<Rightarrow> vcd_header \<Rightarrow> error + vcd_header \<times> tokens \<times> nat" where
  "header_loop input tk h =
    and_then (header_word tk) (\<lambda>(command, tk1).
    and_then (header_command input (tk_offset tk) command tk1 h) (\<lambda>(h', tk2, body).
      case body of Some b \<Rightarrow> Inr (h', tk2, b) | None \<Rightarrow> header_loop input tk2 h'))"
  by pat_completeness auto
termination
 apply (relation "measure (\<lambda>(_, tk, _). length (tk_bytes tk))")
 apply simp
 apply (auto dest!: header_word_moves header_command_moves moves_shorter)
 done

declare header_loop.simps [simp del]

text \<open>
  The direct table of identifier codes, when the codes are dense. The codes come out of a
  hash map in any order; the numbers of different codes differ, so the order does not matter.
\<close>

definition max_identifier :: "(string \<times> nat) list \<Rightarrow> nat option" where
  "max_identifier ids =
    fold (\<lambda>(code, _) acc. Option.bind acc (\<lambda>m. map_option (max m) (identifier_number code))) ids (Some 0)"

definition dense_table :: "(string \<times> nat) list \<Rightarrow> nat option list" where
  "dense_table ids =
    (case max_identifier ids of
       Some m \<Rightarrow>
         if m < length ids * 2 then
           fold (\<lambda>(code, index) table. table[the (identifier_number code) := Some index]) ids
             (replicate (m + 1) None)
         else []
     | None \<Rightarrow> [])"

text \<open>The reader before its first walk, the state of that walk, and what it leaves.\<close>

definition opened :: "vcd_input \<Rightarrow> vcd_header \<Rightarrow> nat \<Rightarrow> vcd" where
  "opened input h body =
    \<lparr>vr_bytes = vr_bytes input, vr_fail = vr_fail input, vr_cuts = vr_cuts input, vr_body = body,
     vr_ids = vh_ids h, vr_dense = dense_table (vh_ids h), vr_encodings = vh_encodings h\<rparr>"

definition opening_walker :: "vcd_header \<Rightarrow> tokens \<Rightarrow> walker" where
  "opening_walker h tk =
    \<lparr>wk_tokens = tk, wk_time = 0, wk_span = None, wk_block = False,
     wk_seen = replicate (length (vh_encodings h)) False, wk_encodings = vh_encodings h,
     wk_comments = md_comments (vh_metadata h)\<rparr>"

definition header_read :: "vcd_input \<Rightarrow> string \<Rightarrow> error + vcd_header \<times> tokens \<times> nat" where
  "header_read input source_name =
    and_then (header_loop input (seek_input input 0) (header_start source_name)) (\<lambda>(h, tk, body).
      if vh_stack h \<noteq> [] then Inl (token_error tk ''unclosed scopes'')
      else if vh_variables h = [] then Inl (token_error tk ''no variable declarations'')
      else Inr (h, tk, body))"

definition vcd_open ::
    "(string \<Rightarrow> u64 option) \<Rightarrow> u64 \<Rightarrow> vcd_input \<Rightarrow> string \<Rightarrow> error + vcd \<times> hierarchy \<times> metadata" where
  "vcd_open parse_f64 source input source_name =
    and_then (header_read input source_name) (\<lambda>(h, tk, body).
    and_then (snd (walk parse_f64 (opened input h body) (- 1) None (opening_walker h tk))) (\<lambda>(w, _).
      Inr ((opened input h body)\<lparr>vr_encodings := wk_encodings w\<rparr>,
           \<lparr>hi_source = source, hi_scopes = vh_scopes h, hi_variables = vh_variables h,
            hi_encodings = wk_encodings w\<rparr>,
           (vh_metadata h)\<lparr>md_time_span := wk_span w, md_comments := wk_comments w\<rparr>)))"

end
