(* ===== verification/Ondas_Vcd_Open.thy ===== *)
theory Ondas_Vcd_Open
  imports Ondas_Vcd_Header
begin

text \<open>
  What opening a VCD file establishes: a well-formed hierarchy whose declarations fit their
  signals, a direct table of identifier codes that agrees with the map, and a body that
  every later read gets through.
\<close>

section \<open>The header keeps the declarations well formed\<close>

definition range_fits :: "bit_range option \<Rightarrow> encoding \<Rightarrow> bool" where
  "range_fits bounds encoding \<longleftrightarrow>
    (\<forall>r. bounds = Some r \<longrightarrow>
      (\<exists>w. encoding = Bits w \<and> \<bar>sint (range_msb r) - sint (range_lsb r)\<bar> + 1 = uint w))"

definition variable_ok :: "nat \<Rightarrow> encoding list \<Rightarrow> variable_data \<Rightarrow> bool" where
  "variable_ok scopes encodings v \<longleftrightarrow>
    (\<forall>p. vd_parent v = Some p \<longrightarrow> p < scopes) \<and>
    (\<exists>i < length encodings. vd_signal v = Some i \<and> range_fits (vd_range v) (encodings ! i))"

definition scopes_ok :: "scope_data list \<Rightarrow> bool" where
  "scopes_ok scopes \<longleftrightarrow> (\<forall>i < length scopes. \<forall>p. sd_parent (scopes ! i) = Some p \<longrightarrow> p < i)"

definition declared :: "variable_data list \<Rightarrow> nat \<Rightarrow> bool" where
  "declared variables i \<longleftrightarrow> (\<exists>v \<in> set variables. vd_signal v = Some i)"

definition header_inv :: "vcd_header \<Rightarrow> bool" where
  "header_inv h \<longleftrightarrow>
    scopes_ok (vh_scopes h) \<and>
    list_all (\<lambda>p. p < length (vh_scopes h)) (vh_stack h) \<and>
    (\<forall>k i. vh_scope_ids h k = Some i \<longrightarrow> i < length (vh_scopes h)) \<and>
    list_all (variable_ok (length (vh_scopes h)) (vh_encodings h)) (vh_variables h) \<and>
    distinct (map fst (vh_ids h)) \<and>
    map snd (vh_ids h) = rev [0..<length (vh_encodings h)] \<and>
    (\<forall>(parent, reference, kind, i, bounds) \<in> vh_declarations h. declared (vh_variables h) i)"

definition all_declared :: "nat set \<Rightarrow> vcd_header \<Rightarrow> bool" where
  "all_declared pending h \<longleftrightarrow>
    (\<forall>i < length (vh_encodings h). i \<in> pending \<or> declared (vh_variables h) i)"

lemma header_inv_start: "header_inv (header_start name)" "all_declared {} (header_start name)"
  by (simp_all add: header_inv_def header_start_def scopes_ok_def all_declared_def)

lemma innermost_in: "list_all P stack \<Longrightarrow> innermost stack = Some p \<Longrightarrow> P p"
  by (cases stack) (simp_all add: innermost_def)

lemma variable_ok_mono:
  "variable_ok n encodings v \<Longrightarrow> n \<le> m \<Longrightarrow> variable_ok m (encodings @ later) v"
  by (fastforce simp: variable_ok_def nth_append)

lemma scopes_ok_append:
  assumes "scopes_ok scopes" and "\<And>p. sd_parent s = Some p \<Longrightarrow> p < length scopes"
  shows "scopes_ok (scopes @ [s])"
  using assms unfolding scopes_ok_def by (auto simp: nth_append less_Suc_eq)

lemma declared_append [simp]: "declared (vs @ ws) i \<longleftrightarrow> declared vs i \<or> declared ws i"
  by (auto simp: declared_def)

lemma list_all_mono: "list_all P xs \<Longrightarrow> (\<And>x. P x \<Longrightarrow> Q x) \<Longrightarrow> list_all Q xs"
  by (simp add: list_all_iff)

lemma enter_scope_inv:
  assumes "enter_scope kind spelling name h = Some h'" and "header_inv h"
  shows "header_inv h'"
proof (cases "vh_scope_ids h (innermost (vh_stack h), spelling)")
  case (Some i)
  with assms(1) have h': "h' = h\<lparr>vh_stack := i # vh_stack h\<rparr>"
    by (simp add: enter_scope_def Let_def split: if_splits)
  have "i < length (vh_scopes h)" using assms(2) Some unfolding header_inv_def by blast
  with assms(2) show ?thesis unfolding h' header_inv_def by simp
next
  case None
  let ?n = "length (vh_scopes h)"
  define s where "s = \<lparr>sd_name = name, sd_name_was_escaped = starts_with spelling [CHR 0x5C],
      sd_parent = innermost (vh_stack h), sd_kind = kind, sd_definition_name = None, sd_packing = None,
      sd_is_hidden = False\<rparr>"
  have s: "sd_parent s = innermost (vh_stack h)" by (simp add: s_def)
  have h': "h' = h\<lparr>vh_scopes := vh_scopes h @ [s],
      vh_scope_ids := (vh_scope_ids h)((innermost (vh_stack h), spelling) \<mapsto> ?n),
      vh_stack := ?n # vh_stack h\<rparr>"
    using None assms(1) by (auto simp: enter_scope_def Let_def s_def)
  have stack: "list_all (\<lambda>p. p < ?n) (vh_stack h)" using assms(2) by (simp add: header_inv_def)
  then have "scopes_ok (vh_scopes h @ [s])"
    using assms(2) innermost_in [OF stack] by (intro scopes_ok_append) (simp_all add: header_inv_def s)
  moreover have "list_all (\<lambda>p. p < Suc ?n) (?n # vh_stack h)" using stack by (auto elim: list_all_mono)
  moreover have "list_all (variable_ok (Suc ?n) (vh_encodings h)) (vh_variables h)"
    using assms(2) variable_ok_mono [of ?n "vh_encodings h" _ "Suc ?n" "[]"]
    by (auto simp: header_inv_def elim: list_all_mono)
  moreover have "\<forall>k i. ((vh_scope_ids h)((innermost (vh_stack h), spelling) \<mapsto> ?n)) k = Some i \<longrightarrow> i < Suc ?n"
    using assms(2) by (auto simp: header_inv_def less_Suc_eq)
  ultimately show ?thesis using assms(2) unfolding h' header_inv_def by simp
qed

lemma ids_index:
  assumes "header_inv h" and "map_of (vh_ids h) code = Some i"
  shows "i < length (vh_encodings h)"
proof -
  have "i \<in> set (map snd (vh_ids h))" using map_of_SomeD [OF assms(2)] by force
  moreover have "map snd (vh_ids h) = rev [0..<length (vh_encodings h)]" using assms(1) by (simp add: header_inv_def)
  ultimately show ?thesis by simp
qed

lemma declare_id_inv:
  assumes "declare_id code encoding h = Some (i, h')" and "header_inv h" and "all_declared {} h"
  shows "header_inv h' \<and> all_declared {i} h' \<and> i < length (vh_encodings h') \<and>
    vh_encodings h' ! i = encoding \<and> vh_scopes h' = vh_scopes h \<and> vh_variables h' = vh_variables h"
proof (cases "map_of (vh_ids h) code")
  case (Some j)
  with assms ids_index [OF assms(2) Some] show ?thesis
    by (auto simp: declare_id_def all_declared_def split: if_splits)
next
  case None
  let ?n = "length (vh_encodings h)"
  from None assms(1) have h': "i = ?n"
    "h' = h\<lparr>vh_encodings := vh_encodings h @ [encoding], vh_ids := (code, ?n) # vh_ids h\<rparr>"
    by (auto simp: declare_id_def Let_def)
  have "list_all (variable_ok (length (vh_scopes h)) (vh_encodings h @ [encoding])) (vh_variables h)"
    using assms(2) variable_ok_mono [of "length (vh_scopes h)" "vh_encodings h" _ "length (vh_scopes h)" "[encoding]"]
    by (auto simp: header_inv_def elim: list_all_mono)
  moreover have "code \<notin> set (map fst (vh_ids h))" using None by (simp add: map_of_eq_None_iff)
  ultimately show ?thesis using assms(2,3) unfolding h' header_inv_def
    by (auto simp: all_declared_def less_Suc_eq)
qed

lemma declare_variable_inv:
  assumes "header_inv h" and "all_declared {i} h" and "i < length (vh_encodings h)"
    and "range_fits bounds (vh_encodings h ! i)"
  shows "header_inv (declare_variable kind reference name bounds i h) \<and>
    all_declared {} (declare_variable kind reference name bounds i h) \<and>
    vh_scopes (declare_variable kind reference name bounds i h) = vh_scopes h \<and>
    length (vh_variables (declare_variable kind reference name bounds i h)) \<le> Suc (length (vh_variables h))"
proof -
  let ?key = "(innermost (vh_stack h), reference, replace_char CHR ''_'' CHR ''-'' kind, i,
    map_option (\<lambda>r. (range_msb r, range_lsb r)) bounds)"
  show ?thesis
  proof (cases "?key \<in> vh_declarations h")
    case True
    then have "declare_variable kind reference name bounds i h = h" by (simp add: declare_variable_def Let_def)
    moreover have "declared (vh_variables h) i" using assms(1) True unfolding header_inv_def by fastforce
    ultimately show ?thesis using assms(1,2) by (auto simp: all_declared_def)
  next
    case False
    define v where "v = \<lparr>vd_name = name, vd_reader_name = None,
        vd_name_was_escaped = starts_with reference [CHR 0x5C], vd_parent = innermost (vh_stack h),
        vd_kind = replace_char CHR ''_'' CHR ''-'' kind, vd_direction = DirImplicit, vd_range = bounds,
        vd_is_constant = replace_char CHR ''_'' CHR ''-'' kind \<in> {''parameter'', ''real-parameter''},
        vd_type_name = None, vd_signedness = None, vd_logic_domain = None,
        vd_enumeration = None, vd_signal = Some i\<rparr>"
    have v: "vd_parent v = innermost (vh_stack h)" "vd_signal v = Some i" "vd_range v = bounds"
      by (simp_all add: v_def)
    from False have h': "declare_variable kind reference name bounds i h =
        h\<lparr>vh_declarations := insert ?key (vh_declarations h), vh_variables := vh_variables h @ [v]\<rparr>"
      by (simp add: declare_variable_def Let_def v_def)
    have "list_all (\<lambda>p. p < length (vh_scopes h)) (vh_stack h)" using assms(1) by (simp add: header_inv_def)
    from innermost_in [OF this] have "variable_ok (length (vh_scopes h)) (vh_encodings h) v"
      using assms(3,4) by (auto simp: variable_ok_def v)
    moreover have "declared [v] i" using v by (simp add: declared_def)
    ultimately show ?thesis using assms(1,2) unfolding h' header_inv_def
      by (auto simp: all_declared_def)
  qed
qed

lemma header_var_inv:
  assumes "header_var tk h = Inr (h', tk')" and "header_inv h" and "all_declared {} h"
  shows "header_inv h' \<and> all_declared {} h' \<and> vh_scopes h' = vh_scopes h \<and>
    length (vh_variables h') \<le> Suc (length (vh_variables h))"
proof -
  from assms(1) obtain code encoding i h1 kind reference suffix name bounds where
    id: "declare_id code encoding h = Some (i, h1)"
    and r: "reference_name reference suffix encoding = Inr (name, bounds)"
    and h': "h' = declare_variable kind reference name bounds i h1"
    by (auto simp: header_var_def split: if_splits)
  note D = declare_id_inv [OF id assms(2,3)]
  have "range_fits bounds (vh_encodings h1 ! i)"
    using r D by (auto simp: range_fits_def dest: reference_name_range)
  with D declare_variable_inv [of h1 i bounds kind reference name] show ?thesis unfolding h' by auto
qed

text \<open>What holds in front of every command of the header.\<close>

definition declarations_read :: "vcd_header \<Rightarrow> nat" where
  "declarations_read h = length (vh_scopes h) + length (vh_variables h)"

definition loop_inv :: "vcd_input \<Rightarrow> tokens \<Rightarrow> vcd_header \<Rightarrow> bool" where
  "loop_inv input tk h \<longleftrightarrow>
    header_inv h \<and> all_declared {} h \<and> in_file input tk \<and>
    declarations_read h + length (tk_bytes tk) \<le> length (vr_bytes input)"

lemma header_command_inv:
  assumes "header_command input start command tk h = Inr (h', tk', None)"
    and "header_inv h" and "all_declared {} h"
  shows "header_inv h' \<and> all_declared {} h' \<and> declarations_read h' \<le> Suc (declarations_read h)"
  using assms(1)
proof (cases rule: header_command_cases)
  case (noted put)
  with assms(2,3) show ?thesis
    by (auto simp: header_text_def header_inv_def all_declared_def declarations_read_def)
next
  case zero
  with assms(2,3) show ?thesis by (auto dest: header_timezero_moves)
next
  case scope
  then obtain kind spelling name where e: "enter_scope kind spelling name h = Some h'"
    by (auto simp: header_scope_def split: option.splits)
  then have "declarations_read h' \<le> Suc (declarations_read h)" "all_declared {} h'"
    using assms(3) by (auto simp: enter_scope_def Let_def declarations_read_def all_declared_def
        split: option.splits if_splits)
  with enter_scope_inv [OF e assms(2)] show ?thesis by simp
next
  case upscope
  then obtain p stack where "vh_stack h = p # stack" "h' = h\<lparr>vh_stack := stack\<rparr>"
    by (cases "vh_stack h") (auto simp: header_upscope_def)
  with assms(2,3) show ?thesis
    by (simp add: header_inv_def all_declared_def declarations_read_def)
next
  case var
  from header_var_inv [OF this assms(2,3)] show ?thesis by (simp add: declarations_read_def)
qed

lemma header_command_body:
  assumes "header_command input start command tk h = Inr (h', tk', Some body)"
  shows "h' = h \<and> body = tk_offset tk' \<and> (tk' = seek_input input start \<or> moves tk tk')"
  using assms unfolding header_command_def Let_def
  by (elim if_either) (auto simp: seek_input_def dest: expect_end_moves)

lemma header_loop_inv:
  "header_loop input tk h = Inr (h', tk', body) \<Longrightarrow> loop_inv input tk h \<Longrightarrow>
    header_inv h' \<and> all_declared {} h' \<and> in_file input tk' \<and> body = tk_offset tk' \<and>
    declarations_read h' \<le> length (vr_bytes input)"
proof (induction input tk h rule: header_loop.induct)
  case (1 input tk h)
  from 1(2) obtain command tk1 h2 tk2 next_body where
    w: "header_word tk = Inr (command, tk1)"
    and c: "header_command input (tk_offset tk) command tk1 h = Inr (h2, tk2, next_body)"
    and rest: "(case next_body of Some b \<Rightarrow> Inr (h2, tk2, b) | None \<Rightarrow> header_loop input tk2 h2) = Inr (h', tk', body)"
    by (auto simp: header_loop.simps [of input tk h])
  have inv: "header_inv h" "all_declared {} h" and inside: "in_file input tk"
    and size: "declarations_read h + length (tk_bytes tk) \<le> length (vr_bytes input)"
    using 1(3) by (simp_all add: loop_inv_def)
  have tk1: "in_file input tk1" "length (tk_bytes tk1) < length (tk_bytes tk)"
    using header_word_moves [OF w] inside by (auto intro: in_file_moves)
  show ?case
  proof (cases next_body)
    case (Some b)
    with rest header_command_body [of input "tk_offset tk" command tk1 h h2 tk2 b] c inv size tk1
    show ?thesis by (auto intro: in_file_moves)
  next
    case None
    note C = header_command_inv [OF c [unfolded None] inv] header_command_moves [OF c [unfolded None]]
    have "length (tk_bytes tk2) \<le> length (tk_bytes tk1)" using C(2) by (rule moves_shorter)
    with C tk1 size have "loop_inv input tk2 h2" by (auto simp: loop_inv_def intro: in_file_moves)
    with 1(1) [OF w refl c refl refl None] rest None show ?thesis by simp
  qed
qed

lemma header_read_inv:
  assumes "header_read input name = Inr (h, tk, body)"
  shows "header_inv h \<and> all_declared {} h \<and> in_file input tk \<and> body = tk_offset tk \<and>
    declarations_read h \<le> length (vr_bytes input) \<and> vh_variables h \<noteq> []"
proof -
  from assms have l: "header_loop input (seek_input input 0) (header_start name) = Inr (h, tk, body)"
    and v: "vh_variables h \<noteq> []"
    by (auto simp: header_read_def split: if_splits)
  have "loop_inv input (seek_input input 0) (header_start name)"
    using header_inv_start [of name]
    by (simp add: loop_inv_def) (simp add: declarations_read_def header_start_def seek_input_def tk_bytes_def)
  from header_loop_inv [OF l this] v show ?thesis by simp
qed

section \<open>The direct table of identifier codes\<close>

lemma max_identifier_fold:
  "fold (\<lambda>(code, _) acc. Option.bind acc (\<lambda>m. map_option (max m) (identifier_number code))) ids acc = Some m \<Longrightarrow>
    (\<exists>m0. acc = Some m0 \<and> m0 \<le> m) \<and> (\<forall>(code, i) \<in> set ids. \<exists>n. identifier_number code = Some n \<and> n \<le> m)"
proof (induction ids arbitrary: acc)
  case Nil
  then show ?case by simp
next
  case (Cons x ids)
  obtain code i where x: "x = (code, i)" by fastforce
  from Cons x show ?case by (cases acc; cases "identifier_number code") force+
qed

lemma dense_fold:
  assumes "identifier_number code = Some n" and "n < length table"
    and "\<And>c i. (c, i) \<in> set ids \<Longrightarrow> \<exists>m. identifier_number c = Some m"
    and "distinct (map fst ids)"
  shows "fold (\<lambda>(code, index) t. t[the (identifier_number code) := Some index]) ids table ! n =
    (case map_of ids code of Some i \<Rightarrow> Some i | None \<Rightarrow> table ! n)"
  using assms(2-)
proof (induction ids arbitrary: table)
  case Nil
  then show ?case by simp
next
  case (Cons x ids)
  obtain c i where x: "x = (c, i)" by fastforce
  obtain m where m: "identifier_number c = Some m" using Cons.prems(2) [of c i] x by auto
  have IH: "fold (\<lambda>(code, index) t. t[the (identifier_number code) := Some index]) ids (table[m := Some i]) ! n =
      (case map_of ids code of Some i \<Rightarrow> Some i | None \<Rightarrow> table[m := Some i] ! n)"
    using Cons.prems by (intro Cons.IH) auto
  show ?case
  proof (cases "c = code")
    case True
    then have "map_of ids code = None" "m = n"
      using Cons.prems(3) x m assms(1) by (auto simp: map_of_eq_None_iff)
    with IH m x True Cons.prems(1) show ?thesis by simp
  next
    case False
    then have "m \<noteq> n" using identifier_number_inj [OF assms(1)] m by auto
    with IH m x False show ?thesis by (simp split: option.split)
  qed
qed

lemma dense_table_spec:
  assumes "dense_table ids \<noteq> []" and "identifier_number code = Some n" and "n < length (dense_table ids)"
    and "distinct (map fst ids)"
  shows "dense_table ids ! n = map_of ids code"
proof -
  obtain m where m: "max_identifier ids = Some m"
    and t: "dense_table ids = fold (\<lambda>(code, index) t. t[the (identifier_number code) := Some index]) ids
      (replicate (m + 1) None)"
    using assms(1) by (auto simp: dense_table_def split: option.splits if_splits)
  have known: "\<exists>m. identifier_number c = Some m" if "(c, i) \<in> set ids" for c i
    using max_identifier_fold [OF m [unfolded max_identifier_def]] that by fastforce
  have "length (fold (\<lambda>(code, index) t. t[the (identifier_number code) := Some index]) ids table) = length table"
    for table :: "nat option list"
    by (induction ids arbitrary: table) auto
  then have n: "n < length (replicate (m + 1) (None :: nat option))" using assms(3) by (simp add: t)
  then have "replicate (m + 1) (None :: nat option) ! n = None" by (intro nth_replicate) simp
  with dense_fold [OF assms(2) n known assms(4)] show ?thesis
    unfolding t by (simp split: option.split)
qed

lemma lookup_dense:
  assumes "distinct (map fst (vr_ids r))" and "vr_dense r = dense_table (vr_ids r)"
  shows "lookup_index r code = map_of (vr_ids r) code"
proof (cases "dense_table (vr_ids r) = []")
  case True
  with assms show ?thesis by (simp add: lookup_index_def)
next
  case False
  with assms dense_table_spec [OF False _ _ assms(1)] show ?thesis
    by (cases "identifier_number code") (auto simp: lookup_index_def split: option.split)
qed

section \<open>The walk of the opening\<close>

text \<open>What the rest of the walk may still change.\<close>

definition widens :: "time_span option \<Rightarrow> time_span option \<Rightarrow> bool" where
  "widens a b \<longleftrightarrow>
    (\<forall>s. a = Some s \<longrightarrow> (\<exists>s'. b = Some s' \<and> span_first s' = span_first s \<and> span_last s \<le> span_last s'))"

definition settled :: "encoding \<Rightarrow> encoding \<Rightarrow> bool" where
  "settled e e' \<longleftrightarrow> e' = e \<or> (e = Real \<and> e' = String)"

definition grown :: "walker \<Rightarrow> walker \<Rightarrow> bool" where
  "grown w w' \<longleftrightarrow>
    length (wk_encodings w') = length (wk_encodings w) \<and> length (wk_seen w') = length (wk_seen w) \<and>
    (\<forall>i < length (wk_encodings w). settled (wk_encodings w ! i) (wk_encodings w' ! i)) \<and>
    (\<forall>i < length (wk_seen w). wk_seen w ! i \<longrightarrow>
      wk_seen w' ! i \<and> wk_encodings w' ! i = wk_encodings w ! i) \<and>
    widens (wk_span w) (wk_span w') \<and> wk_time w \<le> wk_time w'"

lemma grown_refl [simp]: "grown w w"
  by (simp add: grown_def settled_def widens_def)

lemma grown_trans: "grown a b \<Longrightarrow> grown b c \<Longrightarrow> grown a c"
  unfolding grown_def widens_def settled_def by (intro conjI; force)

definition span_at :: "time_span option \<Rightarrow> u64 \<Rightarrow> bool" where
  "span_at span time \<longleftrightarrow>
    (case span of None \<Rightarrow> time = 0
     | Some s \<Rightarrow> span_first s \<le> Time time \<and> span_last s = Time time)"

definition open_inv :: "vcd \<Rightarrow> walker \<Rightarrow> bool" where
  "open_inv r w \<longleftrightarrow>
    length (wk_seen w) = length (wk_encodings w) \<and>
    (\<forall>code i. lookup_index r code = Some i \<longrightarrow> i < length (wk_encodings w)) \<and>
    span_at (wk_span w) (wk_time w)"

lemma open_time:
  assumes "walk_time stop offset digits tk w = Go w' n" and "open_inv r w"
  shows "n = None \<and> grown w w' \<and> open_inv r w'"
  using assms
  by (auto simp: walk_time_Go grown_def settled_def widens_def open_inv_def span_at_def split: option.splits
      intro: order_trans)

lemma open_command:
  assumes "walk_command word tk w = Go w' n" and "open_inv r w"
  shows "n = None \<and> grown w w' \<and> open_inv r w'"
  using assms
  by (auto simp: walk_command_def grown_def settled_def widens_def open_inv_def split: if_splits sum.splits)

text \<open>A record of the opening walk.\<close>

lemma open_record:
  assumes "walk_record parse_f64 r None offset word tk w = Go w' n"
  obtains payload code tk' index x where
    "record_parts word tk = Inr ((payload, code), tk')" "lookup_index r code = Some index" "n = None"
    "w' = w\<lparr>wk_tokens := tk',
       wk_encodings :=
         (if to_ascii_lowercase (hd word) = CHR ''s'' \<and> wk_encodings w ! index = Real \<and> \<not> wk_seen w ! index
          then (wk_encodings w)[index := String] else wk_encodings w),
       wk_seen := (wk_seen w)[index := True],
       wk_span := (case wk_span w of None \<Rightarrow> Some \<lparr>span_first = time_zero, span_last = time_zero\<rparr>
         | Some s \<Rightarrow> Some s)\<rparr>"
    "record_value parse_f64 tk' (wk_encodings w' ! index) (to_ascii_lowercase (hd word)) payload False
      (Time (wk_time w)) = Inr x"
  using assms
  by (cases "record_parts word tk")
    (auto simp: walk_record_def Let_def split: option.splits sum.splits)

lemma open_record_inv:
  assumes "walk_record parse_f64 r None offset word tk w = Go w' n" and "open_inv r w"
  shows "n = None \<and> grown w w' \<and> open_inv r w'"
  using assms(1)
proof (rule open_record)
  fix payload code tk' index x
  assume l: "lookup_index r code = Some index" and n: "n = None"
    and w': "w' = w\<lparr>wk_tokens := tk',
       wk_encodings :=
         (if to_ascii_lowercase (hd word) = CHR ''s'' \<and> wk_encodings w ! index = Real \<and> \<not> wk_seen w ! index
          then (wk_encodings w)[index := String] else wk_encodings w),
       wk_seen := (wk_seen w)[index := True],
       wk_span := (case wk_span w of None \<Rightarrow> Some \<lparr>span_first = time_zero, span_last = time_zero\<rparr>
         | Some s \<Rightarrow> Some s)\<rparr>"
  have i: "index < length (wk_encodings w)" "length (wk_seen w) = length (wk_encodings w)"
    using assms(2) l by (auto simp: open_inv_def)
  have "grown w w'"
    using i by (auto simp: grown_def w' settled_def widens_def nth_list_update)
  moreover have "open_inv r w'"
    using assms(2) by (auto simp: open_inv_def span_at_def w' time_zero_def split: option.splits)
  ultimately show ?thesis using n by simp
qed

lemma open_step:
  assumes "walk_step parse_f64 r stop None w = Go w' n" and "open_inv r w"
  shows "n = None \<and> grown w w' \<and> open_inv r w'"
proof (cases rule: walk_step_cases [of parse_f64 r stop None w])
  case (timed word tk)
  with assms open_time show ?thesis by fastforce
next
  case (command word tk)
  with assms open_command show ?thesis by fastforce
next
  case (recorded word tk)
  with assms open_record_inv show ?thesis by fastforce
qed (use assms in simp_all)

lemma open_stop:
  assumes "walk_step parse_f64 r stop None w = Stop w' p"
  shows "\<exists>tk. w' = w\<lparr>wk_tokens := tk\<rparr>"
proof (cases rule: walk_step_cases [of parse_f64 r stop None w])
  case (timed word tk)
  with assms show ?thesis by (auto simp: walk_time_def split: if_splits sum.splits)
next
  case (command word tk)
  with assms show ?thesis by (simp add: walk_command_not_Stop)
next
  case (recorded word tk)
  with assms show ?thesis by (simp add: walk_record_not_Stop)
qed (use assms in auto)

lemma open_walk:
  "walk parse_f64 r stop None w = (xs, Inr (v, p)) \<Longrightarrow> open_inv r w \<Longrightarrow> xs = [] \<and> grown w v \<and> open_inv r v"
proof (induction w arbitrary: xs rule: walk_induct [of parse_f64 r stop None])
  case (step w)
  show ?case
  proof (cases "walk_step parse_f64 r stop None w")
    case (Go w' obs)
    note S = open_step [OF Go step(3)]
    have "walk parse_f64 r stop None w' = (xs, Inr (v, p))"
      using step(2) S by (simp add: walk_run(1) [OF Go] prod_eq_iff)
    from step(1) [OF Go this] S show ?thesis by (blast intro: grown_trans)
  next
    case (Stop w' q)
    with step(2) open_stop [OF Stop] step(3) show ?thesis
      by (auto simp: walk_run(2) grown_def settled_def widens_def open_inv_def)
  next
    case (Fail e)
    with step(2) show ?thesis by (simp add: walk_run(3))
  qed
qed

section \<open>Later reads get through\<close>

lemma decode_string_kept:
  "decode_string bytes acc materialize time = Inr s \<Longrightarrow>
    \<exists>s'. decode_string bytes acc' materialize' time = Inr s'"
proof (induction bytes acc materialize time arbitrary: acc' rule: decode_string.induct)
  case (1 acc materialize time)
  then show ?case by simp
next
  case (2 b bytes acc materialize time)
  let ?r = "if b = CHR 0x5C then decode_escape bytes else Inr (b, bytes)"
  from 2(2) obtain c rest where r: "?r = Inr (c, rest)"
    by (cases ?r) (auto split: if_splits)
  with 2(2) have c: "is_ascii c"
    and rest: "decode_string rest (if materialize then acc @ [c] else acc) materialize time = Inr s"
    by (simp_all split: if_splits)
  from 2(1) [OF r refl, of "if materialize' then acc' @ [c] else acc'"] c rest r show ?case
    by (simp del: if_split_asm split del: if_split)
qed

lemma record_value_asked:
  assumes "record_value parse_f64 tk encoding prefix payload False time = Inr x"
  shows "\<exists>y. record_value parse_f64 tk encoding prefix payload asked time = Inr y"
  using assms decode_string_kept [of payload "[]" False time _ "[]" asked]
  by (cases encoding) (auto simp: record_value_def split: if_splits)

definition in_step :: "walker \<Rightarrow> walker \<Rightarrow> bool" where
  "in_step w v \<longleftrightarrow>
    same_input (wk_tokens w) (wk_tokens v) \<and> wk_time v = wk_time w \<and> wk_block v = wk_block w"

definition spans :: "time_span option \<Rightarrow> time \<Rightarrow> bool" where
  "spans span t \<longleftrightarrow> (\<exists>s. span = Some s \<and> span_first s \<le> t \<and> t \<le> span_last s)"

text \<open>
  The storage \<open>encs\<close> reads all that an opening walk that ended in \<open>z\<close> has seen.
\<close>

definition read_as :: "walker \<Rightarrow> encoding list \<Rightarrow> bool" where
  "read_as z encs \<longleftrightarrow> (\<forall>i < length (wk_seen z). wk_seen z ! i \<longrightarrow> encs ! i = wk_encodings z ! i)"

lemma read_as_own [simp]: "read_as z (wk_encodings z)"
  by (simp add: read_as_def)

text \<open>How a step of a read answers a step of the opening walk that ended in \<open>z\<close>.\<close>

definition follows :: "u64 \<Rightarrow> walker \<Rightarrow> walker \<Rightarrow> step \<Rightarrow> bool" where
  "follows stop z w' answer \<longleftrightarrow>
    (case answer of
       Go v n \<Rightarrow> in_step w' v \<and> read_as z (wk_encodings v) \<and>
         list_all (\<lambda>m. spans (wk_span z) (note_time m)) (emitted n)
     | Stop v p \<Rightarrow> stop < wk_time w'
     | Fail e \<Rightarrow> False)"

lemma same_token:
  assumes "same_input a b" and "next_token a = Inr (word, tk)"
  obtains tk' where "next_token b = Inr (word, tk')" "same_input tk tk'"
  using next_token_same [OF assms(1)] assms(2) by (cases rule: same_result_cases) auto

lemma follow_time:
  assumes "walk_time (- 1) offset digits tk w = Go w' n" and "in_step w v" and "same_input tk tk'"
    and "read_as z (wk_encodings v)"
  shows "follows stop z w' (walk_time stop offset' digits tk' v)"
proof -
  from assms(1) obtain t where t: "\<not> wk_block w" "integer digits = Inr t" "wk_time w \<le> t"
    and w': "wk_tokens w' = tk" "wk_time w' = t" "wk_block w' = wk_block w"
    unfolding walk_time_Go by auto
  from assms(2) have v: "wk_time v = wk_time w" "wk_block v = wk_block w" by (simp_all add: in_step_def)
  show ?thesis using t v w' assms(3,4)
    by (cases "stop < t") (simp_all add: walk_time_def follows_def in_step_def not_less)
qed

lemma follow_command:
  assumes "walk_command word tk w = Go w' n" and "in_step w v" and "same_input tk tk'"
    and "read_as z (wk_encodings v)"
  shows "follows stop z w' (walk_command word tk' v)"
proof -
  have v: "wk_time v = wk_time w" "wk_block v = wk_block w" using assms(2) by (simp_all add: in_step_def)
  define opens where "opens \<longleftrightarrow> word \<in> {''$dumpvars'', ''$dumpall'', ''$dumpoff'', ''$dumpon''} \<and> \<not> wk_block w"
  define closes where "closes \<longleftrightarrow> word = ''$end'' \<and> wk_block w"
  define comments where "comments \<longleftrightarrow> word = ''$comment'' \<and> \<not> wk_block w"
  note cs = opens_def [symmetric] closes_def [symmetric] comments_def [symmetric]
  have go: "(if opens then Go (w\<lparr>wk_tokens := tk, wk_block := True\<rparr>) None
      else if closes then Go (w\<lparr>wk_tokens := tk, wk_block := False\<rparr>) None
      else if comments then (case token_text tk of
          Inl e \<Rightarrow> Fail e
        | Inr (t, tk') \<Rightarrow> Go (w\<lparr>wk_tokens := tk', wk_comments := wk_comments w @ [t]\<rparr>) None)
      else Fail (token_error tk ''unexpected body command'')) = Go w' n"
    using assms(1) unfolding walk_command_def cs .
  have same: "walk_command word tk' v =
     (if opens then Go (v\<lparr>wk_tokens := tk', wk_block := True\<rparr>) None
      else if closes then Go (v\<lparr>wk_tokens := tk', wk_block := False\<rparr>) None
      else if comments then (case token_text tk' of
          Inl e \<Rightarrow> Fail e
        | Inr (t, tk') \<Rightarrow> Go (v\<lparr>wk_tokens := tk', wk_comments := wk_comments v @ [t]\<rparr>) None)
      else Fail (token_error tk' ''unexpected body command''))"
    unfolding walk_command_def v cs ..
  show ?thesis
    using token_text_same [OF assms(3)] go v assms(3,4) unfolding same
    by (cases rule: same_result_cases)
      (auto simp: follows_def in_step_def split: if_split_asm)
qed

lemma follow_record:
  assumes "walk_record parse_f64 r None offset word tk w = Go w' n" and "open_inv r w"
    and "in_step w v" and "same_input tk tk'" and "read_as z (wk_encodings v)" and "grown w' z"
    and "\<And>code. lookup_index r' code = lookup_index r code"
  shows "follows stop z w' (walk_record parse_f64 r' (Some sel) offset' word tk' v)"
  using assms(1)
proof (rule open_record)
  fix payload code tk1 index x
  let ?prefix = "to_ascii_lowercase (hd word)" and ?asked = "index \<in> set sel"
  assume parts: "record_parts word tk = Inr ((payload, code), tk1)" and l: "lookup_index r code = Some index"
    and w': "w' = w\<lparr>wk_tokens := tk1,
       wk_encodings := (if ?prefix = CHR ''s'' \<and> wk_encodings w ! index = Real \<and> \<not> wk_seen w ! index
          then (wk_encodings w)[index := String] else wk_encodings w),
       wk_seen := (wk_seen w)[index := True],
       wk_span := (case wk_span w of None \<Rightarrow> Some \<lparr>span_first = time_zero, span_last = time_zero\<rparr>
         | Some s \<Rightarrow> Some s)\<rparr>"
    and x: "record_value parse_f64 tk1 (wk_encodings w' ! index) ?prefix payload False (Time (wk_time w)) = Inr x"
  have i: "index < length (wk_encodings w)" "length (wk_seen w) = length (wk_encodings w)"
    using assms(2) l by (auto simp: open_inv_def)
  then have "wk_seen w' ! index" "index < length (wk_seen w')" by (simp_all add: w')
  with assms(6) have "wk_encodings z ! index = wk_encodings w' ! index" "wk_seen z ! index" "index < length (wk_seen z)"
    unfolding grown_def by auto
  with assms(5) have E: "wk_encodings v ! index = wk_encodings w' ! index" by (simp add: read_as_def)
  from record_parts_same [OF assms(4), of word] parts obtain tk1' where
    parts': "record_parts word tk' = Inr ((payload, code), tk1')" and same: "same_input tk1 tk1'"
    by (cases rule: same_result_cases) auto
  from record_value_asked [OF x, of ?asked] obtain y where
    y: "record_value parse_f64 tk1' (wk_encodings v ! index) ?prefix payload ?asked (Time (wk_time w)) = Inr y"
    by (auto simp: E record_value_same [OF same])
  have v: "wk_time v = wk_time w" "wk_block v = wk_block w" using assms(3) by (simp_all add: in_step_def)
  have "span_at (wk_span w') (wk_time w)"
    using open_record_inv [OF assms(1,2)] by (simp add: open_inv_def w')
  then obtain s where "wk_span w' = Some s" "span_first s \<le> Time (wk_time w)" "span_last s = Time (wk_time w)"
    by (auto simp: span_at_def w' split: option.splits)
  with assms(6) have span: "spans (wk_span z) (Time (wk_time w))"
    unfolding grown_def widens_def spans_def by fastforce
  from parts' l y v span same assms(5,7) show ?thesis
    by (cases y) (auto simp: walk_record_def Let_def follows_def in_step_def w' emitted_def)
qed

lemma walk_step_word:
  "next_token (wk_tokens w) = Inr (Some word, tk) \<Longrightarrow> walk_step parse_f64 r stop selected w =
    (if hd word = CHR ''#'' then walk_time stop (tk_offset (wk_tokens w)) (tl word) tk w
     else if hd word = CHR ''$'' then walk_command word tk w
     else walk_record parse_f64 r selected (tk_offset (wk_tokens w)) word tk w)"
  by (simp add: walk_step_def Let_def)

lemma follow_step:
  assumes "walk_step parse_f64 r (- 1) None w = Go w' n" and "open_inv r w"
    and "in_step w v" and "read_as z (wk_encodings v)" and "grown w' z"
    and "\<And>code. lookup_index r' code = lookup_index r code"
  shows "follows stop z w' (walk_step parse_f64 r' stop (Some sel) v)"
proof -
  have same: "same_input (wk_tokens w) (wk_tokens v)" using assms(3) by (simp add: in_step_def)
  from assms(1) obtain word tk where t: "next_token (wk_tokens w) = Inr (Some word, tk)" by (rule walk_step_Go)
  from same this obtain tk' where t': "next_token (wk_tokens v) = Inr (Some word, tk')" "same_input tk tk'"
    by (rule same_token)
  note go = assms(1) [unfolded walk_step_word [OF t]]
  consider "hd word = CHR ''#''" | "hd word = CHR ''$''" | "hd word \<noteq> CHR ''#''" "hd word \<noteq> CHR ''$''"
    by blast
  then show ?thesis
  proof cases
    case 1
    with go follow_time [OF _ assms(3) t'(2) assms(4)] show ?thesis
      unfolding walk_step_word [OF t'(1)] by simp
  next
    case 2
    with go follow_command [OF _ assms(3) t'(2) assms(4)] show ?thesis
      unfolding walk_step_word [OF t'(1)] by simp
  next
    case 3
    with go follow_record [OF _ assms(2,3) t'(2) assms(4,5,6)] show ?thesis
      unfolding walk_step_word [OF t'(1)] by simp
  qed
qed

lemma follow_end:
  assumes "walk_step parse_f64 r (- 1) None w = Stop z p" and "in_step w v"
  shows "\<exists>u q. walk_step parse_f64 r' stop (Some sel) v = Stop u q \<and> wk_time u = wk_time z"
proof (cases rule: walk_step_cases [of parse_f64 r "- 1" None w])
  case (eof tk)
  have "same_input (wk_tokens w) (wk_tokens v)" using assms(2) by (simp add: in_step_def)
  from this eof(1) obtain tk' where "next_token (wk_tokens v) = Inr (None, tk')" by (rule same_token)
  then show ?thesis using eof assms by (auto simp: walk_step_def Let_def in_step_def)
next
  case (timed word tk)
  have "\<not> (- 1 :: u64) < t" for t using word_order.extremum_strict [of t] by simp
  with timed assms(1) show ?thesis by (simp add: walk_time_def split: if_splits sum.splits)
next
  case (command word tk)
  with assms(1) show ?thesis by (simp add: walk_command_not_Stop)
next
  case (recorded word tk)
  with assms(1) show ?thesis by (simp add: walk_record_not_Stop)
qed (use assms in simp_all)

lemma follow_walk:
  "walk parse_f64 r (- 1) None w = (xs, Inr (z, p)) \<Longrightarrow> open_inv r w \<Longrightarrow> in_step w v \<Longrightarrow>
    read_as z (wk_encodings v) \<Longrightarrow> (\<And>code. lookup_index r' code = lookup_index r code) \<Longrightarrow>
    (\<exists>u q. snd (walk parse_f64 r' stop (Some sel) v) = Inr (u, q) \<and> (wk_time z \<le> stop \<longrightarrow> wk_time u = wk_time z)) \<and>
    list_all (\<lambda>m. spans (wk_span z) (note_time m)) (fst (walk parse_f64 r' stop (Some sel) v))"
proof (induction w arbitrary: xs v rule: walk_induct [of parse_f64 r "- 1" None])
  case (step w)
  show ?case
  proof (cases "walk_step parse_f64 r (- 1) None w")
    case (Go w' obs)
    have w': "walk parse_f64 r (- 1) None w' = (fst (walk parse_f64 r (- 1) None w'), Inr (z, p))"
      using step(2) by (simp add: walk_run(1) [OF Go] prod_eq_iff)
    have inv: "open_inv r w'" using open_step [OF Go step(3)] by simp
    then have "grown w' z" using open_walk [OF w'] by simp
    from follow_step [OF Go step(3,4,5) this step(6)]
    have f: "follows stop z w' (walk_step parse_f64 r' stop (Some sel) v)" .
    show ?thesis
    proof (cases "walk_step parse_f64 r' stop (Some sel) v")
      case (Go u n)
      with f have u: "in_step w' u" "read_as z (wk_encodings u)"
        "list_all (\<lambda>m. spans (wk_span z) (note_time m)) (emitted n)"
        by (simp_all add: follows_def)
      from step(1) [OF \<open>walk_step parse_f64 r (- 1) None w = Go w' obs\<close> w' inv u(1,2) step(6)] u(3)
      show ?thesis by (simp add: walk_run(1) [OF Go])
    next
      case (Stop u q)
      with f \<open>grown w' z\<close> show ?thesis by (auto simp: walk_run(2) follows_def grown_def)
    next
      case (Fail e)
      with f show ?thesis by (simp add: follows_def)
    qed
  next
    case (Stop z' q)
    then have "z' = z" using step(2) by (simp add: walk_run(2))
    with follow_end [OF Stop step(4), of r' stop sel] show ?thesis by (auto simp: walk_run(2))
  next
    case (Fail e)
    with step(2) show ?thesis by (simp add: walk_run(3))
  qed
qed

section \<open>Opened files\<close>

lemma vcd_open_parts:
  assumes "vcd_open parse_f64 source input name = Inr (r, h, m)"
  obtains hd tk body w p xs where
    "header_read input name = Inr (hd, tk, body)"
    "walk parse_f64 (opened input hd body) (- 1) None (opening_walker hd tk) = (xs, Inr (w, p))"
    "r = (opened input hd body)\<lparr>vr_encodings := wk_encodings w\<rparr>"
    "h = \<lparr>hi_source = source, hi_scopes = vh_scopes hd, hi_variables = vh_variables hd,
      hi_encodings = wk_encodings w\<rparr>"
    "md_time_span m = wk_span w"
proof -
  from assms obtain hd tk body w p where
    hr: "header_read input name = Inr (hd, tk, body)"
    and w: "snd (walk parse_f64 (opened input hd body) (- 1) None (opening_walker hd tk)) = Inr (w, p)"
    and r: "r = (opened input hd body)\<lparr>vr_encodings := wk_encodings w\<rparr>"
      "h = \<lparr>hi_source = source, hi_scopes = vh_scopes hd, hi_variables = vh_variables hd,
        hi_encodings = wk_encodings w\<rparr>"
      "m = (vh_metadata hd)\<lparr>md_time_span := wk_span w, md_comments := wk_comments w\<rparr>"
    by (auto simp: vcd_open_def)
  show ?thesis
    by (rule that [OF hr _ r(1,2), of "fst (walk parse_f64 (opened input hd body) (- 1) None (opening_walker hd tk))" p])
      (simp_all add: r(3) w [symmetric])
qed

lemma lookup_fields:
  assumes "vr_ids a = vr_ids b" and "vr_dense a = vr_dense b"
  shows "lookup_index a code = lookup_index b code"
  unfolding lookup_index_def assms ..

lemma opened_lookup:
  "header_inv h \<Longrightarrow> lookup_index (opened input h body) code = map_of (vh_ids h) code"
  using lookup_dense [of "opened input h body" code] by (simp add: opened_def header_inv_def)

lemma open_inv_start:
  assumes "header_inv h"
  shows "open_inv (opened input h body) (opening_walker h tk)"
  using ids_index [OF assms] by (auto simp: open_inv_def opened_lookup [OF assms] opening_walker_def span_at_def)

text \<open>
  C22: opening a VCD file yields a well-formed hierarchy: parents come before their scopes,
  every variable names a signal, every signal has a declaration, and a declared range
  counts exactly the bits of its signal.
\<close>

theorem vcd_hierarchies_are_well_formed:
  assumes "vcd_open parse_f64 source input name = Inr (r, h, m)" and "length (vr_bytes input) < usize_max"
  shows "hierarchy_ok h \<and> hi_variables h \<noteq> [] \<and> hi_encodings h = vr_encodings r \<and>
    list_all (variable_ok (length (hi_scopes h)) (hi_encodings h)) (hi_variables h) \<and>
    list_all (declared (hi_variables h)) [0..<length (hi_encodings h)]"
  using assms(1)
proof (rule vcd_open_parts)
  fix hd tk body w p xs
  assume hr: "header_read input name = Inr (hd, tk, body)"
    and w: "walk parse_f64 (opened input hd body) (- 1) None (opening_walker hd tk) = (xs, Inr (w, p))"
    and r: "r = (opened input hd body)\<lparr>vr_encodings := wk_encodings w\<rparr>"
    and h: "h = \<lparr>hi_source = source, hi_scopes = vh_scopes hd, hi_variables = vh_variables hd,
      hi_encodings = wk_encodings w\<rparr>"
  note H = header_read_inv [OF hr]
  have inv: "header_inv hd" and all: "all_declared {} hd" using H by simp_all
  have g: "grown (opening_walker hd tk) w" using open_walk [OF w open_inv_start [OF inv]] by simp
  then have len: "length (wk_encodings w) = length (vh_encodings hd)"
    and set: "\<And>i. i < length (vh_encodings hd) \<Longrightarrow> settled (vh_encodings hd ! i) (wk_encodings w ! i)"
    by (auto simp: grown_def opening_walker_def)
  have "range_fits b e'" if "range_fits b e" "settled e e'" for b e e'
    using that by (auto simp: range_fits_def settled_def)
  then have v: "variable_ok (length (vh_scopes hd)) (wk_encodings w) v"
    if "variable_ok (length (vh_scopes hd)) (vh_encodings hd) v" for v
    using that set len by (fastforce simp: variable_ok_def)
  have vars: "list_all (variable_ok (length (vh_scopes hd)) (vh_encodings hd)) (vh_variables hd)"
    and scopes: "scopes_ok (vh_scopes hd)"
    using inv by (simp_all add: header_inv_def)
  have "\<forall>s \<in> set (vh_scopes hd). \<forall>q. sd_parent s = Some q \<longrightarrow> q < length (vh_scopes hd)"
    using scopes by (fastforce simp: scopes_ok_def in_set_conv_nth)
  moreover have "\<forall>v \<in> set (vh_variables hd). \<forall>q. vd_parent v = Some q \<longrightarrow> q < length (vh_scopes hd)"
    using vars by (auto simp: list_all_iff variable_ok_def)
  moreover have "\<forall>i < length (vh_scopes hd). \<forall>q. sd_parent (vh_scopes hd ! i) = Some q \<longrightarrow> q < i"
    using scopes by (simp add: scopes_ok_def)
  moreover have "length (vh_scopes hd) + length (vh_variables hd) < usize_max"
    using H assms(2) by (simp add: declarations_read_def)
  ultimately have "hierarchy_ok h" unfolding hierarchy_ok_def h by (auto intro: exI [of _ "\<lambda>i. i"])
  moreover have "list_all (variable_ok (length (hi_scopes h)) (hi_encodings h)) (hi_variables h)"
    using vars v by (simp add: h list_all_iff)
  moreover have "list_all (declared (hi_variables h)) [0..<length (hi_encodings h)]"
    using all len by (simp add: h all_declared_def list_all_iff)
  ultimately show ?thesis using H by (simp add: h r)
qed

lemma opened_read:
  assumes "vcd_open parse_f64 source input name = Inr (r, h, m)"
  shows "(\<exists>q. snd (vcd_read parse_f64 r bases stop None) = Inr (Some q)) \<and>
    list_all (\<lambda>n. spans (md_time_span m) (note_time n)) (fst (vcd_read parse_f64 r bases stop None))"
  using assms
proof (rule vcd_open_parts)
  fix hd tk body w p xs
  assume hr: "header_read input name = Inr (hd, tk, body)"
    and w: "walk parse_f64 (opened input hd body) (- 1) None (opening_walker hd tk) = (xs, Inr (w, p))"
    and r: "r = (opened input hd body)\<lparr>vr_encodings := wk_encodings w\<rparr>"
    and m: "md_time_span m = wk_span w"
  note H = header_read_inv [OF hr]
  let ?v = "walk_start r (body_position r) []"
  have inv: "open_inv (opened input hd body) (opening_walker hd tk)" using H by (simp add: open_inv_start)
  have "in_file input tk" "body = tk_offset tk" using H by simp_all
  then have "same_input tk (seek_input r body)"
    by (simp add: in_file_def same_input_def seek_input_def tk_bytes_def r opened_def)
  then have "in_step (opening_walker hd tk) ?v"
    by (simp add: in_step_def opening_walker_def walk_start_def body_position_def r opened_def)
  moreover have "read_as w (wk_encodings ?v)" by (simp add: walk_start_def r)
  moreover have "lookup_index r code = lookup_index (opened input hd body) code" for code
    by (rule lookup_fields) (simp_all add: r)
  ultimately have "(\<exists>u q. snd (walk parse_f64 r (ticks stop) (Some (map sig_index bases)) ?v) = Inr (u, q) \<and>
        (wk_time w \<le> ticks stop \<longrightarrow> wk_time u = wk_time w)) \<and>
      list_all (\<lambda>n. spans (wk_span w) (note_time n))
        (fst (walk parse_f64 r (ticks stop) (Some (map sig_index bases)) ?v))"
    by (rule follow_walk [OF w inv])
  then show ?thesis by (auto simp: vcd_read_walk Let_def m)
qed

text \<open>
  C21: opening checks the whole body, so every read of an opened file, of any signals up to
  any tick, gets to its end without an error, and all it delivers lies in the time span of
  the metadata.
\<close>

theorem opened_files_read_through:
  assumes "vcd_open parse_f64 source input name = Inr (r, h, m)"
  shows "\<exists>recorded position. vcd_read parse_f64 r bases stop None = (recorded, Inr (Some position)) \<and>
    list_all (\<lambda>n. spans (md_time_span m) (note_time n)) recorded"
  using opened_read [OF assms, of bases stop]
  by (cases "vcd_read parse_f64 r bases stop None") auto

text \<open>
  C36: the direct table of identifier codes answers exactly as the map of the declared codes,
  whether it is used or not.
\<close>

theorem dense_codes_agree:
  assumes "vcd_open parse_f64 source input name = Inr (r, h, m)"
  shows "lookup_index r code = map_of (vr_ids r) code"
  using assms
proof (rule vcd_open_parts)
  fix hd tk body w p xs
  assume "header_read input name = Inr (hd, tk, body)"
    and r: "r = (opened input hd body)\<lparr>vr_encodings := wk_encodings w\<rparr>"
  then have "header_inv hd" using header_read_inv by blast
  then show ?thesis using lookup_dense [of r code] by (simp add: r opened_def header_inv_def)
qed

end
