(* ===== verification/Ondas_Vcd_Session.thy ===== *)
theory Ondas_Vcd_Session
  imports Ondas_Typed Ondas_Vcd_Open
begin

text \<open>
  An opened VCD file as the source of the query engine: the header, the walk of the
  opening, the reader and the engine together.
\<close>

text \<open>
  The sizes of a retained position and of a slot bound the checkpoints; they are parameters.
  A file that is not read in parallel answers no prefix.
\<close>

definition vcd_source ::
    "(string \<Rightarrow> u64 option) \<Rightarrow> vcd \<Rightarrow> metadata \<Rightarrow> nat \<Rightarrow> nat \<Rightarrow> source" where
  "vcd_source parse_f64 r m replay_size slot_size =
    \<lparr>src_backend = ''vcd-native'', src_span = md_time_span m, src_read = vcd_read parse_f64 r,
     src_prefix = (\<lambda>_ _. None), src_replay_size = replay_size, src_slot_size = slot_size\<rparr>"

lemma walk_length:
  "length (fst (walk parse_f64 r stop selected w)) \<le> length (tk_bytes (wk_tokens w))"
proof (induction w rule: walk_induct [of parse_f64 r stop selected])
  case (step w)
  show ?case
  proof (cases "walk_step parse_f64 r stop selected w")
    case (Go w' obs)
    obtain word tk where "next_token (wk_tokens w) = Inr (Some word, tk)" "moves tk (wk_tokens w')"
      using Go by (rule walk_step_Go)
    then have "length (tk_bytes (wk_tokens w')) < length (tk_bytes (wk_tokens w))"
      by (auto dest!: next_token_word moves_shorter)
    moreover have "length (emitted obs) \<le> 1" by (cases obs) simp_all
    ultimately show ?thesis using step [OF Go] by (simp add: walk_run(1) [OF Go])
  qed (simp_all add: walk_run)
qed

lemma delivered_weight:
  assumes "delivered r sel n"
  shows "note_weight n \<le> Suc 0"
proof -
  obtain b v t p where n: "n = Observed b (Inr v) t (Some p)" "stored_as (vr_encodings r ! b) v"
    using assms by (auto simp: delivered_def split: notification.splits sum.splits option.splits)
  then show ?thesis by (cases v) (auto simp: stored_as_def split: encoding.splits)
qed

lemma stored_value:
  "stored_as e v \<Longrightarrow> e \<noteq> Unsupported \<Longrightarrow> value_has_encoding v e"
  by (cases e) (auto simp: stored_as_def bits_ok_def intro: unat_u32_less [simplified])

lemma delivered_heard:
  assumes "delivered r (map sig_index bases) n" and "hi_encodings (wv_hierarchy w) = vr_encodings r"
  shows "heard (asked_value w bases) n"
proof -
  obtain b v t p where "n = Observed b (Inr v) t (Some p)" "stored_as (vr_encodings r ! b) v"
    "b \<in> sig_index ` set bases"
    using assms(1) by (auto simp: delivered_def split: notification.splits sum.splits option.splits)
  with assms(2) show ?thesis by (auto simp: asked_value_def dest: stored_value)
qed

lemma walk_weight:
  assumes "list_all (delivered r sel) recorded" and "length recorded < 2 ^ 64"
  shows "(\<Sum>n\<leftarrow>recorded. note_weight n) < 2 ^ 64"
proof -
  have "(\<Sum>n\<leftarrow>recorded. note_weight n) \<le> (\<Sum>n\<leftarrow>recorded. 1)"
    using assms(1) by (intro sum_list_mono) (auto simp: list_all_iff dest: delivered_weight)
  with assms(2) show ?thesis by (simp add: sum_list_triv)
qed

lemma opened_typed:
  assumes "vcd_open parse_f64 source input name = Inr (r, h, m)" and "length (vr_bytes input) < usize_max"
    and "hi_encodings (wv_hierarchy w) = vr_encodings r"
  shows "typed_source w (vcd_source parse_f64 r m replay_size slot_size)"
proof -
  have bytes: "vr_bytes r = vr_bytes input" using assms(1) by (auto simp: opened_def elim!: vcd_open_parts)
  have "case vcd_read parse_f64 r bases stop None of
      (recorded, Inr _) \<Rightarrow>
        list_all (heard (asked_value w bases)) recorded \<and> (\<Sum>n\<leftarrow>recorded. note_weight n) < 2 ^ 64
    | (_, Inl _) \<Rightarrow> False" for bases stop
  proof -
    obtain recorded q where read: "vcd_read parse_f64 r bases stop None = (recorded, Inr q)"
      using opened_read [OF assms(1), of bases stop] by (cases "vcd_read parse_f64 r bases stop None") auto
    let ?w = "walk_start r (body_position r) []"
    have rec: "recorded = fst (walk parse_f64 r (ticks stop) (Some (map sig_index bases)) ?w)"
      using read by (simp add: vcd_read_walk Let_def)
    have d: "list_all (delivered r (map sig_index bases)) recorded"
      unfolding rec by (rule walk_delivers) (simp add: walk_start_def)
    have "length recorded \<le> length (tk_bytes (wk_tokens ?w))" unfolding rec by (rule walk_length)
    also have "\<dots> \<le> length (vr_bytes input)"
      by (simp add: walk_start_def seek_input_def tk_bytes_def bytes)
    finally have "length recorded < 2 ^ 64" using assms(2) by (simp add: usize_max_def)
    with d have "(\<Sum>n\<leftarrow>recorded. note_weight n) < 2 ^ 64" by (rule walk_weight)
    moreover have "list_all (heard (asked_value w bases)) recorded"
      using d delivered_heard [OF _ assms(3)] by (simp add: list_all_iff)
    ultimately show ?thesis using read by simp
  qed
  then show ?thesis by (simp add: typed_source_def vcd_source_def)
qed

text \<open>
  C20: an opened VCD file answers every valid question: for any signals of the waveform, slices
  and compositions included, and any tick, the one-shot samples are an answer and not an
  error or a panic, one for each signal, and every value has exactly the encoding and the
  width of its signal.
\<close>

theorem opened_files_answer:
  assumes "vcd_open parse_f64 source input name = Inr (r, h, m)" and "length (vr_bytes input) < usize_max"
    and "wave_ok w" and "wv_hierarchy w = h" and "first_bad w signals = None"
  shows "\<exists>answer. wave_samples w (vcd_source parse_f64 r m replay_size slot_size) signals t = Some (Inr answer) \<and>
    list_all2 sample_typed signals answer"
proof -
  let ?src = "vcd_source parse_f64 r m replay_size slot_size"
  have "hi_encodings h = vr_encodings r" using assms(1) by (auto elim!: vcd_open_parts)
  then have "typed_source w ?src" using opened_typed [OF assms(1,2)] assms(4) by simp
  moreover have "tick_reader (src_read ?src)" "\<forall>bases t. src_prefix ?src bases t = None"
    by (simp_all add: vcd_source_def vcd.tick_reader_axioms)
  ultimately show ?thesis using assms(3,5) by (intro typed_samples)
qed

end
