(* ===== verification/Ondas_Vcd_Chunks.thy ===== *)
theory Ondas_Vcd_Chunks
  imports Ondas_Vcd_Open
begin

text \<open>
  Reading a file in chunks: a chunk that ends in white space is read word by word as the
  whole file is, until its end. The lemmas compare the walk of a chunk with the walk of the
  file from the same place.
\<close>

section \<open>Words\<close>

definition ends_blank :: "string \<Rightarrow> bool" where
  "ends_blank s \<longleftrightarrow> s \<noteq> [] \<and> is_ascii_whitespace (last s)"

lemma dropWhile_ends:
  "dropWhile P s \<noteq> [] \<Longrightarrow> last (dropWhile P s) = last s"
  by (metis append_Nil2 last_appendR takeWhile_dropWhile_id)

lemma ends_blank_dropWhile: "ends_blank s \<Longrightarrow> dropWhile P s \<noteq> [] \<Longrightarrow> ends_blank (dropWhile P s)"
  by (simp add: ends_blank_def dropWhile_ends)

lemma ends_blank_word:
  assumes "ends_blank s"
  shows "dropWhile (\<lambda>b. \<not> is_ascii_whitespace b) s \<noteq> []"
  using assms by (auto simp: ends_blank_def dropWhile_eq_Nil_conv)

lemma first_word_append:
  assumes "ends_blank s" and "first_word s \<noteq> []"
  shows "first_word (s @ y) = first_word s \<and> after_word (s @ y) = after_word s @ y \<and> ends_blank (after_word s)"
proof -
  let ?d = "dropWhile is_ascii_whitespace s"
  have d: "?d \<noteq> []" using assms(2) unfolding first_word_def by (metis takeWhile.simps(1))
  then have "dropWhile is_ascii_whitespace (s @ y) = ?d @ y"
    by (auto simp: dropWhile_eq_Nil_conv dropWhile_append)
  moreover have blank: "ends_blank ?d" using assms(1) d by (rule ends_blank_dropWhile)
  note rest = ends_blank_word [OF blank]
  have "takeWhile (\<lambda>b. \<not> is_ascii_whitespace b) (?d @ y) = takeWhile (\<lambda>b. \<not> is_ascii_whitespace b) ?d"
    using rest by (auto simp: takeWhile_append dropWhile_eq_Nil_conv)
  moreover have "dropWhile (\<lambda>b. \<not> is_ascii_whitespace b) (?d @ y) = dropWhile (\<lambda>b. \<not> is_ascii_whitespace b) ?d @ y"
    using rest by (auto simp: dropWhile_append dropWhile_eq_Nil_conv)
  moreover have "ends_blank (dropWhile (\<lambda>b. \<not> is_ascii_whitespace b) ?d)"
    using blank rest by (rule ends_blank_dropWhile)
  ultimately show ?thesis by (simp add: first_word_def after_word_def)
qed

lemma blank_prefix:
  assumes "list_all is_ascii_whitespace ws"
  shows "first_word (ws @ s) = first_word s" "after_word (ws @ s) = after_word s"
  using assms by (auto simp: first_word_def after_word_def list_all_iff dropWhile_append)

section \<open>The input of a chunk and the input of the file\<close>

text \<open>
  \<open>tk'\<close> is \<open>tk\<close> with the bytes \<open>later\<close> behind it, and with the blanks \<open>ws\<close> still before it.
\<close>

definition extends_input :: "string \<Rightarrow> string \<Rightarrow> tokens \<Rightarrow> tokens \<Rightarrow> bool" where
  "extends_input ws later tk tk' \<longleftrightarrow>
    list_all is_ascii_whitespace ws \<and> tk_bytes tk' = ws @ tk_bytes tk @ later \<and>
    tk_offset tk = tk_offset tk' + length ws \<and> tk_fail tk = None \<and> tk_fail tk' = None \<and>
    (later = [] \<or> ends_blank (tk_bytes tk))"

lemma extends_error: "extends_input [] later tk tk' \<Longrightarrow> token_error tk m = token_error tk' m"
  by (simp add: extends_input_def token_error_def)

lemma next_token_extends:
  assumes "extends_input ws later tk tk'" and "next_token tk = Inr (Some word, t)"
  obtains t' where "next_token tk' = Inr (Some word, t')" "extends_input [] later t t'"
proof -
  have e: "list_all is_ascii_whitespace ws" "tk_bytes tk' = ws @ tk_bytes tk @ later"
    "tk_offset tk = tk_offset tk' + length ws" "tk_fail tk = None" "tk_fail tk' = None"
    "later = [] \<or> ends_blank (tk_bytes tk)"
    using assms(1) by (simp_all add: extends_input_def)
  from assms(2) have n: "next_into [] tk = Inr (True, word, t)"
    by (auto simp: next_token_def split: if_splits)
  note R = next_into_result [OF n]
  then have word: "word = first_word (tk_bytes tk)" "word \<noteq> []" by blast+
  have more: "first_word (tk_bytes tk @ later) = word \<and> after_word (tk_bytes tk @ later) = after_word (tk_bytes tk) @ later
      \<and> (later = [] \<or> ends_blank (after_word (tk_bytes tk)))"
    using e(6) first_word_append [of "tk_bytes tk" later] word by auto
  then have w': "first_word (tk_bytes tk') = word" "after_word (tk_bytes tk') = after_word (tk_bytes tk) @ later"
    using blank_prefix [OF e(1)] by (simp_all add: e(2))
  obtain t' where t': "next_into [] tk' = Inr (True, word, t')" "reads_to tk' (after_word (tk_bytes tk) @ later) t'"
    using next_into_ok [of tk'] e(5) w' word by auto
  have "extends_input [] later t t'"
    using R t'(2) more e by (auto simp: extends_input_def reads_to_def)
  with t'(1) that show ?thesis by (simp add: next_token_def)
qed

lemma required_extends:
  assumes "extends_input ws later tk tk'" and "required tk = Inr (word, t)"
  obtains t' where "required tk' = Inr (word, t')" "extends_input [] later t t'"
proof -
  from assms(2) have "next_token tk = Inr (Some word, t)" by (auto simp: required_def split: option.splits)
  from assms(1) this obtain t' where "next_token tk' = Inr (Some word, t')" "extends_input [] later t t'"
    by (rule next_token_extends)
  with that show ?thesis by (simp add: required_def)
qed

lemma record_parts_extends:
  assumes "extends_input [] later tk tk'" and "record_parts word tk = Inr (parts, t)"
  obtains t' where "record_parts word tk' = Inr (parts, t')" "extends_input [] later t t'"
proof (cases "to_ascii_lowercase (hd word) \<in> {CHR ''b'', CHR ''r'', CHR ''s''}")
  case True
  with assms(2) obtain code where "next_token tk = Inr (Some code, t)" "parts = (tl word, code)"
    by (auto simp: record_parts_def split: option.splits)
  moreover from assms(1) this(1) obtain t' where "next_token tk' = Inr (Some code, t')" "extends_input [] later t t'"
    by (rule next_token_extends)
  ultimately show ?thesis using that True by (simp add: record_parts_def)
next
  case False
  with assms that show ?thesis by (simp add: record_parts_def)
qed

lemma take_run_extends:
  assumes "extends_input [] later tk tk'" and "take_run True acc tk = Inr (out, t)" and "tk_bytes t \<noteq> []"
  obtains t' where "take_run True acc tk' = Inr (out, t')" "extends_input [] later t t'"
proof -
  let ?P = "\<lambda>b. is_ascii_whitespace b = True"
  have e: "tk_bytes tk' = tk_bytes tk @ later" "tk_offset tk = tk_offset tk'" "tk_fail tk = None" "tk_fail tk' = None"
    "later = [] \<or> ends_blank (tk_bytes tk)"
    using assms(1) by (simp_all add: extends_input_def)
  from take_run_spec [of tk acc True] assms(2) e(3)
  have r: "out = acc @ takeWhile ?P (tk_bytes tk)" "reads_to tk (dropWhile ?P (tk_bytes tk)) t"
    by (simp_all add: reads_def)
  then have rest: "dropWhile ?P (tk_bytes tk) \<noteq> []" using assms(3) by (simp add: reads_to_def)
  then have w: "takeWhile ?P (tk_bytes tk @ later) = takeWhile ?P (tk_bytes tk)"
    "dropWhile ?P (tk_bytes tk @ later) = dropWhile ?P (tk_bytes tk) @ later"
    by (auto simp: takeWhile_append dropWhile_append dropWhile_eq_Nil_conv)
  from take_run_spec [of tk' acc True] e(4) w obtain t' where
    t': "take_run True acc tk' = Inr (out, t')" "reads_to tk' (dropWhile ?P (tk_bytes tk) @ later) t'"
    unfolding e(1) by (auto simp: reads_def r(1))
  have "later = [] \<or> ends_blank (dropWhile ?P (tk_bytes tk))"
    using e(5) rest ends_blank_dropWhile by blast
  then have "extends_input [] later t t'"
    using r(2) t'(2) e by (simp add: extends_input_def reads_to_def)
  with t'(1) show ?thesis by (rule that)
qed

lemma required_bytes: "required tk = Inr (w, t) \<Longrightarrow> tk_bytes tk \<noteq> []"
  by (auto dest: required_shrinks)

lemma text_from_extends:
  "extends_input [] later tk tk' \<Longrightarrow> text_from acc tk = Inr (out, t) \<Longrightarrow>
    \<exists>t'. text_from acc tk' = Inr (out, t') \<and> extends_input [] later t t'"
proof (induction acc tk arbitrary: tk' rule: text_from.induct)
  case (1 acc tk)
  from 1(3) obtain acc' tk1 word tk2 where run: "take_run True acc tk = Inr (acc', tk1)"
    "required tk1 = Inr (word, tk2)"
    and rest: "if word = ''$end'' then (acc', tk2) = (out, t) else text_from (acc' @ word) tk2 = Inr (out, t)"
    by (auto simp: text_from.simps [of acc] split: if_splits)
  obtain tk1' where t1: "take_run True acc tk' = Inr (acc', tk1')" "extends_input [] later tk1 tk1'"
    using take_run_extends [OF 1(2) run(1) required_bytes [OF run(2)]] by blast
  obtain tk2' where t2: "required tk1' = Inr (word, tk2')" "extends_input [] later tk2 tk2'"
    using required_extends [OF t1(2) run(2)] by blast
  show ?case
  proof (cases "word = ''$end''")
    case True
    with rest t1(1) t2 show ?thesis by (simp add: text_from.simps [of acc tk'])
  next
    case False
    with 1(1) [OF run(1) refl run(2) refl False t2(2)] rest t1(1) t2(1) show ?thesis
      by (simp add: text_from.simps [of acc tk'])
  qed
qed

lemma token_text_extends:
  assumes "extends_input [] later tk tk'" and "token_text tk = Inr (text1, t)"
  obtains t' where "token_text tk' = Inr (text1, t')" "extends_input [] later t t'"
proof -
  from assms(2) obtain bytes where "text_from [] tk = Inr (bytes, t)" "utf8 (trim_ascii bytes) = Inr text1"
    by (auto simp: token_text_def)
  with text_from_extends [OF assms(1), of "[]"] that show ?thesis by (auto simp: token_text_def)
qed

section \<open>Steps of a chunk and of the file\<close>

lemma walk_time_fields:
  assumes "walk_time stop offset digits tk w = Go w' n"
  shows "n = None \<and> wk_tokens w' = tk \<and> wk_block w' = wk_block w \<and> wk_encodings w' = wk_encodings w \<and>
    wk_seen w' = wk_seen w \<and> wk_comments w' = wk_comments w \<and>
    wk_span w' = Some \<lparr>span_first = (case wk_span w of Some s \<Rightarrow> span_first s | None \<Rightarrow> Time (wk_time w')),
                       span_last = Time (wk_time w')\<rparr>"
  using assms unfolding walk_time_Go by (auto split: option.split)

lemma walk_time_extends:
  assumes "walk_time stop offset digits tk w = Go w' n" and "extends_input [] later tk tk'"
    and "wk_block v = wk_block w" and "wk_time v \<le> wk_time w'"
  shows "n = None \<and> walk_time stop offset' digits tk' v = Go (v\<lparr>wk_tokens := tk', wk_time := wk_time w',
      wk_span := Some \<lparr>span_first = (case wk_span v of Some s \<Rightarrow> span_first s | None \<Rightarrow> Time (wk_time w')),
                       span_last = Time (wk_time w')\<rparr>\<rparr>) None"
proof -
  from assms(1) obtain t where t: "\<not> wk_block w" "integer digits = Inr t" "t \<le> stop" "n = None"
    and w': "w' = w\<lparr>wk_tokens := tk, wk_time := t,
      wk_span := Some \<lparr>span_first = (case wk_span w of Some s \<Rightarrow> span_first s | None \<Rightarrow> Time t),
                       span_last = Time t\<rparr>\<rparr>"
    unfolding walk_time_Go by auto
  then have wt: "wk_time w' = t" by simp
  show ?thesis unfolding wt using t w' assms(3,4) [unfolded wt] by (simp add: walk_time_def not_less)
qed

text \<open>The states of the chunk and of the file, as far as both read the same words.\<close>

definition alongside :: "string \<Rightarrow> walker \<Rightarrow> walker \<Rightarrow> bool" where
  "alongside later w v \<longleftrightarrow>
    extends_input [] later (wk_tokens w) (wk_tokens v) \<and> wk_block v = wk_block w \<and> wk_time v = wk_time w"

lemma walk_command_extends:
  assumes "walk_command word tk w = Go w' n" and "extends_input [] later tk tk'" and "wk_block v = wk_block w"
  obtains t t' comments block where "n = None" "extends_input [] later t t'"
    "w' = w\<lparr>wk_tokens := t, wk_block := block, wk_comments := wk_comments w @ comments\<rparr>"
    "walk_command word tk' v = Go (v\<lparr>wk_tokens := t', wk_block := block, wk_comments := wk_comments v @ comments\<rparr>) None"
proof -
  define opens where "opens \<longleftrightarrow> word \<in> {''$dumpvars'', ''$dumpall'', ''$dumpoff'', ''$dumpon''} \<and> \<not> wk_block w"
  define closes where "closes \<longleftrightarrow> word = ''$end'' \<and> wk_block w"
  define comment where "comment \<longleftrightarrow> word = ''$comment'' \<and> \<not> wk_block w"
  note cs = opens_def [symmetric] closes_def [symmetric] comment_def [symmetric]
  have go: "walk_command word tk w = (if opens then Go (w\<lparr>wk_tokens := tk, wk_block := True\<rparr>) None
      else if closes then Go (w\<lparr>wk_tokens := tk, wk_block := False\<rparr>) None
      else if comment then (case token_text tk of
          Inl e \<Rightarrow> Fail e
        | Inr (t, tk') \<Rightarrow> Go (w\<lparr>wk_tokens := tk', wk_comments := wk_comments w @ [t]\<rparr>) None)
      else Fail (token_error tk ''unexpected body command''))"
    unfolding walk_command_def cs ..
  have whole: "walk_command word tk' v = (if opens then Go (v\<lparr>wk_tokens := tk', wk_block := True\<rparr>) None
      else if closes then Go (v\<lparr>wk_tokens := tk', wk_block := False\<rparr>) None
      else if comment then (case token_text tk' of
          Inl e \<Rightarrow> Fail e
        | Inr (t, tk') \<Rightarrow> Go (v\<lparr>wk_tokens := tk', wk_comments := wk_comments v @ [t]\<rparr>) None)
      else Fail (token_error tk' ''unexpected body command''))"
    unfolding walk_command_def assms(3) cs ..
  consider "opens" | "\<not> opens" "closes" | "\<not> opens" "\<not> closes" "comment" | "\<not> opens" "\<not> closes" "\<not> comment" by blast
  then show ?thesis
  proof cases
    case 1
    with go whole assms(1,2) show ?thesis by (intro that [of tk tk' "[]" True]) auto
  next
    case 2
    with go whole assms(1,2) show ?thesis by (intro that [of tk tk' "[]" False]) auto
  next
    case 3
    with go assms(1) obtain c t where c: "token_text tk = Inr (c, t)" "n = None"
      "w' = w\<lparr>wk_tokens := t, wk_comments := wk_comments w @ [c]\<rparr>"
      by (auto split: sum.splits)
    from assms(2) c(1) obtain t' where "token_text tk' = Inr (c, t')" "extends_input [] later t t'"
      by (rule token_text_extends)
    with 3 c whole assms(3) show ?thesis
      by (intro that [of t t' "[c]" "wk_block w"]) (cases w; cases v; simp)+
  next
    case 4
    with go assms(1) show ?thesis by simp
  qed
qed

section \<open>Reads of selected signals\<close>

lemma walk_record_selected:
  assumes "walk_record parse_f64 r (Some sel) offset word tk w = Go w' n" and "extends_input [] later tk tk'"
    and "wk_block v = wk_block w" and "wk_time v = wk_time w" and "wk_encodings v = wk_encodings w"
  obtains v' where "walk_record parse_f64 r (Some sel) offset word tk' v = Go v' n" "alongside later w' v'"
    "wk_encodings v' = wk_encodings w'"
proof -
  from assms(1) obtain payload code tk1 where parts: "record_parts word tk = Inr ((payload, code), tk1)"
    by (auto simp: walk_record_def split: sum.splits)
  from assms(2) parts obtain tk1' where parts': "record_parts word tk' = Inr ((payload, code), tk1')"
    and e: "extends_input [] later tk1 tk1'"
    by (rule record_parts_extends)
  have same: "record_value parse_f64 tk1 encoding prefix payload asked time =
      record_value parse_f64 tk1' encoding prefix payload asked time" for encoding prefix asked time
    unfolding record_value_def extends_error [OF e] ..
  from assms(1) parts obtain index where l: "lookup_index r code = Some index"
    by (auto simp: walk_record_def split: option.splits)
  have pos: "walk_position offset v = walk_position offset w" using assms(3,4) by (simp add: walk_position_def)
  let ?prefix = "to_ascii_lowercase (hd word)" and ?asked = "index \<in> set sel"
  obtain x where x: "record_value parse_f64 tk1' (wk_encodings w ! index) ?prefix payload ?asked (Time (wk_time w)) = Inr x"
    using assms(1) parts l same by (cases "record_value parse_f64 tk1' (wk_encodings w ! index) ?prefix payload ?asked (Time (wk_time w))")
      (auto simp: walk_record_def Let_def)
  with same have x': "record_value parse_f64 tk1 (wk_encodings w ! index) ?prefix payload ?asked (Time (wk_time w)) = Inr x" by simp
  let ?v = "v\<lparr>wk_tokens := tk1', wk_encodings := wk_encodings v, wk_seen := wk_seen v,
    wk_span := (case wk_span v of None \<Rightarrow> Some \<lparr>span_first = time_zero, span_last = time_zero\<rparr> | Some s \<Rightarrow> Some s)\<rparr>"
  have "walk_record parse_f64 r (Some sel) offset word tk' v = Go ?v n"
    using assms(1,3,4,5) parts parts' l x x' pos
    by (cases x) (auto simp: walk_record_def Let_def)
  moreover have "wk_tokens w' = tk1" "wk_block w' = wk_block w" "wk_time w' = wk_time w" "wk_encodings w' = wk_encodings w"
    using assms(1) parts l x' by (cases x; auto simp: walk_record_def Let_def)+
  ultimately show ?thesis using that [of ?v] e assms(3,4,5) by (simp add: alongside_def)
qed

lemma step_selected:
  assumes "walk_step parse_f64 r stop (Some sel) w = Go w' n" and "alongside later w v"
    and "wk_encodings v = wk_encodings w"
  obtains v' where "walk_step parse_f64 r stop (Some sel) v = Go v' n" "alongside later w' v'"
    "wk_encodings v' = wk_encodings w'"
proof -
  have a: "extends_input [] later (wk_tokens w) (wk_tokens v)" "wk_block v = wk_block w" "wk_time v = wk_time w"
    using assms(2) by (simp_all add: alongside_def)
  have off: "tk_offset (wk_tokens v) = tk_offset (wk_tokens w)" using a(1) by (simp add: extends_input_def)
  from assms(1) obtain word tk where t: "next_token (wk_tokens w) = Inr (Some word, tk)" by (rule walk_step_Go)
  from a(1) t obtain tk' where t': "next_token (wk_tokens v) = Inr (Some word, tk')" "extends_input [] later tk tk'"
    by (rule next_token_extends)
  note go = assms(1) [unfolded walk_step_word [OF t]]
  have low: "wk_time v \<le> wk_time w'" using walk_step_Go_facts [OF assms(1)] a(3) by simp
  consider "hd word = CHR ''#''" | "hd word \<noteq> CHR ''#''" "hd word = CHR ''$''" | "hd word \<noteq> CHR ''#''" "hd word \<noteq> CHR ''$''"
    by blast
  then show ?thesis
  proof cases
    case 1
    with go have g: "walk_time stop (tk_offset (wk_tokens w)) (tl word) tk w = Go w' n" by simp
    from walk_time_extends [OF g t'(2) a(2) low] walk_time_fields [OF g] 1 t' a assms(3) that show ?thesis
      by (simp add: walk_step_word [OF t'(1)] alongside_def)
  next
    case 2
    with go have c: "walk_command word tk w = Go w' n" by simp
    from walk_command_extends [OF this t'(2) a(2)] obtain t2 t2' comments block where
      "n = None" "extends_input [] later t2 t2'"
      "w' = w\<lparr>wk_tokens := t2, wk_block := block, wk_comments := wk_comments w @ comments\<rparr>"
      "walk_command word tk' v = Go (v\<lparr>wk_tokens := t2', wk_block := block, wk_comments := wk_comments v @ comments\<rparr>) None" .
    with 2 a assms(3) show ?thesis
      by (intro that [of "v\<lparr>wk_tokens := t2', wk_block := block, wk_comments := wk_comments v @ comments\<rparr>"])
        (simp_all add: walk_step_word [OF t'(1)] alongside_def)
  next
    case 3
    with go have "walk_record parse_f64 r (Some sel) (tk_offset (wk_tokens w)) word tk w = Go w' n" by simp
    from walk_record_selected [OF this t'(2) a(2,3) assms(3)] obtain v' where
      "walk_record parse_f64 r (Some sel) (tk_offset (wk_tokens w)) word tk' v = Go v' n"
      "alongside later w' v'" "wk_encodings v' = wk_encodings w'" .
    with 3 that show ?thesis by (simp add: walk_step_word [OF t'(1)] off)
  qed
qed

text \<open>The place of the file where a chunk that ends at \<open>stop\<close> is read.\<close>

definition arrives :: "string \<Rightarrow> nat \<Rightarrow> walker \<Rightarrow> bool" where
  "arrives later stop v \<longleftrightarrow>
    (\<exists>ws. list_all is_ascii_whitespace ws \<and> tk_bytes (wk_tokens v) = ws @ later \<and>
      tk_offset (wk_tokens v) + length ws = stop) \<and> tk_fail (wk_tokens v) = None \<and> \<not> wk_block v"

definition input_end :: "walker \<Rightarrow> nat" where
  "input_end w = tk_offset (wk_tokens w) + length (tk_bytes (wk_tokens w))"

lemma input_end_moves: "moves (wk_tokens w) (wk_tokens w') \<Longrightarrow> input_end w' = input_end w"
  by (auto simp: moves_def input_end_def)

lemma no_word:
  assumes "next_token tk = Inr (None, t)"
  shows "list_all is_ascii_whitespace (tk_bytes tk)"
proof -
  from assms obtain word where n: "next_into [] tk = Inr (False, word, t)"
    by (auto simp: next_token_def split: if_splits)
  from next_into_result [OF n] have "first_word (tk_bytes tk) = []" by auto
  then have "dropWhile is_ascii_whitespace (tk_bytes tk) = []"
    unfolding first_word_def by (metis hd_dropWhile takeWhile_eq_Nil_iff)
  then show ?thesis by (simp add: dropWhile_eq_Nil_conv list_all_iff)
qed

lemma eof_arrives:
  assumes "next_token (wk_tokens w) = Inr (None, t)" and "\<not> wk_block w" and "alongside later w v"
  shows "arrives later (input_end w) v"
  using no_word [OF assms(1)] assms(2,3)
  by (auto simp: arrives_def alongside_def extends_input_def input_end_def)

lemma walk_selected:
  "walk parse_f64 r stop (Some sel) w = (xs, Inr (z, p)) \<Longrightarrow> alongside later w v \<Longrightarrow>
    wk_encodings v = wk_encodings w \<Longrightarrow>
    (\<exists>v'. walk parse_f64 r stop (Some sel) v =
        (xs @ fst (walk parse_f64 r stop (Some sel) v'), snd (walk parse_f64 r stop (Some sel) v')) \<and>
      arrives later (input_end w) v' \<and> wk_time v' = wk_time z \<and> wk_encodings v' = wk_encodings w) \<or>
    (stop \<noteq> - 1 \<and> (\<exists>q. walk parse_f64 r stop (Some sel) v = (xs, Inr (q, p))))"
proof (induction w arbitrary: xs v rule: walk_induct [of parse_f64 r stop "Some sel"])
  case (step w)
  show ?case
  proof (cases "walk_step parse_f64 r stop (Some sel) w")
    case (Go w' n)
    obtain zs where zs: "walk parse_f64 r stop (Some sel) w' = (zs, Inr (z, p))" "xs = emitted n @ zs"
      using step(2) by (simp add: walk_run(1) [OF Go] prod_eq_iff)
    from step_selected [OF Go step(3,4)] obtain v' where
      v': "walk_step parse_f64 r stop (Some sel) v = Go v' n" "alongside later w' v'" "wk_encodings v' = wk_encodings w'" .
    have "input_end w' = input_end w" "wk_encodings w' = wk_encodings w"
      using walk_step_Go_facts [OF Go] input_end_moves by blast+
    with step(1) [OF Go zs(1) v'(2,3)] zs(2) show ?thesis
      by (auto simp: walk_run(1) [OF v'(1)])
  next
    case (Stop w' q)
    then have res: "xs = []" "z = w'" "q = p" using step(2) by (simp_all add: walk_run(2))
    have fields: "wk_time v = wk_time w" "wk_block v = wk_block w"
      "tk_offset (wk_tokens v) = tk_offset (wk_tokens w)"
      "extends_input [] later (wk_tokens w) (wk_tokens v)"
      using step(3) by (simp_all add: alongside_def extends_input_def)
    show ?thesis
    proof (cases rule: walk_step_cases [of parse_f64 r stop "Some sel" w])
      case (eof tk)
      with Stop res have "z = w\<lparr>wk_tokens := tk\<rparr>" by simp
      with eof_arrives [OF eof(1,2) step(3)] fields step(4) res(1) show ?thesis
        by (intro disjI1 exI [of _ v]) simp
    next
      case (timed word tk)
      with Stop have w: "walk_time stop (tk_offset (wk_tokens w)) (tl word) tk w = Stop w' q" by simp
      then obtain t where t: "\<not> wk_block w" "integer (tl word) = Inr t" "wk_time w \<le> t" "stop < t"
        "q = walk_position (tk_offset (wk_tokens w)) w"
        by (auto simp: walk_time_def not_less split: if_splits sum.splits)
      from t(4) have "stop \<noteq> - 1" using word_order.extremum_strict [of t] by auto
      moreover have h: "hd word = CHR ''#''"
        using Stop unfolding walk_step_word [OF timed(1)]
        by (auto simp: walk_command_not_Stop walk_record_not_Stop split: if_splits)
      from fields(4) timed(1) obtain tk' where "next_token (wk_tokens v) = Inr (Some word, tk')"
        by (rule next_token_extends)
      from walk_step_word [OF this] h t fields have
        "walk_step parse_f64 r stop (Some sel) v = Stop (v\<lparr>wk_tokens := tk'\<rparr>) q"
        by (simp add: walk_time_def walk_position_def)
      ultimately show ?thesis using res by (simp add: walk_run(2))
    next
      case (command word tk)
      with Stop show ?thesis by (simp add: walk_command_not_Stop)
    next
      case (recorded word tk)
      with Stop show ?thesis by (simp add: walk_record_not_Stop)
    qed (use Stop in simp_all)
  next
    case (Fail e)
    with step(2) show ?thesis by (simp add: walk_run(3))
  qed
qed

section \<open>Opening walks\<close>

text \<open>
  \<open>v\<close> is the state of the file where a walk that had reached \<open>acc\<close> has then read what the
  chunk has read up to \<open>w\<close>.
\<close>

definition join_span :: "time_span option \<Rightarrow> time_span option \<Rightarrow> time_span option" where
  "join_span a b =
    (case b of
       None \<Rightarrow> a
     | Some s \<Rightarrow> Some \<lparr>span_first = (case a of Some p \<Rightarrow> span_first p | None \<Rightarrow> span_first s),
                       span_last = span_last s\<rparr>)"

definition merged :: "walker \<Rightarrow> walker \<Rightarrow> walker \<Rightarrow> bool" where
  "merged acc w v \<longleftrightarrow>
    length (wk_encodings w) = length (wk_encodings acc) \<and> length (wk_encodings v) = length (wk_encodings acc) \<and>
    length (wk_seen acc) = length (wk_encodings acc) \<and> length (wk_seen w) = length (wk_encodings acc) \<and>
    length (wk_seen v) = length (wk_encodings acc) \<and>
    (\<forall>i < length (wk_encodings acc).
      wk_seen v ! i = (wk_seen acc ! i \<or> wk_seen w ! i) \<and>
      wk_encodings v ! i = (if wk_seen acc ! i then wk_encodings acc ! i else wk_encodings w ! i)) \<and>
    wk_span v = join_span (wk_span acc) (wk_span w) \<and> wk_comments v = wk_comments acc @ wk_comments w \<and>
    (wk_span w = None \<longrightarrow> wk_span acc = None)"

definition agrees :: "walker \<Rightarrow> walker \<Rightarrow> bool" where
  "agrees acc z \<longleftrightarrow>
    (\<forall>i < length (wk_encodings acc). wk_seen acc ! i \<longrightarrow> wk_seen z ! i \<longrightarrow>
      wk_encodings acc ! i = wk_encodings z ! i)"

lemma merged_time:
  assumes "merged acc w v" and "walk_time stop offset digits tk w = Go w' n"
  shows "merged acc w' (v\<lparr>wk_tokens := tk', wk_time := wk_time w',
      wk_span := Some \<lparr>span_first = (case wk_span v of Some s \<Rightarrow> span_first s | None \<Rightarrow> Time (wk_time w')),
                       span_last = Time (wk_time w')\<rparr>\<rparr>)"
  using assms(1) walk_time_fields [OF assms(2)]
  by (cases "wk_span w") (auto simp: merged_def join_span_def split: option.split)

lemma merged_command:
  assumes "merged acc w v"
  shows "merged acc (w\<lparr>wk_tokens := t, wk_block := block, wk_comments := wk_comments w @ comments\<rparr>)
    (v\<lparr>wk_tokens := t', wk_block := block, wk_comments := wk_comments v @ comments\<rparr>)"
  using assms by (simp add: merged_def)

text \<open>A record that both read: the storage it is checked against is the same.\<close>

lemma merged_record:
  assumes "merged acc w v" and "agrees acc z" and "i < length (wk_encodings acc)" and "grown w' z"
    and w': "w' = w\<lparr>wk_tokens := tk,
      wk_encodings := (if string_record \<and> wk_encodings w ! i = Real \<and> \<not> wk_seen w ! i
         then (wk_encodings w)[i := String] else wk_encodings w),
      wk_seen := (wk_seen w)[i := True],
      wk_span := (case wk_span w of None \<Rightarrow> Some \<lparr>span_first = time_zero, span_last = time_zero\<rparr> | Some s \<Rightarrow> Some s)\<rparr>"
    and v': "v' = v\<lparr>wk_tokens := tk',
      wk_encodings := (if string_record \<and> wk_encodings v ! i = Real \<and> \<not> wk_seen v ! i
         then (wk_encodings v)[i := String] else wk_encodings v),
      wk_seen := (wk_seen v)[i := True],
      wk_span := (case wk_span v of None \<Rightarrow> Some \<lparr>span_first = time_zero, span_last = time_zero\<rparr> | Some s \<Rightarrow> Some s)\<rparr>"
  shows "merged acc w' v' \<and> wk_encodings v' ! i = wk_encodings w' ! i"
proof -
  let ?n = "length (wk_encodings acc)"
  have len: "length (wk_encodings w) = ?n" "length (wk_encodings v) = ?n" "length (wk_seen acc) = ?n"
    "length (wk_seen w) = ?n" "length (wk_seen v) = ?n"
    and seen: "\<And>j. j < ?n \<Longrightarrow> wk_seen v ! j = (wk_seen acc ! j \<or> wk_seen w ! j)"
    and enc: "\<And>j. j < ?n \<Longrightarrow> wk_encodings v ! j = (if wk_seen acc ! j then wk_encodings acc ! j else wk_encodings w ! j)"
    and span: "wk_span v = join_span (wk_span acc) (wk_span w)" "wk_span w = None \<longrightarrow> wk_span acc = None"
    and comments: "wk_comments v = wk_comments acc @ wk_comments w"
    using assms(1) by (simp_all add: merged_def)
  have known: "wk_seen w' ! i" "i < length (wk_seen w')" using assms(3) len by (simp_all add: w')
  then have z: "wk_seen z ! i" "wk_encodings z ! i = wk_encodings w' ! i"
    using assms(4) unfolding grown_def by blast+
  have enc': "wk_encodings v' ! j = (if wk_seen acc ! j then wk_encodings acc ! j else wk_encodings w' ! j)" if "j < ?n" for j
  proof (cases "j = i")
    case True
    then show ?thesis using that seen [OF that] enc [OF that] len by (simp add: w' v')
  next
    case False
    then show ?thesis using enc [OF that] by (simp add: w' v')
  qed
  have "merged acc w' v'"
    unfolding merged_def
  proof (intro conjI allI impI)
    show "length (wk_encodings w') = ?n" "length (wk_encodings v') = ?n" "length (wk_seen acc) = ?n"
      "length (wk_seen w') = ?n" "length (wk_seen v') = ?n"
      using len by (simp_all add: w' v')
    show "wk_seen v' ! j = (wk_seen acc ! j \<or> wk_seen w' ! j)" if "j < ?n" for j
      using that seen [OF that] len by (cases "j = i") (simp_all add: w' v')
    show "wk_encodings v' ! j = (if wk_seen acc ! j then wk_encodings acc ! j else wk_encodings w' ! j)" if "j < ?n" for j
      by (rule enc' [OF that])
    show "wk_span v' = join_span (wk_span acc) (wk_span w')"
      using span by (cases "wk_span w") (simp_all add: w' v' join_span_def)
    show "wk_comments v' = wk_comments acc @ wk_comments w'" using comments by (simp add: w' v')
    show "wk_span acc = None" if "wk_span w' = None"
      using that by (simp add: w' split: option.splits)
  qed
  moreover have "wk_encodings v' ! i = wk_encodings w' ! i"
    using enc' [OF assms(3)] assms(2,3) z by (simp add: agrees_def)
  ultimately show ?thesis ..
qed

lemma step_opening:
  assumes "walk_step parse_f64 r stop None w = Go w' n" and "alongside later w v" and "merged acc w v"
    and "agrees acc z" and "grown w' z" and "open_inv r w"
  obtains v' where "walk_step parse_f64 r stop None v = Go v' None" "alongside later w' v'" "merged acc w' v'"
proof -
  have a: "extends_input [] later (wk_tokens w) (wk_tokens v)" "wk_block v = wk_block w" "wk_time v = wk_time w"
    using assms(2) by (simp_all add: alongside_def)
  have off: "tk_offset (wk_tokens v) = tk_offset (wk_tokens w)" using a(1) by (simp add: extends_input_def)
  from assms(1) obtain word tk where t: "next_token (wk_tokens w) = Inr (Some word, tk)" by (rule walk_step_Go)
  from a(1) t obtain tk' where t': "next_token (wk_tokens v) = Inr (Some word, tk')" "extends_input [] later tk tk'"
    by (rule next_token_extends)
  note go = assms(1) [unfolded walk_step_word [OF t]]
  consider "hd word = CHR ''#''" | "hd word \<noteq> CHR ''#''" "hd word = CHR ''$''" | "hd word \<noteq> CHR ''#''" "hd word \<noteq> CHR ''$''"
    by blast
  then show ?thesis
  proof cases
    case 1
    with go have g: "walk_time stop (tk_offset (wk_tokens w)) (tl word) tk w = Go w' n" by simp
    have low: "wk_time v \<le> wk_time w'" using open_time [OF g assms(6)] a(3) by (simp add: grown_def)
    from walk_time_extends [OF g t'(2) a(2) low] walk_time_fields [OF g] merged_time [OF assms(3) g] 1 t' a that
    show ?thesis by (simp add: walk_step_word [OF t'(1)] alongside_def)
  next
    case 2
    with go have c: "walk_command word tk w = Go w' n" by simp
    from walk_command_extends [OF this t'(2) a(2)] obtain t2 t2' comments block where
      "n = None" "extends_input [] later t2 t2'"
      "w' = w\<lparr>wk_tokens := t2, wk_block := block, wk_comments := wk_comments w @ comments\<rparr>"
      "walk_command word tk' v = Go (v\<lparr>wk_tokens := t2', wk_block := block, wk_comments := wk_comments v @ comments\<rparr>) None" .
    with 2 a merged_command [OF assms(3)] show ?thesis
      by (intro that [of "v\<lparr>wk_tokens := t2', wk_block := block, wk_comments := wk_comments v @ comments\<rparr>"])
        (simp_all add: walk_step_word [OF t'(1)] alongside_def)
  next
    case 3
    with go have "walk_record parse_f64 r None (tk_offset (wk_tokens w)) word tk w = Go w' n" by simp
    then obtain payload code tk1 index x where parts: "record_parts word tk = Inr ((payload, code), tk1)"
      and l: "lookup_index r code = Some index"
      and w': "w' = w\<lparr>wk_tokens := tk1,
         wk_encodings :=
           (if to_ascii_lowercase (hd word) = CHR ''s'' \<and> wk_encodings w ! index = Real \<and> \<not> wk_seen w ! index
            then (wk_encodings w)[index := String] else wk_encodings w),
         wk_seen := (wk_seen w)[index := True],
         wk_span := (case wk_span w of None \<Rightarrow> Some \<lparr>span_first = time_zero, span_last = time_zero\<rparr>
           | Some s \<Rightarrow> Some s)\<rparr>"
      and x: "record_value parse_f64 tk1 (wk_encodings w' ! index) (to_ascii_lowercase (hd word)) payload False
        (Time (wk_time w)) = Inr x"
      by (rule open_record)
    from t'(2) parts obtain tk1' where parts': "record_parts word tk' = Inr ((payload, code), tk1')"
      and e: "extends_input [] later tk1 tk1'"
      by (rule record_parts_extends)
    define v' where "v' = v\<lparr>wk_tokens := tk1',
       wk_encodings :=
         (if to_ascii_lowercase (hd word) = CHR ''s'' \<and> wk_encodings v ! index = Real \<and> \<not> wk_seen v ! index
          then (wk_encodings v)[index := String] else wk_encodings v),
       wk_seen := (wk_seen v)[index := True],
       wk_span := (case wk_span v of None \<Rightarrow> Some \<lparr>span_first = time_zero, span_last = time_zero\<rparr>
         | Some s \<Rightarrow> Some s)\<rparr>"
    have "index < length (wk_encodings acc)" using assms(3,6) l by (auto simp: open_inv_def merged_def)
    from merged_record [OF assms(3,4) this assms(5) w' v'_def]
    have m: "merged acc w' v'" and enc: "wk_encodings v' ! index = wk_encodings w' ! index" by simp_all
    have "record_value parse_f64 tk1' (wk_encodings v' ! index) (to_ascii_lowercase (hd word)) payload False
        (Time (wk_time v)) = Inr x"
      using x unfolding enc a(3) record_value_def extends_error [OF e] .
    then have "walk_record parse_f64 r None (tk_offset (wk_tokens v)) word tk' v = Go v' None"
      using parts' l by (cases x) (simp_all add: walk_record_def Let_def v'_def)
    moreover have "alongside later w' v'" using e a by (simp add: alongside_def w' v'_def)
    ultimately show ?thesis using 3 m by (intro that [of v']) (simp_all add: walk_step_word [OF t'(1)])
  qed
qed

text \<open>A walk without an end tick stops only at the end of its input.\<close>

lemma full_stop:
  assumes "walk_step parse_f64 r (- 1) selected w = Stop w' p"
  obtains tk where "next_token (wk_tokens w) = Inr (None, tk)" "\<not> wk_block w" "w' = w\<lparr>wk_tokens := tk\<rparr>"
    "p = walk_position (tk_offset tk) w"
proof (cases rule: walk_step_cases [of parse_f64 r "- 1" selected w])
  case (eof tk)
  with assms that show ?thesis by simp
next
  case (timed word tk)
  have "\<not> (- 1 :: u64) < t" for t using word_order.extremum_strict [of t] by simp
  with timed assms show ?thesis by (simp add: walk_time_def split: if_splits sum.splits)
next
  case (command word tk)
  with assms show ?thesis by (simp add: walk_command_not_Stop)
next
  case (recorded word tk)
  with assms show ?thesis by (simp add: walk_record_not_Stop)
qed (use assms in simp_all)

lemma walk_opening:
  "walk parse_f64 r (- 1) None w = (xs, Inr (z, p)) \<Longrightarrow> alongside later w v \<Longrightarrow> merged acc w v \<Longrightarrow>
    agrees acc z \<Longrightarrow> open_inv r w \<Longrightarrow>
    \<exists>v'. walk parse_f64 r (- 1) None v = walk parse_f64 r (- 1) None v' \<and> arrives later (input_end w) v' \<and>
      wk_time v' = wk_time z \<and> merged acc z v'"
proof (induction w arbitrary: xs v rule: walk_induct [of parse_f64 r "- 1" None])
  case (step w)
  show ?case
  proof (cases "walk_step parse_f64 r (- 1) None w")
    case (Go w' n)
    have S: "n = None" "open_inv r w'" using open_step [OF Go step(6)] by simp_all
    have rest: "walk parse_f64 r (- 1) None w' = (xs, Inr (z, p))"
      using step(2) S(1) by (simp add: walk_run(1) [OF Go] prod_eq_iff)
    then have "grown w' z" using open_walk S(2) by blast
    from step_opening [OF Go step(3,4,5) this step(6)] obtain v' where
      v': "walk_step parse_f64 r (- 1) None v = Go v' None" "alongside later w' v'" "merged acc w' v'" .
    obtain word tk where "next_token (wk_tokens w) = Inr (Some word, tk)" "moves tk (wk_tokens w')"
      using Go by (rule walk_step_Go)
    then have "moves (wk_tokens w) (wk_tokens w')" by (blast intro: moves_trans next_token_moves)
    from step(1) [OF Go rest v'(2,3) step(5) S(2)] input_end_moves [OF this] show ?thesis
      by (simp add: walk_run(1) [OF v'(1)])
  next
    case (Stop w' q)
    then have res: "z = w'" using step(2) by (simp add: walk_run(2))
    from Stop obtain tk where eof: "next_token (wk_tokens w) = Inr (None, tk)" "\<not> wk_block w" "w' = w\<lparr>wk_tokens := tk\<rparr>"
      by (rule full_stop)
    with eof_arrives [OF eof(1,2) step(3)] step(3,4) res show ?thesis
      by (intro exI [of _ v]) (simp add: alongside_def merged_def)
  next
    case (Fail e)
    with step(2) show ?thesis by (simp add: walk_run(3))
  qed
qed

section \<open>Chunks of a file\<close>

text \<open>The input of the chunk from \<open>fst range\<close> up to \<open>snd range\<close>, and the state its walk starts in.\<close>

definition chunk_input :: "'a vcd_input_scheme \<Rightarrow> nat \<times> nat \<Rightarrow> tokens" where
  "chunk_input r span =
    \<lparr>tk_chunks = cut_by (vr_cuts r (fst span)) (take (snd span - fst span) (drop (fst span) (vr_bytes r))),
     tk_fail = vr_fail r, tk_offset = fst span\<rparr>"

definition chunk_walker :: "vcd \<Rightarrow> nat \<times> nat \<Rightarrow> walker" where
  "chunk_walker r span =
    \<lparr>wk_tokens = chunk_input r span, wk_time = 0, wk_span = None, wk_block = False,
     wk_seen = replicate (length (vr_encodings r)) False, wk_encodings = vr_encodings r, wk_comments = []\<rparr>"

text \<open>A cut at a time stamp, behind a white space.\<close>

definition cut_at_stamp :: "string \<Rightarrow> nat \<Rightarrow> bool" where
  "cut_at_stamp bytes n \<longleftrightarrow>
    0 < n \<and> n < length bytes \<and> is_ascii_whitespace (bytes ! (n - 1)) \<and> bytes ! n = CHR ''#''"

lemma first_word_stamp: "s \<noteq> [] \<Longrightarrow> hd s = CHR ''#'' \<Longrightarrow> first_word s \<noteq> [] \<and> hd (first_word s) = CHR ''#''"
  by (cases s) (simp_all add: first_word_def is_ascii_whitespace_def byte_def)

lemma chunk_stamp:
  assumes "tk_bytes (wk_tokens u) \<noteq> []" and "hd (tk_bytes (wk_tokens u)) = CHR ''#''"
    and go: "walk_step parse_f64 r stop selected u = Go u' n"
  obtains word tk where "next_token (wk_tokens u) = Inr (Some word, tk)" "hd word = CHR ''#''"
    "walk_time stop (tk_offset (wk_tokens u)) (tl word) tk u = Go u' n"
proof -
  from go obtain word tk where t: "next_token (wk_tokens u) = Inr (Some word, tk)" by (rule walk_step_Go)
  then have "word = first_word (tk_bytes (wk_tokens u))"
    by (auto simp: next_token_def dest: next_into_result split: if_splits)
  with first_word_stamp [OF assms(1,2)] have h: "hd word = CHR ''#''" by simp
  with t go show ?thesis by (intro that [of word tk]) (simp_all add: walk_step_word)
qed

lemma chunk_start:
  assumes "extends_input ws later (wk_tokens u) (wk_tokens v)" and "wk_block v = wk_block u"
    and "tk_bytes (wk_tokens u) \<noteq> []" and "hd (tk_bytes (wk_tokens u)) = CHR ''#''"
    and go: "walk_step parse_f64 r stop selected u = Go u' n" and "wk_time v \<le> wk_time u'"
  obtains tk' where "alongside later u' (v\<lparr>wk_tokens := tk', wk_time := wk_time u',
      wk_span := Some \<lparr>span_first = (case wk_span v of Some s \<Rightarrow> span_first s | None \<Rightarrow> Time (wk_time u')),
                       span_last = Time (wk_time u')\<rparr>\<rparr>)"
    "walk_step parse_f64 r stop selected v = Go (v\<lparr>wk_tokens := tk', wk_time := wk_time u',
      wk_span := Some \<lparr>span_first = (case wk_span v of Some s \<Rightarrow> span_first s | None \<Rightarrow> Time (wk_time u')),
                       span_last = Time (wk_time u')\<rparr>\<rparr>) None"
proof -
  from assms(3-5) obtain word tk where t: "next_token (wk_tokens u) = Inr (Some word, tk)" "hd word = CHR ''#''"
    "walk_time stop (tk_offset (wk_tokens u)) (tl word) tk u = Go u' n"
    by (rule chunk_stamp)
  from assms(1) t(1) obtain tk' where t': "next_token (wk_tokens v) = Inr (Some word, tk')" "extends_input [] later tk tk'"
    by (rule next_token_extends)
  note F = walk_time_fields [OF t(3)] walk_time_extends [OF t(3) t'(2) assms(2,6)]
  show ?thesis
    by (rule that [of tk']) (use F t(2) t' assms(2) in \<open>simp_all add: walk_step_word [OF t'(1)] alongside_def\<close>)
qed

text \<open>One chunk of an opening, behind the chunks read into \<open>v\<close>.\<close>

lemma opening_chunk:
  assumes "walk parse_f64 r (- 1) None (chunk_walker r (a, b)) = (xs, Inr (z, p))"
    and "arrives (drop a (vr_bytes r)) a v" and "cut_at_stamp (vr_bytes r) a" and "a < b"
    and "b = length (vr_bytes r) \<or> cut_at_stamp (vr_bytes r) b" and "vr_fail r = None"
    and "length (wk_seen v) = length (vr_encodings r)" and "length (wk_encodings v) = length (vr_encodings r)"
    and "agrees v z" and "\<And>s. wk_span z = Some s \<Longrightarrow> Time (wk_time v) \<le> span_first s"
    and "\<And>code i. lookup_index r code = Some i \<Longrightarrow> i < length (vr_encodings r)"
    and "\<And>i. i < length (vr_encodings r) \<Longrightarrow> \<not> wk_seen v ! i \<Longrightarrow> wk_encodings v ! i = vr_encodings r ! i"
  obtains v' where "walk parse_f64 r (- 1) None v = walk parse_f64 r (- 1) None v'"
    "arrives (drop b (vr_bytes r)) b v'" "wk_time v' = wk_time z" "merged v z v'" "wk_span z \<noteq> None"
proof -
  let ?u = "chunk_walker r (a, b)" and ?later = "drop b (vr_bytes r)"
  let ?x = "take (b - a) (drop a (vr_bytes r))"
  have a: "a < length (vr_bytes r)" "vr_bytes r ! a = CHR ''#''" using assms(3) by (simp_all add: cut_at_stamp_def)
  have b: "b \<le> length (vr_bytes r)" using assms(5) by (auto simp: cut_at_stamp_def)
  have x: "tk_bytes (wk_tokens ?u) = ?x" by (simp add: chunk_walker_def chunk_input_def tk_bytes_def)
  have split: "drop a (vr_bytes r) = ?x @ ?later"
    using assms(4) by (metis append_take_drop_id drop_drop le_add_diff_inverse2 less_imp_le_nat)
  have x1: "?x \<noteq> []" using a assms(4) by simp
  have hd: "hd ?x = CHR ''#''" using a assms(4) by (simp add: hd_drop_conv_nth)
  have blank: "?later = [] \<or> ends_blank ?x"
  proof (cases "b = length (vr_bytes r)")
    case False
    with assms(5) have s: "cut_at_stamp (vr_bytes r) b" by simp
    have "length ?x = b - a" using b by simp
    then have "last ?x = ?x ! (b - a - 1)" using x1 by (simp add: last_conv_nth)
    also have "\<dots> = vr_bytes r ! (b - 1)" using assms(4) a by (simp add: add.commute)
    finally show ?thesis using s x1 by (simp add: ends_blank_def cut_at_stamp_def)
  qed simp
  obtain ws where ws: "list_all is_ascii_whitespace ws" "tk_bytes (wk_tokens v) = ws @ drop a (vr_bytes r)"
    "tk_offset (wk_tokens v) + length ws = a" "tk_fail (wk_tokens v) = None" "\<not> wk_block v"
    using assms(2) by (auto simp: arrives_def)
  have e: "extends_input ws ?later (wk_tokens ?u) (wk_tokens v)"
    using ws blank x assms(6) split by (simp add: extends_input_def chunk_walker_def chunk_input_def)
  have inv: "open_inv r ?u"
    using assms(11) by (simp add: open_inv_def chunk_walker_def span_at_def)
  from assms(1) obtain u' n where go: "walk_step parse_f64 r (- 1) None ?u = Go u' n"
    and rest: "walk parse_f64 r (- 1) None u' = (xs, Inr (z, p))"
  proof (cases "walk_step parse_f64 r (- 1) None ?u")
    case (Go u' n)
    with open_step [OF Go inv] assms(1) that show ?thesis by (simp add: walk_run(1) prod_eq_iff)
  next
    case (Stop u' q)
    then obtain tk where "next_token (wk_tokens ?u) = Inr (None, tk)" by (rule full_stop)
    from no_word [OF this] have "is_ascii_whitespace (hd ?x)" using x hd_in_set [OF x1] by (metis list_all_iff)
    then show ?thesis unfolding hd by (simp add: is_ascii_whitespace_def byte_def)
  next
    case (Fail e)
    with assms(1) show ?thesis by (simp add: walk_run(3))
  qed
  have inv': "open_inv r u'" using open_step [OF go inv] by simp
  have z: "grown u' z" using open_walk [OF rest inv'] by simp
  have u: "wk_span ?u = None" "wk_seen ?u = replicate (length (vr_encodings r)) False"
    "wk_encodings ?u = vr_encodings r" "wk_comments ?u = []" "wk_block v = wk_block ?u"
    using ws(5) by (simp_all add: chunk_walker_def)
  obtain word tk where "next_token (wk_tokens ?u) = Inr (Some word, tk)" "moves tk (wk_tokens u')"
    using go by (rule walk_step_Go)
  then have end_u: "input_end u' = b"
    using input_end_moves [of ?u u'] next_token_moves x b assms(4)
    by (fastforce simp: input_end_def chunk_walker_def chunk_input_def intro: moves_trans)
  have x1': "tk_bytes (wk_tokens ?u) \<noteq> []" and hd': "hd (tk_bytes (wk_tokens ?u)) = CHR ''#''"
    using x x1 hd by simp_all
  from x1' hd' go obtain word tk where
    g: "walk_time (- 1) (tk_offset (wk_tokens ?u)) (tl word) tk ?u = Go u' n"
    by (rule chunk_stamp)
  note F = walk_time_fields [OF g]
  then have stamp: "wk_span u' = Some \<lparr>span_first = Time (wk_time u'), span_last = Time (wk_time u')\<rparr>"
    using u(1) by simp
  then obtain s where s: "wk_span z = Some s" "span_first s = Time (wk_time u')"
    using z by (auto simp: grown_def widens_def)
  then have low: "wk_time v \<le> wk_time u'" using assms(10) by fastforce
  define f where "f tk' = v\<lparr>wk_tokens := tk', wk_time := wk_time u',
      wk_span := Some \<lparr>span_first = (case wk_span v of Some s \<Rightarrow> span_first s | None \<Rightarrow> Time (wk_time u')),
                       span_last = Time (wk_time u')\<rparr>\<rparr>" for tk'
  from e u(5) x1' hd' go low obtain tk' where along: "alongside ?later u' (f tk')"
    and go': "walk_step parse_f64 r (- 1) None v = Go (f tk') None"
    unfolding f_def by (rule chunk_start)
  have "merged v u' (f tk')"
    using F u stamp assms(7,8,12) by (simp add: merged_def join_span_def f_def split: option.split)
  from walk_opening [OF rest along this assms(9) inv'] obtain v2 where
    "walk parse_f64 r (- 1) None (f tk') = walk parse_f64 r (- 1) None v2" "arrives ?later b v2"
    "wk_time v2 = wk_time z" "merged v z v2"
    unfolding end_u by blast
  with s(1) show ?thesis by (intro that [of v2]) (simp_all add: walk_run(1) [OF go'])
qed

end
