(* ===== verification/Ondas_Vcd_Parallel.thy ===== *)
theory Ondas_Vcd_Parallel
  imports Ondas_Vcd_Chunks
begin

text \<open>
  Opening a file with several threads (\<^verbatim>\<open>src/src/backends/vcd.rs\<close>, \<open>Reader::parallel_open\<close>
  and \<open>parallel_open_with_cuts\<close>): the body is cut at time stamps, each chunk is walked on its
  own and the results are merged, or dropped for the walk of the whole body. The theorem
  says that the caller cannot tell which way the file was opened.
\<close>

section \<open>Cuts\<close>

text \<open>
  What the host gives to the parallel reader: the available parallelism (\<open>None\<close>: unknown), the
  bytes that a read of the file at an offset returns (\<open>None\<close>: an I/O error; a read may be
  short), and whether the file is duplicated and the threads are spawned.
\<close>

record host =
  ho_workers :: "nat option"
  ho_read :: "nat \<Rightarrow> nat option"
  ho_threads :: bool

fun find_stamp :: "string \<Rightarrow> nat option" where
  "find_stamp (a # b # s) =
    (if byte a = 10 \<and> b = CHR ''#'' then Some 0 else map_option Suc (find_stamp (b # s)))"
| "find_stamp _ = None"

definition next_cut :: "host \<Rightarrow> string \<Rightarrow> nat \<Rightarrow> nat \<Rightarrow> nat option" where
  "next_cut ho bytes target previous =
    (case ho_read ho target of
       None \<Rightarrow> None
     | Some got \<Rightarrow>
         (case find_stamp (take (min got (min (length bytes - target) 1048576)) (drop target bytes)) of
            None \<Rightarrow> None
          | Some newline \<Rightarrow>
              (let place = target + newline + 1 in if place \<le> previous then None else Some place)))"

primrec place_cuts :: "host \<Rightarrow> string \<Rightarrow> nat \<Rightarrow> nat \<Rightarrow> nat list \<Rightarrow> nat list \<Rightarrow> nat list option" where
  "place_cuts ho bytes start step [] cuts = Some cuts"
| "place_cuts ho bytes start step (i # ixs) cuts =
    (case next_cut ho bytes (start + step * i) (List.last cuts) of
       None \<Rightarrow> None
     | Some place \<Rightarrow> place_cuts ho bytes start step ixs (cuts @ [place]))"

definition parallel_cuts :: "host \<Rightarrow> vcd \<Rightarrow> nat list option" where
  "parallel_cuts ho r =
    (let stop = length (vr_bytes r); start = vr_body r in
     if stop < start then None
     else case ho_workers ho of
         None \<Rightarrow> None
       | Some available \<Rightarrow>
           (let size = stop - start; workers = min available (size div 33554432) in
            if workers < 2 then None
            else map_option (\<lambda>cuts. cuts @ [stop])
                   (place_cuts ho (vr_bytes r) start (size div workers) [1..<workers] [start])))"

section \<open>Chunks\<close>

record opening_chunk =
  oc_span :: "time_span option"
  oc_seen :: "bool list"
  oc_encodings :: "encoding list"
  oc_comments :: "string list"

definition read_opening_chunk ::
    "(string \<Rightarrow> u64 option) \<Rightarrow> vcd \<Rightarrow> nat \<times> nat \<Rightarrow> error + opening_chunk" where
  "read_opening_chunk parse_f64 r span =
    and_then (snd (walk parse_f64 r (- 1) None (chunk_walker r span))) (\<lambda>(w, _).
      Inr \<lparr>oc_span = wk_span w, oc_seen = wk_seen w, oc_encodings = wk_encodings w,
           oc_comments = wk_comments w\<rparr>)"

record opening_merge =
  om_span :: "time_span option"
  om_comments :: "string list"
  om_real :: "bool list"
  om_string :: "bool list"

definition merge_span :: "time_span option \<Rightarrow> time_span option \<Rightarrow> time_span option option" where
  "merge_span previous part =
    (case part of
       None \<Rightarrow> Some previous
     | Some s \<Rightarrow>
         (case previous of
            Some p \<Rightarrow> if span_first s < span_last p then None else Some (join_span previous part)
          | None \<Rightarrow> Some (join_span previous part)))"

definition saw :: "encoding list \<Rightarrow> encoding \<Rightarrow> opening_chunk \<Rightarrow> bool list \<Rightarrow> bool list" where
  "saw decl e part flags =
    map (\<lambda>i. flags ! i \<or> (oc_seen part ! i \<and> decl ! i = Real \<and> oc_encodings part ! i = e))
      [0..<length decl]"

primrec merge_chunks ::
    "encoding list \<Rightarrow> nat \<Rightarrow> (error + opening_chunk) list \<Rightarrow> opening_merge \<Rightarrow> opening_merge option" where
  "merge_chunks decl index [] m = Some m"
| "merge_chunks decl index (part # parts) m =
    (case part of
       Inl e \<Rightarrow> None
     | Inr p \<Rightarrow>
         if 0 < index \<and> oc_span p = None then None
         else case merge_span (om_span m) (oc_span p) of
             None \<Rightarrow> None
           | Some span \<Rightarrow>
               merge_chunks decl (Suc index) parts
                 \<lparr>om_span = span, om_comments = om_comments m @ oc_comments p,
                  om_real = saw decl Real p (om_real m),
                  om_string = saw decl String p (om_string m)\<rparr>)"

definition merge_start :: "encoding list \<Rightarrow> opening_merge" where
  "merge_start decl =
    \<lparr>om_span = None, om_comments = [], om_real = replicate (length decl) False,
     om_string = replicate (length decl) False\<rparr>"

definition mixed :: "encoding list \<Rightarrow> opening_merge \<Rightarrow> bool" where
  "mixed decl m \<longleftrightarrow> list_ex (\<lambda>(real, string). real \<and> string) (zip (om_real m) (om_string m))"

definition merged_encodings :: "encoding list \<Rightarrow> opening_merge \<Rightarrow> encoding list" where
  "merged_encodings decl m =
    map (\<lambda>i. if om_string m ! i then String else decl ! i) [0..<length decl]"

definition chunk_ranges :: "nat list \<Rightarrow> (nat \<times> nat) list" where
  "chunk_ranges cuts = zip cuts (tl cuts)"

definition open_with_cuts ::
    "(string \<Rightarrow> u64 option) \<Rightarrow> vcd \<Rightarrow> nat list \<Rightarrow> (time_span option \<times> string list \<times> encoding list) option" where
  "open_with_cuts parse_f64 r cuts =
    (case merge_chunks (vr_encodings r) 0 (map (read_opening_chunk parse_f64 r) (chunk_ranges cuts))
            (merge_start (vr_encodings r)) of
       None \<Rightarrow> None
     | Some m \<Rightarrow>
         if mixed (vr_encodings r) m then None
         else Some (om_span m, om_comments m, merged_encodings (vr_encodings r) m))"

text \<open>The chunks of a file that was opened in parallel, for the reads that follow.\<close>

record parallel_source =
  pl_cuts :: "nat list"
  pl_last :: u64

definition parallel_open ::
    "(string \<Rightarrow> u64 option) \<Rightarrow> host \<Rightarrow> vcd \<Rightarrow>
      (time_span option \<times> string list \<times> encoding list \<times> parallel_source) option" where
  "parallel_open parse_f64 ho r =
    (case parallel_cuts ho r of
       None \<Rightarrow> None
     | Some cuts \<Rightarrow>
         if \<not> ho_threads ho then None
         else case open_with_cuts parse_f64 r cuts of
             None \<Rightarrow> None
           | Some (span, comments, encodings) \<Rightarrow>
               Some (span, comments, encodings,
                 \<lparr>pl_cuts = cuts,
                  pl_last = (case span of Some s \<Rightarrow> ticks (span_last s) | None \<Rightarrow> 0)\<rparr>))"

text \<open>\<open>host\<close> is \<open>None\<close> for an input that is not a file.\<close>

definition vcd_open_file ::
    "(string \<Rightarrow> u64 option) \<Rightarrow> u64 \<Rightarrow> host option \<Rightarrow> vcd_input \<Rightarrow> string \<Rightarrow>
      error + (vcd \<times> hierarchy \<times> metadata) \<times> parallel_source option" where
  "vcd_open_file parse_f64 source host input source_name =
    and_then (header_read input source_name) (\<lambda>(h, tk, body).
    and_then
      (case Option.bind host (\<lambda>ho. parallel_open parse_f64 ho (opened input h body)) of
         Some (span, comments, encodings, par) \<Rightarrow>
           Inr (span, md_comments (vh_metadata h) @ comments, encodings, Some par)
       | None \<Rightarrow>
           and_then (snd (walk parse_f64 (opened input h body) (- 1) None (opening_walker h tk))) (\<lambda>(w, _).
             Inr (wk_span w, wk_comments w, wk_encodings w, None)))
      (\<lambda>(span, comments, encodings, par).
        Inr (((opened input h body)\<lparr>vr_encodings := encodings\<rparr>,
              \<lparr>hi_source = source, hi_scopes = vh_scopes h, hi_variables = vh_variables h,
               hi_encodings = encodings\<rparr>,
              (vh_metadata h)\<lparr>md_time_span := span, md_comments := comments\<rparr>), par)))"

section \<open>The cuts are at time stamps\<close>

lemma find_stamp_at:
  "find_stamp s = Some n \<Longrightarrow> Suc n < length s \<and> byte (s ! n) = 10 \<and> s ! Suc n = CHR ''#''"
  by (induction s arbitrary: n rule: find_stamp.induct) (auto split: if_splits)

lemma next_cut_at:
  assumes "next_cut ho bytes target previous = Some place"
  shows "previous < place \<and> cut_at_stamp bytes place"
proof -
  from assms obtain n got where c: "place = target + n + 1" "previous < place"
    and f: "find_stamp (take got (drop target bytes)) = Some n"
    by (auto simp: next_cut_def Let_def not_le split: option.splits if_splits)
  from find_stamp_at [OF f] have s: "Suc n < length (take got (drop target bytes))"
    "byte (take got (drop target bytes) ! n) = 10" "take got (drop target bytes) ! Suc n = CHR ''#''"
    by blast+
  then have "byte (bytes ! (target + n)) = 10" "bytes ! (target + Suc n) = CHR ''#''"
    by (simp_all add: less_diff_conv add.commute nth_drop)
  with c s(1) show ?thesis by (simp add: cut_at_stamp_def is_ascii_whitespace_def less_diff_conv add.commute)
qed

lemma place_cuts_at:
  "place_cuts ho bytes start step ixs cuts = Some out \<Longrightarrow> cuts \<noteq> [] \<Longrightarrow>
    \<exists>rest_cuts. out = cuts @ rest_cuts \<and> sorted_wrt (<) (List.last cuts # rest_cuts) \<and> list_all (cut_at_stamp bytes) rest_cuts"
proof (induction ixs arbitrary: cuts)
  case (Cons i ixs)
  from Cons(2) obtain place where place: "next_cut ho bytes (start + step * i) (List.last cuts) = Some place"
    and rest: "place_cuts ho bytes start step ixs (cuts @ [place]) = Some out"
    by (auto split: option.splits)
  from Cons(1) [OF rest] obtain rest_cuts where
    "out = (cuts @ [place]) @ rest_cuts" "sorted_wrt (<) (place # rest_cuts)" "list_all (cut_at_stamp bytes) rest_cuts"
    by auto
  with next_cut_at [OF place] show ?case by (intro exI [of _ "place # rest_cuts"]) auto
qed simp

lemma place_cuts_length:
  "place_cuts ho bytes start step ixs cuts = Some out \<Longrightarrow> length out = length cuts + length ixs"
  by (induction ixs arbitrary: cuts) (auto split: option.splits)

text \<open>
  \<open>cuts_from\<close>: the cuts behind a first one, each at a stamp, the last at the end of the file.
\<close>

primrec cuts_from :: "string \<Rightarrow> nat \<Rightarrow> nat list \<Rightarrow> bool" where
  "cuts_from bytes a [] \<longleftrightarrow> a = length bytes"
| "cuts_from bytes a (b # cuts) \<longleftrightarrow>
    a < b \<and> (cuts \<noteq> [] \<longrightarrow> cut_at_stamp bytes b) \<and> cuts_from bytes b cuts"

lemma cuts_from_end:
  "sorted_wrt (<) (a # rest_cuts) \<Longrightarrow> list_all (cut_at_stamp bytes) rest_cuts \<Longrightarrow>
    a < length bytes \<Longrightarrow> cuts_from bytes a (rest_cuts @ [length bytes])"
  by (induction rest_cuts arbitrary: a) (auto simp: cut_at_stamp_def)

text \<open>Cuts of the body: the first behind the header, each other at a stamp.\<close>

definition well_cut :: "vcd \<Rightarrow> nat list \<Rightarrow> bool" where
  "well_cut r cuts \<longleftrightarrow>
    (case cuts of
       a # b # rest \<Rightarrow>
         a = vr_body r \<and> cuts_from (vr_bytes r) a (b # rest) \<and> cut_at_stamp (vr_bytes r) b
     | _ \<Rightarrow> False)"

lemma well_cut_cases:
  assumes "well_cut r cuts"
  obtains b rest where "cuts = vr_body r # b # rest" "cuts_from (vr_bytes r) (vr_body r) (b # rest)"
    "cut_at_stamp (vr_bytes r) b"
  using assms by (auto simp: well_cut_def split: list.splits)

lemma parallel_cuts_at:
  assumes "parallel_cuts ho r = Some cuts"
  shows "well_cut r cuts"
proof -
  let ?size = "length (vr_bytes r) - vr_body r"
  from assms obtain available out workers where
    w: "workers = min available (?size div 33554432)" "\<not> workers < 2"
    and out: "place_cuts ho (vr_bytes r) (vr_body r) (?size div workers) [1..<workers] [vr_body r] = Some out"
    and cuts: "cuts = out @ [length (vr_bytes r)]"
    by (auto simp: parallel_cuts_def Let_def split: option.splits if_splits)
  from place_cuts_at [OF out] obtain rest_cuts where rest_cuts: "out = vr_body r # rest_cuts"
    "sorted_wrt (<) (vr_body r # rest_cuts)" "list_all (cut_at_stamp (vr_bytes r)) rest_cuts"
    by auto
  have "length out = workers" using place_cuts_length [OF out] w(2) by simp
  with w(2) rest_cuts(1) obtain b rest where b: "rest_cuts = b # rest" by (cases rest_cuts) auto
  have "vr_body r < length (vr_bytes r)" using rest_cuts(2,3) by (auto simp: b cut_at_stamp_def)
  with rest_cuts have "cuts_from (vr_bytes r) (vr_body r) (rest_cuts @ [length (vr_bytes r)])" by (intro cuts_from_end)
  with rest_cuts cuts b show ?thesis by (auto simp: well_cut_def)
qed

section \<open>What the merge keeps\<close>

text \<open>Storage not seen in the walk is the declared one.\<close>

definition fresh :: "encoding list \<Rightarrow> walker \<Rightarrow> bool" where
  "fresh decl w \<longleftrightarrow>
    (\<forall>i < length decl. \<not> wk_seen w ! i \<longrightarrow> wk_encodings w ! i = decl ! i)"

lemma fresh_step:
  assumes "walk_step parse_f64 r stop None w = Go w' n" and "fresh decl w" and "open_inv r w"
  shows "fresh decl w'"
proof (cases rule: walk_step_cases [of parse_f64 r stop None w])
  case (timed word tk)
  with assms show ?thesis by (auto simp: fresh_def dest: walk_time_fields)
next
  case (command word tk)
  with assms have "walk_command word tk w = Go w' n" by simp
  then have "wk_seen w' = wk_seen w \<and> wk_encodings w' = wk_encodings w"
    by (auto simp: walk_command_def split: if_splits sum.splits)
  with assms(2) show ?thesis by (simp add: fresh_def)
next
  case (recorded word tk)
  with assms(1) have "walk_record parse_f64 r None (tk_offset (wk_tokens w)) word tk w = Go w' n" by simp
  then show ?thesis
  proof (rule open_record)
    fix payload code tk' index x
    assume l: "lookup_index r code = Some index"
      and w': "w' = w\<lparr>wk_tokens := tk',
       wk_encodings :=
         (if to_ascii_lowercase (hd word) = CHR ''s'' \<and> wk_encodings w ! index = Real \<and> \<not> wk_seen w ! index
          then (wk_encodings w)[index := String] else wk_encodings w),
       wk_seen := (wk_seen w)[index := True],
       wk_span := (case wk_span w of None \<Rightarrow> Some \<lparr>span_first = time_zero, span_last = time_zero\<rparr>
         | Some s \<Rightarrow> Some s)\<rparr>"
    have "index < length (wk_seen w)" using assms(3) l by (simp add: open_inv_def)
    then have "wk_encodings w' ! i = decl ! i" if "i < length decl" "\<not> wk_seen w' ! i" for i
      using that assms(2) by (cases "i = index") (auto simp: w' fresh_def)
    then show ?thesis by (simp add: fresh_def)
  qed
qed (use assms in simp_all)

lemma fresh_walk:
  "walk parse_f64 r stop None w = (xs, Inr (z, p)) \<Longrightarrow> fresh decl w \<Longrightarrow> open_inv r w \<Longrightarrow> fresh decl z"
proof (induction w arbitrary: xs rule: walk_induct [of parse_f64 r stop None])
  case (step w)
  show ?case
  proof (cases "walk_step parse_f64 r stop None w")
    case (Go w' n)
    with step(1) [OF Go _ fresh_step [OF Go step(3,4)]] open_step [OF Go step(4)] step(2) show ?thesis
      by (simp add: walk_run(1) prod_eq_iff)
  next
    case (Stop z' q)
    with open_stop [OF Stop] step(2,3) show ?thesis by (auto simp: walk_run(2) fresh_def)
  next
    case (Fail e)
    with step(2) show ?thesis by (simp add: walk_run(3))
  qed
qed

text \<open>
  \<open>merges\<close>: what the walk of the body has read up to a cut is what the merge holds.
\<close>

definition merges :: "encoding list \<Rightarrow> string list \<Rightarrow> opening_merge \<Rightarrow> walker \<Rightarrow> bool" where
  "merges decl comments m v \<longleftrightarrow>
    length (wk_seen v) = length decl \<and> length (wk_encodings v) = length decl \<and>
    length (om_real m) = length decl \<and> length (om_string m) = length decl \<and>
    om_span m = wk_span v \<and> wk_comments v = comments @ om_comments m \<and> span_at (wk_span v) (wk_time v) \<and>
    fresh decl v \<and>
    (\<forall>i < length decl. settled (decl ! i) (wk_encodings v ! i) \<and>
      (om_string m ! i \<longleftrightarrow> wk_seen v ! i \<and> decl ! i = Real \<and> wk_encodings v ! i = String) \<and>
      (om_real m ! i \<longleftrightarrow> wk_seen v ! i \<and> decl ! i = Real \<and> wk_encodings v ! i = Real))"

lemma merges_result:
  assumes "merges decl comments m v"
  shows "merged_encodings decl m = wk_encodings v"
proof (rule nth_equalityI)
  show "length (merged_encodings decl m) = length (wk_encodings v)"
    using assms by (simp add: merged_encodings_def merges_def)
  fix i
  assume "i < length (merged_encodings decl m)"
  then have i: "i < length decl" by (simp add: merged_encodings_def)
  with assms have "settled (decl ! i) (wk_encodings v ! i)"
    "om_string m ! i \<longleftrightarrow> wk_seen v ! i \<and> decl ! i = Real \<and> wk_encodings v ! i = String"
    "\<not> wk_seen v ! i \<Longrightarrow> wk_encodings v ! i = decl ! i"
    by (auto simp: merges_def fresh_def)
  with i show "merged_encodings decl m ! i = wk_encodings v ! i"
    by (cases "wk_seen v ! i") (auto simp: merged_encodings_def settled_def)
qed

text \<open>A chunk that is read to its end, as the walk it is read by.\<close>

definition chunk_read :: "opening_chunk \<Rightarrow> walker \<Rightarrow> bool" where
  "chunk_read p z \<longleftrightarrow>
    oc_span p = wk_span z \<and> oc_seen p = wk_seen z \<and> oc_encodings p = wk_encodings z \<and>
    oc_comments p = wk_comments z"

lemma read_opening_chunk_walk:
  assumes "read_opening_chunk parse_f64 r span = Inr p"
  obtains xs z q where "walk parse_f64 r (- 1) None (chunk_walker r span) = (xs, Inr (z, q))" "chunk_read p z"
proof -
  from assms obtain z q where w: "snd (walk parse_f64 r (- 1) None (chunk_walker r span)) = Inr (z, q)"
    and p: "p = \<lparr>oc_span = wk_span z, oc_seen = wk_seen z, oc_encodings = wk_encodings z,
      oc_comments = wk_comments z\<rparr>"
    by (auto simp: read_opening_chunk_def)
  show ?thesis
  proof (rule that)
    show "walk parse_f64 r (- 1) None (chunk_walker r span) =
        (fst (walk parse_f64 r (- 1) None (chunk_walker r span)), Inr (z, q))"
      unfolding w [symmetric] prod.collapse ..
    show "chunk_read p z" by (simp add: p chunk_read_def)
  qed
qed

definition merge_step :: "encoding list \<Rightarrow> opening_merge \<Rightarrow> opening_chunk \<Rightarrow> opening_merge" where
  "merge_step decl m p =
    \<lparr>om_span = join_span (om_span m) (oc_span p), om_comments = om_comments m @ oc_comments p,
     om_real = saw decl Real p (om_real m), om_string = saw decl String p (om_string m)\<rparr>"

lemma unmixed:
  "length (om_real m) = n \<Longrightarrow> length (om_string m) = n \<Longrightarrow>
    mixed decl m \<longleftrightarrow> (\<exists>i < n. om_real m ! i \<and> om_string m ! i)"
  by (simp add: mixed_def list_ex_length cong: conj_cong)

lemma merge_chunks_Some:
  assumes "merge_chunks decl index (part # parts) m = Some out"
  obtains p where "part = Inr p" "0 < index \<longrightarrow> oc_span p \<noteq> None"
    "\<And>a b. om_span m = Some a \<Longrightarrow> oc_span p = Some b \<Longrightarrow> span_last a \<le> span_first b"
    "merge_chunks decl (Suc index) parts (merge_step decl m p) = Some out"
proof -
  from assms obtain p span where p: "part = Inr p" "\<not> (0 < index \<and> oc_span p = None)"
    and span: "merge_span (om_span m) (oc_span p) = Some span"
    and rest: "merge_chunks decl (Suc index) parts
                 \<lparr>om_span = span, om_comments = om_comments m @ oc_comments p,
                  om_real = saw decl Real p (om_real m),
                  om_string = saw decl String p (om_string m)\<rparr> = Some out"
    by (auto split: sum.splits if_splits option.splits)
  have j: "span = join_span (om_span m) (oc_span p)"
    using span by (auto simp: merge_span_def join_span_def split: option.splits if_splits)
  show ?thesis
    using p rest span by (intro that [of p]) (auto simp: j merge_step_def merge_span_def not_less split: if_splits)
qed

lemma merge_chunks_keeps:
  "merge_chunks decl index parts m = Some out \<Longrightarrow> length (om_real m) = length decl \<Longrightarrow>
    length (om_string m) = length decl \<Longrightarrow>
    length (om_real out) = length decl \<and> length (om_string out) = length decl \<and>
    (\<forall>i < length decl. (om_real m ! i \<longrightarrow> om_real out ! i) \<and> (om_string m ! i \<longrightarrow> om_string out ! i))"
proof (induction parts arbitrary: index m)
  case (Cons part parts)
  from Cons(2) obtain p where "merge_chunks decl (Suc index) parts (merge_step decl m p) = Some out"
    by (rule merge_chunks_Some)
  from Cons(1) [OF this] show ?case by (auto simp: merge_step_def saw_def)
qed simp

text \<open>Two walks that saw a signal in different storage leave a mixed merge.\<close>

lemma unmixed_agrees:
  assumes "merges decl comments m v" and "chunk_read p z"
    and "merge_chunks decl index parts (merge_step decl m p) = Some out" and "\<not> mixed decl out"
    and "\<And>i. i < length decl \<Longrightarrow> settled (decl ! i) (wk_encodings z ! i)"
  shows "agrees v z"
  unfolding agrees_def
proof (intro allI impI)
  fix i
  assume "i < length (wk_encodings v)" and seen: "wk_seen v ! i" "wk_seen z ! i"
  then have i: "i < length decl" using assms(1) by (simp add: merges_def)
  have len: "length (om_real (merge_step decl m p)) = length decl" "length (om_string (merge_step decl m p)) = length decl"
    by (simp_all add: merge_step_def saw_def)
  note K = merge_chunks_keeps [OF assms(3) len]
  then have out: "\<not> (om_real out ! i \<and> om_string out ! i)"
    using assms(4) i unmixed [of out "length decl" decl] by blast
  have m: "settled (decl ! i) (wk_encodings v ! i)"
    "om_string m ! i \<longleftrightarrow> wk_seen v ! i \<and> decl ! i = Real \<and> wk_encodings v ! i = String"
    "om_real m ! i \<longleftrightarrow> wk_seen v ! i \<and> decl ! i = Real \<and> wk_encodings v ! i = Real"
    using assms(1) i by (auto simp: merges_def)
  have "om_real (merge_step decl m p) ! i \<longleftrightarrow> om_real m ! i \<or> decl ! i = Real \<and> wk_encodings z ! i = Real"
    "om_string (merge_step decl m p) ! i \<longleftrightarrow> om_string m ! i \<or> decl ! i = Real \<and> wk_encodings z ! i = String"
    using i seen assms(2) by (simp_all add: merge_step_def saw_def chunk_read_def)
  with K i out m seen assms(5) [OF i] show "wk_encodings v ! i = wk_encodings z ! i"
    unfolding settled_def by metis
qed

lemma merges_step:
  assumes "merges decl comments m v" and "chunk_read p z" and "merged v z v'" and "agrees v z"
    and "wk_time v' = wk_time z" and "span_at (wk_span z) (wk_time z)" and "fresh decl z"
    and set: "\<And>i. i < length decl \<Longrightarrow> settled (decl ! i) (wk_encodings z ! i)"
    and span: "wk_span z \<noteq> None \<or> wk_span v = None"
      "\<And>a b. wk_span v = Some a \<Longrightarrow> wk_span z = Some b \<Longrightarrow> span_last a \<le> span_first b"
  shows "merges decl comments (merge_step decl m p) v'"
proof -
  let ?n = "length decl"
  have len: "length (wk_encodings v) = ?n" using assms(1) by (simp add: merges_def)
  have p: "oc_span p = wk_span z" "oc_seen p = wk_seen z" "oc_encodings p = wk_encodings z" "oc_comments p = wk_comments z"
    using assms(2) by (simp_all add: chunk_read_def)
  have v': "wk_seen v' ! i = (wk_seen v ! i \<or> wk_seen z ! i)"
    "wk_encodings v' ! i = (if wk_seen v ! i then wk_encodings v ! i else wk_encodings z ! i)" if "i < ?n" for i
    using assms(3) that len by (simp_all add: merged_def)
  have m: "settled (decl ! i) (wk_encodings v ! i)"
    "om_string m ! i \<longleftrightarrow> wk_seen v ! i \<and> decl ! i = Real \<and> wk_encodings v ! i = String"
    "om_real m ! i \<longleftrightarrow> wk_seen v ! i \<and> decl ! i = Real \<and> wk_encodings v ! i = Real" if "i < ?n" for i
    using assms(1) that by (auto simp: merges_def)
  have same: "wk_encodings v ! i = wk_encodings z ! i" if "i < ?n" "wk_seen v ! i" "wk_seen z ! i" for i
    using assms(4) that len by (simp add: agrees_def)
  have s: "wk_span v' = join_span (wk_span v) (wk_span z)" using assms(3) by (simp add: merged_def)
  have at: "span_at (wk_span v) (wk_time v)" using assms(1) by (simp add: merges_def)
  have fresh': "fresh decl v'" using assms(7) v' by (simp add: fresh_def)
  have "span_at (wk_span v') (wk_time v')"
  proof (cases "wk_span z")
    case None
    with assms(5,6) span(1) s show ?thesis by (simp add: join_span_def span_at_def)
  next
    case (Some b)
    show ?thesis
    proof (cases "wk_span v")
      case None
      with Some assms(5,6) s show ?thesis by (simp add: join_span_def span_at_def)
    next
      case (Some a)
      have "span_first a \<le> span_last a" using at Some by (simp add: span_at_def)
      also have "\<dots> \<le> span_first b" using span(2) Some \<open>wk_span z = Some b\<close> .
      also have "\<dots> \<le> Time (wk_time z)" using assms(6) \<open>wk_span z = Some b\<close> by (simp add: span_at_def)
      finally have "span_first a \<le> Time (wk_time z)" .
      with Some \<open>wk_span z = Some b\<close> assms(5,6) s show ?thesis by (simp add: join_span_def span_at_def)
    qed
  qed
  moreover have "settled (decl ! i) (wk_encodings v' ! i) \<and>
      (om_string (merge_step decl m p) ! i \<longleftrightarrow> wk_seen v' ! i \<and> decl ! i = Real \<and> wk_encodings v' ! i = String) \<and>
      (om_real (merge_step decl m p) ! i \<longleftrightarrow> wk_seen v' ! i \<and> decl ! i = Real \<and> wk_encodings v' ! i = Real)"
    if i: "i < ?n" for i
    using m [OF i] v' [OF i] same [OF i] set [OF i] i
    by (cases "wk_seen v ! i"; cases "wk_seen z ! i") (simp_all add: merge_step_def saw_def p)
  ultimately show ?thesis
    using assms(1,3) fresh' s p by (simp add: merges_def merged_def merge_step_def saw_def)
qed

section \<open>Both ways open the same\<close>

lemma chunk_start_facts:
  assumes "\<And>code i. lookup_index r code = Some i \<Longrightarrow> i < length (vr_encodings r)"
  shows "open_inv r (chunk_walker r span)" "fresh (vr_encodings r) (chunk_walker r span)"
  using assms by (simp_all add: open_inv_def chunk_walker_def span_at_def fresh_def)

text \<open>What the walk of a chunk leaves.\<close>

lemma chunk_end_facts:
  assumes "walk parse_f64 r (- 1) None (chunk_walker r span) = (xs, Inr (z, q))"
    and "\<And>code i. lookup_index r code = Some i \<Longrightarrow> i < length (vr_encodings r)"
  shows "fresh (vr_encodings r) z" "span_at (wk_span z) (wk_time z)"
    "i < length (vr_encodings r) \<Longrightarrow> settled (vr_encodings r ! i) (wk_encodings z ! i)"
proof -
  note S = chunk_start_facts [OF assms(2)]
  show "fresh (vr_encodings r) z" by (rule fresh_walk [OF assms(1) S(2,1)])
  have "grown (chunk_walker r span) z" "open_inv r z" using open_walk [OF assms(1) S(1)] by simp_all
  then show "span_at (wk_span z) (wk_time z)"
    "i < length (vr_encodings r) \<Longrightarrow> settled (vr_encodings r ! i) (wk_encodings z ! i)"
    by (simp_all add: open_inv_def grown_def chunk_walker_def)
qed

text \<open>A chunk behind the first one.\<close>

lemma merge_later:
  assumes "merges (vr_encodings r) comments m v" and "arrives (drop a (vr_bytes r)) a v"
    and "cut_at_stamp (vr_bytes r) a" and "a < b" and "b = length (vr_bytes r) \<or> cut_at_stamp (vr_bytes r) b"
    and "vr_fail r = None" and inside: "\<And>code i. lookup_index r code = Some i \<Longrightarrow> i < length (vr_encodings r)"
    and "read_opening_chunk parse_f64 r (a, b) = Inr p"
    and "\<And>a b. om_span m = Some a \<Longrightarrow> oc_span p = Some b \<Longrightarrow> span_last a \<le> span_first b"
    and "merge_chunks (vr_encodings r) index parts (merge_step (vr_encodings r) m p) = Some out"
    and "\<not> mixed (vr_encodings r) out"
  obtains v' where "walk parse_f64 r (- 1) None v = walk parse_f64 r (- 1) None v'"
    "arrives (drop b (vr_bytes r)) b v'" "merges (vr_encodings r) comments (merge_step (vr_encodings r) m p) v'"
proof -
  from assms(8) obtain xs z q where w: "walk parse_f64 r (- 1) None (chunk_walker r (a, b)) = (xs, Inr (z, q))"
    and p: "chunk_read p z"
    by (rule read_opening_chunk_walk)
  note Z = chunk_end_facts [OF w inside]
  have agree: "agrees v z" by (rule unmixed_agrees [OF assms(1) p assms(10,11) Z(3)])
  have m: "om_span m = wk_span v" "oc_span p = wk_span z" "span_at (wk_span v) (wk_time v)"
    using assms(1) p by (simp_all add: merges_def chunk_read_def)
  have low: "Time (wk_time v) \<le> span_first s" if "wk_span z = Some s" for s
  proof (cases "wk_span v")
    case None
    with m(3) show ?thesis by (cases "span_first s") (simp add: span_at_def)
  next
    case (Some t)
    with m(3) assms(9) [of t s] that m(1,2) show ?thesis by (simp add: span_at_def)
  qed
  have "length (wk_seen v) = length (vr_encodings r)" "length (wk_encodings v) = length (vr_encodings r)"
    "\<And>i. i < length (vr_encodings r) \<Longrightarrow> \<not> wk_seen v ! i \<Longrightarrow> wk_encodings v ! i = vr_encodings r ! i"
    using assms(1) by (simp_all add: merges_def fresh_def)
  note v = this
  obtain v' where
    v': "walk parse_f64 r (- 1) None v = walk parse_f64 r (- 1) None v'" "arrives (drop b (vr_bytes r)) b v'"
      "wk_time v' = wk_time z" "merged v z v'" "wk_span z \<noteq> None"
    by (rule opening_chunk [OF w assms(2-6) v(1,2) agree low inside v(3)])
  have "merges (vr_encodings r) comments (merge_step (vr_encodings r) m p) v'"
    using merges_step [OF assms(1) p v'(4) agree v'(3) Z(2,1,3)] v'(5) assms(9) m(1,2) by simp
  with v'(1,2) show ?thesis by (rule that)
qed

lemma merge_all:
  "merge_chunks (vr_encodings r) (Suc index) (map (read_opening_chunk parse_f64 r) (chunk_ranges (a # cuts))) m = Some out \<Longrightarrow>
    \<not> mixed (vr_encodings r) out \<Longrightarrow> cuts_from (vr_bytes r) a cuts \<Longrightarrow>
    (cuts \<noteq> [] \<Longrightarrow> cut_at_stamp (vr_bytes r) a) \<Longrightarrow>
    merges (vr_encodings r) comments m v \<Longrightarrow> arrives (drop a (vr_bytes r)) a v \<Longrightarrow> vr_fail r = None \<Longrightarrow>
    (\<And>code i. lookup_index r code = Some i \<Longrightarrow> i < length (vr_encodings r)) \<Longrightarrow>
    \<exists>v'. walk parse_f64 r (- 1) None v = walk parse_f64 r (- 1) None v' \<and> arrives [] (length (vr_bytes r)) v' \<and>
      merges (vr_encodings r) comments out v'"
proof (induction cuts arbitrary: a index m v)
  case Nil
  then show ?case by (auto simp: chunk_ranges_def)
next
  case (Cons b cuts)
  let ?parts = "map (read_opening_chunk parse_f64 r) (chunk_ranges (b # cuts))"
  have parts: "map (read_opening_chunk parse_f64 r) (chunk_ranges (a # b # cuts)) =
      read_opening_chunk parse_f64 r (a, b) # ?parts"
    by (simp add: chunk_ranges_def)
  obtain p where p: "read_opening_chunk parse_f64 r (a, b) = Inr p"
    and span: "\<And>s t. om_span m = Some s \<Longrightarrow> oc_span p = Some t \<Longrightarrow> span_last s \<le> span_first t"
    and rest: "merge_chunks (vr_encodings r) (Suc (Suc index)) ?parts (merge_step (vr_encodings r) m p) = Some out"
    by (rule merge_chunks_Some [OF Cons(2) [unfolded parts]]) blast
  have ab: "a < b" "cuts_from (vr_bytes r) b cuts" "cut_at_stamp (vr_bytes r) a"
    "b = length (vr_bytes r) \<or> cut_at_stamp (vr_bytes r) b" "cuts \<noteq> [] \<Longrightarrow> cut_at_stamp (vr_bytes r) b"
    using Cons(4,5) by (cases cuts; simp)+
  obtain v' where
    v': "walk parse_f64 r (- 1) None v = walk parse_f64 r (- 1) None v'"
      "arrives (drop b (vr_bytes r)) b v'" "merges (vr_encodings r) comments (merge_step (vr_encodings r) m p) v'"
    by (rule merge_later [OF Cons(6,7) ab(3,1,4) Cons(8,9) p span rest Cons(3)])
  from Cons(1) [OF rest Cons(3) ab(2,5) v'(3,2) Cons(8,9)] v'(1) show ?case by auto
qed

text \<open>The first chunk starts where the header ends.\<close>

lemma merge_first:
  assumes r: "r = opened input h body" and "header_inv h" and "in_file input tk" and "body = tk_offset tk"
    and "body < b" and "cut_at_stamp (vr_bytes r) b" and "vr_fail r = None"
    and "read_opening_chunk parse_f64 r (body, b) = Inr p"
  obtains v' where "walk parse_f64 r (- 1) None (opening_walker h tk) = walk parse_f64 r (- 1) None v'"
    "arrives (drop b (vr_bytes r)) b v'"
    "merges (vr_encodings r) (md_comments (vh_metadata h)) (merge_step (vr_encodings r) (merge_start (vr_encodings r)) p) v'"
proof -
  let ?u = "chunk_walker r (body, b)" and ?v = "opening_walker h tk" and ?later = "drop b (vr_bytes r)"
  let ?x = "take (b - body) (drop body (vr_bytes r))"
  have inv: "open_inv r ?v" unfolding r by (rule open_inv_start [OF assms(2)])
  then have inside: "i < length (vr_encodings r)" if "lookup_index r code = Some i" for code i
    using that by (simp add: open_inv_def opening_walker_def r opened_def)
  from assms(8) obtain xs z q where w: "walk parse_f64 r (- 1) None ?u = (xs, Inr (z, q))" and p: "chunk_read p z"
    by (rule read_opening_chunk_walk)
  note Z = chunk_end_facts [OF w inside]
  have bytes: "vr_bytes r = vr_bytes input" "vr_fail r = vr_fail input" by (simp_all add: r opened_def)
  have b: "b < length (vr_bytes r)" using assms(6) by (simp add: cut_at_stamp_def)
  have len: "length ?x = b - body" using b by simp
  then have x1: "?x \<noteq> []" using assms(5) by auto
  have "List.last ?x = ?x ! (b - body - 1)" using x1 len by (simp add: last_conv_nth)
  also have "\<dots> = vr_bytes r ! (b - 1)" using assms(5) b by (simp add: add.commute)
  finally have blank: "ends_blank ?x" using x1 assms(6) by (simp add: ends_blank_def cut_at_stamp_def)
  have "drop body (vr_bytes r) = ?x @ ?later"
    using assms(5) by (metis append_take_drop_id drop_drop le_add_diff_inverse2 less_imp_le_nat)
  then have "extends_input [] ?later (wk_tokens ?u) (wk_tokens ?v)"
    using blank assms(3,4,7) bytes
    by (simp add: extends_input_def chunk_walker_def chunk_input_def opening_walker_def in_file_def tk_bytes_def)
  then have along: "alongside ?later ?u ?v"
    by (simp add: alongside_def chunk_walker_def opening_walker_def)
  have start: "wk_seen ?v = replicate (length (vr_encodings r)) False" "wk_encodings ?v = vr_encodings r"
    "wk_span ?v = None" "wk_comments ?v = md_comments (vh_metadata h)" "wk_time ?v = 0"
    by (simp_all add: opening_walker_def r opened_def)
  have agree: "agrees ?v z" by (simp add: agrees_def start)
  have "merged ?v ?u ?v"
    by (simp add: merged_def start chunk_walker_def join_span_def)
  from walk_opening [OF w along this agree chunk_start_facts(1)] inside obtain v' where
    v': "walk parse_f64 r (- 1) None ?v = walk parse_f64 r (- 1) None v'" "arrives ?later (input_end ?u) v'"
      "wk_time v' = wk_time z" "merged ?v z v'"
    by blast
  have "input_end ?u = b"
    using len assms(5) by (simp add: input_end_def chunk_walker_def chunk_input_def tk_bytes_def)
  with v'(2) have "arrives ?later b v'" by simp
  moreover have "merges (vr_encodings r) (md_comments (vh_metadata h)) (merge_start (vr_encodings r)) ?v"
    by (simp add: merges_def merge_start_def start span_at_def fresh_def settled_def)
  from merges_step [OF this p v'(4) agree v'(3) Z(2,1,3)] have
    "merges (vr_encodings r) (md_comments (vh_metadata h)) (merge_step (vr_encodings r) (merge_start (vr_encodings r)) p) v'"
    by (simp add: start)
  ultimately show ?thesis using that v'(1) by blast
qed

lemma blank_token:
  assumes "list_all is_ascii_whitespace (tk_bytes tk)" and "tk_fail tk = None"
  obtains t where "next_token tk = Inr (None, t)"
proof -
  have "first_word (tk_bytes tk) = []" "after_word (tk_bytes tk) = []"
    using blank_prefix [OF assms(1), of "[]"] by (simp_all add: first_word_def after_word_def)
  with next_into_ok [of tk] assms(2) obtain t where "next_into [] tk = Inr (False, [], t)" by auto
  then show ?thesis by (intro that [of t]) (simp add: next_token_def)
qed

lemma walk_arrived:
  assumes "arrives [] n v"
  obtains tk p where "walk parse_f64 r (- 1) None v = ([], Inr (v\<lparr>wk_tokens := tk\<rparr>, p))"
proof -
  from assms have b: "list_all is_ascii_whitespace (tk_bytes (wk_tokens v))" "tk_fail (wk_tokens v) = None" "\<not> wk_block v"
    by (auto simp: arrives_def)
  from b(1,2) obtain t where "next_token (wk_tokens v) = Inr (None, t)" by (rule blank_token)
  with b(3) have "walk_step parse_f64 r (- 1) None v = Stop (v\<lparr>wk_tokens := t\<rparr>) (walk_position (tk_offset t) v)"
    by (simp add: walk_step_def)
  with that show ?thesis by (simp add: walk_run(2))
qed

text \<open>A file that cannot be read to its end is not opened in parallel.\<close>

lemma moves_fail: "moves tk tk' \<Longrightarrow> tk_fail tk' = tk_fail tk"
  by (simp add: moves_def)

lemma walk_reads_all:
  "walk parse_f64 r (- 1) selected w = (xs, Inr (z, p)) \<Longrightarrow> tk_fail (wk_tokens w) = None"
proof (induction w arbitrary: xs rule: walk_induct [of parse_f64 r "- 1" selected])
  case (step w)
  show ?case
  proof (cases "walk_step parse_f64 r (- 1) selected w")
    case (Go w' n)
    obtain word tk where "next_token (wk_tokens w) = Inr (Some word, tk)" "moves tk (wk_tokens w')"
      using Go by (rule walk_step_Go)
    then have fail: "tk_fail (wk_tokens w') = tk_fail (wk_tokens w)"
      by (metis next_token_moves moves_trans moves_fail)
    have "walk parse_f64 r (- 1) selected w' = (fst (walk parse_f64 r (- 1) selected w'), Inr (z, p))"
      using step(2) by (simp add: walk_run(1) [OF Go] prod_eq_iff)
    from step(1) [OF Go this] fail show ?thesis by simp
  next
    case (Stop w' q)
    then obtain tk where "next_token (wk_tokens w) = Inr (None, tk)" by (rule full_stop)
    then show ?thesis by (metis next_token_none next_token_moves moves_fail)
  next
    case (Fail e)
    with step(2) show ?thesis by (simp add: walk_run(3))
  qed
qed

lemma readable_chunk:
  assumes "read_opening_chunk parse_f64 r span = Inr p"
  shows "vr_fail r = None"
proof -
  from assms obtain xs z q where "walk parse_f64 r (- 1) None (chunk_walker r span) = (xs, Inr (z, q))"
    by (rule read_opening_chunk_walk)
  from walk_reads_all [OF this] show ?thesis by (simp add: chunk_walker_def chunk_input_def)
qed

lemma open_with_cuts_Some:
  assumes "open_with_cuts parse_f64 r cuts = Some (span, comments, encodings)"
  obtains m where "merge_chunks (vr_encodings r) 0 (map (read_opening_chunk parse_f64 r) (chunk_ranges cuts))
      (merge_start (vr_encodings r)) = Some m"
    "\<not> mixed (vr_encodings r) m" "span = om_span m" "comments = om_comments m"
    "encodings = merged_encodings (vr_encodings r) m"
  using assms by (auto simp: open_with_cuts_def split: option.splits if_splits)

lemma open_with_cuts_walk:
  assumes "header_read input name = Inr (h, tk, body)" and "well_cut (opened input h body) cuts"
    and "open_with_cuts parse_f64 (opened input h body) cuts = Some (span, comments, encodings)"
  shows "\<exists>w p. snd (walk parse_f64 (opened input h body) (- 1) None (opening_walker h tk)) = Inr (w, p) \<and>
    wk_span w = span \<and> wk_comments w = md_comments (vh_metadata h) @ comments \<and> wk_encodings w = encodings"
proof -
  let ?r = "opened input h body" and ?decl = "vh_encodings h"
  note H = header_read_inv [OF assms(1)]
  have H': "header_inv h" "in_file input tk" "body = tk_offset tk" using H by simp_all
  have decl: "vr_encodings ?r = ?decl" "vr_body ?r = body" by (simp_all add: opened_def)
  from assms(3) obtain m where merge: "merge_chunks ?decl 0 (map (read_opening_chunk parse_f64 ?r) (chunk_ranges cuts))
      (merge_start ?decl) = Some m"
    and m: "\<not> mixed ?decl m" "span = om_span m" "comments = om_comments m" "encodings = merged_encodings ?decl m"
    unfolding decl(1) [symmetric] by (rule open_with_cuts_Some)
  from assms(2) obtain b rest where c: "cuts = body # b # rest" "cuts_from (vr_bytes ?r) body (b # rest)"
    "cut_at_stamp (vr_bytes ?r) b"
    by (rule well_cut_cases) (simp add: decl)
  let ?parts = "map (read_opening_chunk parse_f64 ?r) (chunk_ranges (b # rest))"
  have "map (read_opening_chunk parse_f64 ?r) (chunk_ranges cuts) = read_opening_chunk parse_f64 ?r (body, b) # ?parts"
    by (simp add: c(1) chunk_ranges_def)
  from merge [unfolded this] obtain p where p: "read_opening_chunk parse_f64 ?r (body, b) = Inr p"
    and later: "merge_chunks ?decl (Suc 0) ?parts (merge_step ?decl (merge_start ?decl) p) = Some m"
    by (rule merge_chunks_Some)
  have ok: "vr_fail ?r = None" using p by (rule readable_chunk)
  have "body < b" using c(2) by simp
  from merge_first [OF refl H' this c(3) ok p] obtain v where
    v: "walk parse_f64 ?r (- 1) None (opening_walker h tk) = walk parse_f64 ?r (- 1) None v"
      "arrives (drop b (vr_bytes ?r)) b v"
      "merges ?decl (md_comments (vh_metadata h)) (merge_step ?decl (merge_start ?decl) p) v"
    unfolding decl by blast
  have "i < length ?decl" if "lookup_index ?r code = Some i" for code i
    using open_inv_start [OF H'(1), of input body tk] that by (simp add: open_inv_def opening_walker_def)
  then have "\<exists>v'. walk parse_f64 ?r (- 1) None v = walk parse_f64 ?r (- 1) None v' \<and>
      arrives [] (length (vr_bytes ?r)) v' \<and> merges ?decl (md_comments (vh_metadata h)) m v'"
    using merge_all [of ?r 0 parse_f64 b rest "merge_step ?decl (merge_start ?decl) p" m "md_comments (vh_metadata h)" v]
      later m(1) c(2,3) v(2,3) ok
    unfolding decl by simp
  then obtain v' where
    v': "walk parse_f64 ?r (- 1) None v = walk parse_f64 ?r (- 1) None v'" "arrives [] (length (vr_bytes ?r)) v'"
      "merges ?decl (md_comments (vh_metadata h)) m v'"
    by blast
  from v'(2) obtain t q where "walk parse_f64 ?r (- 1) None v' = ([], Inr (v'\<lparr>wk_tokens := t\<rparr>, q))"
    by (rule walk_arrived)
  with v(1) v'(1) have "snd (walk parse_f64 ?r (- 1) None (opening_walker h tk)) = Inr (v'\<lparr>wk_tokens := t\<rparr>, q)" by simp
  moreover have "wk_span v' = span" "wk_comments v' = md_comments (vh_metadata h) @ comments"
    using v'(3) m(2,3) by (simp_all add: merges_def)
  moreover have "wk_encodings v' = encodings" using merges_result [OF v'(3)] m(4) by simp
  ultimately show ?thesis by auto
qed

lemma parallel_open_walk:
  assumes "header_read input name = Inr (h, tk, body)"
    and "parallel_open parse_f64 ho (opened input h body) = Some (span, comments, encodings, par)"
  shows "\<exists>w p. snd (walk parse_f64 (opened input h body) (- 1) None (opening_walker h tk)) = Inr (w, p) \<and>
    wk_span w = span \<and> wk_comments w = md_comments (vh_metadata h) @ comments \<and> wk_encodings w = encodings"
proof -
  from assms(2) obtain cuts where "parallel_cuts ho (opened input h body) = Some cuts"
    and "open_with_cuts parse_f64 (opened input h body) cuts = Some (span, comments, encodings)"
    by (auto simp: parallel_open_def split: option.splits if_splits)
  with open_with_cuts_walk [OF assms(1) parallel_cuts_at] show ?thesis by blast
qed

text \<open>Every chunk is read, and in the storage that the merge ends with.\<close>

lemma merge_chunks_parts:
  "merge_chunks decl index parts m = Some out \<Longrightarrow> part \<in> set parts \<Longrightarrow>
    \<exists>p. part = Inr p \<and> (\<forall>i < length decl. oc_seen p ! i \<longrightarrow> decl ! i = Real \<longrightarrow>
      (oc_encodings p ! i = Real \<longrightarrow> om_real out ! i) \<and> (oc_encodings p ! i = String \<longrightarrow> om_string out ! i))"
proof (induction parts arbitrary: index m)
  case (Cons q parts)
  from Cons(2) obtain p where p: "q = Inr p"
    and rest: "merge_chunks decl (Suc index) parts (merge_step decl m p) = Some out"
    by (rule merge_chunks_Some)
  show ?case
  proof (cases "part = q")
    case True
    have "length (om_real (merge_step decl m p)) = length decl" "length (om_string (merge_step decl m p)) = length decl"
      by (simp_all add: merge_step_def saw_def)
    note K = merge_chunks_keeps [OF rest this]
    have "om_real out ! i" if "i < length decl" "oc_seen p ! i" "decl ! i = Real" "oc_encodings p ! i = Real" for i
      using K that by (simp add: merge_step_def saw_def)
    moreover have "om_string out ! i" if "i < length decl" "oc_seen p ! i" "decl ! i = Real" "oc_encodings p ! i = String" for i
      using K that by (simp add: merge_step_def saw_def)
    ultimately show ?thesis using True p by blast
  next
    case False
    with Cons(1) [OF rest] Cons(3) show ?thesis by simp
  qed
qed simp

lemma merge_chunks_strings:
  "merge_chunks decl index parts m = Some out \<Longrightarrow> (\<And>i. i < length decl \<Longrightarrow> om_string m ! i \<Longrightarrow> decl ! i = Real) \<Longrightarrow>
    i < length decl \<Longrightarrow> om_string out ! i \<Longrightarrow> decl ! i = Real"
proof (induction parts arbitrary: index m)
  case (Cons part parts)
  from Cons(2) obtain p where "merge_chunks decl (Suc index) parts (merge_step decl m p) = Some out"
    by (rule merge_chunks_Some)
  from Cons(1) [OF this _ Cons(4,5)] Cons(3) show ?case by (auto simp: merge_step_def saw_def)
qed simp

lemma chunk_read_as:
  assumes "open_with_cuts parse_f64 r cuts = Some (span, comments, encodings)" and "part \<in> set (chunk_ranges cuts)"
    and "\<And>code i. lookup_index r code = Some i \<Longrightarrow> i < length (vr_encodings r)"
  obtains xs z q where "walk parse_f64 r (- 1) None (chunk_walker r part) = (xs, Inr (z, q))"
    "read_as z encodings"
proof -
  let ?decl = "vr_encodings r"
  from assms(1) obtain m where m: "merge_chunks ?decl 0 (map (read_opening_chunk parse_f64 r) (chunk_ranges cuts))
      (merge_start ?decl) = Some m" "\<not> mixed ?decl m" "encodings = merged_encodings ?decl m"
    by (rule open_with_cuts_Some)
  from merge_chunks_parts [OF m(1), of "read_opening_chunk parse_f64 r part"] assms(2) obtain p where
    p: "read_opening_chunk parse_f64 r part = Inr p"
    and seen: "\<And>i. i < length ?decl \<Longrightarrow> oc_seen p ! i \<Longrightarrow> ?decl ! i = Real \<Longrightarrow>
      (oc_encodings p ! i = Real \<longrightarrow> om_real m ! i) \<and> (oc_encodings p ! i = String \<longrightarrow> om_string m ! i)"
    by auto
  from p obtain xs z q where w: "walk parse_f64 r (- 1) None (chunk_walker r part) = (xs, Inr (z, q))"
    and z: "chunk_read p z"
    by (rule read_opening_chunk_walk)
  have "length (om_real (merge_start ?decl)) = length ?decl" "length (om_string (merge_start ?decl)) = length ?decl"
    by (simp_all add: merge_start_def)
  from merge_chunks_keeps [OF m(1) this] unmixed [of m "length ?decl" ?decl] m(2)
  have apart: "\<not> (om_real m ! i \<and> om_string m ! i)" if "i < length ?decl" for i using that by blast
  have real: "?decl ! i = Real" if "i < length ?decl" "om_string m ! i" for i
    using merge_chunks_strings [OF m(1) _ that] by (simp add: merge_start_def)
  have "length (wk_seen z) = length ?decl"
    using open_walk [OF w chunk_start_facts(1) [OF assms(3)]] by (simp add: grown_def chunk_walker_def)
  moreover have "encodings ! i = wk_encodings z ! i" if i: "i < length ?decl" "wk_seen z ! i" for i
  proof -
    have p: "oc_seen p ! i" "oc_encodings p ! i = wk_encodings z ! i" using z i(2) by (simp_all add: chunk_read_def)
    have e: "encodings ! i = (if om_string m ! i then String else ?decl ! i)"
      using i(1) by (simp add: m(3) merged_encodings_def)
    have s: "wk_encodings z ! i = ?decl ! i \<or> ?decl ! i = Real \<and> wk_encodings z ! i = String"
      using chunk_end_facts(3) [OF w assms(3) i(1)] by (auto simp: settled_def)
    show ?thesis
    proof (cases "?decl ! i = Real")
      case True
      with seen [OF i(1) p(1) True] apart [OF i(1)] p(2) s e show ?thesis by metis
    next
      case False
      with real [OF i(1)] s e show ?thesis by metis
    qed
  qed
  ultimately have "read_as z encodings" by (simp add: read_as_def)
  with w show ?thesis by (rule that)
qed

text \<open>
  C23: whether a VCD file is opened by one walk of its body or by threads over chunks cut at time
  stamps, and wherever the cuts fall, the reader, the hierarchy and the metadata are the
  same, and the same files are refused with the same errors.
\<close>

theorem parallel_open_is_open:
  "map_sum (\<lambda>e. e) fst (vcd_open_file parse_f64 source host input name) = vcd_open parse_f64 source input name"
proof (cases "header_read input name")
  case (Inl e)
  then show ?thesis by (simp add: vcd_open_file_def vcd_open_def)
next
  case (Inr x)
  obtain h tk body where x: "x = (h, tk, body)" by (cases x)
  let ?r = "opened input h body"
  let ?w = "snd (walk parse_f64 ?r (- 1) None (opening_walker h tk))"
  show ?thesis
  proof (cases "Option.bind host (\<lambda>ho. parallel_open parse_f64 ho ?r)")
    case None
    with Inr x show ?thesis by (cases ?w) (auto simp: vcd_open_file_def vcd_open_def)
  next
    case (Some q)
    then obtain ho span comments encodings par where
      "parallel_open parse_f64 ho ?r = Some (span, comments, encodings, par)"
      and q: "q = (span, comments, encodings, par)"
      by (cases q) (auto simp: bind_eq_Some_conv)
    from parallel_open_walk [OF Inr [unfolded x] this(1)] obtain w p where
      "?w = Inr (w, p)" "wk_span w = span" "wk_comments w = md_comments (vh_metadata h) @ comments" "wk_encodings w = encodings"
      by blast
    with Some q Inr x show ?thesis by (simp add: vcd_open_file_def vcd_open_def)
  qed
qed

end
