(* ===== verification/Ondas_Vcd_Full.thy ===== *)
theory Ondas_Vcd_Full
  imports Ondas_Vcd_Parallel
begin

text \<open>
  Reading all of a file that was opened in parallel (\<^verbatim>\<open>src/src/backends/vcd.rs\<close>,
  \<open>Reader::parallel_full\<close> and \<open>read_from\<close>): each thread walks its chunk and sends its
  records in batches; the caller takes the chunks in order. The theorem says that the caller
  is told what one walk of the body tells it.
\<close>

section \<open>Records and batches\<close>

datatype full_value = FullBit char | FullOther wave_value

definition full_from_ref :: "wave_value \<Rightarrow> full_value" where
  "full_from_ref v =
    (case v of
       VBits b \<Rightarrow> if length b = 1 then FullBit (to_ascii_lowercase (hd b)) else FullOther (value_to_owned v)
     | _ \<Rightarrow> FullOther (value_to_owned v))"

definition full_as_ref :: "full_value \<Rightarrow> wave_value" where
  "full_as_ref f = (case f of FullBit b \<Rightarrow> VBits [b] | FullOther v \<Rightarrow> v)"

record full_record =
  fr_index :: nat
  fr_time :: time
  fr_value :: full_value
  fr_position :: position

fun full_record_of :: "notification \<Rightarrow> full_record option" where
  "full_record_of (Observed b (Inr v) t (Some p)) =
    Some \<lparr>fr_index = b, fr_time = t, fr_value = full_from_ref v, fr_position = p\<rparr>"
| "full_record_of _ = None"

definition full_note :: "full_record \<Rightarrow> notification" where
  "full_note f = Observed (fr_index f) (Inr (full_as_ref (fr_value f))) (fr_time f) (Some (fr_position f))"

definition flush_startup :: "time option \<times> bool \<Rightarrow> time \<Rightarrow> (time option \<times> bool) \<times> bool" where
  "flush_startup startup time =
    (let first_time = fst startup; first_transition = snd startup;
         first_record = (first_time = None);
         next_tick = (\<not> first_transition \<and> (case first_time of Some first \<Rightarrow> first \<noteq> time | None \<Rightarrow> False))
     in ((Some (case first_time of Some first \<Rightarrow> first | None \<Rightarrow> time), first_transition \<or> next_tick),
         first_record \<or> next_tick))"

text \<open>
  \<open>due k\<close>: the progress callback, which runs every mebibyte of input in the chunk that the
  caller waits for, finds the batch before record \<open>k\<close>; an empty batch is not sent.
\<close>

definition sent :: "full_record list \<Rightarrow> full_record list list" where
  "sent batch = (if batch = [] then [] else [batch])"

primrec full_batches ::
    "nat \<Rightarrow> (nat \<Rightarrow> bool) \<Rightarrow> full_record list \<Rightarrow> nat \<Rightarrow> full_record list \<Rightarrow> time option \<times> bool \<Rightarrow>
      full_record list list" where
  "full_batches batch_len due [] k batch startup = (if due k then sent batch else []) @ sent (if due k then [] else batch)"
| "full_batches batch_len due (f # fs) k batch startup =
    (let before = (if due k then sent batch else []);
         batch' = (if due k then [] else batch) @ [f];
         (startup', flush) = flush_startup startup (fr_time f)
     in if length batch' = batch_len \<or> flush
        then before @ sent batch' @ full_batches batch_len due fs (Suc k) [] startup'
        else before @ full_batches batch_len due fs (Suc k) batch' startup')"

section \<open>Threads and the caller\<close>

definition full_walker :: "vcd \<Rightarrow> nat \<times> nat \<Rightarrow> walker" where
  "full_walker r span = (chunk_walker r span)\<lparr>wk_seen := []\<rparr>"

definition full_chunk ::
    "(string \<Rightarrow> u64 option) \<Rightarrow> nat \<Rightarrow> (nat \<Rightarrow> bool) \<Rightarrow> vcd \<Rightarrow> nat list \<Rightarrow> nat \<times> nat \<Rightarrow>
      (error + full_record list) list" where
  "full_chunk parse_f64 batch_len due r sel span =
    (let (seen, out) = walk parse_f64 r (- 1) (Some sel) (full_walker r span);
         batches = full_batches batch_len due (List.map_filter full_record_of seen) 0 [] (None, False);
         error = (case out of
            Inr (w, _) \<Rightarrow>
              if tk_offset (wk_tokens w) = snd span then None
              else Some (malformed ''unexpected EOF in VCD chunk'')
          | Inl e \<Rightarrow> Some e)
     in List.map Inr batches @ (case error of None \<Rightarrow> [] | Some e \<Rightarrow> [Inl e]))"

fun take_batches :: "(error + full_record list) list \<Rightarrow> notification list \<times> (error + unit)" where
  "take_batches [] = ([], Inr ())"
| "take_batches (Inl e # messages) = ([], Inl e)"
| "take_batches (Inr batch # messages) =
    (case take_batches messages of (seen, out) \<Rightarrow> (map full_note batch @ seen, out))"

primrec payload_width :: "nat \<Rightarrow> signal list \<Rightarrow> nat option" where
  "payload_width width [] = Some width"
| "payload_width width (s # signals) =
    (case sig_encoding s of
       Bits w \<Rightarrow> payload_width (max width (unat w)) signals
     | Real \<Rightarrow> payload_width (max width 8) signals
     | Event \<Rightarrow> payload_width (max width 0) signals
     | Unsupported \<Rightarrow> payload_width (max width 0) signals
     | String \<Rightarrow> None)"

text \<open>\<open>record_size\<close> is \<open>size_of::<FullRecord>()\<close>, \<open>threads\<close> whether they are all spawned.\<close>

definition full_batch_len :: "nat \<Rightarrow> parallel_source \<Rightarrow> signal list \<Rightarrow> nat option" where
  "full_batch_len record_size par signals =
    (case payload_width 0 signals of
       None \<Rightarrow> None
     | Some width \<Rightarrow>
         (let workers = length (pl_cuts par) - 1; bytes = record_size + width;
              batch_len = min (201326592 div workers div 26 div bytes) 4096
          in if usize_max < bytes then None else if batch_len = 0 then None else Some batch_len))"

definition parallel_full ::
    "(string \<Rightarrow> u64 option) \<Rightarrow> nat \<Rightarrow> bool \<Rightarrow> (nat \<Rightarrow> nat \<Rightarrow> bool) \<Rightarrow> vcd \<Rightarrow> parallel_source \<Rightarrow>
      signal list \<Rightarrow> time \<Rightarrow> (notification list \<times> (error + position option)) option" where
  "parallel_full parse_f64 record_size threads due r par signals stop =
    (if signals = [] \<or> ticks stop < pl_last par then None
     else case full_batch_len record_size par signals of
         None \<Rightarrow> None
       | Some batch_len \<Rightarrow>
           if \<not> threads then None
           else
             (let sel = map sig_index signals; ranges = chunk_ranges (pl_cuts par);
                  messages = concat (map (\<lambda>(index, span). full_chunk parse_f64 batch_len (due index) r sel span)
                    (zip [0..<length ranges] ranges));
                  (seen, out) = take_batches messages
              in Some (seen,
                   and_then out (\<lambda>_. Inr (Some
                     \<lparr>pos_offset = List.last (pl_cuts par), pos_time = pl_last par, pos_block = False\<rparr>)))))"

text \<open>The read of a file; \<open>par\<close> is \<open>None\<close> when it was opened by one walk.\<close>

definition vcd_read_file ::
    "(string \<Rightarrow> u64 option) \<Rightarrow> nat \<Rightarrow> bool \<Rightarrow> (nat \<Rightarrow> nat \<Rightarrow> bool) \<Rightarrow> vcd \<Rightarrow> parallel_source option \<Rightarrow>
      signal list \<Rightarrow> time \<Rightarrow> position option \<Rightarrow> notification list \<times> (error + position option)" where
  "vcd_read_file parse_f64 record_size threads due r par signals stop position =
    (case (if position = None
           then Option.bind par (\<lambda>s. parallel_full parse_f64 record_size threads due r s signals stop)
           else None) of
       Some result \<Rightarrow> result
     | None \<Rightarrow> vcd_read parse_f64 r signals stop position)"

section \<open>Batches hold the records in order\<close>

lemma concat_sent [simp]: "concat (sent batch) = batch"
  by (simp add: sent_def)

lemma concat_full_batches:
  "concat (full_batches batch_len due fs k batch startup) = batch @ fs"
  by (induction fs arbitrary: k batch startup) (auto simp: Let_def split: prod.split)

fun note_owned :: "notification \<Rightarrow> notification" where
  "note_owned (Observed b (Inr v) t p) = Observed b (Inr (value_to_owned v)) t p"
| "note_owned n = n"

lemma note_owned_idem [simp]: "note_owned (note_owned n) = note_owned n"
  by (cases n rule: note_owned.cases) simp_all

lemma full_value_owned: "full_as_ref (full_from_ref v) = value_to_owned v"
proof (cases v)
  case (VBits b)
  show ?thesis
  proof (cases "length b = 1")
    case True
    then obtain c where "b = [c]" by (auto simp: length_Suc_conv)
    with VBits show ?thesis by (simp add: full_from_ref_def full_as_ref_def bits_to_owned_def)
  next
    case False
    with VBits show ?thesis by (simp add: full_from_ref_def full_as_ref_def)
  qed
qed (simp_all add: full_from_ref_def full_as_ref_def)

text \<open>A walk tells only records.\<close>

lemma full_records:
  "list_all (delivered r sel) seen \<Longrightarrow> map full_note (List.map_filter full_record_of seen) = map note_owned seen"
proof (induction seen)
  case (Cons n seen)
  then obtain b v t p where "n = Observed b (Inr v) t (Some p)"
    by (auto simp: delivered_def split: notification.splits sum.splits option.splits)
  with Cons show ?case by (simp add: map_filter_simps full_note_def full_value_owned)
qed (simp add: map_filter_simps)

lemma take_batches_append:
  "take_batches (map Inr batches @ messages) =
    (map full_note (concat batches) @ fst (take_batches messages), snd (take_batches messages))"
  by (induction batches) (auto split: prod.split)

text \<open>A chunk that is read to its end.\<close>

lemma take_full_chunk:
  assumes "walk parse_f64 r (- 1) (Some sel) (full_walker r span) = (seen, Inr (w, p))"
    and "tk_offset (wk_tokens w) = snd span"
  shows "take_batches (full_chunk parse_f64 batch_len due r sel span @ messages) =
    (map note_owned seen @ fst (take_batches messages), snd (take_batches messages))"
proof -
  have "list_all (delivered r sel) (fst (walk parse_f64 r (- 1) (Some sel) (full_walker r span)))"
    by (rule walk_delivers) (simp add: full_walker_def chunk_walker_def)
  then have "list_all (delivered r sel) seen" by (simp add: assms(1))
  from full_records [OF this] show ?thesis
    using assms by (simp add: full_chunk_def take_batches_append concat_full_batches)
qed

lemma take_full_chunks:
  assumes "list_all (\<lambda>span. \<exists>w p. snd (walk parse_f64 r (- 1) (Some sel) (full_walker r span)) = Inr (w, p) \<and>
      tk_offset (wk_tokens w) = snd span) ranges"
  shows "take_batches (concat (map (\<lambda>(index, span). full_chunk parse_f64 batch_len (due index) r sel span)
      (zip [k..<k + length ranges] ranges))) =
    (map note_owned (concat (map (\<lambda>span. fst (walk parse_f64 r (- 1) (Some sel) (full_walker r span))) ranges)), Inr ())"
  using assms
proof (induction ranges arbitrary: k)
  case (Cons span ranges)
  from Cons(2) obtain w p where
    w: "snd (walk parse_f64 r (- 1) (Some sel) (full_walker r span)) = Inr (w, p)" "tk_offset (wk_tokens w) = snd span"
    by auto
  then have "walk parse_f64 r (- 1) (Some sel) (full_walker r span) =
      (fst (walk parse_f64 r (- 1) (Some sel) (full_walker r span)), Inr (w, p))"
    by (simp add: prod_eq_iff)
  note chunk = take_full_chunk [OF this w(2)]
  have ks: "[k..<k + length (span # ranges)] = k # [Suc k..<Suc k + length ranges]"
    by (simp add: upt_conv_Cons del: upt_Suc)
  have "list_all (\<lambda>span. \<exists>w p. snd (walk parse_f64 r (- 1) (Some sel) (full_walker r span)) = Inr (w, p) \<and>
      tk_offset (wk_tokens w) = snd span) ranges"
    using Cons(2) by simp
  note rest = Cons(1) [OF this, of "Suc k"]
  show ?case unfolding ks zip_Cons_Cons list.map case_prod_conv concat.simps chunk rest by simp
qed simp

section \<open>The walks of the chunks are the walk of the body\<close>

text \<open>A walk without an end tick reads all its input.\<close>

lemma walk_all:
  "walk parse_f64 r (- 1) (Some sel) w = (xs, Inr (z, p)) \<Longrightarrow>
    tk_bytes (wk_tokens z) = [] \<and> tk_offset (wk_tokens z) = input_end w \<and> \<not> wk_block z \<and>
    p = walk_position (tk_offset (wk_tokens z)) z \<and> wk_time w \<le> wk_time z"
proof (induction w arbitrary: xs rule: walk_induct [of parse_f64 r "- 1" "Some sel"])
  case (step w)
  show ?case
  proof (cases "walk_step parse_f64 r (- 1) (Some sel) w")
    case (Go w' n)
    have "walk parse_f64 r (- 1) (Some sel) w' = (fst (walk parse_f64 r (- 1) (Some sel) w'), Inr (z, p))"
      using step(2) by (simp add: walk_run(1) [OF Go] prod_eq_iff)
    note rest = step(1) [OF Go this]
    obtain word tk where "next_token (wk_tokens w) = Inr (Some word, tk)" "moves tk (wk_tokens w')"
      using Go by (rule walk_step_Go)
    then have "moves (wk_tokens w) (wk_tokens w')" by (blast intro: moves_trans next_token_moves)
    from rest input_end_moves [OF this] walk_step_Go_facts [OF Go] show ?thesis by auto
  next
    case (Stop w' q)
    then have res: "z = w'" "q = p" using step(2) by (simp_all add: walk_run(2))
    from Stop obtain tk where eof: "next_token (wk_tokens w) = Inr (None, tk)" "\<not> wk_block w"
      "w' = w\<lparr>wk_tokens := tk\<rparr>" "q = walk_position (tk_offset tk) w"
      by (rule full_stop)
    from next_token_none [OF eof(1)] next_token_moves [OF eof(1)] have "tk_bytes tk = []" "tk_offset tk = input_end w"
      by (auto simp: moves_def input_end_def)
    with eof res show ?thesis by (simp add: walk_position_def)
  next
    case (Fail e)
    with step(2) show ?thesis by (simp add: walk_run(3))
  qed
qed

text \<open>An end tick that no stamp passes does not matter.\<close>

lemma walk_until:
  "walk parse_f64 r (- 1) (Some sel) w = (xs, Inr (z, p)) \<Longrightarrow> wk_time z \<le> stop \<Longrightarrow>
    walk parse_f64 r stop (Some sel) w = (xs, Inr (z, p))"
proof (induction w arbitrary: xs rule: walk_induct [of parse_f64 r "- 1" "Some sel"])
  case (step w)
  show ?case
  proof (cases "walk_step parse_f64 r (- 1) (Some sel) w")
    case (Go w' n)
    have w': "walk parse_f64 r (- 1) (Some sel) w' = (fst (walk parse_f64 r (- 1) (Some sel) w'), Inr (z, p))"
      using step(2) by (simp add: walk_run(1) [OF Go] prod_eq_iff)
    then have "wk_time w' \<le> stop" using walk_all [OF w'] step(3) by (blast intro: order_trans)
    moreover from this have "wk_time w \<le> stop" using walk_step_Go_facts [OF Go] by auto
    ultimately have go: "walk_step parse_f64 r stop (Some sel) w = Go w' n" using walk_step_other_end [OF Go] by simp
    with step(1) [OF Go w' step(3)] step(2) show ?thesis by (simp add: walk_run(1) [OF Go] walk_run(1) [OF go])
  next
    case (Stop w' q)
    then obtain tk where eof: "next_token (wk_tokens w) = Inr (None, tk)" "\<not> wk_block w"
      "w' = w\<lparr>wk_tokens := tk\<rparr>" "q = walk_position (tk_offset tk) w"
      by (rule full_stop)
    then have "walk_step parse_f64 r stop (Some sel) w = Stop w' q" by (simp add: walk_step_def)
    with Stop step(2) show ?thesis by (simp add: walk_run(2))
  next
    case (Fail e)
    with step(2) show ?thesis by (simp add: walk_run(3))
  qed
qed

text \<open>The first step of a later chunk, in a walk of the body that gets to its end.\<close>

lemma full_start:
  assumes "extends_input ws later (wk_tokens u) (wk_tokens v)" and "\<not> wk_block v" "\<not> wk_block u"
    and "tk_bytes (wk_tokens u) \<noteq> []" and "hd (tk_bytes (wk_tokens u)) = CHR ''#''"
    and "walk_step parse_f64 r (- 1) (Some sel) u = Go u' n"
    and "snd (walk parse_f64 r (- 1) (Some sel) v) = Inr q" and "wk_encodings v = wk_encodings u"
  obtains v' where "walk_step parse_f64 r (- 1) (Some sel) v = Go v' None" "n = None" "alongside later u' v'"
    "wk_encodings v' = wk_encodings u'"
proof -
  from assms(4-6) obtain word tk where t: "next_token (wk_tokens u) = Inr (Some word, tk)" "hd word = CHR ''#''"
    and w: "walk_time (- 1) (tk_offset (wk_tokens u)) (tl word) tk u = Go u' n"
    by (rule chunk_stamp)
  from assms(1) t(1) obtain tk' where t': "next_token (wk_tokens v) = Inr (Some word, tk')" by (rule next_token_extends)
  from w obtain stamp where stamp: "integer (tl word) = Inr stamp" "wk_time u' = stamp"
    by (auto simp: walk_time_Go)
  have low: "wk_time v \<le> wk_time u'"
  proof (rule ccontr)
    assume "\<not> wk_time v \<le> wk_time u'"
    with stamp have "walk_step parse_f64 r (- 1) (Some sel) v = Fail (token_error tk' ''backwards timestamp'')"
      using t(2) assms(2) by (simp add: walk_step_word [OF t'] walk_time_def)
    with assms(7) show False by (simp add: walk_run(3))
  qed
  have block: "wk_block v = wk_block u" using assms(2,3) by simp
  note F = walk_time_fields [OF w]
  define f where "f tk1 = v\<lparr>wk_tokens := tk1, wk_time := wk_time u',
      wk_span := Some \<lparr>span_first = (case wk_span v of Some s \<Rightarrow> span_first s | None \<Rightarrow> Time (wk_time u')),
                       span_last = Time (wk_time u')\<rparr>\<rparr>" for tk1
  from assms(1) block assms(4-6) low obtain tk1 where
    "alongside later u' (f tk1)" "walk_step parse_f64 r (- 1) (Some sel) v = Go (f tk1) None"
    unfolding f_def by (rule chunk_start)
  with F assms(8) show ?thesis by (intro that [of "f tk1"]) (simp_all add: f_def)
qed

text \<open>The input of a chunk is the input of the body up to the cut.\<close>

lemma chunk_bytes:
  assumes "a < b" and "cut_at_stamp bytes b \<or> b = length bytes"
  shows "drop a bytes = take (b - a) (drop a bytes) @ drop b bytes"
    "length (take (b - a) (drop a bytes)) = b - a"
    "drop b bytes = [] \<or> ends_blank (take (b - a) (drop a bytes))"
proof -
  let ?x = "take (b - a) (drop a bytes)"
  have b: "b \<le> length bytes" using assms(2) by (auto simp: cut_at_stamp_def)
  show "drop a bytes = ?x @ drop b bytes"
    using assms(1) by (metis append_take_drop_id drop_drop le_add_diff_inverse2 less_imp_le_nat)
  show len: "length ?x = b - a" using b by simp
  show "drop b bytes = [] \<or> ends_blank ?x"
  proof (cases "b = length bytes")
    case False
    have x: "?x \<noteq> []" using len assms(1) by auto
    then have "List.last ?x = ?x ! (b - a - 1)" using len by (simp add: last_conv_nth)
    also have "\<dots> = bytes ! (b - 1)" using assms(1) b by (simp add: add.commute)
    finally show ?thesis using x False assms(2) by (simp add: ends_blank_def cut_at_stamp_def)
  qed simp
qed

lemma full_walker_input:
  "tk_bytes (wk_tokens (full_walker r (a, b))) = take (b - a) (drop a (vr_bytes r))"
  "tk_offset (wk_tokens (full_walker r (a, b))) = a"
  "tk_fail (wk_tokens (full_walker r (a, b))) = vr_fail r"
  "\<not> wk_block (full_walker r (a, b))" "wk_encodings (full_walker r (a, b)) = vr_encodings r"
  "wk_time (full_walker r (a, b)) = 0"
  by (simp_all add: full_walker_def chunk_walker_def chunk_input_def tk_bytes_def)

text \<open>One chunk of the walk of the body.\<close>

lemma full_later:
  assumes "arrives (drop a (vr_bytes r)) a v" and "cut_at_stamp (vr_bytes r) a" and "a < b"
    and "b = length (vr_bytes r) \<or> cut_at_stamp (vr_bytes r) b" and "vr_fail r = None"
    and "wk_encodings v = vr_encodings r" and "snd (walk parse_f64 r (- 1) (Some sel) v) = Inr q"
    and walk: "walk parse_f64 r (- 1) (Some sel) (full_walker r (a, b)) = (xs, Inr (z, p))"
  obtains v' where "walk parse_f64 r (- 1) (Some sel) v =
      (xs @ fst (walk parse_f64 r (- 1) (Some sel) v'), snd (walk parse_f64 r (- 1) (Some sel) v'))"
    "arrives (drop b (vr_bytes r)) b v'" "wk_encodings v' = vr_encodings r"
proof -
  let ?u = "full_walker r (a, b)" and ?later = "drop b (vr_bytes r)"
  have "cut_at_stamp (vr_bytes r) b \<or> b = length (vr_bytes r)" using assms(4) by blast
  note C = chunk_bytes [OF assms(3) this]
  have a: "a < length (vr_bytes r)" "vr_bytes r ! a = CHR ''#''" using assms(2) by (simp_all add: cut_at_stamp_def)
  then have x: "tk_bytes (wk_tokens ?u) \<noteq> []" "hd (tk_bytes (wk_tokens ?u)) = CHR ''#''"
    using assms(3) by (simp_all add: full_walker_input hd_drop_conv_nth)
  obtain ws where ws: "list_all is_ascii_whitespace ws" "tk_bytes (wk_tokens v) = ws @ drop a (vr_bytes r)"
    "tk_offset (wk_tokens v) + length ws = a" "tk_fail (wk_tokens v) = None" "\<not> wk_block v"
    using assms(1) by (auto simp: arrives_def)
  have e: "extends_input ws ?later (wk_tokens ?u) (wk_tokens v)"
    using ws C(1,3) assms(5) by (simp add: extends_input_def full_walker_input)
  obtain u' n where go: "walk_step parse_f64 r (- 1) (Some sel) ?u = Go u' n"
  proof (cases "walk_step parse_f64 r (- 1) (Some sel) ?u")
    case (Stop u' q)
    then obtain tk where "next_token (wk_tokens ?u) = Inr (None, tk)" by (rule full_stop)
    from no_word [OF this] have "is_ascii_whitespace (hd (tk_bytes (wk_tokens ?u)))"
      using hd_in_set [OF x(1)] by (metis list_all_iff)
    then show ?thesis unfolding x(2) by (simp add: is_ascii_whitespace_def byte_def)
  next
    case (Fail e)
    with walk show ?thesis by (simp add: walk_run(3))
  qed
  have enc: "wk_encodings v = wk_encodings ?u" using assms(6) by (simp add: full_walker_input)
  from full_start [OF e ws(5) full_walker_input(4) x go assms(7) enc] obtain v1 where
    v1: "walk_step parse_f64 r (- 1) (Some sel) v = Go v1 None" "n = None" "alongside ?later u' v1"
      "wk_encodings v1 = wk_encodings u'" .
  have u': "walk parse_f64 r (- 1) (Some sel) u' = (xs, Inr (z, p))"
    using walk v1(2) by (simp add: walk_run(1) [OF go] prod_eq_iff)
  have "input_end u' = input_end ?u" "wk_encodings u' = wk_encodings ?u"
    using walk_step_Go_facts [OF go] input_end_moves by blast+
  moreover have "input_end ?u = b" using C(2) assms(3) by (simp add: input_end_def full_walker_input)
  ultimately show ?thesis
    using walk_selected [OF u' v1(3,4)] that v1(4)
    by (auto simp: walk_run(1) [OF v1(1)] full_walker_input)
qed

text \<open>The walks of all chunks, from a cut to the end of the file.\<close>

definition chunk_walks :: "(string \<Rightarrow> u64 option) \<Rightarrow> vcd \<Rightarrow> nat list \<Rightarrow> (nat \<times> nat) list \<Rightarrow> notification list" where
  "chunk_walks parse_f64 r sel ranges =
    concat (map (\<lambda>span. fst (walk parse_f64 r (- 1) (Some sel) (full_walker r span))) ranges)"

definition chunks_end :: "(string \<Rightarrow> u64 option) \<Rightarrow> vcd \<Rightarrow> nat list \<Rightarrow> (nat \<times> nat) list \<Rightarrow> bool" where
  "chunks_end parse_f64 r sel ranges \<longleftrightarrow>
    list_all (\<lambda>span. \<exists>q. snd (walk parse_f64 r (- 1) (Some sel) (full_walker r span)) = Inr q) ranges"

lemma full_chain:
  "cuts_from (vr_bytes r) a cuts \<Longrightarrow> (cuts \<noteq> [] \<Longrightarrow> cut_at_stamp (vr_bytes r) a) \<Longrightarrow>
    arrives (drop a (vr_bytes r)) a v \<Longrightarrow> wk_encodings v = vr_encodings r \<Longrightarrow> vr_fail r = None \<Longrightarrow>
    snd (walk parse_f64 r (- 1) (Some sel) v) = Inr q \<Longrightarrow> chunks_end parse_f64 r sel (chunk_ranges (a # cuts)) \<Longrightarrow>
    fst (walk parse_f64 r (- 1) (Some sel) v) = chunk_walks parse_f64 r sel (chunk_ranges (a # cuts))"
proof (induction cuts arbitrary: a v)
  case Nil
  then have "arrives [] a v" by simp
  then obtain t where "next_token (wk_tokens v) = Inr (None, t)" "\<not> wk_block v"
    unfolding arrives_def using blank_token [of "wk_tokens v"] by auto
  then have "walk_step parse_f64 r (- 1) (Some sel) v = Stop (v\<lparr>wk_tokens := t\<rparr>) (walk_position (tk_offset t) v)"
    by (simp add: walk_step_def)
  then show ?case by (simp add: walk_run(2) chunk_walks_def chunk_ranges_def)
next
  case (Cons b cuts)
  have ranges: "chunk_ranges (a # b # cuts) = (a, b) # chunk_ranges (b # cuts)" by (simp add: chunk_ranges_def)
  have ab: "a < b" "cuts_from (vr_bytes r) b cuts" "cut_at_stamp (vr_bytes r) a"
    "b = length (vr_bytes r) \<or> cut_at_stamp (vr_bytes r) b" "cuts \<noteq> [] \<Longrightarrow> cut_at_stamp (vr_bytes r) b"
    using Cons(2,3) by (cases cuts; simp)+
  from Cons(8) obtain z p where "walk parse_f64 r (- 1) (Some sel) (full_walker r (a, b)) =
      (fst (walk parse_f64 r (- 1) (Some sel) (full_walker r (a, b))), Inr (z, p))"
    and ends: "chunks_end parse_f64 r sel (chunk_ranges (b # cuts))"
    by (auto simp: ranges chunks_end_def prod_eq_iff)
  from full_later [OF Cons(4) ab(3,1,4) Cons(6,5,7) this(1)] obtain v' where
    v': "walk parse_f64 r (- 1) (Some sel) v =
        (fst (walk parse_f64 r (- 1) (Some sel) (full_walker r (a, b))) @ fst (walk parse_f64 r (- 1) (Some sel) v'),
         snd (walk parse_f64 r (- 1) (Some sel) v'))"
      "arrives (drop b (vr_bytes r)) b v'" "wk_encodings v' = vr_encodings r" .
  have "snd (walk parse_f64 r (- 1) (Some sel) v') = Inr q" using v'(1) Cons(7) by simp
  from Cons(1) [OF ab(2,5) v'(2,3) Cons(6) this ends] v'(1) show ?case
    by (simp add: ranges chunk_walks_def)
qed

section \<open>Reads of a file opened in parallel\<close>

definition chunked_source :: "time_span option \<Rightarrow> nat list \<Rightarrow> parallel_source" where
  "chunked_source span cuts =
    \<lparr>pl_cuts = cuts, pl_last = (case span of Some s \<Rightarrow> ticks (span_last s) | None \<Rightarrow> 0)\<rparr>"

lemma chunk_ranges_at:
  "part \<in> set (chunk_ranges (a # cuts)) \<Longrightarrow> cuts_from bytes a cuts \<Longrightarrow>
    fst part < snd part \<and> (cut_at_stamp bytes (snd part) \<or> snd part = length bytes)"
proof (induction cuts arbitrary: a)
  case (Cons b cuts)
  show ?case
  proof (cases "part = (a, b)")
    case True
    with Cons(3) show ?thesis by (cases cuts) auto
  next
    case False
    with Cons(2) have "part \<in> set (chunk_ranges (b # cuts))" by (simp add: chunk_ranges_def)
    with Cons(1,3) show ?thesis by simp
  qed
qed (simp add: chunk_ranges_def)

lemma cuts_from_last: "cuts_from bytes a cuts \<Longrightarrow> List.last (a # cuts) = length bytes"
  by (induction cuts arbitrary: a) auto

lemma full_chunks_end:
  assumes "header_inv h" and "well_cut (opened input h body) cuts"
    and "open_with_cuts parse_f64 (opened input h body) cuts = Some (span, comments, encodings)"
    and r: "r = (opened input h body)\<lparr>vr_encodings := encodings\<rparr>"
  shows "list_all (\<lambda>part. \<exists>w p. snd (walk parse_f64 r (- 1) (Some sel) (full_walker r part)) = Inr (w, p) \<and>
    tk_offset (wk_tokens w) = snd part) (chunk_ranges cuts)"
proof -
  let ?r = "opened input h body"
  have inside: "i < length (vr_encodings ?r)" if "lookup_index ?r code = Some i" for code i
    using open_inv_start [OF assms(1), of input body] that
    by (simp add: open_inv_def opening_walker_def) (simp add: opened_def)
  have same: "lookup_index r code = lookup_index ?r code" for code by (rule lookup_fields) (simp_all add: r)
  have "\<exists>w p. snd (walk parse_f64 r (- 1) (Some sel) (full_walker r part)) = Inr (w, p) \<and>
      tk_offset (wk_tokens w) = snd part" if part: "part \<in> set (chunk_ranges cuts)" for part
  proof -
    obtain a b where ab: "part = (a, b)" by (cases part)
    obtain xs z q where
      w: "walk parse_f64 ?r (- 1) None (chunk_walker ?r part) = (xs, Inr (z, q))" and z: "read_as z encodings"
      by (rule chunk_read_as [OF assms(3) part inside])
    have "in_step (chunk_walker ?r part) (full_walker r part)"
      by (simp add: in_step_def full_walker_def chunk_walker_def chunk_input_def same_input_def tk_bytes_def r)
    moreover have start: "open_inv ?r (chunk_walker ?r part)" by (rule chunk_start_facts(1)) (rule inside)
    moreover have "read_as z (wk_encodings (full_walker r part))"
      using z by (simp add: full_walker_def chunk_walker_def r)
    ultimately have "\<exists>u p. snd (walk parse_f64 r (- 1) (Some sel) (full_walker r part)) = Inr (u, p)"
      using follow_walk [OF w start _ _ same] by blast
    then obtain u p where u: "snd (walk parse_f64 r (- 1) (Some sel) (full_walker r part)) = Inr (u, p)" by auto
    then have "walk parse_f64 r (- 1) (Some sel) (full_walker r part) =
        (fst (walk parse_f64 r (- 1) (Some sel) (full_walker r part)), Inr (u, p))"
      by (simp add: prod_eq_iff)
    from walk_all [OF this] have off: "tk_offset (wk_tokens u) = input_end (full_walker r part)" by simp
    from assms(2) obtain c rest where c: "cuts = vr_body ?r # c # rest" "cuts_from (vr_bytes ?r) (vr_body ?r) (c # rest)"
      by (rule well_cut_cases)
    from chunk_ranges_at [OF part [unfolded c(1)] c(2)] have "a < b"
      "cut_at_stamp (vr_bytes ?r) b \<or> b = length (vr_bytes ?r)" by (simp_all add: ab)
    from chunk_bytes(2) [OF this] \<open>a < b\<close> have "input_end (full_walker r part) = b"
      by (simp add: ab input_end_def full_walker_input r)
    with u off ab show ?thesis by auto
  qed
  then show ?thesis by (simp add: list_all_iff)
qed

lemma full_first:
  assumes "vr_body r < b" and "cut_at_stamp (vr_bytes r) b" and "vr_fail r = None"
    and walk: "walk parse_f64 r (- 1) (Some sel) (full_walker r (vr_body r, b)) = (xs, Inr (z, p))"
  obtains v' where "walk parse_f64 r (- 1) (Some sel) (walk_start r (body_position r) []) =
      (xs @ fst (walk parse_f64 r (- 1) (Some sel) v'), snd (walk parse_f64 r (- 1) (Some sel) v'))"
    "arrives (drop b (vr_bytes r)) b v'" "wk_encodings v' = vr_encodings r"
proof -
  let ?u = "full_walker r (vr_body r, b)" and ?v = "walk_start r (body_position r) []"
  note C = chunk_bytes [OF assms(1) disjI1 [OF assms(2)]]
  have v: "tk_bytes (wk_tokens ?v) = drop (vr_body r) (vr_bytes r)" "tk_offset (wk_tokens ?v) = vr_body r"
    "tk_fail (wk_tokens ?v) = None" "wk_block ?v = False" "wk_time ?v = 0" "wk_encodings ?v = vr_encodings r"
    using assms(3) by (simp_all add: walk_start_def body_position_def seek_input_def tk_bytes_def)
  have "extends_input [] (drop b (vr_bytes r)) (wk_tokens ?u) (wk_tokens ?v)"
    using C(1,3) assms(3) v by (simp add: extends_input_def full_walker_input)
  then have "alongside (drop b (vr_bytes r)) ?u ?v"
    by (simp add: alongside_def full_walker_input v)
  moreover have "wk_encodings ?v = wk_encodings ?u" by (simp add: v full_walker_input)
  moreover have "input_end ?u = b" using C(2) assms(1) by (simp add: input_end_def full_walker_input)
  ultimately show ?thesis using walk_selected [OF walk] that by (fastforce simp: full_walker_input)
qed

definition owned_read :: "notification list \<times> 'a \<Rightarrow> notification list \<times> 'a" where
  "owned_read result = (map note_owned (fst result), snd result)"

lemma body_walk:
  assumes "header_read input name = Inr (h, tk, body)" and "well_cut (opened input h body) cuts"
    and "open_with_cuts parse_f64 (opened input h body) cuts = Some (span, comments, encodings)"
    and r: "r = (opened input h body)\<lparr>vr_encodings := encodings\<rparr>"
  obtains u where "walk parse_f64 r (- 1) (Some sel) (walk_start r (body_position r) []) =
      (chunk_walks parse_f64 r sel (chunk_ranges cuts), Inr (u, walk_position (length (vr_bytes r)) u))"
    "wk_time u = pl_last (chunked_source span cuts)" "\<not> wk_block u"
proof -
  let ?r = "opened input h body" and ?v = "walk_start r (body_position r) []"
  note H = header_read_inv [OF assms(1)]
  have body: "vr_body r = body" by (simp add: r opened_def)
  from open_with_cuts_walk [OF assms(1-3)] obtain w p where
    w: "snd (walk parse_f64 ?r (- 1) None (opening_walker h tk)) = Inr (w, p)"
    and ws: "wk_span w = span" "wk_encodings w = encodings"
    by blast
  then have w': "walk parse_f64 ?r (- 1) None (opening_walker h tk) =
      (fst (walk parse_f64 ?r (- 1) None (opening_walker h tk)), Inr (w, p))"
    by (simp add: prod_eq_iff)
  have inv: "open_inv ?r (opening_walker h tk)" using H by (simp add: open_inv_start)
  have last: "wk_time w = pl_last (chunked_source span cuts)"
    using open_walk [OF w' inv] ws by (auto simp: open_inv_def span_at_def chunked_source_def split: option.splits)
  have "in_file input tk" "body = tk_offset tk" using H by simp_all
  then have tokens: "same_input tk (seek_input r body)"
    by (simp add: in_file_def same_input_def seek_input_def tk_bytes_def r opened_def)
  then have "in_step (opening_walker h tk) ?v"
    by (simp add: in_step_def opening_walker_def walk_start_def body_position_def body)
  moreover have "read_as w (wk_encodings ?v)" using ws by (simp add: walk_start_def r flip: ws(2))
  moreover have "lookup_index r code = lookup_index ?r code" for code by (rule lookup_fields) (simp_all add: r)
  ultimately obtain u q where u: "snd (walk parse_f64 r (- 1) (Some sel) ?v) = Inr (u, q)" "wk_time u = wk_time w"
    using follow_walk [OF w' inv, of ?v r "- 1" sel] by auto
  then have u': "walk parse_f64 r (- 1) (Some sel) ?v = (fst (walk parse_f64 r (- 1) (Some sel) ?v), Inr (u, q))"
    by (simp add: prod_eq_iff)
  note U = walk_all [OF u']
  from assms(2) obtain b rest where c: "cuts = vr_body r # b # rest" "cuts_from (vr_bytes r) (vr_body r) (b # rest)"
    "cut_at_stamp (vr_bytes r) b"
    by (rule well_cut_cases) (simp add: r)
  have "input_end ?v = length (vr_bytes r)"
    using c(2,3) by (simp add: input_end_def walk_start_def seek_input_def tk_bytes_def body_position_def cut_at_stamp_def)
  with U have q: "q = walk_position (length (vr_bytes r)) u" "\<not> wk_block u" by simp_all
  have fail: "vr_fail r = None"
    using walk_reads_all [OF u'] by (simp add: walk_start_def seek_input_def)
  have "header_inv h" using H by simp
  note E = full_chunks_end [OF this assms(2,3) r]
  have ranges: "chunk_ranges cuts = (vr_body r, b) # chunk_ranges (b # rest)" by (simp add: c(1) chunk_ranges_def)
  have ends: "chunks_end parse_f64 r sel (chunk_ranges cuts)"
    using E [of sel] unfolding chunks_end_def by (rule list.pred_mono_strong) auto
  then obtain z p where z: "walk parse_f64 r (- 1) (Some sel) (full_walker r (vr_body r, b)) =
      (fst (walk parse_f64 r (- 1) (Some sel) (full_walker r (vr_body r, b))), Inr (z, p))"
    and rest_ends: "chunks_end parse_f64 r sel (chunk_ranges (b # rest))"
    by (auto simp: ranges chunks_end_def prod_eq_iff)
  have "vr_body r < b" using c(2) by simp
  from full_first [OF this c(3) fail z] obtain v' where
    v': "walk parse_f64 r (- 1) (Some sel) ?v =
        (fst (walk parse_f64 r (- 1) (Some sel) (full_walker r (vr_body r, b))) @ fst (walk parse_f64 r (- 1) (Some sel) v'),
         snd (walk parse_f64 r (- 1) (Some sel) v'))"
      "arrives (drop b (vr_bytes r)) b v'" "wk_encodings v' = vr_encodings r" .
  have "snd (walk parse_f64 r (- 1) (Some sel) v') = Inr (u, q)" using v'(1) u(1) by simp
  with full_chain [OF _ _ v'(2,3) fail _ rest_ends] c(2,3) v'(1) have
    "fst (walk parse_f64 r (- 1) (Some sel) ?v) = chunk_walks parse_f64 r sel (chunk_ranges cuts)"
    by (simp add: ranges chunk_walks_def)
  with u u' q last show ?thesis by (intro that [of u]) simp_all
qed

text \<open>
  C24: a file that was opened in chunks is read by threads over the same chunks, and the read
  tells its caller what one walk of the body tells: the same records in the same order, with
  the same positions to resume from and the same end, whatever the batches, except that the
  digits of a bit vector are told in lower case.
\<close>

theorem chunked_reads_are_reads:
  assumes "header_read input name = Inr (h, tk, body)" and "well_cut (opened input h body) cuts"
    and "open_with_cuts parse_f64 (opened input h body) cuts = Some (span, comments, encodings)"
  shows "owned_read (vcd_read_file parse_f64 record_size threads due
      ((opened input h body)\<lparr>vr_encodings := encodings\<rparr>) (Some (chunked_source span cuts)) signals stop position) =
    owned_read (vcd_read parse_f64 ((opened input h body)\<lparr>vr_encodings := encodings\<rparr>) signals stop position)"
proof -
  define r where "r = (opened input h body)\<lparr>vr_encodings := encodings\<rparr>"
  let ?par = "chunked_source span cuts"
  show ?thesis unfolding r_def [symmetric]
  proof (cases "position = None \<and> parallel_full parse_f64 record_size threads due r ?par signals stop \<noteq> None")
    case False
    then have "vcd_read_file parse_f64 record_size threads due r (Some ?par) signals stop position =
        vcd_read parse_f64 r signals stop position"
      by (cases "parallel_full parse_f64 record_size threads due r ?par signals stop") (auto simp: vcd_read_file_def)
    then show "owned_read (vcd_read_file parse_f64 record_size threads due r (Some ?par) signals stop position) =
        owned_read (vcd_read parse_f64 r signals stop position)"
      by simp
  next
    case True
    let ?sel = "map sig_index signals"
    from True obtain batch_len where later: "pl_last ?par \<le> ticks stop"
      by (auto simp: parallel_full_def not_less split: if_splits)
    obtain u where w: "walk parse_f64 r (- 1) (Some ?sel) (walk_start r (body_position r) []) =
        (chunk_walks parse_f64 r ?sel (chunk_ranges cuts), Inr (u, walk_position (length (vr_bytes r)) u))"
      and u: "wk_time u = pl_last ?par" "\<not> wk_block u"
      by (rule body_walk [OF assms r_def])
    have "wk_time u \<le> ticks stop" using later u(1) by simp
    note stopped = walk_until [OF w this]
    from assms(2) obtain b rest where c: "cuts = vr_body r # b # rest" "cuts_from (vr_bytes r) (vr_body r) (b # rest)"
      by (rule well_cut_cases) (simp add: r_def)
    have "header_inv h" using header_read_inv [OF assms(1)] by simp
    note E = full_chunks_end [OF this assms(2,3) r_def, of ?sel]
    have cuts: "pl_cuts ?par = cuts" by (simp add: chunked_source_def)
    have end_at: "List.last cuts = length (vr_bytes r)" using cuts_from_last [OF c(2)] by (simp add: c(1))
    have pos: "walk_position (length (vr_bytes r)) u =
        \<lparr>pos_offset = List.last cuts, pos_time = pl_last ?par, pos_block = False\<rparr>"
      using u end_at by (simp add: walk_position_def)
    have full: "take_batches (concat (map (\<lambda>(index, span). full_chunk parse_f64 batch_len (due index) r ?sel span)
        (zip [0..<length (chunk_ranges cuts)] (chunk_ranges cuts)))) =
      (map note_owned (chunk_walks parse_f64 r ?sel (chunk_ranges cuts)), Inr ())" for batch_len
      using take_full_chunks [OF E, of batch_len due 0] by (simp add: chunk_walks_def)
    have "parallel_full parse_f64 record_size threads due r ?par signals stop =
        Some (map note_owned (chunk_walks parse_f64 r ?sel (chunk_ranges cuts)),
          Inr (Some (walk_position (length (vr_bytes r)) u)))"
      using True by (auto simp: parallel_full_def Let_def cuts full pos split: if_splits option.splits)
    then show "owned_read (vcd_read_file parse_f64 record_size threads due r (Some ?par) signals stop position) =
        owned_read (vcd_read parse_f64 r signals stop position)"
      using True stopped by (simp add: vcd_read_file_def vcd_read_walk owned_read_def)
  qed
qed

end
