(* ===== verification/Ondas_Vcd_Demo.thy ===== *)
theory Ondas_Vcd_Demo
  imports Ondas_Vcd_Session Ondas_Vcd_Full
begin

text \<open>
  A concrete VCD file, opened by evaluation in the kernel. The first section restates a few
  definitions over integers, whose numerals the simplifier computes with.
\<close>

section \<open>Evaluation\<close>

fun decimal_int :: "int \<Rightarrow> string \<Rightarrow> int" where
  "decimal_int n [] = n"
| "decimal_int n (c # s) = decimal_int (10 * n + int (digit_value c)) s"

lemma decimal_int: "decimal_int (int n) s = int (decimal n s)"
  by (induction n s rule: decimal.induct) (simp_all add: ac_simps)

definition parse_int :: "int \<Rightarrow> string \<Rightarrow> int option" where
  "parse_int bound s =
    (let t = (case s of c # r \<Rightarrow> if c = CHR ''+'' then r else s | [] \<Rightarrow> s)
     in if all_digits t \<and> decimal_int 0 t < bound then Some (decimal_int 0 t) else None)"

lemma parse_int: "parse_int (int bound) s = map_option int (parse_unsigned bound s)"
  using decimal_int [of 0] by (simp add: parse_int_def parse_unsigned_def Let_def)

lemma parse_word:
  "map_option word_of_nat (parse_unsigned bound s) = map_option word_of_int (parse_int (int bound) s)"
  unfolding parse_int by (simp add: option.map_comp o_def)

lemma parse_u32_code [code]: "parse_u32 s = map_option word_of_int (parse_int 0x100000000 s)"
  using parse_word [of "2 ^ 32" s] by (simp add: parse_u32_def)

lemma parse_u64_code [code]: "parse_u64 s = map_option word_of_int (parse_int 0x10000000000000000 s)"
  using parse_word [of "2 ^ 64" s] by (simp add: parse_u64_def)

lemma parse_u128_code [code]:
  "parse_u128 s = map_option nat (parse_int 0x100000000000000000000000000000000 s)"
  using parse_int [of "2 ^ 128" s] by (simp add: parse_u128_def option.map_comp o_def option.map_ident)

fun identifier_int :: "int \<Rightarrow> string \<Rightarrow> int option" where
  "identifier_int number [] = Some number"
| "identifier_int number (b # bytes) =
    (let n = int (byte b)
     in if \<not> (33 \<le> n \<and> n \<le> 126) then None
        else if 0x10000000000000000 \<le> number * 94 then None
        else if 0x10000000000000000 \<le> number * 94 + (n - 32) then None
        else identifier_int (number * 94 + (n - 32)) bytes)"

lemma usize_int: "2 ^ 64 \<le> n \<longleftrightarrow> 0x10000000000000000 \<le> int n"
  by simp

lemma identifier_int: "identifier_int (int number) s = map_option int (identifier_from number s)"
proof (induction number s rule: identifier_from.induct)
  case (2 number b bytes)
  show ?case
  proof (cases "33 \<le> byte b \<and> byte b \<le> 126")
    case True
    then obtain d where d: "byte b = d + 32" using that [of "byte b - 32"] by simp
    have big: "2 ^ 64 \<le> n \<longleftrightarrow> 0x10000000000000000 \<le> int n" for n :: nat by simp
    have "identifier_int (int (number * 94 + d)) bytes = map_option int (identifier_from (number * 94 + d) bytes)"
      if "\<not> 0x10000000000000000 \<le> int (number * 94)" "\<not> 0x10000000000000000 \<le> int (number * 94 + d)"
      using 2 True that unfolding big d by simp
    with True show ?thesis unfolding identifier_int.simps identifier_from.simps big d Let_def
      by simp
  qed (auto simp: Let_def)
qed simp

lemma identifier_from_code [code]:
  "identifier_from number s = map_option nat (identifier_int (int number) s)"
  by (simp add: identifier_int option.map_comp o_def option.map_ident)

lemma bits_from_ascii_code [code]:
  "bits_from_ascii bytes =
    (if int (length bytes) < 0x100000000 \<and> list_all is_logic_byte bytes then Some bytes else None)"
  by (simp add: bits_from_ascii_def)

lemma header_loop_code [code]:
  "header_loop input tk h =
    and_then (header_word tk) (\<lambda>(command, tk1).
    and_then (header_command input (tk_offset tk) command tk1 h) (\<lambda>(h', tk2, body).
      if body = None then header_loop input tk2 h' else Inr (h', tk2, the body)))"
  by (subst header_loop.simps) (auto intro!: and_then_cong split: option.split)

section \<open>The file\<close>

definition demo_vcd :: vcd_input where
  "demo_vcd =
    \<lparr>vr_bytes = ''$scope module t $end $var wire 4 ! b $end $var real 64 % s $end $upscope $end '' @
       ''$enddefinitions $end #3 b01 ! sA % #9 bx1 ! '',
     vr_fail = None, vr_cuts = (\<lambda>_. [])\<rparr>"

lemma demo_header:
  "(case header_read demo_vcd ''x'' of
      Inl e \<Rightarrow> None
    | Inr (h, tk, body) \<Rightarrow> Some (vh_encodings h, vh_ids h, map vd_name (vh_variables h), body)) =
    Some ([Bits 4, Real], [(''%'', 1), (''!'', 0)], [''b'', ''s''], 98)"
  by code_simp

lemma demo_open:
  "(case vcd_open (\<lambda>_. None) 1 demo_vcd ''x'' of
      Inl e \<Rightarrow> None
    | Inr (r, h, m) \<Rightarrow> Some (vr_encodings r, vr_ids r, md_time_span m)) =
    Some ([Bits 4, String], [(''%'', 1), (''!'', 0)], Some \<lparr>span_first = Time 3, span_last = Time 9\<rparr>)"
  by code_simp

text \<open>The file as it is opened.\<close>

lemma demo_opened:
  obtains r h m where "vcd_open (\<lambda>_. None) 1 demo_vcd ''x'' = Inr (r, h, m)"
    "vr_encodings r = [Bits 4, String]" "vr_ids r = [(''%'', 1), (''!'', 0)]"
    "md_time_span m = Some \<lparr>span_first = Time 3, span_last = Time 9\<rparr>"
  using demo_open by (cases "vcd_open (\<lambda>_. None) 1 demo_vcd ''x''") (auto split: prod.splits)

lemma demo_length: "length (vr_bytes demo_vcd) < usize_max"
  by (simp add: demo_vcd_def usize_max_def)

text \<open>Read in two chunks, the second from the stamp \<open>#9\<close>.\<close>

definition demo_cuts :: "nat list" where
  "demo_cuts = [98, 113, 122]"

lemma demo_chunked:
  "(case header_read demo_vcd ''x'' of
      Inl e \<Rightarrow> None
    | Inr (h, tk, body) \<Rightarrow>
        if well_cut (opened demo_vcd h body) demo_cuts
        then open_with_cuts (\<lambda>_. None) (opened demo_vcd h body) demo_cuts else None) =
    Some (Some \<lparr>span_first = Time 3, span_last = Time 9\<rparr>, [], [Bits 4, String])"
  by code_simp

section \<open>Witnesses\<close>

lemma vcd_hierarchies_are_well_formed_witness:
  "\<exists>r h m. vcd_open (\<lambda>_. None) 1 demo_vcd ''x'' = Inr (r, h, m) \<and> hierarchy_ok h \<and>
    list_all (declared (hi_variables h)) [0, 1]"
proof -
  obtain r h m where o: "vcd_open (\<lambda>_. None) 1 demo_vcd ''x'' = Inr (r, h, m)"
    and e: "vr_encodings r = [Bits 4, String]"
    by (rule demo_opened)
  have "[0..<length [Bits 4, String]] = [0, 1]" by (simp add: upt_rec)
  with vcd_hierarchies_are_well_formed [OF o demo_length] e have
    "hierarchy_ok h" "list_all (declared (hi_variables h)) [0, 1]" by metis+
  then show ?thesis using o by blast
qed

lemma opened_files_read_through_witness:
  "\<exists>r h m recorded p. vcd_open (\<lambda>_. None) 1 demo_vcd ''x'' = Inr (r, h, m) \<and>
    vcd_read (\<lambda>_. None) r [demo_bus] (Time 5) None = (recorded, Inr (Some p)) \<and>
    list_all (\<lambda>n. spans (Some \<lparr>span_first = Time 3, span_last = Time 9\<rparr>) (note_time n)) recorded"
proof -
  obtain r h m where o: "vcd_open (\<lambda>_. None) 1 demo_vcd ''x'' = Inr (r, h, m)"
    and s: "md_time_span m = Some \<lparr>span_first = Time 3, span_last = Time 9\<rparr>"
    by (rule demo_opened)
  from opened_files_read_through [OF o, of "[demo_bus]" "Time 5"] o s show ?thesis by auto
qed

lemma dense_codes_agree_witness:
  "\<exists>r h m. vcd_open (\<lambda>_. None) 1 demo_vcd ''x'' = Inr (r, h, m) \<and> lookup_index r ''%'' = Some 1 \<and>
    lookup_index r ''%!'' = None"
proof -
  obtain r h m where o: "vcd_open (\<lambda>_. None) 1 demo_vcd ''x'' = Inr (r, h, m)"
    and s: "vr_ids r = [(''%'', 1), (''!'', 0)]"
    by (rule demo_opened)
  from dense_codes_agree [OF o, of "''%''"] dense_codes_agree [OF o, of "''%!''"] o s show ?thesis by simp
qed

lemma opened_files_answer_witness:
  "\<exists>r h m answer. vcd_open (\<lambda>_. None) 1 demo_vcd ''x'' = Inr (r, h, m) \<and>
    wave_samples (wave_new h) (vcd_source (\<lambda>_. None) r m 0 0) (hierarchy_signals h) (Time 5) = Some (Inr answer) \<and>
    list_all2 sample_typed (hierarchy_signals h) answer"
proof -
  obtain r h m where o: "vcd_open (\<lambda>_. None) 1 demo_vcd ''x'' = Inr (r, h, m)"
    and e: "vr_encodings r = [Bits 4, String]"
    by (rule demo_opened)
  have h: "hi_encodings h = [Bits 4, String]" using o e by (auto elim!: vcd_open_parts)
  have "good (wave_new h) (signal_at h i)" if "i < 2" for i
    using that h by (auto simp: good_iff wave_validate_def wave_new_def hierarchy_validate_def signal_at_def
        valid_handle_def checked_add_def signal_base_def less_2_cases_iff Let_def)
  then have "first_bad (wave_new h) (hierarchy_signals h) = None"
    by (simp add: hierarchy_signals_def h upt_rec good_def)
  from opened_files_answer [OF o demo_length wave_new_ok, of h] this show ?thesis using o
    by (fastforce simp: wave_new_def)
qed

lemma chunked_reads_are_reads_witness:
  "\<exists>h tk body. header_read demo_vcd ''x'' = Inr (h, tk, body) \<and>
    owned_read (vcd_read_file (\<lambda>_. None) 64 True (\<lambda>_ _. False)
      ((opened demo_vcd h body)\<lparr>vr_encodings := [Bits 4, String]\<rparr>)
      (Some (chunked_source (Some \<lparr>span_first = Time 3, span_last = Time 9\<rparr>) demo_cuts)) [demo_bus] (Time 9) None) =
    owned_read (vcd_read (\<lambda>_. None) ((opened demo_vcd h body)\<lparr>vr_encodings := [Bits 4, String]\<rparr>) [demo_bus] (Time 9) None)"
proof -
  obtain h tk body where h: "header_read demo_vcd ''x'' = Inr (h, tk, body)"
    and c: "well_cut (opened demo_vcd h body) demo_cuts"
      "open_with_cuts (\<lambda>_. None) (opened demo_vcd h body) demo_cuts =
        Some (Some \<lparr>span_first = Time 3, span_last = Time 9\<rparr>, [], [Bits 4, String])"
    using demo_chunked by (auto split: sum.splits if_splits)
  from chunked_reads_are_reads [OF h c] h show ?thesis by blast
qed

end
