(* ===== verification/Ondas_Ghw_Wire.thy ===== *)
theory Ondas_Ghw_Wire
  imports Ondas_Vcd_Tokens
begin

text \<open>
  \<^verbatim>\<open>src/src/backends/ghw/wire.rs\<close>: checked access to the GHDL wire format. The input is
  the \<open>BufRead\<close> model of the VCD tokenizer: bytes that arrive in buffers whose borders the
  program does not choose. A byte is a \<open>u8\<close>, the accumulators keep their width, and a
  \<open>i64\<close> result is the integer it denotes.
\<close>

unbundle bit_operations_syntax

section \<open>The wire\<close>

record wire =
  w_tokens :: tokens
  w_len :: nat
  w_big :: bool
  w_version :: nat

definition w_offset :: "wire \<Rightarrow> nat" where
  "w_offset w = tk_offset (w_tokens w)"

definition w_bytes :: "wire \<Rightarrow> string" where
  "w_bytes w = tk_bytes (w_tokens w)"

definition ghw_malformed :: "wire \<Rightarrow> string \<Rightarrow> error" where
  "ghw_malformed w message =
    Malformed Ghw ''ghw-native'' (''byte '' @ show_nat (w_offset w) @ '': '' @ message)"

definition ghw_unsupported :: "wire \<Rightarrow> string \<Rightarrow> error" where
  "ghw_unsupported w message =
    UnsupportedFeature Ghw ''ghw-native'' ''decode''
      (''byte '' @ show_nat (w_offset w) @ '': unsupported GHW '' @ message)"

definition w_window :: "wire \<Rightarrow> error + string" where
  "w_window w = fill_buf (w_tokens w)"

definition w_consume :: "nat \<Rightarrow> wire \<Rightarrow> wire" where
  "w_consume n w = w\<lparr>w_tokens := advance n (w_tokens w)\<rparr>"

definition at_eof :: "wire \<Rightarrow> error + bool" where
  "at_eof w = and_then (w_window w) (\<lambda>bytes. Inr (bytes = []))"

definition w_byte :: "wire \<Rightarrow> error + char \<times> wire" where
  "w_byte w =
    and_then (w_window w) (\<lambda>bytes.
      case bytes of
        [] \<Rightarrow> Inl (ghw_malformed w ''truncated field'')
      | b # _ \<Rightarrow> Inr (b, w_consume 1 w))"

function w_fixed :: "nat \<Rightarrow> wire \<Rightarrow> error + string \<times> wire" where
  "w_fixed n w =
    (if n = 0 then Inr ([], w)
     else and_then (w_window w) (\<lambda>bytes.
       if bytes = [] then Inl (ghw_malformed w ''truncated field'')
       else
         (let k = min (length bytes) n
          in and_then (w_fixed (n - k) (w_consume k w)) (\<lambda>(rest, w'). Inr (take k bytes @ rest, w')))))"
  by pat_completeness auto
termination
  by (relation "measure fst") auto

declare w_fixed.simps [simp del]

section \<open>Integers\<close>

definition octet :: "char \<Rightarrow> u8" where
  "octet c = of_char c"

definition from_le :: "string \<Rightarrow> nat" where
  "from_le bytes = foldr (\<lambda>b n. byte b + 256 * n) bytes 0"

definition from_order :: "bool \<Rightarrow> string \<Rightarrow> nat" where
  "from_order big bytes = from_le (if big then rev bytes else bytes)"

definition w_u32 :: "wire \<Rightarrow> error + nat \<times> wire" where
  "w_u32 w = and_then (w_fixed 4 w) (\<lambda>(bytes, w'). Inr (from_order (w_big w) bytes, w'))"

definition w_i64 :: "wire \<Rightarrow> error + int \<times> wire" where
  "w_i64 w =
    and_then (w_fixed 8 w) (\<lambda>(bytes, w'). Inr (sint (word_of_nat (from_order (w_big w) bytes) :: u64), w'))"

definition w_real_bits :: "wire \<Rightarrow> error + u64 \<times> wire" where
  "w_real_bits w =
    and_then (w_fixed 8 w) (\<lambda>(bytes, w'). Inr (word_of_nat (from_order (w_big w) bytes), w'))"

text \<open>One group of a ULEB128 number: \<open>None\<close> where its high bits exceed 32 bits.\<close>

definition uleb_group :: "nat \<Rightarrow> u32 \<Rightarrow> u8 \<Rightarrow> (u32 + u32) option" where
  "uleb_group grp value b =
    (if grp = 4 \<and> b AND 0xF0 \<noteq> 0 then None
     else
       (let value' = value OR push_bit (7 * grp) (ucast (b AND 0x7F))
        in Some (if b AND 0x80 = 0 then Inr value' else Inl value')))"

function uleb_continued :: "nat \<Rightarrow> u32 \<Rightarrow> wire \<Rightarrow> error + u32 \<times> wire" where
  "uleb_continued grp value w =
    (if grp < 5 then
       and_then (w_byte w) (\<lambda>(b, w').
         if uleb_group grp value (octet b) = None then Inl (ghw_malformed w' ''ULEB128 exceeds 32 bits'')
         else if isl (the (uleb_group grp value (octet b)))
         then uleb_continued (grp + 1) (projl (the (uleb_group grp value (octet b)))) w'
         else Inr (projr (the (uleb_group grp value (octet b))), w'))
     else Inl (ghw_malformed w ''unterminated ULEB128''))"
  by pat_completeness auto
termination
  by (relation "measure (\<lambda>(grp, _). 5 - grp)") auto

declare uleb_continued.simps [simp del]

definition w_uleb :: "wire \<Rightarrow> error + u32 \<times> wire" where
  "w_uleb w =
    and_then (w_byte w) (\<lambda>(first, w').
      if octet first AND 0x80 = 0 then Inr (ucast (octet first), w')
      else uleb_continued 1 (ucast (octet first AND 0x7F)) w')"

text \<open>
  One group of a SLEB128 number of \<open>bits\<close> bits, the loop body that \<open>Wire::sleb\<close> and
  \<open>decode_sleb\<close> share: \<open>None\<close> where the number exceeds \<open>bits\<close> bits.
\<close>

definition sleb_group :: "nat \<Rightarrow> nat \<Rightarrow> u64 \<Rightarrow> u8 \<Rightarrow> (u64 + int) option" where
  "sleb_group bits grp value b =
    (let shift = grp * 7;
         remaining = bits - shift;
         sign = push_bit (remaining - 1) 1;
         high_mask = 0x7F AND NOT (push_bit remaining 1 - 1);
         expected = (if b AND sign = 0 then 0 else high_mask)
     in if remaining < 7 \<and> (b AND 0x80 \<noteq> 0 \<or> b AND high_mask \<noteq> expected) then None
        else
          (let value' = value OR push_bit shift (ucast (b AND 0x7F))
           in if b AND 0x80 = 0
              then
                (let consumed = shift + 7;
                     value'' = (if b AND 0x40 \<noteq> 0 \<and> consumed < 64 then value' OR push_bit consumed (- 1) else value');
                     signed = sint value''
                 in if bits = 32 \<and> \<not> (- (2 ^ 31) \<le> signed \<and> signed < 2 ^ 31) then None else Some (Inr signed))
              else Some (Inl value')))"

function sleb_groups :: "nat \<Rightarrow> nat \<Rightarrow> u64 \<Rightarrow> wire \<Rightarrow> error + int \<times> wire" where
  "sleb_groups bits grp value w =
    (if grp < (bits + 6) div 7 then
       and_then (w_byte w) (\<lambda>(b, w').
         if sleb_group bits grp value (octet b) = None
         then Inl (ghw_malformed w' (''SLEB128 exceeds '' @ show_nat bits @ '' bits''))
         else if isl (the (sleb_group bits grp value (octet b)))
         then sleb_groups bits (grp + 1) (projl (the (sleb_group bits grp value (octet b)))) w'
         else Inr (projr (the (sleb_group bits grp value (octet b))), w'))
     else Inl (ghw_malformed w ''unterminated SLEB128''))"
  by pat_completeness auto
termination
  by (relation "measure (\<lambda>(bits, grp, _). (bits + 6) div 7 - grp)") auto

declare sleb_groups.simps [simp del]

definition w_sleb :: "nat \<Rightarrow> wire \<Rightarrow> error + int \<times> wire" where
  "w_sleb bits w = sleb_groups bits 0 0 w"

text \<open>\<open>decode_sleb\<close>: the number at the head of a window, and its length.\<close>

function decode_groups :: "string \<Rightarrow> nat \<Rightarrow> nat \<Rightarrow> u64 \<Rightarrow> (int \<times> nat) option" where
  "decode_groups bytes bits grp value =
    (if grp < (bits + 6) div 7 \<and> grp < length bytes then
       (case sleb_group bits grp value (octet (bytes ! grp)) of
          None \<Rightarrow> None
        | Some (Inl value') \<Rightarrow> decode_groups bytes bits (grp + 1) value'
        | Some (Inr v) \<Rightarrow> Some (v, grp + 1))
     else None)"
  by pat_completeness auto
termination
  by (relation "measure (\<lambda>(bytes, bits, grp, _). (bits + 6) div 7 - grp)") auto

declare decode_groups.simps [simp del]

definition decode_sleb :: "string \<Rightarrow> nat \<Rightarrow> (int \<times> nat) option" where
  "decode_sleb bytes bits = decode_groups bytes bits 0 0"

section \<open>Sections\<close>

definition nul :: char where
  "nul = CHR 0x00"

definition w_zeros :: "wire \<Rightarrow> error + wire" where
  "w_zeros w =
    and_then (w_fixed 4 w) (\<lambda>(bytes, w').
      if bytes \<noteq> replicate 4 nul then Inl (ghw_malformed w' ''nonzero reserved section field'') else Inr w')"

definition w_marker :: "string \<Rightarrow> wire \<Rightarrow> error + wire" where
  "w_marker expected w =
    and_then (w_fixed 4 w) (\<lambda>(bytes, w').
      if bytes \<noteq> expected then Inl (ghw_malformed w' (''expected '' @ expected @ '' section marker''))
      else Inr w')"

definition ghw_magic :: string where
  "ghw_magic = ''GHDLwave'' @ [CHR 0x0A]"

definition w_header :: "wire \<Rightarrow> error + wire" where
  "w_header w =
    and_then (w_fixed 16 w) (\<lambda>(header, w').
      let field = (\<lambda>i. byte (header ! i))
      in if (field 0 = 0x1F \<and> field 1 = 0x8B) \<or> take 2 header = ''BZ''
         then Inl (ghw_unsupported w' ''outer gzip/bzip2 compression'')
         else if take 9 header \<noteq> ghw_magic \<or> field 9 \<noteq> 16 \<or> field 15 \<noteq> 0
         then Inl (ghw_malformed w' ''invalid file header'')
         else if field 10 \<noteq> 0 \<or> 1 < field 11
         then Inl (ghw_unsupported w' (''version '' @ show_nat (field 10) @ ''.'' @ show_nat (field 11)))
         else if field 12 \<noteq> 1 \<and> field 12 \<noteq> 2
         then Inl (ghw_malformed (w'\<lparr>w_version := field 11\<rparr>) ''invalid header byte order'')
         else if field 13 \<noteq> 4 \<or> field 14 \<noteq> 1
         then Inl (ghw_unsupported w' (''word/offset layout '' @ show_nat (field 13) @ ''/'' @ show_nat (field 14)))
         else Inr (w'\<lparr>w_version := field 11, w_big := (field 12 = 2)\<rparr>))"

definition w_count :: "string \<Rightarrow> wire \<Rightarrow> error + nat \<times> wire" where
  "w_count what w =
    and_then (w_u32 w) (\<lambda>(n, w').
      if 2 ^ 31 \<le> n then Inl (ghw_malformed w' (''negative '' @ what @ '' count'')) else Inr (n, w'))"

section \<open>What is consumed\<close>

definition eats :: "wire \<Rightarrow> string \<Rightarrow> wire \<Rightarrow> bool" where
  "eats w x w' \<longleftrightarrow>
    w_bytes w = x @ w_bytes w' \<and> w_offset w' = w_offset w + length x \<and>
    tk_fail (w_tokens w') = tk_fail (w_tokens w) \<and> w_len w' = w_len w \<and> w_big w' = w_big w \<and>
    w_version w' = w_version w"

lemma eats_Nil [simp]: "eats w [] w"
  by (simp add: eats_def)

lemma eats_trans: "eats a x b \<Longrightarrow> eats b y c \<Longrightarrow> eats a (x @ y) c"
  by (simp add: eats_def)

lemma eats_consume:
  assumes "w_window w = Inr c" and "n \<le> length c"
  shows "eats w (take n c) (w_consume n w)"
  using assms
  by (cases "w_tokens w" rule: fill_buf_cases)
    (auto simp: eats_def w_window_def w_consume_def w_bytes_def w_offset_def)

lemma w_window_cases:
  obtains (failed) e where "w_window w = Inl e" "w_bytes w = []" "tk_fail (w_tokens w) = Some e"
  | (eof) "w_window w = Inr []" "w_bytes w = []" "tk_fail (w_tokens w) = None"
  | (some) c rest where "w_window w = Inr c" "c \<noteq> []" "w_bytes w = c @ rest"
  by (cases "w_tokens w" rule: fill_buf_cases) (simp_all add: w_window_def w_bytes_def)

text \<open>The end of the input, where a field is not complete.\<close>

definition truncated :: "wire \<Rightarrow> error" where
  "truncated w =
    (case tk_fail (w_tokens w) of
       Some e \<Rightarrow> e
     | None \<Rightarrow> Malformed Ghw ''ghw-native''
         (''byte '' @ show_nat (w_offset w + length (w_bytes w)) @ '': truncated field''))"

lemma truncated_eats: "eats w x w' \<Longrightarrow> truncated w' = truncated w"
  by (simp add: eats_def truncated_def add.assoc split: option.split)

lemma w_byte_spec:
  "case w_bytes w of
     [] \<Rightarrow> w_byte w = Inl (truncated w)
   | b # _ \<Rightarrow> \<exists>w'. w_byte w = Inr (b, w') \<and> eats w [b] w'"
proof (cases rule: w_window_cases [of w])
  case (failed e)
  then show ?thesis by (simp add: w_byte_def truncated_def)
next
  case eof
  then show ?thesis by (simp add: w_byte_def truncated_def ghw_malformed_def)
next
  case (some c rest)
  then obtain b c' where c: "c = b # c'" by (cases c) auto
  have "eats w (take 1 c) (w_consume 1 w)" using some(1) by (rule eats_consume) (simp add: c)
  with some c show ?thesis by (simp add: w_byte_def)
qed

lemma w_byte_Inr: "w_byte w = Inr (b, w') \<Longrightarrow> eats w [b] w'"
  using w_byte_spec [of w] by (auto split: list.splits)

lemma w_byte_Cons: "w_bytes w = b # rest \<Longrightarrow> \<exists>w'. w_byte w = Inr (b, w') \<and> eats w [b] w'"
  using w_byte_spec [of w] by simp

lemma w_fixed_spec:
  "if n \<le> length (w_bytes w)
   then \<exists>w'. w_fixed n w = Inr (take n (w_bytes w), w') \<and> eats w (take n (w_bytes w)) w'
   else w_fixed n w = Inl (truncated w)"
proof (induction n w rule: w_fixed.induct)
  case (1 n w)
  show ?case
  proof (cases "n = 0")
    case True
    then show ?thesis by (simp add: w_fixed.simps [of 0])
  next
    case n: False
    show ?thesis
    proof (cases rule: w_window_cases [of w])
      case (failed e)
      with n show ?thesis by (simp add: w_fixed.simps [of n] truncated_def)
    next
      case eof
      with n show ?thesis by (simp add: w_fixed.simps [of n] truncated_def ghw_malformed_def)
    next
      case (some c rest)
      define k where "k = min (length c) n"
      have k: "k \<le> length c" "k \<le> n" by (simp_all add: k_def)
      have eat: "eats w (take k c) (w_consume k w)" using some(1) k(1) by (rule eats_consume)
      then have bytes: "w_bytes w = take k c @ w_bytes (w_consume k w)" by (simp add: eats_def)
      have len: "length (w_bytes w) = k + length (w_bytes (w_consume k w))"
        using arg_cong [OF bytes, of length] k(1) by simp
      have take: "take n (w_bytes w) = take k c @ take (n - k) (w_bytes (w_consume k w))"
        using bytes k by (metis (no_types) append_take_drop_id length_take min.absorb2 take_all take_append k(1))
      have step: "w_fixed n w =
          and_then (w_fixed (n - k) (w_consume k w)) (\<lambda>(rest, w'). Inr (take k c @ rest, w'))"
        using n some by (simp add: w_fixed.simps [of n] k_def Let_def)
      note IH = 1 [OF n some(1,2) k_def]
      show ?thesis
      proof (cases "n \<le> length (w_bytes w)")
        case True
        then have "n - k \<le> length (w_bytes (w_consume k w))" using len k by simp
        with IH obtain w' where "w_fixed (n - k) (w_consume k w) = Inr (take (n - k) (w_bytes (w_consume k w)), w')"
          "eats (w_consume k w) (take (n - k) (w_bytes (w_consume k w))) w'" by auto
        with True eats_trans [OF eat this(2)] step take show ?thesis by simp
      next
        case False
        then have "\<not> n - k \<le> length (w_bytes (w_consume k w))" using len k by simp
        with IH have "w_fixed (n - k) (w_consume k w) = Inl (truncated w)" by (simp add: truncated_eats [OF eat])
        with False step show ?thesis by simp
      qed
    qed
  qed
qed

lemma w_fixed_Inr:
  "w_fixed n w = Inr (x, w') \<Longrightarrow> eats w x w' \<and> length x = n"
  using w_fixed_spec [of n w] by (auto split: if_splits)

lemma w_fixed_append:
  "w_bytes w = x @ rest \<Longrightarrow> length x = n \<Longrightarrow> \<exists>w'. w_fixed n w = Inr (x, w') \<and> eats w x w'"
  using w_fixed_spec [of n w] by simp

section \<open>Buffers do not matter\<close>

definition same_wire :: "wire \<Rightarrow> wire \<Rightarrow> bool" where
  "same_wire w v \<longleftrightarrow>
    same_input (w_tokens w) (w_tokens v) \<and> w_len w = w_len v \<and> w_big w = w_big v \<and> w_version w = w_version v"

abbreviation same_out :: "('a \<Rightarrow> 'b \<Rightarrow> bool) \<Rightarrow> error + 'a \<Rightarrow> error + 'b \<Rightarrow> bool" where
  "same_out R \<equiv> rel_sum (=) R"

abbreviation same_read :: "error + 'a \<times> wire \<Rightarrow> error + 'a \<times> wire \<Rightarrow> bool" where
  "same_read \<equiv> rel_sum (=) (rel_prod (=) same_wire)"

lemma same_wire_refl [simp]: "same_wire w w"
  by (simp add: same_wire_def)

lemma same_wire_fields:
  assumes "same_wire w v"
  shows "w_bytes v = w_bytes w" "w_offset v = w_offset w" "tk_fail (w_tokens v) = tk_fail (w_tokens w)"
    "w_len v = w_len w" "w_big v = w_big w" "w_version v = w_version w"
  using assms by (simp_all add: same_wire_def same_input_def w_bytes_def w_offset_def)

lemma same_eats:
  "same_wire w v \<Longrightarrow> eats w x w' \<Longrightarrow> eats v x v' \<Longrightarrow> same_wire w' v'"
  by (simp add: same_wire_def same_input_def eats_def w_bytes_def w_offset_def)

lemma same_truncated: "same_wire w v \<Longrightarrow> truncated w = truncated v"
  using same_wire_fields [of w v] by (simp add: truncated_def split: option.split)

lemma same_then:
  assumes "same_out R r r'" and "\<And>x y. r = Inr x \<Longrightarrow> R x y \<Longrightarrow> same_out S (f x) (f' y)"
  shows "same_out S (and_then r f) (and_then r' f')"
  using assms by (cases r; cases r') auto

lemma same_read_then:
  assumes "same_read r r'"
    and "\<And>x w v. r = Inr (x, w) \<Longrightarrow> same_wire w v \<Longrightarrow> same_out S (f (x, w)) (f' (x, v))"
  shows "same_out S (and_then r f) (and_then r' f')"
  using assms by (cases r; cases r') (auto simp: rel_prod_sel)

lemma same_malformed:
  "same_wire w v \<Longrightarrow> ghw_malformed w m = ghw_malformed v m"
  "same_wire w v \<Longrightarrow> ghw_unsupported w m = ghw_unsupported v m"
  using same_wire_fields [of w v] by (simp_all add: ghw_malformed_def ghw_unsupported_def)

lemma same_byte: "same_wire w v \<Longrightarrow> same_read (w_byte w) (w_byte v)"
  using w_byte_spec [of w] w_byte_spec [of v] same_wire_fields(1) [of w v] same_truncated [of w v]
    same_eats [of w v]
  by (auto split: list.splits)

lemma same_fixed: "same_wire w v \<Longrightarrow> same_read (w_fixed n w) (w_fixed n v)"
  using w_fixed_spec [of n w] w_fixed_spec [of n v] same_wire_fields(1) [of w v] same_truncated [of w v]
    same_eats [of w v]
  by (auto split: if_splits)

lemma same_eof: "same_wire w v \<Longrightarrow> at_eof w = at_eof v"
  by (cases rule: w_window_cases [of w]; cases rule: w_window_cases [of v])
    (auto simp: at_eof_def same_wire_fields(1,3))

lemma same_u32: "same_wire w v \<Longrightarrow> same_read (w_u32 w) (w_u32 v)"
  unfolding w_u32_def by (rule same_read_then [OF same_fixed]) (simp_all add: same_wire_fields)

lemma same_i64: "same_wire w v \<Longrightarrow> same_read (w_i64 w) (w_i64 v)"
  unfolding w_i64_def by (rule same_read_then [OF same_fixed]) (simp_all add: same_wire_fields)

lemma same_real_bits: "same_wire w v \<Longrightarrow> same_read (w_real_bits w) (w_real_bits v)"
  unfolding w_real_bits_def by (rule same_read_then [OF same_fixed]) (simp_all add: same_wire_fields)

lemma same_uleb_continued: "same_wire w v \<Longrightarrow> same_read (uleb_continued g x w) (uleb_continued g x v)"
proof (induction g x w arbitrary: v rule: uleb_continued.induct)
  case (1 g x w)
  show ?case
  proof (cases "g < 5")
    case True
    show ?thesis unfolding uleb_continued.simps [of g x] if_P [OF True]
    proof (rule same_read_then [OF same_byte [OF 1(2)]])
      fix b w1 v1
      assume b: "w_byte w = Inr (b, w1)" and s: "same_wire w1 v1"
      note IH = 1(1) [OF True b refl _ _ s]
      show "same_read
          (case (b, w1) of (b, w') \<Rightarrow>
             if uleb_group g x (octet b) = None then Inl (ghw_malformed w' ''ULEB128 exceeds 32 bits'')
             else if isl (the (uleb_group g x (octet b)))
             then uleb_continued (g + 1) (projl (the (uleb_group g x (octet b)))) w' else Inr (projr (the (uleb_group g x (octet b))), w'))
          (case (b, v1) of (b, w') \<Rightarrow>
             if uleb_group g x (octet b) = None then Inl (ghw_malformed w' ''ULEB128 exceeds 32 bits'')
             else if isl (the (uleb_group g x (octet b)))
             then uleb_continued (g + 1) (projl (the (uleb_group g x (octet b)))) w' else Inr (projr (the (uleb_group g x (octet b))), w'))"
        using IH s same_malformed(1) [OF s] by simp
    qed
  next
    case False
    then show ?thesis using same_malformed(1) [OF 1(2)] by (simp add: uleb_continued.simps [of g x])
  qed
qed

lemma same_uleb: "same_wire w v \<Longrightarrow> same_read (w_uleb w) (w_uleb v)"
  unfolding w_uleb_def by (rule same_read_then [OF same_byte]) (auto simp: same_uleb_continued)

lemma same_sleb_groups: "same_wire w v \<Longrightarrow> same_read (sleb_groups bits g x w) (sleb_groups bits g x v)"
proof (induction bits g x w arbitrary: v rule: sleb_groups.induct)
  case (1 bits g x w)
  show ?case
  proof (cases "g < (bits + 6) div 7")
    case True
    show ?thesis unfolding sleb_groups.simps [of bits g x] if_P [OF True]
    proof (rule same_read_then [OF same_byte [OF 1(2)]])
      fix b w1 v1
      assume b: "w_byte w = Inr (b, w1)" and s: "same_wire w1 v1"
      note IH = 1(1) [OF True b refl _ _ s]
      show "same_read
          (case (b, w1) of (b, w') \<Rightarrow>
             if sleb_group bits g x (octet b) = None then Inl (ghw_malformed w' (''SLEB128 exceeds '' @ show_nat bits @ '' bits''))
             else if isl (the (sleb_group bits g x (octet b)))
             then sleb_groups bits (g + 1) (projl (the (sleb_group bits g x (octet b)))) w' else Inr (projr (the (sleb_group bits g x (octet b))), w'))
          (case (b, v1) of (b, w') \<Rightarrow>
             if sleb_group bits g x (octet b) = None then Inl (ghw_malformed w' (''SLEB128 exceeds '' @ show_nat bits @ '' bits''))
             else if isl (the (sleb_group bits g x (octet b)))
             then sleb_groups bits (g + 1) (projl (the (sleb_group bits g x (octet b)))) w' else Inr (projr (the (sleb_group bits g x (octet b))), w'))"
        using IH s same_malformed(1) [OF s] by simp
    qed
  next
    case False
    then show ?thesis using same_malformed(1) [OF 1(2)] by (simp add: sleb_groups.simps [of bits g x])
  qed
qed

lemma same_sleb: "same_wire w v \<Longrightarrow> same_read (w_sleb bits w) (w_sleb bits v)"
  unfolding w_sleb_def by (rule same_sleb_groups)

lemma same_zeros: "same_wire w v \<Longrightarrow> same_out same_wire (w_zeros w) (w_zeros v)"
  unfolding w_zeros_def by (rule same_read_then [OF same_fixed]) (auto simp: same_malformed)

lemma same_marker: "same_wire w v \<Longrightarrow> same_out same_wire (w_marker m w) (w_marker m v)"
  unfolding w_marker_def by (rule same_read_then [OF same_fixed]) (auto simp: same_malformed)

lemma same_count: "same_wire w v \<Longrightarrow> same_read (w_count what w) (w_count what v)"
  unfolding w_count_def by (rule same_read_then [OF same_u32]) (auto simp: same_malformed)

end
