(* ===== verification/Ondas_Ghw_Leb.thy ===== *)
theory Ondas_Ghw_Leb
  imports Ondas_Ghw_Wire
begin

text \<open>
  The variable length integers of GHW: what \<open>Wire::uleb\<close> and \<open>Wire::sleb\<close> read is the number
  whose LEB128 encoding is written, and the decoders of a buffered window
  (\<^verbatim>\<open>src/src/backends/ghw/wire.rs\<close>, \<open>decode_sleb\<close>, and \<^verbatim>\<open>src/src/backends/ghw/body.rs\<close>,
  \<open>window_uleb\<close>) answer what the checked readers answer.
\<close>

section \<open>Octets\<close>

lemma unat_octet [simp]: "unat (octet c) = byte c"
proof -
  have "octet c = word_of_nat (byte c)" by (simp only: octet_def byte_def of_nat_of_char)
  then show ?thesis by (simp add: unat_of_nat)
qed

lemma octet_masked: "b AND NOT (mask n) = 0 \<longleftrightarrow> unat b < 2 ^ n" for b :: u8
proof -
  have "b AND NOT (mask n) = 0 \<longleftrightarrow> take_bit n b = b"
    by (simp add: take_bit_eq_mask bit_eq_iff bit_simps) blast
  also have "\<dots> \<longleftrightarrow> unat b < 2 ^ n" by (metis take_bit_nat_eq_self_iff unsigned_take_bit_eq word_unat_eq_iff)
  finally show ?thesis .
qed

lemma octet_masks:
  fixes b :: u8
  shows "b AND 0x80 = 0 \<longleftrightarrow> unat b < 128" "unat (b AND 0x7F) = unat b mod 128" "b AND 0xF0 = 0 \<longleftrightarrow> unat b < 16"
    "b AND 0x40 = 0 \<longleftrightarrow> unat b mod 128 < 64"
proof -
  have m: "(0x7F :: u8) = mask 7" "(0x80 :: u8) = NOT (mask 7)" "(0xF0 :: u8) = NOT (mask 4)"
    by (simp_all add: mask_eq_exp_minus_1 not_eq_complement)
  show "b AND 0x80 = 0 \<longleftrightarrow> unat b < 128" "b AND 0xF0 = 0 \<longleftrightarrow> unat b < 16"
    unfolding m octet_masked by simp_all
  show "unat (b AND 0x7F) = unat b mod 128"
    unfolding m take_bit_eq_mask [symmetric] unsigned_take_bit_eq by (simp add: take_bit_eq_mod)
  have "b AND 0x40 = 0 \<longleftrightarrow> \<not> bit b 6" using and_exp_eq_0_iff_not_bit [of b 6] by simp
  also have "bit b 6 \<longleftrightarrow> odd (unat b div 64)"
    using bit_unsigned_iff [of b 6, where 'a=nat] by (simp add: bit_iff_odd)
  also have "\<not> \<dots> \<longleftrightarrow> unat b mod 128 < 64"
    using mod_mult2_eq [of "unat b" 64 2] by (cases "odd (unat b div 64)") (simp_all add: odd_iff_mod_2_eq_one)
  finally show "b AND 0x40 = 0 \<longleftrightarrow> unat b mod 128 < 64" .
qed

lemma or_shift:
  fixes x :: "'a::len word"
  assumes "unat x < 2 ^ n"
  shows "x OR push_bit n y = x + push_bit n y"
proof -
  have "take_bit n x = x"
    using assms by (metis take_bit_nat_eq_self_iff unsigned_take_bit_eq word_unat_eq_iff)
  then have "\<not> (bit x i \<and> bit (push_bit n y) i)" for i
    by (metis bit_push_bit_iff bit_take_bit_iff not_less)
  then show ?thesis by (simp add: disjunctive_add_eq_or bit_eq_iff bit_simps)
qed

lemma unat_plus_nat:
  fixes v :: "'a::len word"
  assumes "unat v + n < 2 ^ LENGTH('a)"
  shows "unat (v + word_of_nat n) = unat v + n"
proof -
  have "v + word_of_nat n = word_of_nat (unat v + n)" by simp
  then show ?thesis unfolding unat_of_nat by (simp only: unat_of_nat mod_less [OF assms])
qed

lemma uleb_group_value:
  assumes "unat v < 2 ^ (7 * g)" and "byte c = m + k" and "m < 128" and "k = 0 \<or> k = 128" and "g = 4 \<longrightarrow> m + k < 16"
    and "unat v + m * 2 ^ (7 * g) < 2 ^ 32" and t_def: "t = v + word_of_nat (m * 2 ^ (7 * g))"
  shows "uleb_group g v (octet c) = Some (if k = 0 then Inr t else Inl t) \<and> unat t = unat v + m * 2 ^ (7 * g)"
proof -
  have m: "unat (octet c AND 0x7F) = m" using assms(2-4) by (auto simp: octet_masks)
  have "ucast (octet c AND 0x7F) = (word_of_nat (unat (octet c AND 0x7F)) :: u32)"
    by (rule of_nat_unat [symmetric])
  then have u: "ucast (octet c AND 0x7F) = (word_of_nat m :: u32)" unfolding m .
  have "push_bit (7 * g) (word_of_nat m :: u32) = word_of_nat (m * 2 ^ (7 * g))"
    unfolding push_bit_eq_mult of_nat_mult of_nat_power of_nat_numeral ..
  then have val: "v OR push_bit (7 * g) (ucast (octet c AND 0x7F)) = t"
    unfolding u or_shift [OF assms(1)] t_def by (rule arg_cong)
  have more: "octet c AND 0x80 = 0 \<longleftrightarrow> k = 0" using assms(2-4) by (auto simp: octet_masks)
  have fits: "\<not> (g = 4 \<and> octet c AND 0xF0 \<noteq> 0)" using assms(2,5) by (simp add: octet_masks)
  have "unat t = unat v + m * 2 ^ (7 * g)"
    unfolding t_def by (rule unat_plus_nat) (use assms(6) in simp)
  then show ?thesis
    unfolding uleb_group_def Let_def val more if_not_P [OF fits] by blast
qed

lemma bit_ucast7: "bit (ucast (b AND 0x7F) :: u64) i \<longleftrightarrow> i < 7 \<and> bit b i" for b :: u8
proof -
  have "(0x7F :: u8) = mask 7" by (simp add: mask_eq_exp_minus_1)
  then have "b AND 0x7F = take_bit 7 b" by (simp only: take_bit_eq_mask)
  then show ?thesis by (auto simp: bit_simps dest: bit_imp_le_length)
qed

lemma bit_or_groups:
  fixes b :: u8
  assumes "\<And>k. k < 7 \<Longrightarrow> bit b k = bit x (n + k)"
  shows "word_of_int (take_bit n x) OR push_bit n (ucast (b AND 0x7F)) = (word_of_int (take_bit (n + 7) x) :: u64)"
proof (rule bit_word_eqI)
  fix i
  assume i: "i < LENGTH(64)"
  show "bit ((word_of_int (take_bit n x) :: u64) OR push_bit n (ucast (b AND 0x7F))) i = bit (word_of_int (take_bit (n + 7) x) :: u64) i"
  proof (cases "i < n")
    case True
    with i show ?thesis by (simp add: bit_or_iff bit_word_of_int_iff bit_take_bit_iff bit_push_bit_iff)
  next
    case False
    then obtain k where k: "i = n + k" by (metis le_add_diff_inverse not_less)
    show ?thesis
      using i assms [of k] by (auto simp: k bit_or_iff bit_word_of_int_iff bit_take_bit_iff bit_push_bit_iff bit_ucast7)
  qed
qed

text \<open>The groups of a number \<open>x\<close> of \<open>bits\<close> bits.\<close>

lemma sleb_group_more:
  assumes "\<And>k. k < 7 \<Longrightarrow> bit b k = bit x (7 * g + k)" and "\<not> b AND 0x80 = 0" and "7 * g + 7 \<le> bits"
  shows "sleb_group bits g (word_of_int (take_bit (7 * g) x)) b =
    Some (Inl (word_of_int (take_bit (7 * (g + 1)) x)))"
proof -
  have g: "g * 7 = 7 * g" "7 * (g + 1) = 7 * g + 7" by simp_all
  have "\<not> bits - 7 * g < 7" using assms(3) by simp
  then have keep: "\<not> (bits - 7 * g < 7 \<and> P)" for P by blast
  have "sleb_group bits g v b = Some (Inl (v OR push_bit (7 * g) (ucast (b AND 0x7F))))" for v
    unfolding sleb_group_def Let_def g(1) if_not_P [OF keep] if_not_P [OF assms(2)] ..
  then show ?thesis unfolding g(2) by (simp only: bit_or_groups [OF assms(1)])
qed

lemma bit_high:
  fixes x :: int
  assumes "- (2 ^ n) \<le> x" and "x < 2 ^ n" and "n \<le> i"
  shows "bit x i \<longleftrightarrow> bit x n"
proof -
  have x: "signed_take_bit n x = x" using assms(1,2) by (rule signed_take_bit_int_eq_self)
  have "bit (signed_take_bit n x) i = bit x n" using assms(3) by (simp add: bit_signed_take_bit_iff min_def)
  then show ?thesis unfolding x .
qed

lemma sleb_high_bits:
  fixes b :: u8
  assumes "r < 7" and "0 < r" and "\<And>k. r \<le> k \<Longrightarrow> k < 7 \<Longrightarrow> bit b k = bit b (r - 1)"
  shows "b AND (0x7F AND NOT (push_bit r 1 - 1)) =
    (if b AND push_bit (r - 1) 1 = 0 then 0 else 0x7F AND NOT (push_bit r 1 - 1))"
proof -
  have m: "(0x7F :: u8) = mask 7" "(push_bit r 1 - 1 :: u8) = mask r"
    by (simp_all add: mask_eq_exp_minus_1)
  have sign: "b AND push_bit (r - 1) 1 = 0 \<longleftrightarrow> \<not> bit b (r - 1)"
    using and_exp_eq_0_iff_not_bit [of b "r - 1"] by simp
  show ?thesis unfolding m sign
  proof (rule bit_word_eqI)
    fix k
    show "bit (b AND (mask 7 AND NOT (mask r))) k =
        bit (if \<not> bit b (r - 1) then 0 else mask 7 AND NOT (mask r) :: u8) k"
      using assms(3) [of k] by (cases "r \<le> k") (auto simp: bit_simps)
  qed
qed

lemma sleb_group_last:
  assumes "\<And>k. k < 7 \<Longrightarrow> bit b k = bit x (7 * g + k)" and "b AND 0x80 = 0" and "7 * g < bits"
    and "\<And>i. 7 * g + 6 \<le> i \<Longrightarrow> bit x i = bit x (7 * g + 6)"
    and "bits = 32 \<or> bits = 64" and "- (2 ^ (bits - 1)) \<le> x" and "x < 2 ^ (bits - 1)"
  shows "sleb_group bits g (word_of_int (take_bit (7 * g) x)) b = Some (Inr x)"
proof -
  let ?n = "7 * g"
  let ?high = "0x7F AND NOT (push_bit (bits - ?n) 1 - 1) :: u8"
  have high: "b AND ?high = (if b AND push_bit (bits - ?n - 1) 1 = 0 then 0 else ?high)" if r: "bits - ?n < 7"
  proof (rule sleb_high_bits [OF r])
    show "0 < bits - ?n" using assms(3) by simp
    fix k
    assume k: "bits - ?n \<le> k" "k < 7"
    have "bit x (?n + k) = bit x (bits - 1)" using k assms(3) by (intro bit_high [OF assms(6,7)]) simp
    moreover have "bit b (bits - ?n - 1) = bit x (?n + (bits - ?n - 1))" by (rule assms(1)) (use r in simp)
    moreover have "?n + (bits - ?n - 1) = bits - 1" using assms(3) by simp
    ultimately show "bit b k = bit b (bits - ?n - 1)" using assms(1) [OF k(2)] by simp
  qed
  have sign: "b AND 0x40 = 0 \<longleftrightarrow> \<not> bit x (?n + 6)"
    using and_exp_eq_0_iff_not_bit [of b 6] assms(1) [of 6] by simp
  define y :: u64 where "y = word_of_int (take_bit (?n + 7) x)"
  define z where "z = (if b AND 0x40 \<noteq> 0 \<and> ?n + 7 < 64 then y OR push_bit (?n + 7) (- 1) else y)"
  have "z = word_of_int x"
  proof (rule bit_word_eqI)
    fix i
    assume "i < LENGTH(64)"
    then show "bit z i = bit (word_of_int x :: u64) i"
      using assms(4) [of i] assms(4) [of "?n + 6"]
      by (cases "i < ?n + 7")
        (auto simp: z_def y_def sign bit_or_iff bit_word_of_int_iff bit_take_bit_iff bit_push_bit_iff bit_minus_1_iff
          bit_not_iff bit_mask_iff)
  qed
  moreover have "- (2 ^ 63) \<le> x \<and> x < 2 ^ 63"
    using assms(5-7) by (auto intro: order_trans less_le_trans)
  ultimately have "sint z = x" by (simp add: signed_of_int signed_take_bit_int_eq_self)
  moreover have "\<not> (bits = 32 \<and> \<not> (- (2 ^ 31) \<le> x \<and> x < 2 ^ 31))" using assms(6,7) by auto
  moreover have "g * 7 = 7 * g" by simp
  moreover have "\<not> (bits - ?n < 7 \<and> (b AND 0x80 \<noteq> 0 \<or>
      b AND ?high \<noteq> (if b AND push_bit (bits - ?n - 1) 1 = 0 then 0 else ?high)))"
    using high assms(2) by blast
  ultimately show ?thesis
    unfolding sleb_group_def Let_def
    by (simp only: bit_or_groups [OF assms(1)] y_def [symmetric] z_def [symmetric] assms(2) if_True if_False simp_thms)
qed

section \<open>Unsigned numbers\<close>

fun leb128 :: "nat \<Rightarrow> string" where
  "leb128 n = (if n < 128 then [char_of n] else char_of (n mod 128 + 128) # leb128 (n div 128))"

declare leb128.simps [simp del]

lemma uleb_continued_reads:
  "unat v < 2 ^ (7 * g) \<Longrightarrow> g < 5 \<Longrightarrow> unat v + n * 2 ^ (7 * g) < 2 ^ 32 \<Longrightarrow> w_bytes w = leb128 n @ rest \<Longrightarrow>
    \<exists>w' t. uleb_continued g v w = Inr (t, w') \<and> unat t = unat v + n * 2 ^ (7 * g) \<and> eats w (leb128 n) w'"
proof (induction n arbitrary: g v w rule: leb128.induct)
  case (1 n)
  let ?m = "n mod 128" and ?k = "if n < 128 then 0 else 128 :: nat"
  let ?c = "char_of (?m + ?k) :: char"
  obtain tail where leb: "leb128 n = ?c # tail" "tail = (if n < 128 then [] else leb128 (n div 128))"
    by (simp add: leb128.simps [of n])
  have split: "n * 2 ^ (7 * g) = ?m * 2 ^ (7 * g) + n div 128 * 2 ^ (7 * (g + 1))"
  proof -
    have "(m + q * 2 ^ 7) * 2 ^ (7 * g) = m * 2 ^ (7 * g) + q * 2 ^ (7 * (g + 1))" for m q :: nat
      by (simp add: algebra_simps power_add)
    from this [of ?m "n div 128"] show ?thesis by simp
  qed
  obtain w1 where b: "w_byte w = Inr (?c, w1)" and e: "eats w [?c] w1"
    using w_byte_Cons [of w ?c "tail @ rest"] 1(5) leb(1) by auto
  have c: "byte ?c = ?m + ?k" by simp
  define t where "t = v + word_of_nat (?m * 2 ^ (7 * g))"
  have top: "g = 4 \<longrightarrow> ?m + ?k < 16"
  proof
    assume "g = 4"
    with 1(4) have "n * 2 ^ 28 < 2 ^ 32" by simp
    then have "n < 16" by simp
    then show "?m + ?k < 16" by simp
  qed
  have "unat v + ?m * 2 ^ (7 * g) < 2 ^ 32" using 1(4) split by linarith
  from uleb_group_value [OF 1(2) c _ _ top this t_def] have
    group: "uleb_group g v (octet ?c) = Some (if ?k = 0 then Inr t else Inl t)"
    and t: "unat t = unat v + ?m * 2 ^ (7 * g)" by simp_all
  show ?case
  proof (cases "n < 128")
    case True
    then show ?thesis using 1(3) b group t e leb by (simp add: uleb_continued.simps [of g])
  next
    case False
    have "?m * 2 ^ (7 * g) \<le> 127 * 2 ^ (7 * g)" by (rule mult_le_mono1) simp
    moreover have "(2 :: nat) ^ (7 * (g + 1)) = 128 * 2 ^ (7 * g)" by (simp add: power_add)
    ultimately have "unat t < 2 ^ (7 * (g + 1))" using t 1(2) by linarith
    moreover have "g + 1 < 5"
    proof (rule ccontr)
      assume "\<not> g + 1 < 5"
      then have "g = 4" using 1(3) by simp
      with top False show False by simp
    qed
    moreover have "unat t + n div 128 * 2 ^ (7 * (g + 1)) < 2 ^ 32" using 1(4) split t by linarith
    moreover have "w_bytes w1 = leb128 (n div 128) @ rest" using e 1(5) leb False by (simp add: eats_def)
    ultimately obtain w' t' where r: "uleb_continued (g + 1) t w1 = Inr (t', w')"
      "unat t' = unat t + n div 128 * 2 ^ (7 * (g + 1))" "eats w1 (leb128 (n div 128)) w'"
      using 1(1) [OF False] by blast
    have "eats w (leb128 n) w'" using eats_trans [OF e r(3)] leb False by simp
    then show ?thesis using 1(3) b group False r(1,2) t split by (simp add: uleb_continued.simps [of g])
  qed
qed

lemma uleb_reads:
  assumes "w_bytes w = leb128 n @ rest" and "n < 2 ^ 32"
  shows "\<exists>w'. w_uleb w = Inr (word_of_nat n, w') \<and> eats w (leb128 n) w'"
proof (cases "n < 128")
  case True
  then have n: "leb128 n = [char_of n]" by (simp add: leb128.simps [of n])
  with w_byte_Cons [of w "char_of n" rest] assms(1) obtain w' where
    b: "w_byte w = Inr (char_of n, w')" "eats w [char_of n] w'" by auto
  have "octet (char_of n) AND 0x80 = 0" "unat (octet (char_of n)) = n" using True by (simp_all add: octet_masks)
  moreover have "(ucast (octet (char_of n)) :: u32) = word_of_nat (unat (octet (char_of n)))" by (rule of_nat_unat [symmetric])
  ultimately show ?thesis using b n by (simp add: w_uleb_def)
next
  case False
  let ?c = "char_of (n mod 128 + 128) :: char"
  have n: "leb128 n = ?c # leb128 (n div 128)" using False by (simp add: leb128.simps [of n])
  with w_byte_Cons [of w ?c "leb128 (n div 128) @ rest"] assms(1) obtain w1 where
    b: "w_byte w = Inr (?c, w1)" "eats w [?c] w1" by auto
  have c: "\<not> octet ?c AND 0x80 = 0" "unat (octet ?c AND 0x7F) = n mod 128" by (simp_all add: octet_masks)
  let ?v = "ucast (octet ?c AND 0x7F) :: u32"
  have "?v = word_of_nat (unat (octet ?c AND 0x7F))" by (rule of_nat_unat [symmetric])
  then have v: "unat ?v = n mod 128" by (simp add: c(2) unat_of_nat)
  then have "unat ?v < 2 ^ (7 * 1)" by simp
  moreover have total: "unat ?v + n div 128 * 2 ^ (7 * 1) = n" using v by simp
  moreover have "w_bytes w1 = leb128 (n div 128) @ rest" using b(2) assms(1) n by (simp add: eats_def)
  ultimately obtain w' t where r: "uleb_continued 1 ?v w1 = Inr (t, w')" "unat t = n" "eats w1 (leb128 (n div 128)) w'"
    using uleb_continued_reads [of ?v 1 "n div 128" w1 rest] assms(2) by auto
  have "t = word_of_nat n" using r(2) by (metis of_nat_unat ucast_id)
  moreover have "eats w (leb128 n) w'" using eats_trans [OF b(2) r(3)] n by simp
  ultimately show ?thesis using b(1) c(1) r(1) by (simp add: w_uleb_def)
qed

section \<open>Signed numbers\<close>

function sleb128 :: "int \<Rightarrow> string" where
  "sleb128 x =
    (if - 64 \<le> x \<and> x < 64 then [char_of (nat (x mod 128))]
     else char_of (nat (x mod 128) + 128) # sleb128 (x div 128))"
  by pat_completeness auto
termination
proof (relation "measure (\<lambda>x. nat \<bar>x\<bar>)", goal_cases)
  case (2 x)
  have "\<bar>x div 128\<bar> < \<bar>x\<bar>"
  proof (cases "0 \<le> x")
    case True
    with 2 have "x div 128 < x" "0 \<le> x div 128" by (simp_all add: int_div_less_self)
    with True show ?thesis by simp
  next
    case False
    with 2 have "x < - 64" by auto
    moreover have "x = 128 * (x div 128) + x mod 128" "0 \<le> x mod 128" "x mod 128 < 128" by simp_all
    ultimately have "x < x div 128" "x div 128 < 0" by linarith+
    then show ?thesis by simp
  qed
  then show ?case by simp
qed simp

declare sleb128.simps [simp del]

lemma bit_char:
  assumes "k < 7" and "m = 0 \<or> m = 128"
  shows "bit (octet (char_of (nat (drop_bit n x mod 128) + m))) k = bit x (n + k)"
proof -
  let ?r = "nat (drop_bit n x mod 128)"
  have r: "?r < 128" by simp
  then have "unat (octet (char_of (?r + m))) = ?r + m" using assms(2) by auto
  then have "bit (octet (char_of (?r + m))) k = bit (?r + m) k"
    using bit_unsigned_iff [of "octet (char_of (?r + m))" k, where 'a = nat] by simp
  also have "\<dots> = bit (take_bit 7 (?r + m)) k" using assms(1) by (simp add: bit_take_bit_iff)
  also have "take_bit 7 (?r + m) = take_bit 7 ?r" using assms(2) by (auto simp: take_bit_eq_mod)
  also have "bit (take_bit 7 ?r) k = bit ?r k" using assms(1) by (simp add: bit_take_bit_iff)
  also have "\<dots> = bit (int ?r) k" unfolding bit_of_nat_iff_bit ..
  also have "int ?r = take_bit 7 (drop_bit n x)" by (simp add: take_bit_eq_mod)
  also have "bit (take_bit 7 (drop_bit n x)) k = bit x (n + k)" using assms(1) by (simp add: bit_simps)
  finally show ?thesis .
qed

lemma sleb_groups_reads:
  "x' = drop_bit (7 * g) x \<Longrightarrow> 7 * g < bits \<Longrightarrow> bits = 32 \<or> bits = 64 \<Longrightarrow>
    - (2 ^ (bits - 1)) \<le> x \<Longrightarrow> x < 2 ^ (bits - 1) \<Longrightarrow> w_bytes w = sleb128 x' @ rest \<Longrightarrow>
    \<exists>w'. sleb_groups bits g (word_of_int (take_bit (7 * g) x)) w = Inr (x, w') \<and> eats w (sleb128 x') w'"
proof (induction x' arbitrary: g w rule: sleb128.induct)
  case (1 x')
  let ?v = "word_of_int (take_bit (7 * g) x) :: u64"
  have g: "g < (bits + 6) div 7" using 1(3,4) by auto
  show ?case
  proof (cases "- 64 \<le> x' \<and> x' < 64")
    case True
    let ?c = "char_of (nat (x' mod 128) + 0) :: char"
    have leb: "sleb128 x' = [?c]" using True by (simp add: sleb128.simps [of x'])
    obtain w1 where b: "w_byte w = Inr (?c, w1)" "eats w [?c] w1"
      using w_byte_Cons [of w ?c rest] 1(7) leb by auto
    have "bit (octet ?c) k = bit x (7 * g + k)" if "k < 7" for k
      unfolding 1(2) by (rule bit_char) (use that in simp_all)
    moreover have "octet ?c AND 0x80 = 0" by (simp add: octet_masks)
    moreover have "bit x i = bit x (7 * g + 6)" if "7 * g + 6 \<le> i" for i
    proof -
      have "bit x' (i - 7 * g) = bit x' 6" using True that by (intro bit_high) simp_all
      then show ?thesis using that 1(2) by (simp add: bit_drop_bit_eq)
    qed
    ultimately have "sleb_group bits g ?v (octet ?c) = Some (Inr x)"
      using 1(3-6) by (intro sleb_group_last)
    with b leb show ?thesis by (simp add: sleb_groups.simps [of bits g] g)
  next
    case False
    let ?c = "char_of (nat (x' mod 128) + 128) :: char"
    have leb: "sleb128 x' = ?c # sleb128 (x' div 128)" using False by (simp add: sleb128.simps [of x'])
    obtain w1 where b: "w_byte w = Inr (?c, w1)" "eats w [?c] w1"
      using w_byte_Cons [of w ?c "sleb128 (x' div 128) @ rest"] 1(7) leb by auto
    have bits: "bit (octet ?c) k = bit x (7 * g + k)" if "k < 7" for k
      unfolding 1(2) by (rule bit_char) (use that in simp_all)
    have "\<not> octet ?c AND 0x80 = 0" by (simp add: octet_masks)
    have room: "7 * g + 7 < bits"
    proof (rule ccontr)
      assume "\<not> 7 * g + 7 < bits"
      then have n: "bits - 1 \<le> 7 * g + 6" using 1(3) by simp
      have "signed_take_bit 6 x' = x'"
      proof (rule bit_eqI)
        fix i
        have "bit x (7 * g + i) = bit x (7 * g + 6)" if "6 \<le> i"
          using bit_high [OF 1(5,6), of "7 * g + i"] bit_high [OF 1(5,6), of "7 * g + 6"] n that by simp
        then show "bit (signed_take_bit 6 x') i = bit x' i"
          by (simp add: bit_signed_take_bit_iff 1(2) bit_drop_bit_eq min_def)
      qed
      then have "- (2 ^ 6) \<le> x' \<and> x' < 2 ^ 6" by (simp add: signed_take_bit_int_eq_self_iff)
      with False show False by simp
    qed
    have "sleb_group bits g ?v (octet ?c) = Some (Inl (word_of_int (take_bit (7 * (g + 1)) x)))"
      using bits \<open>\<not> octet ?c AND 0x80 = 0\<close> room by (intro sleb_group_more) simp_all
    moreover have "x' div 128 = drop_bit (7 * (g + 1)) x"
      using drop_bit_drop_bit [of 7 "7 * g" x] drop_bit_eq_div [of 7 x'] 1(2) by (simp add: add.commute)
    moreover have "w_bytes w1 = sleb128 (x' div 128) @ rest" using b(2) 1(7) leb by (simp add: eats_def)
    moreover have "7 * (g + 1) < bits" using room by simp
    ultimately obtain w' where "sleb_groups bits (g + 1) (word_of_int (take_bit (7 * (g + 1)) x)) w1 = Inr (x, w')"
      "eats w1 (sleb128 (x' div 128)) w'" "sleb_group bits g ?v (octet ?c) = Some (Inl (word_of_int (take_bit (7 * (g + 1)) x)))"
      using 1(1) [OF False, of "g + 1" w1] 1(4-6) by blast
    with b(1) eats_trans [OF b(2) this(2)] leb show ?thesis by (simp add: sleb_groups.simps [of bits g] g)
  qed
qed

text \<open>
  C33: an integer written as SLEB128 is read as itself, at either width, and nothing behind it
  is consumed.
\<close>

theorem sleb_round_trip:
  assumes "w_bytes w = sleb128 x @ rest" and "bits = 32 \<or> bits = 64"
    and "- (2 ^ (bits - 1)) \<le> x" and "x < 2 ^ (bits - 1)"
  shows "\<exists>w'. w_sleb bits w = Inr (x, w') \<and> w_bytes w' = rest \<and> w_offset w' = w_offset w + length (sleb128 x)"
proof -
  have "\<exists>w'. sleb_groups bits 0 (word_of_int (take_bit (7 * 0) x)) w = Inr (x, w') \<and> eats w (sleb128 x) w'"
    using assms by (intro sleb_groups_reads) auto
  then show ?thesis using assms(1) by (auto simp: w_sleb_def eats_def)
qed


section \<open>Decoding a window\<close>

function window_groups :: "string \<Rightarrow> nat \<Rightarrow> u32 \<Rightarrow> (u32 \<times> nat) option" where
  "window_groups bytes grp value =
    (if grp < 5 \<and> grp < length bytes then
       (case uleb_group grp value (octet (bytes ! grp)) of
          None \<Rightarrow> None
        | Some (Inl value') \<Rightarrow> window_groups bytes (grp + 1) value'
        | Some (Inr v) \<Rightarrow> Some (v, grp + 1))
     else None)"
  by pat_completeness auto
termination
  by (relation "measure (\<lambda>(_, grp, _). 5 - grp)") auto

declare window_groups.simps [simp del]

definition window_uleb :: "string \<Rightarrow> (u32 \<times> nat) option" where
  "window_uleb bytes = window_groups bytes 0 0"

lemma eats_nth:
  assumes "w_bytes w = drop g bytes @ rest" and "g < length bytes"
  shows "\<exists>w'. w_byte w = Inr (bytes ! g, w') \<and> eats w [bytes ! g] w' \<and> w_bytes w' = drop (Suc g) bytes @ rest"
proof -
  have "w_bytes w = bytes ! g # drop (Suc g) bytes @ rest"
    using assms by (simp add: Cons_nth_drop_Suc [symmetric])
  with w_byte_Cons [OF this] show ?thesis by (auto simp: eats_def)
qed

lemma take_group: "g < length bytes \<Longrightarrow> g < n \<Longrightarrow>
  [bytes ! g] @ take (n - Suc g) (drop (Suc g) bytes) = take (n - g) (drop g bytes)"
  by (simp add: Cons_nth_drop_Suc [symmetric] take_Cons' Suc_diff_Suc)

text \<open>What the window answers at \<open>n\<close>, a checked reader in front of the same bytes answers.\<close>

definition window_reads ::
    "(wire \<Rightarrow> error + 'a \<times> wire) \<Rightarrow> 'a \<Rightarrow> string \<Rightarrow> nat \<Rightarrow> nat \<Rightarrow> bool" where
  "window_reads reader v bytes g n \<longleftrightarrow>
    g < n \<and> n \<le> length bytes \<and>
    (\<forall>w rest. w_bytes w = drop g bytes @ rest \<longrightarrow>
      (\<exists>w'. reader w = Inr (v, w') \<and> eats w (take (n - g) (drop g bytes)) w'))"

lemma window_groups_reads:
  "window_groups bytes g x = Some (v, n) \<Longrightarrow> window_reads (uleb_continued g x) v bytes g n"
proof (induction bytes g x rule: window_groups.induct)
  case (1 bytes g x)
  from 1(2) have g: "g < 5" "g < length bytes" by (simp_all add: window_groups.simps [of bytes g x] split: if_splits)
  show ?case
  proof (cases "uleb_group g x (octet (bytes ! g))")
    case None
    with 1(2) g show ?thesis by (simp add: window_groups.simps [of bytes g x])
  next
    case (Some r)
    show ?thesis
    proof (cases r)
      case (Inl x')
      with 1(2) g Some have w: "window_groups bytes (g + 1) x' = Some (v, n)"
        by (simp add: window_groups.simps [of bytes g x])
      have "g < 5 \<and> g < length bytes" using g by simp
      from 1(1) [OF this Some Inl w] have IH: "window_reads (uleb_continued (g + 1) x') v bytes (g + 1) n" .
      have "\<exists>w'. uleb_continued g x w = Inr (v, w') \<and> eats w (take (n - g) (drop g bytes)) w'"
        if b: "w_bytes w = drop g bytes @ rest" for w rest
      proof -
        obtain w1 where w1: "w_byte w = Inr (bytes ! g, w1)" "eats w [bytes ! g] w1"
          "w_bytes w1 = drop (g + 1) bytes @ rest" using eats_nth [OF b g(2)] by auto
        with IH obtain w2 where "uleb_continued (g + 1) x' w1 = Inr (v, w2)"
          "eats w1 (take (n - (g + 1)) (drop (g + 1) bytes)) w2" unfolding window_reads_def by blast
        moreover have "g < n" using IH by (simp add: window_reads_def)
        ultimately show ?thesis
          using w1(1) eats_trans [OF w1(2), of "take (n - Suc g) (drop (Suc g) bytes)" w2] g take_group [OF g(2), of n]
          by (simp add: uleb_continued.simps [of g x] Some Inl)
      qed
      with IH show ?thesis by (simp add: window_reads_def)
    next
      case (Inr v')
      with 1(2) g Some have v: "v' = v" "n = Suc g" by (simp_all add: window_groups.simps [of bytes g x])
      have "\<exists>w'. uleb_continued g x w = Inr (v, w') \<and> eats w (take (n - g) (drop g bytes)) w'"
        if b: "w_bytes w = drop g bytes @ rest" for w rest
      proof -
        obtain w1 where "w_byte w = Inr (bytes ! g, w1)" "eats w [bytes ! g] w1" using eats_nth [OF b g(2)] by auto
        with take_group [OF g(2), of n] g(1) show ?thesis by (simp add: uleb_continued.simps [of g x] Some Inr v)
      qed
      with g v show ?thesis by (simp add: window_reads_def)
    qed
  qed
qed

lemma decode_groups_reads:
  "decode_groups bytes bits g x = Some (v, n) \<Longrightarrow> window_reads (sleb_groups bits g x) v bytes g n"
proof (induction bytes bits g x rule: decode_groups.induct)
  case (1 bytes bits g x)
  from 1(2) have g: "g < (bits + 6) div 7" "g < length bytes"
    by (simp_all add: decode_groups.simps [of bytes bits g x] split: if_splits)
  show ?case
  proof (cases "sleb_group bits g x (octet (bytes ! g))")
    case None
    with 1(2) g show ?thesis by (simp add: decode_groups.simps [of bytes bits g x])
  next
    case (Some r)
    show ?thesis
    proof (cases r)
      case (Inl x')
      with 1(2) g Some have w: "decode_groups bytes bits (g + 1) x' = Some (v, n)"
        by (simp add: decode_groups.simps [of bytes bits g x])
      have "g < (bits + 6) div 7 \<and> g < length bytes" using g by simp
      from 1(1) [OF this Some Inl w] have IH: "window_reads (sleb_groups bits (g + 1) x') v bytes (g + 1) n" .
      have "\<exists>w'. sleb_groups bits g x w = Inr (v, w') \<and> eats w (take (n - g) (drop g bytes)) w'"
        if b: "w_bytes w = drop g bytes @ rest" for w rest
      proof -
        obtain w1 where w1: "w_byte w = Inr (bytes ! g, w1)" "eats w [bytes ! g] w1"
          "w_bytes w1 = drop (g + 1) bytes @ rest" using eats_nth [OF b g(2)] by auto
        with IH obtain w2 where "sleb_groups bits (g + 1) x' w1 = Inr (v, w2)"
          "eats w1 (take (n - (g + 1)) (drop (g + 1) bytes)) w2" unfolding window_reads_def by blast
        moreover have "g < n" using IH by (simp add: window_reads_def)
        ultimately show ?thesis
          using w1(1) eats_trans [OF w1(2), of "take (n - Suc g) (drop (Suc g) bytes)" w2] g take_group [OF g(2), of n]
          by (simp add: sleb_groups.simps [of bits g x] Some Inl)
      qed
      with IH show ?thesis by (simp add: window_reads_def)
    next
      case (Inr v')
      with 1(2) g Some have v: "v' = v" "n = Suc g" by (simp_all add: decode_groups.simps [of bytes bits g x])
      have "\<exists>w'. sleb_groups bits g x w = Inr (v, w') \<and> eats w (take (n - g) (drop g bytes)) w'"
        if b: "w_bytes w = drop g bytes @ rest" for w rest
      proof -
        obtain w1 where "w_byte w = Inr (bytes ! g, w1)" "eats w [bytes ! g] w1" using eats_nth [OF b g(2)] by auto
        with take_group [OF g(2), of n] g(1) show ?thesis by (simp add: sleb_groups.simps [of bits g x] Some Inr v)
      qed
      with g v show ?thesis by (simp add: window_reads_def)
    qed
  qed
qed

lemma uleb_unrolled: "w_uleb w = uleb_continued 0 0 w"
proof (cases "w_byte w")
  case (Inr r)
  obtain b w' where r: "r = (b, w')" by (cases r)
  have small: "ucast (octet b AND 0x7F) = (ucast (octet b) :: u32)" if "octet b AND 0x80 = 0"
  proof -
    have "unat (octet b AND 0x7F) = unat (octet b)" using that by (simp add: octet_masks)
    then have "octet b AND 0x7F = octet b" by (rule word_unat_eq_iff [THEN iffD2])
    then show ?thesis by simp
  qed
  show ?thesis
    by (simp add: w_uleb_def uleb_continued.simps [of 0] Inr r uleb_group_def Let_def small)
qed (simp add: w_uleb_def uleb_continued.simps [of 0])

lemma window_uleb_reads: "window_uleb bytes = Some (v, n) \<Longrightarrow> window_reads w_uleb v bytes 0 n"
  using window_groups_reads [of bytes 0 0 v n] by (simp add: window_uleb_def window_reads_def uleb_unrolled)

lemma decode_sleb_reads: "decode_sleb bytes bits = Some (v, n) \<Longrightarrow> window_reads (w_sleb bits) v bytes 0 n"
  using decode_groups_reads [of bytes bits 0 0 v n] by (simp add: decode_sleb_def window_reads_def w_sleb_def)

end
