(* ===== verification/Ondas_Ghw_Strings.thy ===== *)
theory Ondas_Ghw_Strings
  imports Ondas_Ghw_Leb Ondas_Hierarchy
begin

text \<open>
  The string table of GHW (\<open>Wire::strings\<close> of \<^verbatim>\<open>src/src/backends/ghw/wire.rs\<close>): a pool in
  which a string only stores what differs from the string before it. A Rust \<open>String\<close> is its
  UTF-8 bytes. \<open>pool\<close> is the encoding a writer produces, and the reader is its inverse.
\<close>

section \<open>The reader\<close>

text \<open>\<open>char::from\<close> on a byte, as UTF-8.\<close>

definition latin1 :: "char \<Rightarrow> string" where
  "latin1 c =
    (if byte c < 128 then [c] else [char_of (192 + byte c div 64), char_of (128 + byte c mod 64)])"

text \<open>The characters of a string, up to the byte that ends it.\<close>

function pool_chars :: "nat \<Rightarrow> nat \<Rightarrow> string \<Rightarrow> wire \<Rightarrow> error + (string \<times> char) \<times> wire" where
  "pool_chars limit used previous w =
    (case w_byte w of
       Inl e \<Rightarrow> Inl e
     | Inr (b, w') \<Rightarrow>
         if octet b AND 0x60 = 0 then Inr ((previous, b), w')
         else if limit \<le> used + length previous
         then Inl (ghw_malformed w' ''string pool exceeds advertised size'')
         else pool_chars limit used (previous @ [b]) w')"
  by pat_completeness auto
termination
  by (relation "measure (\<lambda>(limit, used, previous, _). limit - (used + length previous))") auto

declare pool_chars.simps [simp del]

text \<open>The prefix of the next string: groups of five bits.\<close>

function pool_prefix :: "char \<Rightarrow> u64 \<Rightarrow> nat \<Rightarrow> wire \<Rightarrow> error + u64 \<times> wire" where
  "pool_prefix b next_prefix shift w =
    (if octet b AND 0x80 = 0 then Inr (next_prefix, w)
     else
       (case w_byte w of
          Inl e \<Rightarrow> Inl e
        | Inr (b', w') \<Rightarrow>
            if octet b' AND 0x60 \<noteq> 0 \<or> 35 \<le> shift
            then Inl (ghw_malformed w' ''invalid five-bit string prefix'')
            else pool_prefix b' (next_prefix OR push_bit shift (ucast (octet b' AND 0x1F))) (shift + 5) w'))"
  by pat_completeness auto
termination
  by (relation "measure (\<lambda>(_, _, shift, _). 35 - shift)") auto

declare pool_prefix.simps [simp del]

text \<open>A \<open>u64\<close> is a \<open>usize\<close>, so the conversion of the prefix cannot fail.\<close>

fun pool_strings ::
    "nat \<Rightarrow> nat \<Rightarrow> string list \<Rightarrow> string \<Rightarrow> nat \<Rightarrow> nat \<Rightarrow> wire \<Rightarrow> error + (string list \<times> nat) \<times> wire" where
  "pool_strings 0 limit strings previous prefix used w = Inr ((strings, prefix), w)"
| "pool_strings (Suc n) limit strings previous prefix used w =
    (if length previous < prefix then Inl (ghw_malformed w ''string prefix exceeds preceding string'')
     else
       and_then (pool_chars limit used (take prefix previous) w) (\<lambda>((s, terminator), w1).
         if usize_max < used + length s then Inl (ghw_malformed w1 ''string pool size overflow'')
         else if limit < used + length s
         then Inl (ghw_malformed w1 ''string pool exceeds advertised size'')
         else
           and_then (pool_prefix terminator (ucast (octet terminator AND 0x1F)) 5 w1) (\<lambda>(next, w2).
             pool_strings n limit (strings @ [concat (map latin1 s)]) s (unat next) (used + length s) w2)))"

definition section_name :: "string \<Rightarrow> string" where
  "section_name name = name @ [nul]"

definition w_strings :: "wire \<Rightarrow> error + string list \<times> wire" where
  "w_strings w =
    and_then (w_marker (section_name ''STR'') w) (\<lambda>w1.
    and_then (w_zeros w1) (\<lambda>w2.
    and_then (w_count ''string'' w2) (\<lambda>(n, w3).
    and_then (w_count ''decoded string byte'' w3) (\<lambda>(limit, w4).
      if w_len w4 - w_offset w4 < n then Inl (ghw_malformed w4 ''string count exceeds remaining input'')
      else
        and_then (pool_strings n limit [[]] [] 0 0 w4) (\<lambda>((strings, prefix), w5).
          if prefix \<noteq> 0 then Inl (ghw_malformed w5 ''nonzero final string prefix'')
          else and_then (w_marker (section_name ''EOS'') w5) (\<lambda>w6. Inr (strings, w6)))))))"

section \<open>Buffers do not matter\<close>

lemma same_pool_chars: "same_wire w v \<Longrightarrow> same_read (pool_chars limit used p w) (pool_chars limit used p v)"
proof (induction limit used p w arbitrary: v rule: pool_chars.induct)
  case (1 limit used p w)
  from same_byte [OF 1(2)] show ?case
  proof (cases rule: rel_sum.cases)
    case (1 a b)
    then show ?thesis by (simp add: pool_chars.simps [of limit used p])
  next
    case (2 x y)
    then obtain b w1 v1 where x: "w_byte w = Inr (b, w1)" "w_byte v = Inr (b, v1)" "same_wire w1 v1"
      by (cases x; cases y) auto
    show ?thesis
      using 1(1) [OF x(1) refl _ _ x(3)] x same_malformed(1) [OF x(3)]
      by (simp add: pool_chars.simps [of limit used p])
  qed
qed

lemma same_pool_prefix: "same_wire w v \<Longrightarrow> same_read (pool_prefix b n shift w) (pool_prefix b n shift v)"
proof (induction b n shift w arbitrary: v rule: pool_prefix.induct)
  case (1 b n shift w)
  show ?case
  proof (cases "octet b AND 0x80 = 0")
    case True
    with 1(2) show ?thesis by (simp add: pool_prefix.simps [of b])
  next
    case more: False
    from same_byte [OF 1(2)] show ?thesis
    proof (cases rule: rel_sum.cases)
      case (1 a b)
      then show ?thesis by (simp add: pool_prefix.simps more)
    next
      case (2 x y)
      then obtain b' w1 v1 where x: "w_byte w = Inr (b', w1)" "w_byte v = Inr (b', v1)" "same_wire w1 v1"
        by (cases x; cases y) auto
      show ?thesis
        using 1(1) [OF more x(1) refl _ x(3)] x same_malformed(1) [OF x(3)]
        by (auto simp: pool_prefix.simps [of b] more)
    qed
  qed
qed

lemma same_pool_strings:
  "same_wire w v \<Longrightarrow>
    same_read (pool_strings n limit strings p prefix used w) (pool_strings n limit strings p prefix used v)"
proof (induction n arbitrary: strings p prefix used w v)
  case 0
  then show ?case by simp
next
  case (Suc n)
  show ?case
  proof (cases "length p < prefix")
    case True
    with same_malformed(1) [OF Suc.prems] show ?thesis by simp
  next
    case False
    show ?thesis unfolding pool_strings.simps if_not_P [OF False]
      by (rule same_read_then [OF same_pool_chars [OF Suc.prems]])
        (auto simp: same_malformed(1) intro!: same_read_then same_pool_prefix Suc.IH)
  qed
qed

lemma same_strings: "same_wire w v \<Longrightarrow> same_read (w_strings w) (w_strings v)"
  unfolding w_strings_def
  by (auto simp: same_malformed(1) same_wire_fields
      intro!: same_then [OF same_marker] same_then [OF same_zeros] same_read_then [OF same_count]
        same_read_then [OF same_pool_strings])


section \<open>The encoding\<close>

fun five :: "nat \<Rightarrow> string" where
  "five n = (if n < 32 then [char_of n] else char_of (128 + n mod 32) # five (n div 32))"

declare five.simps [simp del]

fun shared :: "string \<Rightarrow> string \<Rightarrow> nat" where
  "shared (a # x) (b # y) = (if a = b then Suc (shared x y) else 0)"
| "shared _ _ = 0"

definition next_shared :: "string \<Rightarrow> string list \<Rightarrow> nat" where
  "next_shared s ss = (case ss of [] \<Rightarrow> 0 | s' # _ \<Rightarrow> shared s s')"

fun pool :: "string \<Rightarrow> string list \<Rightarrow> string" where
  "pool previous [] = []"
| "pool previous (s # ss) = drop (shared previous s) s @ five (next_shared s ss) @ pool s ss"

definition encoded_u32 :: "bool \<Rightarrow> nat \<Rightarrow> string" where
  "encoded_u32 big n =
    (let bytes = [char_of n, char_of (n div 256), char_of (n div 65536), char_of (n div 16777216)]
     in if big then rev bytes else bytes)"

definition encoded_strings :: "bool \<Rightarrow> string list \<Rightarrow> string" where
  "encoded_strings big ss =
    section_name ''STR'' @ replicate 4 nul @ encoded_u32 big (length ss) @
    encoded_u32 big (sum_list (map length ss)) @ pool [] ss @ section_name ''EOS''"

text \<open>The characters a string may hold: bit 5 or bit 6 is set.\<close>

definition printable :: "char \<Rightarrow> bool" where
  "printable c \<longleftrightarrow> 32 \<le> byte c mod 128"

lemma byte_char_of_mod [simp]: "byte (char_of n) = n mod 256"
  by (simp add: byte_def take_bit_eq_mod)

lemma byte_less: "byte c < 256"
  by (cases c) (simp add: byte_def)

lemma octet_low:
  fixes b :: u8
  shows "b AND 0x60 = 0 \<longleftrightarrow> unat b mod 128 < 32" "unat (b AND 0x1F) = unat b mod 32"
proof -
  have m: "(0x60 :: u8) = 0x7F AND NOT (mask 5)" and low: "(0x1F :: u8) = mask 5"
    by (simp_all add: mask_eq_exp_minus_1)
  show "b AND 0x60 = 0 \<longleftrightarrow> unat b mod 128 < 32"
    unfolding m and.assoc [symmetric] octet_masked octet_masks by simp
  show "unat (b AND 0x1F) = unat b mod 32"
    unfolding low take_bit_eq_mask [symmetric] unsigned_take_bit_eq by (simp add: take_bit_eq_mod)
qed

lemma printable_octet: "printable c \<longleftrightarrow> octet c AND 0x60 \<noteq> 0"
  by (simp add: printable_def octet_low not_less)

lemma shared_le: "shared a b \<le> length a" "shared a b \<le> length b"
  by (induction a b rule: shared.induct) auto

lemma shared_take: "take (shared a b) a = take (shared a b) b"
  by (induction a b rule: shared.induct) auto

lemma five_hd: "five n = char_of (if n < 32 then n else 128 + n mod 32) # (if n < 32 then [] else five (n div 32))"
  by (simp add: five.simps [of n])

lemma pool_chars_reads:
  "w_bytes w = x @ t # rest \<Longrightarrow> list_all printable x \<Longrightarrow> \<not> printable t \<Longrightarrow>
    used + length p + length x \<le> limit \<Longrightarrow>
    \<exists>w'. pool_chars limit used p w = Inr ((p @ x, t), w') \<and> eats w (x @ [t]) w'"
proof (induction x arbitrary: p w)
  case Nil
  then obtain w' where "w_byte w = Inr (t, w')" "eats w [t] w'" using w_byte_Cons [of w t rest] by auto
  with Nil show ?case by (simp add: pool_chars.simps [of limit] printable_octet)
next
  case (Cons c x)
  then obtain w1 where w1: "w_byte w = Inr (c, w1)" "eats w [c] w1" using w_byte_Cons [of w c "x @ t # rest"] by auto
  then have "w_bytes w1 = x @ t # rest" using Cons.prems(1) by (simp add: eats_def)
  from Cons.IH [OF this, of "p @ [c]"] Cons.prems obtain w' where
    w': "pool_chars limit used (p @ [c]) w1 = Inr ((p @ c # x, t), w')" "eats w1 (x @ [t]) w'" by auto
  have "octet c AND 0x60 \<noteq> 0" "\<not> limit \<le> used + length p" using Cons.prems by (simp_all add: printable_octet)
  with w1 w' eats_trans [OF w1(2) w'(2)] show ?case by (simp add: pool_chars.simps [of limit used p])
qed

lemma unat_low5: "unat (ucast (octet c AND 0x1F) :: u64) = byte c mod 32"
proof -
  have "unat (ucast (octet c AND 0x1F) :: u64) = unat (octet c AND 0x1F)"
    using unsigned_less [of "octet c AND 0x1F", where 'a = nat] by (simp add: unsigned_ucast_eq take_bit_nat_eq_self)
  then show ?thesis by (simp add: octet_low)
qed

lemma or_five:
  fixes v :: u64
  assumes "unat v < 2 ^ s" and "unat v + m * 2 ^ s < 2 ^ 64" and "unat u = m"
  shows "unat (v OR push_bit s u) = unat v + m * 2 ^ s"
proof -
  have "word_of_nat m = u" unfolding assms(3) [symmetric] by simp
  then have "u = word_of_nat m" by (rule sym)
  then have "push_bit s u = word_of_nat (m * 2 ^ s)"
    unfolding push_bit_eq_mult by (simp only: of_nat_mult of_nat_power of_nat_numeral)
  then have "v OR push_bit s u = v + word_of_nat (m * 2 ^ s)" unfolding or_shift [OF assms(1)] by (rule arg_cong)
  also have "unat \<dots> = unat v + m * 2 ^ s" by (rule unat_plus_nat) (use assms(2) in simp)
  finally show ?thesis .
qed

lemma five_step:
  fixes m k lo :: nat
  assumes "32 \<le> m" and "v = lo + (m mod 32) * 2 ^ (5 * k)" and "lo + m * 2 ^ (5 * k) < 2 ^ 35"
  shows "v + (m div 32) * 2 ^ (5 * Suc k) = lo + m * 2 ^ (5 * k)" "Suc k < 7"
proof -
  define e :: nat where "e = 2 ^ (5 * k)"
  have p: "2 ^ (5 * Suc k) = 32 * e" by (simp add: e_def power_add)
  have "(m mod 32) * e + 32 * (m div 32) * e = m * e"
    unfolding add_mult_distrib [symmetric] by simp
  then show "v + (m div 32) * 2 ^ (5 * Suc k) = lo + m * 2 ^ (5 * k)"
    unfolding p assms(2) e_def [symmetric] by (simp add: ac_simps)
  have "32 * e \<le> m * e" using assms(1) by simp
  moreover have "m * e < 2 ^ 35" using assms(3) unfolding e_def by linarith
  ultimately have "2 ^ (5 * Suc k) < (2 :: nat) ^ 35" unfolding p by linarith
  then have "5 * Suc k < 35" by (rule power_less_imp_less_exp [rotated]) simp
  then show "Suc k < 7" by simp
qed

lemma pool_prefix_reads:
  "w_bytes w = tl (five m) @ rest \<Longrightarrow> unat v = lo + (m mod 32) * 2 ^ (5 * k) \<Longrightarrow> unat v < 2 ^ (5 * Suc k) \<Longrightarrow>
    lo + m * 2 ^ (5 * k) < 2 ^ 35 \<Longrightarrow>
    \<exists>v' w'. pool_prefix (hd (five m)) v (5 * Suc k) w = Inr (v', w') \<and> unat v' = lo + m * 2 ^ (5 * k) \<and>
      eats w (tl (five m)) w'"
proof (induction m arbitrary: w v lo k rule: five.induct)
  case (1 m)
  show ?case
  proof (cases "m < 32")
    case True
    then show ?thesis
      using 1(3) by (simp add: five_hd [of m] pool_prefix.simps octet_masks)
  next
    case False
    let ?m = "m div 32"
    have five: "five m = char_of (128 + m mod 32) # five ?m" using False by (simp add: five_hd [of m])
    obtain b where b: "five ?m = b # tl (five ?m)" "byte b mod 128 = ?m mod 32"
      by (cases "?m < 32") (simp_all add: five_hd [of ?m])
    have bytes: "w_bytes w = b # tl (five ?m) @ rest" using 1(2) b(1) five by (metis append_Cons list.sel(3))
    then obtain w1 where w1: "w_byte w = Inr (b, w1)" "eats w [b] w1" using w_byte_Cons by blast
    note step = five_step [OF _ 1(3,5)]
    let ?v = "v OR push_bit (5 * Suc k) (ucast (octet b AND 0x1F)) :: u64"
    have low: "unat (ucast (octet b AND 0x1F) :: u64) = ?m mod 32"
      using b(2) unat_low5 [of b] mod_mod_cancel [of 32 128 "byte b"] by simp
    have "?m mod 32 * 2 ^ (5 * Suc k) \<le> ?m * 2 ^ (5 * Suc k)" by simp
    then have bound: "unat v + ?m mod 32 * 2 ^ (5 * Suc k) < 2 ^ 35" using step(1) False 1(5) by linarith
    then have v: "unat ?v = unat v + (?m mod 32) * 2 ^ (5 * Suc k)"
      by (intro or_five [OF 1(4) _ low] order.strict_trans [OF bound]) simp_all
    have "?m mod 32 * 2 ^ (5 * Suc k) \<le> 31 * 2 ^ (5 * Suc k)" by (rule mult_le_mono1) simp
    moreover have "(2 :: nat) ^ (5 * Suc (Suc k)) = 32 * 2 ^ (5 * Suc k)" by (simp add: power_add)
    ultimately have v_less: "unat ?v < 2 ^ (5 * Suc (Suc k))" using v 1(4) by linarith
    have "w_bytes w1 = tl (five ?m) @ rest" using w1(2) bytes by (simp add: eats_def)
    from 1(1) [OF False this v v_less] step(1) False 1(5) obtain v' w' where
      r: "pool_prefix b ?v (5 * Suc (Suc k)) w1 = Inr (v', w')" "unat v' = lo + m * 2 ^ (5 * k)"
        "eats w1 (tl (five ?m)) w'"
      using b(1) by (metis linorder_not_less list.sel(1))
    have "octet b AND 0x60 = 0" using b(2) by (simp add: octet_low)
    moreover have "\<not> octet (char_of (128 + m mod 32)) AND 0x80 = 0" by (simp add: octet_masks)
    moreover have "\<not> 35 \<le> 5 * Suc k" using step(2) False by simp
    ultimately have "pool_prefix (hd (five m)) v (5 * Suc k) w = Inr (v', w')"
      using r(1) w1(1) five by (simp add: pool_prefix.simps [of "char_of (128 + m mod 32)"])
    moreover have "eats w (tl (five m)) w'" using eats_trans [OF w1(2) r(3)] b(1) five by simp
    ultimately show ?thesis using r(2) by blast
  qed
qed


lemma le_bytes:
  fixes n :: nat
  assumes "n < 2 ^ 32"
  shows "n mod 256 + 256 * (n div 256 mod 256 + 256 * (n div 65536 mod 256 + 256 * (n div 16777216 mod 256))) = n"
proof -
  have "n div 65536 = n div 256 div 256" "n div 16777216 = n div 256 div 256 div 256"
    by (simp_all add: div_mult2_eq [symmetric])
  moreover have "n div 256 div 256 div 256 < 256" using assms by (simp add: div_mult2_eq [symmetric])
  ultimately show ?thesis by simp
qed

lemma regroup: "a + 256 * (b + 256 * (c + 256 * d)) = n \<Longrightarrow> a + (256 * b + (65536 * c + 16777216 * d)) = n"
  for a :: nat
  by simp

lemma u32_reads:
  assumes "w_bytes w = encoded_u32 (w_big w) n @ rest" and "n < 2 ^ 32"
  shows "\<exists>w'. w_u32 w = Inr (n, w') \<and> eats w (encoded_u32 (w_big w) n) w'"
proof -
  have "length (encoded_u32 (w_big w) n) = 4" by (simp add: encoded_u32_def Let_def)
  from w_fixed_append [OF assms(1) this] obtain w' where
    w': "w_fixed 4 w = Inr (encoded_u32 (w_big w) n, w')" "eats w (encoded_u32 (w_big w) n) w'" by blast
  have top: "n div 16777216 mod 256 = n div 16777216" using assms(2) by simp
  have "from_order (w_big w) (encoded_u32 (w_big w) n) = n"
    using regroup [OF le_bytes [OF assms(2)]] regroup [OF le_bytes [OF assms(2), unfolded top]] by (simp (no_asm_simp) add: from_order_def encoded_u32_def from_le_def Let_def)
  with w' show ?thesis by (simp add: w_u32_def)
qed

lemma count_reads:
  assumes "w_bytes w = encoded_u32 (w_big w) n @ rest" and "n < 2 ^ 31"
  shows "\<exists>w'. w_count what w = Inr (n, w') \<and> eats w (encoded_u32 (w_big w) n) w'"
proof -
  have "n < 2 ^ 32" using assms(2) by simp
  from u32_reads [OF assms(1) this] obtain w' where
    "w_u32 w = Inr (n, w')" "eats w (encoded_u32 (w_big w) n) w'" by blast
  with assms(2) show ?thesis by (simp add: w_count_def not_le)
qed

lemma marker_reads:
  assumes "w_bytes w = m @ rest" and "length m = 4"
  shows "\<exists>w'. w_marker m w = Inr w' \<and> eats w m w'"
  using w_fixed_append [OF assms] by (auto simp: w_marker_def)

lemma zeros_reads:
  assumes "w_bytes w = replicate 4 nul @ rest"
  shows "\<exists>w'. w_zeros w = Inr w' \<and> eats w (replicate 4 nul) w'"
  using w_fixed_append [OF assms, of 4] by (auto simp: w_zeros_def)

text \<open>One prefix, its first group included.\<close>

lemma five_reads:
  assumes "w_bytes w = tl (five m) @ rest" and "m < 2 ^ 35"
  shows "\<exists>v w'. pool_prefix (hd (five m)) (ucast (octet (hd (five m)) AND 0x1F)) 5 w = Inr (v, w') \<and> unat v = m \<and>
    eats w (tl (five m)) w'"
proof -
  have "byte (hd (five m)) mod 32 = m mod 32"
  proof (cases "m < 32")
    case False
    have "(128 + m mod 32) mod 32 = m mod 32" using mod_mult_self3 [of "4 :: nat" 32 "m mod 32"] by simp
    with False mod_mod_cancel [of 32 256 "128 + m mod 32"] show ?thesis by (simp add: five_hd [of m])
  qed (simp add: five_hd [of m])
  then have low: "unat (ucast (octet (hd (five m)) AND 0x1F) :: u64) = m mod 32" by (simp only: unat_low5)
  then have "unat (ucast (octet (hd (five m)) AND 0x1F) :: u64) = 0 + (m mod 32) * 2 ^ (5 * 0)"
    "unat (ucast (octet (hd (five m)) AND 0x1F) :: u64) < 2 ^ (5 * Suc 0)" "0 + m * 2 ^ (5 * 0) < 2 ^ 35"
    using assms(2) by simp_all
  from pool_prefix_reads [OF assms(1) this] show ?thesis by simp
qed

lemma pool_reads:
  "w_bytes w = pool p ss @ rest \<Longrightarrow> \<forall>s \<in> set ss. list_all printable s \<Longrightarrow>
    used + sum_list (map length ss) \<le> limit \<Longrightarrow> limit < 2 ^ 31 \<Longrightarrow>
    \<exists>w'. pool_strings (length ss) limit strings p (next_shared p ss) used w =
      Inr ((strings @ map (\<lambda>s. concat (map latin1 s)) ss, 0), w') \<and> eats w (pool p ss) w'"
proof (induction ss arbitrary: p strings used w)
  case Nil
  then show ?case by (simp add: next_shared_def)
next
  case (Cons s ss)
  let ?k = "shared p s"
  let ?n = "next_shared s ss"
  have k: "?k \<le> length p" "?k \<le> length s" by (rule shared_le)+
  have s: "take ?k p @ drop ?k s = s" using shared_take [of p s] by simp
  have n: "five ?n = hd (five ?n) # tl (five ?n)" by (simp add: five_hd [of ?n])
  have "list_all printable (drop ?k s)" using Cons.prems(2) by (auto simp: list_all_iff dest: in_set_dropD)
  moreover have "\<not> printable (hd (five ?n))" by (simp add: printable_def five_hd [of ?n] not_le)
  moreover have "used + length (take ?k p) + length (drop ?k s) \<le> limit" using Cons.prems(3) k by simp
  moreover have bytes: "w_bytes w = drop ?k s @ hd (five ?n) # tl (five ?n) @ pool s ss @ rest"
    using Cons.prems(1) n by simp
  ultimately obtain w1 where w1: "pool_chars limit used (take ?k p) w = Inr ((s, hd (five ?n)), w1)"
    "eats w (drop ?k s @ [hd (five ?n)]) w1" using pool_chars_reads s by metis
  have b1: "w_bytes w1 = tl (five ?n) @ pool s ss @ rest" using bytes w1(2) by (simp add: eats_def)
  have "?n \<le> length s" by (auto simp: next_shared_def shared_le split: list.split)
  then have "?n < 2 ^ 35" using Cons.prems(3,4) by simp
  from five_reads [OF b1 this] obtain v w2 where
    w2: "pool_prefix (hd (five ?n)) (ucast (octet (hd (five ?n)) AND 0x1F)) 5 w1 = Inr (v, w2)" "unat v = ?n"
      "eats w1 (tl (five ?n)) w2" by blast
  have "w_bytes w2 = pool s ss @ rest" using b1 w2(3) by (simp add: eats_def)
  from Cons.IH [OF this, of "used + length s" "strings @ [concat (map latin1 s)]"] Cons.prems obtain w' where
    w': "pool_strings (length ss) limit (strings @ [concat (map latin1 s)]) s ?n (used + length s) w2 =
        Inr ((strings @ map (\<lambda>s. concat (map latin1 s)) (s # ss), 0), w')"
      "eats w2 (pool s ss) w'" by auto
  have "eats w (pool p (s # ss)) w'"
    using eats_trans [OF eats_trans [OF w1(2) w2(3)] w'(2)] n by simp
  moreover have "used + length s \<le> limit" "used + length s \<le> usize_max" using Cons.prems(3,4) by (simp_all add: usize_max_def)
  ultimately show ?case
    using w1(1) w2(1,2) w'(1) k by (simp add: next_shared_def not_less)
qed

lemma five_length: "0 < length (five n)"
  by (simp add: five_hd [of n])

lemma pool_length: "length ss \<le> length (pool p ss)"
proof (induction ss arbitrary: p)
  case (Cons s ss)
  then have "length ss \<le> length (pool s ss)" .
  moreover have "1 \<le> length (five (next_shared s ss))" using five_length [of "next_shared s ss"] by linarith
  ultimately show ?case by (simp del: One_nat_def)
qed simp

text \<open>
  C32: every string table is read as what was written into it: for strings of characters that
  are not control characters, in either byte order, the reader answers the empty string of
  index 0 and then the strings in order, however much each one shares with the one before it,
  and stops exactly behind the table.
\<close>

theorem string_table_round_trip:
  assumes "w_bytes w = encoded_strings (w_big w) ss @ rest" and "w_len w = w_offset w + length (w_bytes w)"
    and "\<forall>s \<in> set ss. list_all printable s" and "length ss < 2 ^ 31" and "sum_list (map length ss) < 2 ^ 31"
  shows "\<exists>w'. w_strings w = Inr ([] # map (\<lambda>s. concat (map latin1 s)) ss, w') \<and> w_bytes w' = rest"
proof -
  let ?big = "w_big w" and ?size = "sum_list (map length ss)"
  obtain w1 where w1: "w_marker (section_name ''STR'') w = Inr w1" "eats w (section_name ''STR'') w1"
    using marker_reads [of w "section_name ''STR''"] assms(1) unfolding encoded_strings_def append_assoc
    by (auto simp: section_name_def)
  then have b1: "w_bytes w1 = replicate 4 nul @ encoded_u32 ?big (length ss) @ encoded_u32 ?big ?size @ pool [] ss @
      section_name ''EOS'' @ rest" "w_big w1 = ?big" using assms(1) by (simp_all add: eats_def encoded_strings_def)
  obtain w2 where w2: "w_zeros w1 = Inr w2" "eats w1 (replicate 4 nul) w2" using zeros_reads [OF b1(1)] by blast
  then have b2: "w_bytes w2 = encoded_u32 (w_big w2) (length ss) @ encoded_u32 ?big ?size @ pool [] ss @
      section_name ''EOS'' @ rest" "w_big w2 = ?big" using b1 by (simp_all add: eats_def)
  obtain w3 where w3: "w_count ''string'' w2 = Inr (length ss, w3)" "eats w2 (encoded_u32 (w_big w2) (length ss)) w3"
    using count_reads [OF b2(1) assms(4)] by blast
  then have b3: "w_bytes w3 = encoded_u32 (w_big w3) ?size @ pool [] ss @ section_name ''EOS'' @ rest"
    using b2 by (simp add: eats_def)
  obtain w4 where w4: "w_count ''decoded string byte'' w3 = Inr (?size, w4)" "eats w3 (encoded_u32 (w_big w3) ?size) w4"
    using count_reads [OF b3 assms(5)] by blast
  then have b4: "w_bytes w4 = pool [] ss @ section_name ''EOS'' @ rest" using b3 by (simp add: eats_def)
  have "next_shared [] ss = 0" by (simp add: next_shared_def split: list.split)
  with pool_reads [OF b4 assms(3), of 0 ?size "[[]]"] assms(5) obtain w5 where
    w5: "pool_strings (length ss) ?size [[]] [] 0 0 w4 = Inr (([[]] @ map (\<lambda>s. concat (map latin1 s)) ss, 0), w5)"
      "eats w4 (pool [] ss) w5" by auto
  have b5: "w_bytes w5 = section_name ''EOS'' @ rest" using w5(2) b4 by (simp add: eats_def)
  obtain w6 where w6: "w_marker (section_name ''EOS'') w5 = Inr w6" "eats w5 (section_name ''EOS'') w6"
    using marker_reads [OF b5] by (auto simp: section_name_def)
  note eat = eats_trans [OF eats_trans [OF eats_trans [OF w1(2) w2(2)] w3(2)] w4(2)]
  have "w_len w4 = w_offset w4 + length (w_bytes w4)" using eat assms(2) by (simp add: eats_def)
  then have "\<not> w_len w4 - w_offset w4 < length ss" using b4 pool_length [of ss "[]"] by simp
  with w1(1) w2(1) w3(1) w4(1) w5(1) w6 b5 show ?thesis by (simp add: w_strings_def eats_def)
qed

end
