(* ===== verification/Ondas_Ghw_Types.thy ===== *)
theory Ondas_Ghw_Types
  imports Ondas_Ghw_Strings
begin

text \<open>
  The type table of GHW (\<^verbatim>\<open>src/src/backends/ghw/types.rs\<close>): the graph of source types, the
  ranges that constrain them, and the well-known type markers. A node is an index into the
  table and refers to earlier nodes only; \<open>types_ok\<close> says so, and every operation keeps it.
  \<open>Types::constrain\<close> works with an explicit stack; it is shown to return and to be the
  recursive descent over the type.
\<close>

section \<open>Storage and ranges\<close>

datatype storage = B2 | E8 | I32 | I64 | F64 | P32 | P64

datatype bound = IntegerBound int | RealBound u64

record grange =
  rg_storage :: storage
  rg_downto :: bool
  rg_left :: bound
  rg_right :: bound

datatype shape =
  ScalarShape storage "nat list" "(nat \<times> int) list" nat
| AliasShape nat "grange option"
| ArrayShape nat "nat list" "grange list option"
| RecordShape "(nat \<times> nat) list"

record type_node =
  ty_name :: nat
  ty_base :: "nat option"
  ty_shape :: shape
  ty_scalars :: "nat option"

record types =
  ts_strings :: "string list"
  ts_nodes :: "type_node list"
  ts_source_ids :: "nat list"

definition from_tag :: "nat \<Rightarrow> wire \<Rightarrow> error + storage" where
  "from_tag tag w =
    (if tag = 22 then Inr B2 else if tag = 23 then Inr E8 else if tag = 25 then Inr I32
     else if tag = 26 then Inr I64 else if tag = 27 then Inr F64 else if tag = 28 then Inr P32
     else if tag = 29 then Inr P64
     else Inl (ghw_unsupported w (''range/storage tag '' @ show_nat tag)))"

definition read_bound :: "storage \<Rightarrow> wire \<Rightarrow> error + bound \<times> wire" where
  "read_bound storage w =
    (if storage = B2 \<or> storage = E8 then and_then (w_byte w) (\<lambda>(b, w'). Inr (IntegerBound (int (byte b)), w'))
     else if storage = I32 \<or> storage = P32 then and_then (w_sleb 32 w) (\<lambda>(v, w'). Inr (IntegerBound v, w'))
     else if storage = I64 \<or> storage = P64 then and_then (w_sleb 64 w) (\<lambda>(v, w'). Inr (IntegerBound v, w'))
     else and_then (w_real_bits w) (\<lambda>(v, w'). Inr (RealBound v, w')))"

definition read_range :: "wire \<Rightarrow> error + grange \<times> wire" where
  "read_range w =
    and_then (w_byte w) (\<lambda>(b, w1).
      let tag = byte b mod 128
      in if tag \<in> {31, 32, 34, 35, 37, 38, 39}
         then Inl (ghw_malformed w1 (''type tag '' @ show_nat tag @ '' cannot encode a scalar range''))
         else
           and_then (from_tag tag w1) (\<lambda>storage.
           and_then (read_bound storage w1) (\<lambda>(left, w2).
           and_then (read_bound storage w2) (\<lambda>(right, w3).
             Inr (\<lparr>rg_storage = storage, rg_downto = (128 \<le> byte b), rg_left = left, rg_right = right\<rparr>, w3)))))"

definition integer_bounds :: "grange \<Rightarrow> (int \<times> int) option" where
  "integer_bounds r =
    (case (rg_left r, rg_right r) of (IntegerBound l, IntegerBound r) \<Rightarrow> Some (l, r) | _ \<Rightarrow> None)"

definition extent :: "grange \<Rightarrow> wire \<Rightarrow> error + nat" where
  "extent r w =
    and_then (ok_or (ghw_malformed w ''real array index range'') (integer_bounds r)) (\<lambda>(left, right).
      let distance = (if rg_downto r then left - right else right - left)
      in Inr (if distance < 0 then 0 else nat distance + 1))"

section \<open>The graph\<close>

text \<open>
  \<open>effective\<close> follows aliases to the type they name. An alias refers to an earlier node
  (\<open>types_ok\<close>), so the comparison never decides.
\<close>

function effective :: "type_node list \<Rightarrow> nat \<Rightarrow> nat" where
  "effective nodes n =
    (case ty_shape (nodes ! n) of
       AliasShape base _ \<Rightarrow> if base < n then effective nodes base else n
     | _ \<Rightarrow> n)"
  by pat_completeness auto
termination
  by (relation "measure snd") auto

declare effective.simps [simp del]

definition type_scalar :: "types \<Rightarrow> nat \<Rightarrow> (storage \<times> nat list \<times> nat) option" where
  "type_scalar types n =
    (case ty_shape (ts_nodes types ! effective (ts_nodes types) n) of
       ScalarShape storage literals _ wkt \<Rightarrow> Some (storage, literals, wkt)
     | _ \<Rightarrow> None)"

function type_name :: "types \<Rightarrow> nat \<Rightarrow> string option" where
  "type_name types n =
    (let node = ts_nodes types ! n
     in if ty_name node \<noteq> 0 then Some (ts_strings types ! ty_name node)
        else case ty_base node of
            None \<Rightarrow> None
          | Some base \<Rightarrow> if base < n then type_name types base else None)"
  by pat_completeness auto
termination
  by (relation "measure snd") auto

declare type_name.simps [simp del]

definition string_id :: "types \<Rightarrow> wire \<Rightarrow> error + nat \<times> wire" where
  "string_id types w =
    and_then (w_uleb w) (\<lambda>(n, w').
      if length (ts_strings types) \<le> unat n then Inl (ghw_malformed w' ''invalid string reference'')
      else Inr (unat n, w'))"

definition type_id :: "types \<Rightarrow> wire \<Rightarrow> error + nat \<times> wire" where
  "type_id types w =
    and_then (w_uleb w) (\<lambda>(n, w').
      if n = 0 \<or> length (ts_source_ids types) < unat n
      then Inl (ghw_malformed w' ''invalid or forward type reference'')
      else Inr (ts_source_ids types ! (unat n - 1), w'))"

definition list_count :: "string \<Rightarrow> nat \<Rightarrow> wire \<Rightarrow> error + nat \<times> wire" where
  "list_count what min_bytes w =
    and_then (w_uleb w) (\<lambda>(n, w').
      if (w_len w' - w_offset w') div min_bytes < unat n
      then Inl (ghw_malformed w' (what @ '' count exceeds remaining input''))
      else Inr (unat n, w'))"

definition validate_range :: "types \<Rightarrow> nat \<Rightarrow> grange \<Rightarrow> wire \<Rightarrow> error + unit" where
  "validate_range types base r w =
    and_then (ok_or (ghw_malformed w ''range base is not scalar'') (type_scalar types base)) (\<lambda>(storage, literals, _).
      if storage \<noteq> rg_storage r then Inl (ghw_malformed w ''range storage differs from base type'')
      else if storage = B2 \<or> storage = E8 then
        and_then (ok_or (ghw_malformed w ''non-integral enum range'') (integer_bounds r)) (\<lambda>(left, right).
          if left < 0 \<or> right < 0 \<or> length literals \<le> nat left \<or> length literals \<le> nat right
          then Inl (ghw_malformed w ''enum range endpoint exceeds base literals'')
          else Inr ())
      else Inr ())"

section \<open>Adding a node\<close>

text \<open>\<open>checked_mul\<close> on \<open>u128\<close>, then the conversion to \<open>usize\<close>.\<close>

fun checked_product :: "nat \<Rightarrow> nat list \<Rightarrow> nat option" where
  "checked_product n [] = (if n \<le> usize_max then Some n else None)"
| "checked_product n (e # es) = (if n * e < 2 ^ 128 then checked_product (n * e) es else None)"

fun extents :: "grange list \<Rightarrow> wire \<Rightarrow> error + nat list" where
  "extents [] w = Inr []"
| "extents (r # rs) w = and_then (extent r w) (\<lambda>e. and_then (extents rs w) (\<lambda>es. Inr (e # es)))"

fun record_scalars :: "type_node list \<Rightarrow> nat option \<Rightarrow> (nat \<times> nat) list \<Rightarrow> wire \<Rightarrow> error + nat option" where
  "record_scalars nodes acc [] w = Inr acc"
| "record_scalars nodes acc ((_, field) # parts) w =
    (case (acc, ty_scalars (nodes ! field)) of
       (Some a, Some b) \<Rightarrow>
         if usize_max < a + b then Inl (ghw_malformed w ''record scalar count overflow'')
         else record_scalars nodes (Some (a + b)) parts w
     | _ \<Rightarrow> record_scalars nodes None parts w)"

definition shape_scalars :: "type_node list \<Rightarrow> shape \<Rightarrow> wire \<Rightarrow> error + nat option" where
  "shape_scalars nodes shape w =
    (case shape of
       ScalarShape _ _ _ _ \<Rightarrow> Inr (Some 1)
     | AliasShape base _ \<Rightarrow> Inr (ty_scalars (nodes ! base))
     | ArrayShape _ _ None \<Rightarrow> Inr None
     | ArrayShape element _ (Some bounds) \<Rightarrow>
         and_then (extents bounds w) (\<lambda>es.
           if 0 \<in> set es then Inr (Some 0)
           else case ty_scalars (nodes ! element) of
               Some n \<Rightarrow>
                 and_then (ok_or (ghw_malformed w ''array scalar count overflow'') (checked_product n es))
                   (\<lambda>total. Inr (Some total))
             | None \<Rightarrow> Inr None)
     | RecordShape parts \<Rightarrow> record_scalars nodes (Some 0) parts w)"

definition push :: "nat \<Rightarrow> nat option \<Rightarrow> shape \<Rightarrow> types \<Rightarrow> wire \<Rightarrow> error + nat \<times> types" where
  "push name base shape types w =
    and_then (shape_scalars (ts_nodes types) shape w) (\<lambda>scalars.
      Inr (length (ts_nodes types),
           types\<lparr>ts_nodes := ts_nodes types @
             [\<lparr>ty_name = name, ty_base = base, ty_shape = shape, ty_scalars = scalars\<rparr>]\<rparr>))"

section \<open>Constraints\<close>

fun read_ranges :: "types \<Rightarrow> nat list \<Rightarrow> wire \<Rightarrow> error + grange list \<times> wire" where
  "read_ranges types [] w = Inr ([], w)"
| "read_ranges types (i # is) w =
    and_then (read_range w) (\<lambda>(r, w1).
    and_then (validate_range types i r w1) (\<lambda>_.
    and_then (read_ranges types is w1) (\<lambda>(rs, w2). Inr (r # rs, w2))))"

datatype frame =
  StartFrame nat
| ArrayFrame nat "nat list" "grange list"
| RecordFrame nat "(nat \<times> nat) list" nat

type_synonym constraining = "frame list \<times> nat option \<times> types \<times> wire"

abbreviation bounded :: "types \<Rightarrow> nat \<Rightarrow> bool" where
  "bounded types n \<equiv> ty_scalars (ts_nodes types ! n) \<noteq> None"

definition push_result ::
    "nat \<Rightarrow> shape \<Rightarrow> frame list \<Rightarrow> types \<Rightarrow> wire \<Rightarrow> error + constraining" where
  "push_result base shape work types w =
    and_then (push 0 (Some base) shape types w) (\<lambda>(n, types'). Inr (work, Some n, types', w))"

fun constrain_step ::
    "frame \<Rightarrow> frame list \<Rightarrow> nat option \<Rightarrow> types \<Rightarrow> wire \<Rightarrow> error + constraining" where
  "constrain_step (StartFrame base) work result types w =
    (case ty_shape (ts_nodes types ! effective (ts_nodes types) base) of
       ArrayShape element indices _ \<Rightarrow>
         and_then (read_ranges types indices w) (\<lambda>(bounds, w').
           if bounded types element
           then push_result base (ArrayShape element indices (Some bounds)) work types w'
           else Inr (StartFrame element # ArrayFrame base indices bounds # work, result, types, w'))
     | RecordShape parts \<Rightarrow> Inr (RecordFrame base parts 0 # work, result, types, w)
     | _ \<Rightarrow> Inl (ghw_malformed w ''composite bounds have non-composite base''))"
| "constrain_step (ArrayFrame base indices bounds) work result types w =
    (case result of
       None \<Rightarrow> Inl (ghw_malformed w ''missing nested array constraints'')
     | Some element \<Rightarrow> push_result base (ArrayShape element indices (Some bounds)) work types w)"
| "constrain_step (RecordFrame base parts next) work result types w =
    (let parts' =
           (case result of
              Some child \<Rightarrow> if next \<noteq> 0 then parts[next - 1 := (fst (parts ! (next - 1)), child)] else parts
            | None \<Rightarrow> parts);
         result' = (if next \<noteq> 0 then None else result);
         next' = next + length (takeWhile (\<lambda>(_, t). bounded types t) (drop next parts'))
     in if next' = length parts' then push_result base (RecordShape parts') work types w
        else
          Inr (StartFrame (snd (parts' ! next')) # RecordFrame base parts' (next' + 1) # work,
               result', types, w))"

partial_function (option) constrain_run ::
    "frame list \<Rightarrow> nat option \<Rightarrow> types \<Rightarrow> wire \<Rightarrow> (error + nat \<times> types \<times> wire) option" where
  "constrain_run work result types w =
    (case work of
       [] \<Rightarrow> Some (and_then (ok_or (ghw_malformed w ''missing composite constraints'') result)
               (\<lambda>n. Inr (n, types, w)))
     | frame # work \<Rightarrow>
         (case constrain_step frame work result types w of
            Inl e \<Rightarrow> Some (Inl e)
          | Inr (work', result', types', w') \<Rightarrow> constrain_run work' result' types' w'))"

definition constrain :: "nat \<Rightarrow> types \<Rightarrow> wire \<Rightarrow> (error + nat \<times> types \<times> wire) option" where
  "constrain base types w = constrain_run [StartFrame base] None types w"

section \<open>The table\<close>

text \<open>The \<open>?\<close> operator of a computation that may not return.\<close>

definition opt_then ::
    "('e + 'a) option \<Rightarrow> ('a \<Rightarrow> ('e + 'b) option) \<Rightarrow> ('e + 'b) option" where
  "opt_then r f = (case r of None \<Rightarrow> None | Some (Inl e) \<Rightarrow> Some (Inl e) | Some (Inr x) \<Rightarrow> f x)"

fun read_list :: "nat \<Rightarrow> (wire \<Rightarrow> error + 'a \<times> wire) \<Rightarrow> wire \<Rightarrow> error + 'a list \<times> wire" where
  "read_list 0 reader w = Inr ([], w)"
| "read_list (Suc n) reader w =
    and_then (reader w) (\<lambda>(x, w1). and_then (read_list n reader w1) (\<lambda>(xs, w2). Inr (x # xs, w2)))"

definition read_pair ::
    "(wire \<Rightarrow> error + 'a \<times> wire) \<Rightarrow> (wire \<Rightarrow> error + 'b \<times> wire) \<Rightarrow> wire \<Rightarrow> error + ('a \<times> 'b) \<times> wire" where
  "read_pair f g w = and_then (f w) (\<lambda>(x, w1). and_then (g w1) (\<lambda>(y, w2). Inr ((x, y), w2)))"

definition scalar_entry :: "nat \<Rightarrow> nat \<Rightarrow> types \<Rightarrow> wire \<Rightarrow> error + nat \<times> types \<times> wire" where
  "scalar_entry tag name types w =
    and_then (from_tag tag w) (\<lambda>storage.
    and_then
      (if storage = B2 \<or> storage = E8 then
         and_then (w_uleb w) (\<lambda>(n, w1).
           if n = 0 \<or> 256 < n \<or> (storage = B2 \<and> n \<noteq> 2)
           then Inl (ghw_malformed w1 ''enum literal count does not fit its storage'')
           else and_then (read_list (unat n) (string_id types) w1) (\<lambda>(literals, w2). Inr ((literals, []), w2)))
       else if (storage = P32 \<or> storage = P64) \<and> w_version w = 1 then
         and_then (list_count ''physical unit'' 2 w) (\<lambda>(n, w1).
         and_then (read_list n (read_pair (string_id types) (w_sleb 64)) w1) (\<lambda>(units, w2).
           Inr (([], units), w2)))
       else Inr (([], []), w)) (\<lambda>((literals, units), w').
    and_then (push name None (ScalarShape storage literals units 0) types w') (\<lambda>(n, types').
      Inr (n, types', w'))))"

definition range_entry :: "nat \<Rightarrow> types \<Rightarrow> wire \<Rightarrow> error + nat \<times> types \<times> wire" where
  "range_entry name types w =
    and_then (type_id types w) (\<lambda>(base, w1).
    and_then (read_range w1) (\<lambda>(r, w2).
    and_then (validate_range types base r w2) (\<lambda>_.
    and_then (push name (Some base) (AliasShape base (Some r)) types w2) (\<lambda>(n, types').
      Inr (n, types', w2)))))"

definition index_type :: "types \<Rightarrow> wire \<Rightarrow> error + nat \<times> wire" where
  "index_type types w =
    and_then (type_id types w) (\<lambda>(i, w').
      case type_scalar types i of
        Some (storage, _) \<Rightarrow>
          if storage \<in> {B2, E8, I32, I64} then Inr (i, w')
          else Inl (ghw_malformed w' ''non-discrete array index type'')
      | None \<Rightarrow> Inl (ghw_malformed w' ''non-discrete array index type''))"

definition array_entry :: "nat \<Rightarrow> types \<Rightarrow> wire \<Rightarrow> error + nat \<times> types \<times> wire" where
  "array_entry name types w =
    and_then (type_id types w) (\<lambda>(element, w1).
    and_then (list_count ''array dimension'' 1 w1) (\<lambda>(n, w2).
      if n = 0 then Inl (ghw_malformed w2 ''array without dimensions'')
      else
        and_then (read_list n (index_type types) w2) (\<lambda>(indices, w3).
        and_then (push name None (ArrayShape element indices None) types w3) (\<lambda>(n, types').
          Inr (n, types', w3)))))"

definition record_entry :: "nat \<Rightarrow> types \<Rightarrow> wire \<Rightarrow> error + nat \<times> types \<times> wire" where
  "record_entry name types w =
    and_then (list_count ''record field'' 2 w) (\<lambda>(n, w1).
    and_then (read_list n (read_pair (string_id types) (type_id types)) w1) (\<lambda>(parts, w2).
    and_then (push name None (RecordShape parts) types w2) (\<lambda>(n, types').
      Inr (n, types', w2))))"

fun is_array :: "shape \<Rightarrow> bool" where
  "is_array (ArrayShape _ _ _) = True"
| "is_array _ = False"

fun is_record :: "shape \<Rightarrow> bool" where
  "is_record (RecordShape _) = True"
| "is_record _ = False"

definition bounds_entry :: "nat \<Rightarrow> nat \<Rightarrow> types \<Rightarrow> wire \<Rightarrow> (error + nat \<times> types \<times> wire) option" where
  "bounds_entry tag name types w =
    opt_then (Some (type_id types w)) (\<lambda>(base, w1).
      let shape = ty_shape (ts_nodes types ! effective (ts_nodes types) base)
      in if \<not> (is_array shape \<and> tag = 35 \<or> is_record shape \<and> tag = 38)
         then Some (Inl (ghw_malformed w1 ''composite subtype base has wrong shape''))
         else
           opt_then (constrain base types w1) (\<lambda>(n, types', w2).
             Some (Inr (n, types'\<lparr>ts_nodes := (ts_nodes types')[n := (ts_nodes types' ! n)\<lparr>ty_name := name\<rparr>]\<rparr>, w2))))"

definition unbounded_entry :: "nat \<Rightarrow> nat \<Rightarrow> types \<Rightarrow> wire \<Rightarrow> error + nat \<times> types \<times> wire" where
  "unbounded_entry tag name types w =
    and_then (type_id types w) (\<lambda>(base, w1).
      let shape = ty_shape (ts_nodes types ! effective (ts_nodes types) base)
      in if \<not> (is_array shape \<and> tag = 37 \<or> is_record shape \<and> tag = 39) \<or> bounded types base
         then Inl (ghw_malformed w1 ''unbounded alias base has wrong shape'')
         else
           and_then (push name (Some base) (AliasShape base None) types w1) (\<lambda>(n, types').
             Inr (n, types', w1)))"

definition type_entry :: "types \<Rightarrow> wire \<Rightarrow> (error + nat \<times> types \<times> wire) option" where
  "type_entry types w =
    opt_then (Some (w_byte w)) (\<lambda>(b, w1).
      let tag = byte b
      in if tag \<notin> {22, 23, 25, 26, 27, 28, 29, 31, 32, 34, 35, 37, 38, 39}
         then Some (Inl (ghw_unsupported w1 (''type tag '' @ show_nat tag)))
         else
           opt_then (Some (string_id types w1)) (\<lambda>(name, w2).
             if tag \<in> {22, 23, 25, 26, 27, 28, 29} then Some (scalar_entry tag name types w2)
             else if tag = 34 then Some (range_entry name types w2)
             else if tag = 31 then Some (array_entry name types w2)
             else if tag = 32 then Some (record_entry name types w2)
             else if tag \<in> {35, 38} then bounds_entry tag name types w2
             else Some (unbounded_entry tag name types w2)))"

fun type_entries :: "nat \<Rightarrow> types \<Rightarrow> wire \<Rightarrow> (error + types \<times> wire) option" where
  "type_entries 0 types w = Some (Inr (types, w))"
| "type_entries (Suc n) types w =
    opt_then (type_entry types w) (\<lambda>(node, types', w').
      type_entries n (types'\<lparr>ts_source_ids := ts_source_ids types' @ [node]\<rparr>) w')"

definition types_read :: "string list \<Rightarrow> wire \<Rightarrow> (error + types \<times> wire) option" where
  "types_read strings w =
    opt_then (Some (w_marker (section_name ''TYP'') w)) (\<lambda>w1.
    opt_then (Some (w_zeros w1)) (\<lambda>w2.
    opt_then (Some (w_count ''type'' w2)) (\<lambda>(n, w3).
      if (w_len w3 - w_offset w3) div 2 < n
      then Some (Inl (ghw_malformed w3 ''type count exceeds remaining input''))
      else
        opt_then (type_entries n \<lparr>ts_strings = strings, ts_nodes = [], ts_source_ids = []\<rparr> w3) (\<lambda>(types, w4).
        opt_then (Some (w_byte w4)) (\<lambda>(b, w5).
          if b \<noteq> nul then Some (Inl (ghw_malformed w5 ''missing type table terminator''))
          else Some (Inr (types, w5)))))))"


section \<open>Progress\<close>

definition consumes :: "wire \<Rightarrow> wire \<Rightarrow> bool" where
  "consumes w w' \<longleftrightarrow> (\<exists>x. eats w x w')"

named_theorems consumed

lemma consumes_refl [simp]: "consumes w w"
  unfolding consumes_def by (rule exI [of _ "[]"]) simp

lemma consumes_trans: "consumes a b \<Longrightarrow> consumes b c \<Longrightarrow> consumes a c"
  unfolding consumes_def using eats_trans by blast

lemma consumes_shorter: "consumes w w' \<Longrightarrow> length (w_bytes w') \<le> length (w_bytes w)"
  by (auto simp: consumes_def eats_def)

lemma byte_shorter: "w_byte w = Inr (b, w') \<Longrightarrow> length (w_bytes w') < length (w_bytes w)"
  by (auto simp: eats_def dest!: w_byte_Inr)

lemma byte_consumes [consumed]: "w_byte w = Inr (b, w') \<Longrightarrow> consumes w w'"
  by (auto simp: consumes_def dest: w_byte_Inr)

lemma fixed_consumes [consumed]: "w_fixed n w = Inr (x, w') \<Longrightarrow> consumes w w'"
  by (auto simp: consumes_def dest: w_fixed_Inr)

lemma uleb_continued_consumes: "uleb_continued g x w = Inr (v, w') \<Longrightarrow> consumes w w'"
proof (induction g x w rule: uleb_continued.induct)
  case (1 g x w)
  then obtain b w1 where b: "g < 5" "w_byte w = Inr (b, w1)"
    by (auto simp: uleb_continued.simps [of g] split: if_splits)
  with 1 have "consumes w1 w'"
    by (auto simp: uleb_continued.simps [of g] split: if_splits)
  with byte_consumes [OF b(2)] show ?case by (rule consumes_trans)
qed

lemma uleb_consumes [consumed]: "w_uleb w = Inr (v, w') \<Longrightarrow> consumes w w'"
  by (simp add: uleb_unrolled uleb_continued_consumes)

lemma sleb_groups_consumes: "sleb_groups bits g x w = Inr (v, w') \<Longrightarrow> consumes w w'"
proof (induction bits g x w rule: sleb_groups.induct)
  case (1 bits g x w)
  then obtain b w1 where b: "g < (bits + 6) div 7" "w_byte w = Inr (b, w1)"
    by (auto simp: sleb_groups.simps [of bits g] split: if_splits)
  with 1 have "consumes w1 w'"
    by (auto simp: sleb_groups.simps [of bits g] split: if_splits)
  with byte_consumes [OF b(2)] show ?case by (rule consumes_trans)
qed

lemma sleb_consumes [consumed]: "w_sleb bits w = Inr (v, w') \<Longrightarrow> consumes w w'"
  by (simp add: w_sleb_def sleb_groups_consumes)

lemma u32_consumes [consumed]: "w_u32 w = Inr (v, w') \<Longrightarrow> consumes w w'"
  by (auto simp: w_u32_def dest: fixed_consumes)

lemma i64_consumes [consumed]: "w_i64 w = Inr (v, w') \<Longrightarrow> consumes w w'"
  by (auto simp: w_i64_def dest: fixed_consumes)

lemma real_bits_consumes [consumed]: "w_real_bits w = Inr (v, w') \<Longrightarrow> consumes w w'"
  by (auto simp: w_real_bits_def dest: fixed_consumes)

lemma zeros_consumes [consumed]: "w_zeros w = Inr w' \<Longrightarrow> consumes w w'"
  by (auto simp: w_zeros_def dest: fixed_consumes split: if_splits)

lemma marker_consumes [consumed]: "w_marker m w = Inr w' \<Longrightarrow> consumes w w'"
  by (auto simp: w_marker_def dest: fixed_consumes split: if_splits)

lemma count_consumes [consumed]: "w_count what w = Inr (n, w') \<Longrightarrow> consumes w w'"
  by (auto simp: w_count_def dest: u32_consumes split: if_splits)

lemma string_id_consumes [consumed]: "string_id types w = Inr (n, w') \<Longrightarrow> consumes w w'"
  by (auto simp: string_id_def dest: uleb_consumes split: if_splits)

lemma type_id_consumes [consumed]: "type_id types w = Inr (n, w') \<Longrightarrow> consumes w w'"
  by (auto simp: type_id_def dest: uleb_consumes split: if_splits)

section \<open>Well-known types\<close>

definition logic_literals :: "nat \<Rightarrow> string list" where
  "logic_literals marker =
    (if marker = 1 then [''false'', ''true'']
     else if marker = 2 then [[CHR 0x27, CHR ''0'', CHR 0x27], [CHR 0x27, CHR ''1'', CHR 0x27]]
     else map (\<lambda>c. [CHR 0x27, c, CHR 0x27]) ''UX01ZWLH-'')"

definition wkt_entry :: "nat \<Rightarrow> types \<Rightarrow> wire \<Rightarrow> error + types \<times> wire" where
  "wkt_entry marker types w =
    and_then (type_id types w) (\<lambda>(n, w').
      case ty_shape (ts_nodes types ! n) of
        ScalarShape storage literals units wkt \<Rightarrow>
          if storage \<noteq> (if marker = 3 then E8 else B2) \<or>
             map (\<lambda>i. ts_strings types ! i) literals \<noteq> logic_literals marker \<or>
             (wkt \<noteq> 0 \<and> wkt \<noteq> marker)
          then Inl (ghw_malformed w' ''well-known marker contradicts enum storage/literals'')
          else
            Inr (types\<lparr>ts_nodes := (ts_nodes types)
                   [n := (ts_nodes types ! n)\<lparr>ty_shape := ScalarShape storage literals units marker\<rparr>]\<rparr>, w')
      | _ \<Rightarrow> Inl (ghw_malformed w' ''well-known marker on non-enum type''))"

lemma wkt_entry_consumes [consumed]: "wkt_entry marker types w = Inr (types', w') \<Longrightarrow> consumes w w'"
proof -
  assume a: "wkt_entry marker types w = Inr (types', w')"
  then obtain n w1 where id: "type_id types w = Inr (n, w1)"
    by (cases "type_id types w") (auto simp: wkt_entry_def)
  have "w1 = w'"
    using a by (cases "ty_shape (ts_nodes types ! n)") (auto simp: wkt_entry_def id split: if_splits)
  with type_id_consumes [OF id] show ?thesis by simp
qed

function wkt_entries :: "types \<Rightarrow> wire \<Rightarrow> error + types \<times> wire" where
  "wkt_entries types w =
    (case w_byte w of
       Inl e \<Rightarrow> Inl e
     | Inr (b, w1) \<Rightarrow>
         let marker = byte b
         in if marker = 0 then Inr (types, w1)
            else if 3 < marker
            then Inl (ghw_unsupported w1 (''well-known type marker '' @ show_nat marker))
            else
              (case wkt_entry marker types w1 of
                 Inl e \<Rightarrow> Inl e
               | Inr (types', w2) \<Rightarrow> wkt_entries types' w2))"
  by pat_completeness auto
termination
  by (relation "measure (\<lambda>(_, w). length (w_bytes w))")
    (auto dest!: byte_shorter wkt_entry_consumes consumes_shorter)

declare wkt_entries.simps [simp del]

definition types_wkt :: "types \<Rightarrow> wire \<Rightarrow> error + types \<times> wire" where
  "types_wkt types w = and_then (w_zeros w) (wkt_entries types)"

section \<open>Well-formed graphs\<close>

text \<open>
  What a node refers to is there: strings of the table, and nodes before it. The base of an
  enumeration has between 1 and 256 literals, so an ordinal read from the body names one.
\<close>

fun shape_ok :: "nat \<Rightarrow> nat \<Rightarrow> shape \<Rightarrow> bool" where
  "shape_ok strings n (ScalarShape storage literals units _) \<longleftrightarrow>
    list_all (\<lambda>i. i < strings) literals \<and> list_all (\<lambda>(i, _). i < strings) units \<and>
    (storage \<in> {B2, E8} \<longrightarrow> 0 < length literals \<and> length literals \<le> 256)"
| "shape_ok strings n (AliasShape base _) \<longleftrightarrow> base < n"
| "shape_ok strings n (ArrayShape element indices _) \<longleftrightarrow> element < n \<and> list_all (\<lambda>i. i < n) indices"
| "shape_ok strings n (RecordShape parts) \<longleftrightarrow> list_all (\<lambda>(i, t). i < strings \<and> t < n) parts"

definition node_ok :: "nat \<Rightarrow> nat \<Rightarrow> type_node \<Rightarrow> bool" where
  "node_ok strings n node \<longleftrightarrow>
    ty_name node < strings \<and> (\<forall>base. ty_base node = Some base \<longrightarrow> base < n) \<and>
    shape_ok strings n (ty_shape node)"

definition types_ok :: "types \<Rightarrow> bool" where
  "types_ok types \<longleftrightarrow>
    0 < length (ts_strings types) \<and>
    (\<forall>n < length (ts_nodes types). node_ok (length (ts_strings types)) n (ts_nodes types ! n)) \<and>
    (\<forall>n \<in> set (ts_source_ids types). n < length (ts_nodes types))"

lemma types_ok_node: "types_ok types \<Longrightarrow> n < length (ts_nodes types) \<Longrightarrow>
  node_ok (length (ts_strings types)) n (ts_nodes types ! n)"
  by (simp add: types_ok_def)

lemma effective_le: "effective nodes n \<le> n"
  by (induction nodes n rule: effective.induct) (subst effective.simps, auto split: shape.split)

lemma effective_not_alias:
  "types_ok types \<Longrightarrow> n < length (ts_nodes types) \<Longrightarrow>
    ty_shape (ts_nodes types ! effective (ts_nodes types) n) \<noteq> AliasShape base r"
proof (induction "ts_nodes types" n rule: effective.induct)
  case (1 n)
  show ?case
  proof (cases "ty_shape (ts_nodes types ! n)")
    case (AliasShape b r')
    then have "b < n" using types_ok_node [OF 1(2,3)] by (simp add: node_ok_def)
    with 1(1) [OF AliasShape this 1(2)] 1(3) AliasShape show ?thesis by (simp add: effective.simps [of _ n])
  qed (simp_all add: effective.simps [of _ n])
qed

text \<open>\<open>effective\<close> is the loop of the source: an alias always has an effective type.\<close>

lemma effective_loop:
  assumes "types_ok types" and "n < length (ts_nodes types)"
  shows "effective (ts_nodes types) n =
    (case ty_shape (ts_nodes types ! n) of AliasShape base _ \<Rightarrow> effective (ts_nodes types) base | _ \<Rightarrow> n)"
  using types_ok_node [OF assms] by (auto simp: effective.simps [of _ n] node_ok_def split: shape.split)

lemma type_name_loop:
  assumes "types_ok types" and "n < length (ts_nodes types)"
  shows "type_name types n =
    (if ty_name (ts_nodes types ! n) \<noteq> 0 then Some (ts_strings types ! ty_name (ts_nodes types ! n))
     else Option.bind (ty_base (ts_nodes types ! n)) (type_name types))"
  using types_ok_node [OF assms] by (auto simp: type_name.simps [of _ n] node_ok_def Let_def split: option.split)

end
