(* ===== verification/Ondas_Ghw_Graph.thy ===== *)
theory Ondas_Ghw_Graph
  imports Ondas_Ghw_Types
begin

text \<open>
  The reading of a type table keeps \<open>types_ok\<close> and always returns: the work stack of
  \<open>Types::constrain\<close> does what a recursive descent over the type does.
\<close>

section \<open>The recursive descent\<close>

definition push_at :: "nat \<Rightarrow> shape \<Rightarrow> types \<Rightarrow> wire \<Rightarrow> error + nat \<times> types \<times> wire" where
  "push_at base shape types w =
    and_then (push 0 (Some base) shape types w) (\<lambda>(n, types'). Inr (n, types', w))"

function (sequential)
    constrained :: "nat \<Rightarrow> types \<Rightarrow> nat \<Rightarrow> wire \<Rightarrow> error + nat \<times> types \<times> wire"
and constrained_parts ::
      "nat \<Rightarrow> types \<Rightarrow> (nat \<times> nat) list \<Rightarrow> wire \<Rightarrow> error + (nat \<times> nat) list \<times> types \<times> wire" where
  "constrained 0 types base w = Inl (Panic ''a reference to a later node'')"
| "constrained (Suc d) types base w =
    (case ty_shape (ts_nodes types ! effective (ts_nodes types) base) of
       ArrayShape element indices _ \<Rightarrow>
         and_then (read_ranges types indices w) (\<lambda>(bounds, w1).
         and_then (if bounded types element then Inr (element, types, w1) else constrained d types element w1)
           (\<lambda>(child, types', w2). push_at base (ArrayShape child indices (Some bounds)) types' w2))
     | RecordShape parts \<Rightarrow>
         and_then (constrained_parts d types parts w) (\<lambda>(parts', types', w').
           push_at base (RecordShape parts') types' w')
     | _ \<Rightarrow> Inl (ghw_malformed w ''composite bounds have non-composite base''))"
| "constrained_parts d types [] w = Inr ([], types, w)"
| "constrained_parts d types ((name, t) # parts) w =
    and_then (if bounded types t then Inr (t, types, w) else constrained d types t w) (\<lambda>(t', types', w').
    and_then (constrained_parts d types' parts w') (\<lambda>(parts', r). Inr ((name, t') # parts', r)))"
  by pat_completeness auto
termination
  by (relation "measures [case_sum (\<lambda>(d, _). d) (\<lambda>(d, _). d), case_sum (\<lambda>_. 0) (\<lambda>(_, _, ps, _). Suc (length ps))]")
    auto

section \<open>Growth\<close>

definition types_grown :: "types \<Rightarrow> types \<Rightarrow> bool" where
  "types_grown types types' \<longleftrightarrow>
    (\<exists>nodes. ts_nodes types' = ts_nodes types @ nodes) \<and> ts_strings types' = ts_strings types \<and>
    ts_source_ids types' = ts_source_ids types"

lemma types_grown_refl [simp]: "types_grown types types"
  by (simp add: types_grown_def)

lemma types_grown_trans: "types_grown a b \<Longrightarrow> types_grown b c \<Longrightarrow> types_grown a c"
  by (auto simp: types_grown_def)

lemma types_grown_nth: "types_grown a b \<Longrightarrow> n < length (ts_nodes a) \<Longrightarrow> ts_nodes b ! n = ts_nodes a ! n"
  by (auto simp: types_grown_def nth_append)

lemma types_grown_length: "types_grown a b \<Longrightarrow> length (ts_nodes a) \<le> length (ts_nodes b)"
  by (auto simp: types_grown_def)

lemma push_Inr:
  assumes "push name base shape types w = Inr (n, types')"
  obtains scalars where "shape_scalars (ts_nodes types) shape w = Inr scalars" "n = length (ts_nodes types)"
    "types' = types\<lparr>ts_nodes := ts_nodes types @
       [\<lparr>ty_name = name, ty_base = base, ty_shape = shape, ty_scalars = scalars\<rparr>]\<rparr>"
  using assms by (auto simp: push_def)

lemma push_ok:
  assumes "push name base shape types w = Inr (n, types')" and "types_ok types"
    and "name < length (ts_strings types)" and "\<forall>b. base = Some b \<longrightarrow> b < length (ts_nodes types)"
    and "shape_ok (length (ts_strings types)) (length (ts_nodes types)) shape"
  shows "types_ok types'" "types_grown types types'" "n < length (ts_nodes types')"
  using assms
  by (auto elim!: push_Inr simp: types_ok_def node_ok_def types_grown_def nth_append less_Suc_eq dest: less_imp_le)

lemma record_scalars_bounded:
  assumes "record_scalars nodes (Some a) parts w = Inr s" and "list_all (\<lambda>(_, t). ty_scalars (nodes ! t) \<noteq> None) parts"
  shows "s \<noteq> None"
  using assms by (induction parts arbitrary: a) (auto split: if_splits)

text \<open>What the push of a constrained composite keeps.\<close>

lemma push_at_ok:
  assumes "push_at base shape types w = Inr (n, types', w')" and "types_ok types" and "base < length (ts_nodes types)"
    and "shape_ok (length (ts_strings types)) (length (ts_nodes types)) shape"
  shows "types_ok types'" "types_grown types types'" "n < length (ts_nodes types')" "w' = w"
proof -
  have p: "push 0 (Some base) shape types w = Inr (n, types')" "w' = w" using assms(1) by (auto simp: push_at_def)
  have "0 < length (ts_strings types)" using assms(2) by (simp add: types_ok_def)
  from push_ok [OF p(1) assms(2) this _ assms(4)] assms(3) p(2)
  show "types_ok types'" "types_grown types types'" "n < length (ts_nodes types')" "w' = w" by auto
qed

definition fixed_size :: "types \<Rightarrow> shape \<Rightarrow> bool" where
  "fixed_size types shape \<longleftrightarrow>
    (case shape of
       ArrayShape element _ bounds \<Rightarrow> bounds \<noteq> None \<and> bounded types element
     | RecordShape parts \<Rightarrow> list_all (\<lambda>(_, t). bounded types t) parts
     | _ \<Rightarrow> False)"

lemma push_at_bounded:
  assumes "push_at base shape types w = Inr (n, types', w')" and "fixed_size types shape"
  shows "bounded types' n"
  using assms record_scalars_bounded [of "ts_nodes types" 0]
  by (auto simp: push_at_def fixed_size_def shape_scalars_def elim!: push_Inr
      split: shape.splits option.splits if_splits)

section \<open>What the descent answers\<close>

lemma read_range_consumes [consumed]: "read_range w = Inr (r, w') \<Longrightarrow> consumes w w'"
  by (auto simp: read_range_def read_bound_def Let_def split: if_splits
      dest!: byte_consumes sleb_consumes real_bits_consumes intro: consumes_trans)

lemma read_ranges_consumes [consumed]: "read_ranges types is w = Inr (rs, w') \<Longrightarrow> consumes w w'"
proof (induction types "is" w arbitrary: rs w' rule: read_ranges.induct)
  case (2 types i "is" w)
  from 2(2) obtain r w1 rs' where r: "read_range w = Inr (r, w1)" "validate_range types i r w1 = Inr ()"
    "read_ranges types is w1 = Inr (rs', w')" by auto
  from 2(1) [OF r(1) refl r(2,3)] read_range_consumes [OF r(1)] show ?case by (blast intro: consumes_trans)
qed simp

definition descended :: "types \<Rightarrow> types \<Rightarrow> wire \<Rightarrow> wire \<Rightarrow> bool" where
  "descended types types' w w' \<longleftrightarrow> types_ok types' \<and> types_grown types types' \<and> consumes w w'"

lemma descended_refl [simp]: "types_ok types \<Longrightarrow> descended types types w w"
  by (simp add: descended_def)

lemma descended_trans: "descended a b u v \<Longrightarrow> descended b c v w \<Longrightarrow> descended a c u w"
  by (auto simp: descended_def intro: types_grown_trans consumes_trans)

lemma descended_bounded:
  "descended a b u v \<Longrightarrow> n < length (ts_nodes a) \<Longrightarrow> bounded a n \<Longrightarrow> n < length (ts_nodes b) \<and> bounded b n"
  using types_grown_length [of a b] by (auto simp: descended_def types_grown_nth)

lemma composite_ok:
  assumes "types_ok types" and "base < length (ts_nodes types)"
  shows "shape_ok (length (ts_strings types)) (effective (ts_nodes types) base)
    (ty_shape (ts_nodes types ! effective (ts_nodes types) base))"
  using types_ok_node [OF assms(1), of "effective (ts_nodes types) base"] effective_le [of "ts_nodes types" base] assms(2)
  by (simp add: node_ok_def)

lemma push_at_done:
  assumes "push_at base shape types w = Inr (n, types', w')" and "types_ok types" and "base < length (ts_nodes types)"
    and "shape_ok (length (ts_strings types)) (length (ts_nodes types)) shape" and "fixed_size types shape"
  shows "descended types types' w w' \<and> n < length (ts_nodes types') \<and> bounded types' n"
  using push_at_ok [OF assms(1-4)] push_at_bounded [OF assms(1,5)] by (simp add: descended_def)

lemma constrained_ok:
  "constrained d types base w = Inr (n, types', w') \<Longrightarrow> types_ok types \<Longrightarrow> base < length (ts_nodes types) \<Longrightarrow>
    descended types types' w w' \<and> n < length (ts_nodes types') \<and> bounded types' n"
  "constrained_parts d types parts w = Inr (parts', types', w') \<Longrightarrow> types_ok types \<Longrightarrow>
    list_all (\<lambda>(i, t). i < length (ts_strings types) \<and> t < length (ts_nodes types)) parts \<Longrightarrow>
    descended types types' w w' \<and>
    list_all (\<lambda>(i, t). i < length (ts_strings types') \<and> t < length (ts_nodes types') \<and> bounded types' t) parts'"
proof (induction d types base w and d types parts w arbitrary: n types' w' and parts' types' w'
    rule: constrained_constrained_parts.induct)
  case (1 types base w)
  then show ?case by simp
next
  case (2 d types base w)
  let ?e = "effective (ts_nodes types) base"
  have e: "?e < length (ts_nodes types)" using effective_le [of "ts_nodes types" base] "2.prems"(3) by simp
  note ok = composite_ok [OF "2.prems"(2,3)]
  show ?case
  proof (cases "ty_shape (ts_nodes types ! ?e)")
    case (ArrayShape element indices old)
    with "2.prems"(1) obtain bounds w1 where r: "read_ranges types indices w = Inr (bounds, w1)" by auto
    let ?sub = "if bounded types element then Inr (element, types, w1) else constrained d types element w1"
    obtain child types1 w2 where sub: "?sub = Inr (child, types1, w2)"
      and push: "push_at base (ArrayShape child indices (Some bounds)) types1 w2 = Inr (n, types', w')"
      using "2.prems"(1) r ArrayShape by auto
    have el: "element < length (ts_nodes types)" "list_all (\<lambda>i. i < ?e) indices" using ok ArrayShape e by simp_all
    have child: "descended types types1 w1 w2 \<and> child < length (ts_nodes types1) \<and> bounded types1 child"
    proof (cases "bounded types element")
      case True
      with sub el "2.prems"(2) show ?thesis by simp
    next
      case False
      with sub have "constrained d types element w1 = Inr (child, types1, w2)" by simp
      from "2.IH"(1) [OF ArrayShape r refl False this "2.prems"(2) el(1)] show ?thesis by simp
    qed
    then have len: "length (ts_nodes types) \<le> length (ts_nodes types1)" "types_ok types1"
      using types_grown_length by (auto simp: descended_def)
    have "shape_ok (length (ts_strings types1)) (length (ts_nodes types1)) (ArrayShape child indices (Some bounds))"
      using child el e len by (auto simp: list_all_iff)
    moreover have "fixed_size types1 (ArrayShape child indices (Some bounds))" using child by (simp add: fixed_size_def)
    ultimately have "descended types1 types' w2 w' \<and> n < length (ts_nodes types') \<and> bounded types' n"
      using push_at_done [OF push len(2)] "2.prems"(3) len(1) by simp
    moreover have "descended types types w w1" using read_ranges_consumes [OF r] "2.prems"(2) by (simp add: descended_def)
    ultimately show ?thesis using child by (blast intro: descended_trans)
  next
    case (RecordShape parts)
    obtain parts1 types1 w1 where sub: "constrained_parts d types parts w = Inr (parts1, types1, w1)"
      and push: "push_at base (RecordShape parts1) types1 w1 = Inr (n, types', w')"
      using "2.prems"(1) RecordShape by auto
    have "list_all (\<lambda>(i, t). i < length (ts_strings types) \<and> t < length (ts_nodes types)) parts"
      using ok e RecordShape by (auto simp: list_all_iff)
    from "2.IH"(2) [OF RecordShape sub "2.prems"(2) this] have
      d: "descended types types1 w w1" and
      p: "list_all (\<lambda>(i, t). i < length (ts_strings types1) \<and> t < length (ts_nodes types1) \<and> bounded types1 t) parts1"
      by simp_all
    then have len: "length (ts_nodes types) \<le> length (ts_nodes types1)" "types_ok types1"
      using types_grown_length by (auto simp: descended_def)
    have "shape_ok (length (ts_strings types1)) (length (ts_nodes types1)) (RecordShape parts1)"
      "fixed_size types1 (RecordShape parts1)" using p by (auto simp: list_all_iff fixed_size_def)
    with push_at_done [OF push len(2)] "2.prems"(3) len(1)
    have "descended types1 types' w1 w' \<and> n < length (ts_nodes types') \<and> bounded types' n" by simp
    with d show ?thesis by (blast intro: descended_trans)
  qed (use "2.prems"(1) in simp_all)
next
  case (3 d types w)
  then show ?case by simp
next
  case (4 d types name t parts w)
  let ?sub = "if bounded types t then Inr (t, types, w) else constrained d types t w"
  obtain t1 types1 w1 parts2 where sub: "?sub = Inr (t1, types1, w1)"
    and rest: "constrained_parts d types1 parts w1 = Inr (parts2, types', w')" and parts: "parts' = (name, t1) # parts2"
    using "4.prems"(1) by auto
  have child: "descended types types1 w w1 \<and> t1 < length (ts_nodes types1) \<and> bounded types1 t1"
  proof (cases "bounded types t")
    case True
    with sub "4.prems"(2,3) show ?thesis by simp
  next
    case False
    with sub have "constrained d types t w = Inr (t1, types1, w1)" by simp
    from "4.IH"(1) [OF False this "4.prems"(2)] "4.prems"(3) show ?thesis by simp
  qed
  then have ok: "types_ok types1" "ts_strings types1 = ts_strings types" "length (ts_nodes types) \<le> length (ts_nodes types1)"
    using types_grown_length by (auto simp: descended_def types_grown_def)
  have "list_all (\<lambda>(i, t). i < length (ts_strings types1) \<and> t < length (ts_nodes types1)) parts"
    using "4.prems"(3) ok by (auto simp: list_all_iff)
  from "4.IH"(2) [OF sub refl refl rest ok(1) this] have
    d: "descended types1 types' w1 w'" and
    p: "list_all (\<lambda>(i, t). i < length (ts_strings types') \<and> t < length (ts_nodes types') \<and> bounded types' t) parts2"
    by simp_all
  have "ts_strings types' = ts_strings types" using d ok(2) by (simp add: descended_def types_grown_def)
  with child d p descended_trans descended_bounded [OF d, of t1] "4.prems"(3) parts show ?case by auto
qed


section \<open>The work stack is the descent\<close>

definition resume :: "frame list \<Rightarrow> error + nat \<times> types \<times> wire \<Rightarrow> (error + nat \<times> types \<times> wire) option" where
  "resume work r =
    (case r of Inl e \<Rightarrow> Some (Inl e) | Inr (n, types, w) \<Rightarrow> constrain_run work (Some n) types w)"

lemma resume_simps [simp]:
  "resume work (Inl e) = Some (Inl e)"
  "resume work (Inr (n, types, w)) = constrain_run work (Some n) types w"
  by (simp_all add: resume_def)

lemma constrain_run_frame:
  "constrain_run (frame # work) result types w =
    (case constrain_step frame work result types w of
       Inl e \<Rightarrow> Some (Inl e)
     | Inr (work', result', types', w') \<Rightarrow> constrain_run work' result' types' w')"
  by (simp add: constrain_run.simps [of "frame # work"])

lemma run_push:
  "(case push_result base shape work types w of
      Inl e \<Rightarrow> Some (Inl e)
    | Inr (work', result', types', w') \<Rightarrow> constrain_run work' result' types' w') =
    resume work (push_at base shape types w)"
  by (cases "push 0 (Some base) shape types w") (simp_all add: push_result_def push_at_def split: prod.split)

lemma record_child:
  "constrain_step (RecordFrame base (before @ (i, t) # parts) (Suc (length before))) work (Some child) types w =
    constrain_step (RecordFrame base (before @ (i, child) # parts) (Suc (length before))) work None types w"
  by simp

lemma record_skip:
  "bounded types t \<Longrightarrow>
    constrain_step (RecordFrame base (before @ (i, t) # parts) (length before)) work None types w =
    constrain_step (RecordFrame base (before @ (i, t) # parts) (Suc (length before))) work None types w"
  by (simp add: Let_def)

text \<open>The fields of a record, given the descent into each of them.\<close>

lemma run_parts:
  assumes descent: "\<And>types t w work. types_ok types \<Longrightarrow> t < length (ts_nodes types) \<Longrightarrow> t < d \<Longrightarrow>
    constrain_run (StartFrame t # work) None types w = resume work (constrained d types t w)"
  shows "types_ok types \<Longrightarrow> list_all (\<lambda>(i, t). t < length (ts_nodes types) \<and> t < d) parts \<Longrightarrow>
    constrain_run (RecordFrame base (before @ parts) (length before) # work) None types w =
    resume work
      (and_then (constrained_parts d types parts w) (\<lambda>(parts', types', w').
        push_at base (RecordShape (before @ parts')) types' w'))"
proof (induction parts arbitrary: before types w)
  case Nil
  then show ?case by (simp add: constrain_run_frame run_push)
next
  case (Cons p parts)
  obtain i t where p: "p = (i, t)" by (cases p)
  let ?run = "constrain_run (RecordFrame base (before @ p # parts) (length before) # work) None types w"
  show ?case
  proof (cases "bounded types t")
    case True
    then have "?run = constrain_run (RecordFrame base ((before @ [p]) @ parts) (length (before @ [p])) # work) None types w"
      using record_skip [OF True, of base before i parts work w] by (simp only: constrain_run_frame p) simp
    also have "\<dots> = resume work
        (and_then (constrained_parts d types parts w) (\<lambda>(parts', types', w').
          push_at base (RecordShape ((before @ [p]) @ parts')) types' w'))"
      using Cons.prems by (intro Cons.IH) simp_all
    finally show ?thesis using True
      by (cases "constrained_parts d types parts w") (simp_all add: p split: prod.split)
  next
    case False
    have t: "t < length (ts_nodes types)" "t < d" using Cons.prems(2) p by simp_all
    have "?run = resume (RecordFrame base (before @ p # parts) (Suc (length before)) # work) (constrained d types t w)"
      using False descent [OF Cons.prems(1) t, of "RecordFrame base (before @ p # parts) (Suc (length before)) # work" w]
      by (simp add: constrain_run_frame p)
    also have "\<dots> = resume work
        (and_then (constrained_parts d types (p # parts) w) (\<lambda>(parts', types', w').
          push_at base (RecordShape (before @ parts')) types' w'))"
    proof (cases "constrained d types t w")
      case (Inl e)
      with False show ?thesis by (simp add: p)
    next
      case (Inr r)
      obtain child types1 w1 where r: "r = (child, types1, w1)" by (cases r)
      have ok: "descended types types1 w w1" using constrained_ok(1) [OF _ Cons.prems(1) t(1)] Inr r by simp
      then have len: "types_ok types1" "length (ts_nodes types) \<le> length (ts_nodes types1)"
        using types_grown_length by (auto simp: descended_def)
      have "list_all (\<lambda>(i, t). t < length (ts_nodes types1) \<and> t < d) parts"
        using Cons.prems(2) len(2) by (auto simp: list_all_iff)
      note IH = Cons.IH [OF len(1) this, of "before @ [(i, child)]" w1]
      have "constrain_run (RecordFrame base (before @ p # parts) (Suc (length before)) # work) (Some child) types1 w1 =
          constrain_run (RecordFrame base ((before @ [(i, child)]) @ parts) (length (before @ [(i, child)])) # work) None types1 w1"
        using record_child [of base before i t parts work child types1 w1] by (simp only: constrain_run_frame p) simp
      with False show ?thesis using IH
        by (cases "constrained_parts d types1 parts w1") (simp_all add: Inr r p split: prod.split)
    qed
    finally show ?thesis .
  qed
qed

lemma run_descent:
  "types_ok types \<Longrightarrow> base < length (ts_nodes types) \<Longrightarrow> base < d \<Longrightarrow>
    constrain_run (StartFrame base # work) None types w = resume work (constrained d types base w)"
proof (induction d arbitrary: types base w work)
  case 0
  then show ?case by simp
next
  case (Suc d)
  let ?e = "effective (ts_nodes types) base"
  have e: "?e \<le> base" by (rule effective_le)
  note ok = composite_ok [OF Suc.prems(1,2)]
  show ?case
  proof (cases "ty_shape (ts_nodes types ! ?e)")
    case (ArrayShape element indices old)
    then have el: "element < length (ts_nodes types)" "element < d" using ok e Suc.prems(2,3) by simp_all
    show ?thesis
    proof (cases "read_ranges types indices w")
      case (Inl e)
      then show ?thesis by (simp add: constrain_run_frame ArrayShape)
    next
      case (Inr r)
      obtain bounds w1 where r: "r = (bounds, w1)" by (cases r)
      show ?thesis
      proof (cases "bounded types element")
        case True
        then show ?thesis by (simp add: constrain_run_frame ArrayShape Inr r run_push)
      next
        case False
        note IH = Suc.IH [OF Suc.prems(1) el, of "ArrayFrame base indices bounds # work" w1]
        show ?thesis
        proof (cases "constrained d types element w1")
          case (Inl e)
          with IH False show ?thesis by (simp add: constrain_run_frame [of "StartFrame base"] ArrayShape Inr r)
        next
          case (Inr c)
          obtain child types1 w2 where c: "c = (child, types1, w2)" by (cases c)
          have "constrain_run (ArrayFrame base indices bounds # work) (Some child) types1 w2 =
              resume work (push_at base (ArrayShape child indices (Some bounds)) types1 w2)"
            by (simp add: constrain_run_frame run_push)
          with IH False Inr c show ?thesis
            by (simp add: constrain_run_frame [of "StartFrame base"] ArrayShape \<open>read_ranges types indices w = Inr r\<close> r)
        qed
      qed
    qed
  next
    case (RecordShape parts)
    have "list_all (\<lambda>(i, t). t < length (ts_nodes types) \<and> t < d) parts"
      using ok e RecordShape Suc.prems(2,3) by (auto simp: list_all_iff)
    from run_parts [OF Suc.IH Suc.prems(1) this, of base "[]" work w] show ?thesis
      by (simp add: constrain_run_frame [of "StartFrame base"] RecordShape)
  qed (simp_all add: constrain_run_frame)
qed

text \<open>
  C30: the work stack that reads the constraints of a composite type returns on every input, and
  what it answers, error or node, is what the recursive descent over the type answers: no
  depth of nesting changes the result. The descent needs no more than one level for each
  node up to the base.
\<close>

theorem constrain_is_descent:
  assumes "types_ok types" and "base < length (ts_nodes types)"
  shows "constrain base types w = Some (constrained (Suc base) types base w)"
proof -
  have "resume [] r = Some r" for r by (cases r) (simp_all add: resume_def constrain_run.simps split: prod.split)
  with run_descent [OF assms, of "Suc base" "[]" w] show ?thesis by (simp add: constrain_def)
qed


section \<open>Reading a table\<close>

lemma string_id_ok: "string_id types w = Inr (n, w') \<Longrightarrow> n < length (ts_strings types)"
  by (auto simp: string_id_def split: if_splits)

lemma type_id_ok: "type_id types w = Inr (n, w') \<Longrightarrow> types_ok types \<Longrightarrow> n < length (ts_nodes types)"
  by (auto simp: type_id_def types_ok_def unat_eq_zero split: if_splits)
    (metis One_nat_def Suc_pred in_set_conv_nth less_Suc_eq_le not_less unat_gt_0)

lemma index_type_ok: "index_type types w = Inr (n, w') \<Longrightarrow> types_ok types \<Longrightarrow> n < length (ts_nodes types)"
  by (auto simp: index_type_def dest!: type_id_ok split: option.splits if_splits)

lemma read_list_ok:
  assumes "\<And>w x w'. reader w = Inr (x, w') \<Longrightarrow> P x"
  shows "read_list n reader w = Inr (xs, w') \<Longrightarrow> length xs = n \<and> list_all P xs"
  using assms by (induction n arbitrary: w xs) auto

lemma read_pair_ok:
  assumes "\<And>w x w'. f w = Inr (x, w') \<Longrightarrow> P x" and "\<And>w y w'. g w = Inr (y, w') \<Longrightarrow> Q y"
  shows "read_pair f g w = Inr (p, w') \<Longrightarrow> (case p of (x, y) \<Rightarrow> P x \<and> Q y)"
  using assms by (auto simp: read_pair_def)

text \<open>What every form of entry keeps.\<close>

definition entered :: "types \<Rightarrow> error + nat \<times> types \<times> wire \<Rightarrow> bool" where
  "entered types r \<longleftrightarrow>
    (case r of
       Inl _ \<Rightarrow> True
     | Inr (n, types', _) \<Rightarrow> types_ok types' \<and> types_grown types types' \<and> n < length (ts_nodes types'))"

lemma entered_Inl [simp]: "entered types (Inl e)"
  by (simp add: entered_def)

lemma entered_and_then:
  "(\<And>x. r = Inr x \<Longrightarrow> entered types (f x)) \<Longrightarrow> entered types (and_then r f)"
  by (cases r) simp_all

lemma entered_push:
  assumes "types_ok types" and "name < length (ts_strings types)"
    and "\<forall>b. base = Some b \<longrightarrow> b < length (ts_nodes types)"
    and "shape_ok (length (ts_strings types)) (length (ts_nodes types)) shape"
  shows "entered types (and_then (push name base shape types w) (\<lambda>(n, types'). Inr (n, types', w')))"
proof (rule entered_and_then)
  fix x
  assume "push name base shape types w = Inr x"
  with push_ok [OF _ assms(1-4), of w "fst x" "snd x"] show "entered types ((\<lambda>(n, types'). Inr (n, types', w')) x)"
    by (cases x) (simp add: entered_def)
qed

lemma entered_read: "(\<And>x w. r = Inr (x, w) \<Longrightarrow> entered types (f (x, w))) \<Longrightarrow> entered types (and_then r f)"
  by (cases r) auto

lemma scalar_entry_ok:
  assumes "types_ok types" and "name < length (ts_strings types)"
  shows "entered types (scalar_entry tag name types w)"
proof -
  have strings: "list_all (\<lambda>i. i < length (ts_strings types)) xs \<and> length xs = n"
    if "read_list n (string_id types) w1 = Inr (xs, w2)" for n xs w1 w2
    using read_list_ok [of "string_id types" "\<lambda>i. i < length (ts_strings types)", OF string_id_ok that] by simp
  have units: "list_all (\<lambda>(i, _). i < length (ts_strings types)) xs"
    if "read_list n (read_pair (string_id types) (w_sleb 64)) w1 = Inr (xs, w2)" for n xs w1 w2
    using read_list_ok [of "read_pair (string_id types) (w_sleb 64)" "\<lambda>(i, _). i < length (ts_strings types)", OF _ that]
      read_pair_ok [of "string_id types" "\<lambda>i. i < length (ts_strings types)" "w_sleb 64" "\<lambda>_. True", OF string_id_ok]
    by auto
  have few: "0 < unat n \<and> unat n \<le> 256" if "n \<noteq> 0" "\<not> 256 < n" for n :: u32
    using that by (simp add: unat_gt_0 word_less_nat_alt)
  show ?thesis unfolding scalar_entry_def
  proof (rule entered_and_then, rule entered_and_then)
    fix storage x
    assume x: "(if storage = B2 \<or> storage = E8 then
         and_then (w_uleb w) (\<lambda>(n, w1).
           if n = 0 \<or> 256 < n \<or> (storage = B2 \<and> n \<noteq> 2)
           then Inl (ghw_malformed w1 ''enum literal count does not fit its storage'')
           else and_then (read_list (unat n) (string_id types) w1) (\<lambda>(literals, w2). Inr ((literals, []), w2)))
       else if (storage = P32 \<or> storage = P64) \<and> w_version w = 1 then
         and_then (list_count ''physical unit'' 2 w) (\<lambda>(n, w1).
         and_then (read_list n (read_pair (string_id types) (w_sleb 64)) w1) (\<lambda>(units, w2).
           Inr (([], units), w2)))
       else Inr (([], []), w)) = Inr x"
    obtain literals units w' where p: "x = ((literals, units), w')" by (metis surj_pair)
    have "shape_ok (length (ts_strings types)) (length (ts_nodes types)) (ScalarShape storage literals units 0)"
      using x unfolding p by (auto split: if_splits dest!: strings units few)
    with assms show "entered types ((\<lambda>((literals, units), w').
        and_then (push name None (ScalarShape storage literals units 0) types w') (\<lambda>(n, types'). Inr (n, types', w'))) x)"
      unfolding p prod.case by (intro entered_push) simp_all
  qed
qed

lemma range_entry_ok:
  assumes "types_ok types" and "name < length (ts_strings types)"
  shows "entered types (range_entry name types w)"
proof -
  have "entered types (and_then (push name (Some base) (AliasShape base (Some r)) types w2) (\<lambda>(n, types'). Inr (n, types', w2)))"
    if "type_id types w = Inr (base, w1)" for base w1 r w2
    using type_id_ok [OF that assms(1)] assms by (intro entered_push) simp_all
  then show ?thesis unfolding range_entry_def
    by (auto intro!: entered_read [of "type_id types w"] entered_read [where r = "read_range a" for a]
        entered_and_then [where r = "validate_range a b c d" for a b c d])
qed

lemma array_entry_ok:
  assumes "types_ok types" and "name < length (ts_strings types)"
  shows "entered types (array_entry name types w)"
proof -
  have indices: "list_all (\<lambda>i. i < length (ts_nodes types)) xs" if "read_list n (index_type types) w1 = Inr (xs, w2)" for n xs w1 w2
    using read_list_ok [of "index_type types" "\<lambda>i. i < length (ts_nodes types)", OF index_type_ok [OF _ assms(1)] that] by simp
  have "entered types (and_then (push name None (ArrayShape element is None) types w3) (\<lambda>(n, types'). Inr (n, types', w3)))"
    if "type_id types w = Inr (element, w1)" "read_list n (index_type types) w2 = Inr (is, w3)" for element w1 n w2 "is" w3
    using type_id_ok [OF that(1) assms(1)] indices [OF that(2)] assms by (intro entered_push) simp_all
  then show ?thesis unfolding array_entry_def
    by (intro entered_read [of "type_id types w"], unfold prod.case, intro entered_read [where r = "list_count a b c" for a b c], unfold prod.case)
      (auto intro!: entered_read [where r = "read_list a b c" for a b c])
qed

lemma record_entry_ok:
  assumes "types_ok types" and "name < length (ts_strings types)"
  shows "entered types (record_entry name types w)"
proof -
  have "entered types (and_then (push name None (RecordShape xs) types w2) (\<lambda>(n, types'). Inr (n, types', w2)))"
    if "read_list n (read_pair (string_id types) (type_id types)) w1 = Inr (xs, w2)" for n xs w1 w2
  proof -
    have pair: "case p of (i, t) \<Rightarrow> i < length (ts_strings types) \<and> t < length (ts_nodes types)"
      if "read_pair (string_id types) (type_id types) u = Inr (p, u')" for p u u'
      by (rule read_pair_ok [OF _ _ that]) (erule string_id_ok, erule type_id_ok, rule assms(1))
    have "list_all (\<lambda>p. case p of (i, t) \<Rightarrow> i < length (ts_strings types) \<and> t < length (ts_nodes types)) xs"
      using read_list_ok [OF pair that] by simp
    with assms show ?thesis by (intro entered_push) simp_all
  qed
  then show ?thesis unfolding record_entry_def
    by (intro entered_read [where r = "list_count a b c" for a b c], unfold prod.case) (auto intro!: entered_read [where r = "read_list a b c" for a b c])
qed

lemma unbounded_entry_ok:
  assumes "types_ok types" and "name < length (ts_strings types)"
  shows "entered types (unbounded_entry tag name types w)"
proof -
  have "entered types (and_then (push name (Some base) (AliasShape base None) types w1) (\<lambda>(n, types'). Inr (n, types', w1)))"
    if "type_id types w = Inr (base, w1)" for base w1
    using type_id_ok [OF that assms(1)] assms by (intro entered_push) simp_all
  then show ?thesis unfolding unbounded_entry_def by (auto intro!: entered_read [of "type_id types w"] simp: Let_def)
qed

text \<open>An entry may name its node after it was pushed.\<close>

lemma named_ok:
  assumes "types_ok types" and "name < length (ts_strings types)"
  shows "types_ok (types\<lparr>ts_nodes := (ts_nodes types)[n := (ts_nodes types ! n)\<lparr>ty_name := name\<rparr>]\<rparr>)"
proof -
  have eq: "(ts_nodes types)[n := x] ! m = (if n = m then x else ts_nodes types ! m)" if "m < length (ts_nodes types)" for m x
    using that by (auto simp: nth_list_update)
  show ?thesis using assms by (simp add: types_ok_def node_ok_def eq)
qed

text \<open>
  An entry leaves the strings and the numbering of the types as they are and answers a node
  of the table.
\<close>

definition entry_ok :: "types \<Rightarrow> error + nat \<times> types \<times> wire \<Rightarrow> bool" where
  "entry_ok types r \<longleftrightarrow>
    (case r of
       Inl _ \<Rightarrow> True
     | Inr (n, types', _) \<Rightarrow>
         types_ok types' \<and> n < length (ts_nodes types') \<and> ts_strings types' = ts_strings types \<and>
         ts_source_ids types' = ts_source_ids types)"

lemma entered_entry: "entered types r \<Longrightarrow> entry_ok types r"
  by (auto simp: entered_def entry_ok_def types_grown_def split: sum.splits)

lemma bounds_entry_ok:
  assumes "types_ok types" and "name < length (ts_strings types)"
  shows "\<exists>r. bounds_entry tag name types w = Some r \<and> entry_ok types r"
proof (cases "type_id types w")
  case (Inl e)
  then show ?thesis by (simp add: bounds_entry_def opt_then_def entry_ok_def)
next
  case (Inr p)
  obtain base w1 where p: "p = (base, w1)" by (cases p)
  have base: "base < length (ts_nodes types)" using type_id_ok Inr p assms(1) by blast
  note run = constrain_is_descent [OF assms(1) base, of w1]
  show ?thesis
  proof (cases "constrained (Suc base) types base w1")
    case (Inl e)
    with run show ?thesis
      by (simp add: bounds_entry_def opt_then_def entry_ok_def Inr p Let_def del: constrained.simps)
  next
    case (Inr c)
    obtain n types' w2 where c: "c = (n, types', w2)" by (cases c)
    have "descended types types' w1 w2 \<and> n < length (ts_nodes types') \<and> bounded types' n"
      using constrained_ok(1) [OF _ assms(1) base] Inr c by blast
    then have "types_ok types'" "n < length (ts_nodes types')" "ts_strings types' = ts_strings types"
      "ts_source_ids types' = ts_source_ids types" by (auto simp: descended_def types_grown_def)
    with run Inr c named_ok [of types' name n] assms(2) show ?thesis
      by (simp add: bounds_entry_def opt_then_def entry_ok_def \<open>type_id types w = Inr p\<close> p Let_def
          del: constrained.simps)
  qed
qed

lemma type_entry_ok:
  assumes "types_ok types"
  shows "\<exists>r. type_entry types w = Some r \<and> entry_ok types r"
proof (cases "w_byte w")
  case (Inl e)
  then show ?thesis by (simp add: type_entry_def opt_then_def entry_ok_def)
next
  case (Inr p)
  obtain b w1 where p: "p = (b, w1)" by (cases p)
  show ?thesis
  proof (cases "string_id types w1")
    case (Inl e)
    then show ?thesis by (simp add: type_entry_def opt_then_def entry_ok_def Inr p Let_def)
  next
    case (Inr q)
    obtain name w2 where q: "q = (name, w2)" by (cases q)
    have "name < length (ts_strings types)" using string_id_ok Inr q by blast
    note ok = bounds_entry_ok [OF assms this] entered_entry [OF scalar_entry_ok [OF assms this]]
      entered_entry [OF range_entry_ok [OF assms this]] entered_entry [OF array_entry_ok [OF assms this]]
      entered_entry [OF record_entry_ok [OF assms this]] entered_entry [OF unbounded_entry_ok [OF assms this]]
    show ?thesis
      using ok by (simp add: type_entry_def opt_then_def \<open>w_byte w = Inr p\<close> p Inr q Let_def entry_ok_def [of _ "Inl _"])
  qed
qed

definition table_ok :: "types \<Rightarrow> (error + types \<times> wire) option \<Rightarrow> bool" where
  "table_ok types r \<longleftrightarrow>
    (case r of
       None \<Rightarrow> False
     | Some (Inl _) \<Rightarrow> True
     | Some (Inr (types', _)) \<Rightarrow> types_ok types' \<and> ts_strings types' = ts_strings types)"

lemma type_entries_ok: "types_ok types \<Longrightarrow> table_ok types (type_entries n types w)"
proof (induction n arbitrary: types w)
  case 0
  then show ?case by (simp add: table_ok_def)
next
  case (Suc n)
  obtain r where r: "type_entry types w = Some r" "entry_ok types r" using type_entry_ok [OF Suc.prems] by blast
  show ?case
  proof (cases r)
    case (Inl e)
    with r show ?thesis by (simp add: opt_then_def table_ok_def)
  next
    case (Inr c)
    obtain node types' w' where c: "c = (node, types', w')" by (cases c)
    with r(2) Inr have ok: "types_ok (types'\<lparr>ts_source_ids := ts_source_ids types' @ [node]\<rparr>)"
      "ts_strings types' = ts_strings types" by (auto simp: entry_ok_def types_ok_def)
    from Suc.IH [OF ok(1), of w'] ok(2) show ?thesis
      by (auto simp: opt_then_def r Inr c table_ok_def split: option.splits sum.splits)
  qed
qed

lemma pool_strings_grow:
  "pool_strings n limit strings p prefix used w = Inr ((strings', prefix'), w') \<Longrightarrow> \<exists>more. strings' = strings @ more"
  by (induction n arbitrary: strings p prefix used w) (auto split: if_splits, fastforce)

lemma table_then: "(\<And>x. r = Inr x \<Longrightarrow> table_ok types (f x)) \<Longrightarrow> table_ok types (opt_then (Some r) f)"
  by (cases r) (simp_all add: opt_then_def table_ok_def)

lemma table_then_entries:
  assumes "table_ok types r" and "\<And>types' w'. types_ok types' \<Longrightarrow> ts_strings types' = ts_strings types \<Longrightarrow> table_ok types (f (types', w'))"
  shows "table_ok types (opt_then r f)"
proof (cases r)
  case (Some x)
  show ?thesis
  proof (cases x)
    case (Inr y)
    with assms(1) Some have "types_ok (fst y)" "ts_strings (fst y) = ts_strings types"
      by (auto simp: table_ok_def split: prod.splits)
    from assms(2) [OF this, of "snd y"] show ?thesis by (simp add: Some Inr opt_then_def)
  qed (simp add: Some opt_then_def table_ok_def)
qed (use assms(1) in \<open>simp add: table_ok_def\<close>)

text \<open>
  C31: the type table of every input is read to an end, whatever its bytes are, and a table that
  is accepted is well formed: every reference of a node names a string of the table or an
  earlier node, every enumeration has between 1 and 256 literals, and every number of a source
  type names a node.
\<close>

theorem type_tables_are_read:
  "case w_strings w of
     Inl _ \<Rightarrow> True
   | Inr (strings, w1) \<Rightarrow>
       (case types_read strings w1 of
          None \<Rightarrow> False
        | Some (Inl _) \<Rightarrow> True
        | Some (Inr (types, _)) \<Rightarrow> types_ok types \<and> ts_strings types = strings)"
proof (cases "w_strings w")
  case (Inr p)
  obtain strings w1 where p: "p = (strings, w1)" by (cases p)
  with Inr have ne: "strings \<noteq> []" by (auto simp: w_strings_def dest!: pool_strings_grow split: if_splits)
  let ?types = "\<lparr>ts_strings = strings, ts_nodes = [], ts_source_ids = []\<rparr>"
  have "types_ok ?types" using ne by (simp add: types_ok_def)
  then have ok: "table_ok ?types (type_entries n ?types w3)" for n w3 by (rule type_entries_ok)
  have "table_ok ?types (types_read strings w1)"
    unfolding types_read_def
  proof (rule table_then, rule table_then, rule table_then, clarify)
    fix n w3
    show "table_ok ?types
        (if (w_len w3 - w_offset w3) div 2 < n
         then Some (Inl (ghw_malformed w3 ''type count exceeds remaining input''))
         else opt_then (type_entries n ?types w3) (\<lambda>(types, w4). opt_then (Some (w_byte w4)) (\<lambda>(b, w5).
           if b \<noteq> nul then Some (Inl (ghw_malformed w5 ''missing type table terminator''))
           else Some (Inr (types, w5)))))"
    proof (cases "(w_len w3 - w_offset w3) div 2 < n")
      case False
      show ?thesis unfolding if_not_P [OF False]
        by (rule table_then_entries [OF ok], unfold prod.case, rule table_then) (auto simp: table_ok_def)
    qed (simp add: table_ok_def)
  qed
  then show ?thesis by (auto simp: Inr p table_ok_def split: option.splits sum.splits)
qed simp

section \<open>Well-known types\<close>

text \<open>A marker only changes how an enumeration is read.\<close>

lemma wkt_entry_ok:
  assumes "wkt_entry marker types w = Inr (types', w')" and "types_ok types"
  shows "types_ok types' \<and> length (ts_nodes types') = length (ts_nodes types)"
proof -
  obtain n w1 where id: "type_id types w = Inr (n, w1)"
    using assms(1) by (cases "type_id types w") (auto simp: wkt_entry_def)
  then have n: "n < length (ts_nodes types)" using type_id_ok assms(2) by blast
  obtain storage literals units wkt where shape: "ty_shape (ts_nodes types ! n) = ScalarShape storage literals units wkt"
    using assms(1) by (cases "ty_shape (ts_nodes types ! n)") (auto simp: wkt_entry_def id)
  then have types': "types' = types\<lparr>ts_nodes := (ts_nodes types)
      [n := (ts_nodes types ! n)\<lparr>ty_shape := ScalarShape storage literals units marker\<rparr>]\<rparr>"
    using assms(1) by (auto simp: wkt_entry_def id split: if_splits)
  let ?x = "(ts_nodes types ! n)\<lparr>ty_shape := ScalarShape storage literals units marker\<rparr>"
  have "node_ok (length (ts_strings types)) n ?x"
    using types_ok_node [OF assms(2) n] shape by (simp add: node_ok_def)
  then have "node_ok (length (ts_strings types)) m ((ts_nodes types)[n := ?x] ! m)" if "m < length (ts_nodes types)" for m
    using types_ok_node [OF assms(2) that] by (cases "n = m") (simp_all add: that)
  with assms(2) show ?thesis by (simp add: types' types_ok_def)
qed

lemma wkt_entries_ok:
  "wkt_entries types w = Inr (types', w') \<Longrightarrow> types_ok types \<Longrightarrow> types_ok types'"
proof (induction types w arbitrary: types' w' rule: wkt_entries.induct)
  case (1 types w)
  from 1(2) obtain b w1 where b: "w_byte w = Inr (b, w1)" by (cases "w_byte w") (auto simp: wkt_entries.simps)
  show ?case
  proof (cases "byte b = 0")
    case True
    with 1(2,3) b show ?thesis by (simp add: wkt_entries.simps [of types w])
  next
    case False
    with 1(2) b obtain types1 w2 where e: "\<not> 3 < byte b" "wkt_entry (byte b) types w1 = Inr (types1, w2)"
      "wkt_entries types1 w2 = Inr (types', w')"
      by (auto simp: wkt_entries.simps [of types w] Let_def split: if_splits sum.splits)
    from 1(1) [OF b refl refl False e(1,2) refl e(3)] wkt_entry_ok [OF e(2) 1(3)] show ?thesis by blast
  qed
qed

lemma types_wkt_ok: "types_wkt types w = Inr (types', w') \<Longrightarrow> types_ok types \<Longrightarrow> types_ok types'"
  by (auto simp: types_wkt_def dest: wkt_entries_ok)

end
