(* ===== verification/Ondas_Ghw_Body.thy ===== *)
theory Ondas_Ghw_Body
  imports Ondas_Ghw_Graph Ondas_Time
begin

text \<open>
  The body of a GHW file (\<^verbatim>\<open>src/src/backends/ghw/body.rs\<close>): snapshots, cycles, the directory
  and the tailer. The visitor is the list of events it would get; a visitor that breaks sees
  a prefix of that list. A phase is what a part of the walk ends in: an error, the end of
  the traversal with the clock at that point, or a value to go on with.
\<close>

section \<open>Events\<close>

datatype scalar_value = Ordinal nat | IntegerValue int | RealValue u64

datatype event =
  ScalarEvent nat nat time nat scalar_value bool nat
| ListEnd time
| TickEvent time

definition no_route :: nat where
  "no_route = 4294967295"

definition window_record :: nat where
  "window_record = 15"

text \<open>A time of the body is an \<open>i64\<close>; \<open>as u64\<close> wraps.\<close>

definition time_at :: "int \<Rightarrow> time" where
  "time_at t = Time (word_of_int t)"

record clock =
  ck_current :: "int option"
  ck_first :: "int option"

definition clock_start :: clock where
  "clock_start = \<lparr>ck_current = None, ck_first = None\<rparr>"

definition clock_span :: "clock \<Rightarrow> time_span option" where
  "clock_span c =
    Option.bind (ck_first c) (\<lambda>f. Option.bind (ck_current c) (\<lambda>t.
      Some \<lparr>span_first = time_at f, span_last = time_at t\<rparr>))"

datatype 'a phase = Failed error | Ended clock | More 'a

type_synonym 'a ghw_run = "event list \<times> 'a phase"

definition proceed :: "'a ghw_run \<Rightarrow> ('a \<Rightarrow> 'b ghw_run) \<Rightarrow> 'b ghw_run" where
  "proceed r f =
    (case snd r of
       Failed e \<Rightarrow> (fst r, Failed e)
     | Ended c \<Rightarrow> (fst r, Ended c)
     | More x \<Rightarrow> (fst r @ fst (f x), snd (f x)))"

definition reading :: "error + 'a \<Rightarrow> 'a ghw_run" where
  "reading r = ([], case r of Inl e \<Rightarrow> Failed e | Inr x \<Rightarrow> More x)"

lemma proceed_cong [fundef_cong]:
  "r = r' \<Longrightarrow> (\<And>x. snd r' = More x \<Longrightarrow> f x = f' x) \<Longrightarrow> proceed r f = proceed r' f'"
  by (cases r'; cases "snd r'") (auto simp: proceed_def)

lemma proceed_simps [simp]:
  "proceed (evs, Failed e) f = (evs, Failed e)"
  "proceed (evs, Ended c) f = (evs, Ended c)"
  "proceed (evs, More x) f = (evs @ fst (f x), snd (f x))"
  by (simp_all add: proceed_def)

lemma reading_simps [simp]: "reading (Inl e) = ([], Failed e)" "reading (Inr x) = ([], More x)"
  by (simp_all add: reading_def)

lemma proceed_More [simp]:
  "snd (proceed r f) = More y \<longleftrightarrow> (\<exists>x. snd r = More x \<and> snd (f x) = More y)"
  by (cases r; cases "snd r") (auto simp: proceed_def)

lemma reading_More [simp]: "snd (reading r) = More x \<longleftrightarrow> r = Inr x"
  by (cases r) auto

section \<open>Values\<close>

definition w_scalar :: "types \<Rightarrow> nat \<Rightarrow> wire \<Rightarrow> error + scalar_value \<times> wire" where
  "w_scalar types n w =
    and_then (ok_or (ghw_malformed w ''non-scalar body type'') (type_scalar types n)) (\<lambda>(storage, literals, _).
      if storage = B2 \<or> storage = E8 then
        and_then (w_byte w) (\<lambda>(b, w').
          if length literals \<le> byte b
          then Inl (ghw_malformed w' ''body enum ordinal exceeds base literals'')
          else Inr (Ordinal (byte b), w'))
      else if storage = I32 \<or> storage = P32 then and_then (w_sleb 32 w) (\<lambda>(v, w'). Inr (IntegerValue v, w'))
      else if storage = I64 \<or> storage = P64 then and_then (w_sleb 64 w) (\<lambda>(v, w'). Inr (IntegerValue v, w'))
      else and_then (w_real_bits w) (\<lambda>(v, w'). Inr (RealValue v, w')))"

text \<open>One value of a window; \<open>None\<close> leaves the field to the checked reader.\<close>

definition window_value :: "string \<Rightarrow> types \<Rightarrow> bool \<Rightarrow> nat \<Rightarrow> (scalar_value \<times> nat) option" where
  "window_value bytes types big n =
    Option.bind (type_scalar types n) (\<lambda>(storage, literals, _).
      if storage = B2 \<or> storage = E8 then
        (case bytes of
           [] \<Rightarrow> None
         | b # _ \<Rightarrow> if length literals \<le> byte b then None else Some (Ordinal (byte b), 1))
      else if storage = I32 \<or> storage = P32 then
        map_option (\<lambda>(v, n). (IntegerValue v, n)) (decode_sleb bytes 32)
      else if storage = I64 \<or> storage = P64 then
        map_option (\<lambda>(v, n). (IntegerValue v, n)) (decode_sleb bytes 64)
      else if length bytes < 8 then None
      else Some (RealValue (word_of_nat (from_order big (take 8 bytes))), 8))"

definition enter :: "int \<Rightarrow> time \<Rightarrow> wire \<Rightarrow> clock \<Rightarrow> clock ghw_run" where
  "enter next stop w c =
    (if next < 0 \<or> (case ck_current c of None \<Rightarrow> False | Some previous \<Rightarrow> next < previous)
     then ([], Failed (ghw_malformed w ''negative or backward body time''))
     else
       (case ck_current c of
          None \<Rightarrow> []
        | Some previous \<Rightarrow> if previous < next then [TickEvent (time_at previous)] else [],
        if ticks stop < ticks (time_at next) then Ended c
        else More \<lparr>ck_current = Some next, ck_first = Some (case ck_first c of None \<Rightarrow> next | Some f \<Rightarrow> f)\<rparr>))"

section \<open>Snapshots\<close>

type_synonym active = "(nat \<times> nat) list"

fun snapshot_values :: "types \<Rightarrow> time \<Rightarrow> active \<Rightarrow> nat \<Rightarrow> wire \<Rightarrow> wire ghw_run" where
  "snapshot_values types time [] rank w = ([], More w)"
| "snapshot_values types time ((n, ty) # active) rank w =
    proceed (reading (w_scalar types ty w)) (\<lambda>(v, w').
    proceed ([ScalarEvent n rank time (w_offset w) v False no_route], More w') (\<lambda>w'.
      snapshot_values types time active (rank + 1) w'))"

definition snapshot_section :: "types \<Rightarrow> active \<Rightarrow> time \<Rightarrow> clock \<Rightarrow> wire \<Rightarrow> (clock \<times> wire) ghw_run" where
  "snapshot_section types active stop c w =
    proceed (reading (w_zeros w)) (\<lambda>w1.
    proceed (reading (w_i64 w1)) (\<lambda>(time, w2).
    proceed (enter time stop w2 c) (\<lambda>c'.
    proceed (snapshot_values types (time_at time) active 0 w2) (\<lambda>w3.
    proceed (reading (w_marker (section_name ''ESN'') w3)) (\<lambda>w4.
      ([ListEnd (time_at time)], More (c', w4)))))))"

section \<open>Cycles\<close>

text \<open>
  The records a window covers completely: the events, the rank reached and the bytes decoded.
\<close>

lemma window_uleb_pos: "window_uleb bytes = Some (v, n) \<Longrightarrow> 0 < n"
  using window_uleb_reads by (simp add: window_reads_def)

function bulk ::
    "types \<Rightarrow> active \<Rightarrow> time \<Rightarrow> bool \<Rightarrow> nat \<Rightarrow> string \<Rightarrow> nat \<Rightarrow> nat \<Rightarrow> event list \<times> nat \<times> nat" where
  "bulk types active time big base bytes rank consumed =
    (if window_record \<le> length bytes - consumed then
       (case window_uleb (drop consumed bytes) of
          None \<Rightarrow> ([], rank, consumed)
        | Some (delta, width) \<Rightarrow>
            if delta = 0 \<or> usize_max < rank + unat delta \<or> length active \<le> rank + unat delta - 1
            then ([], rank, consumed)
            else
              (let next_rank = rank + unat delta;
                   (n, ty) = active ! (next_rank - 1)
               in case window_value (drop (consumed + width) bytes) types big ty of
                    None \<Rightarrow> ([], rank, consumed)
                  | Some (v, len) \<Rightarrow>
                      let (evs, out) = bulk types active time big base bytes next_rank (consumed + width + len)
                      in (ScalarEvent n (next_rank - 1) time (base + (consumed + width)) v True no_route # evs, out)))
     else ([], rank, consumed))"
  by pat_completeness auto
termination
  by (relation "measure (\<lambda>(_, _, _, _, _, bytes, _, consumed). length bytes - consumed)")
    (auto dest!: window_uleb_pos simp: window_record_def)

declare bulk.simps [simp del]

text \<open>One record by the checked readers: the end of the list, or the rank it reached.\<close>

definition cycle_record :: "types \<Rightarrow> active \<Rightarrow> time \<Rightarrow> nat \<Rightarrow> wire \<Rightarrow> (wire + nat \<times> wire) ghw_run" where
  "cycle_record types active time rank w =
    proceed (reading (w_uleb w)) (\<lambda>(delta, w1).
      if delta = 0 then ([], More (Inl w1))
      else if usize_max < rank + unat delta
      then ([], Failed (ghw_malformed w1 ''cycle scalar rank overflow''))
      else if length active \<le> rank + unat delta - 1
      then ([], Failed (ghw_malformed w1 ''cycle scalar rank exceeds active table''))
      else
        (let rank' = rank + unat delta;
             (n, ty) = active ! (rank' - 1)
         in proceed (reading (w_scalar types ty w1)) (\<lambda>(v, w2).
              ([ScalarEvent n (rank' - 1) time (w_offset w1) v True no_route], More (Inr (rank', w2))))))"

lemma scalar_consumes [consumed]: "w_scalar types n w = Inr (v, w') \<Longrightarrow> consumes w w'"
  by (auto simp: w_scalar_def dest: byte_consumes sleb_consumes real_bits_consumes split: if_splits)

lemma uleb_shorter:
  assumes "w_uleb w = Inr (v, w')"
  shows "length (w_bytes w') < length (w_bytes w)"
proof -
  obtain b w1 where b: "w_byte w = Inr (b, w1)" using assms by (auto simp: w_uleb_def)
  then have "consumes w1 w'"
    using assms by (auto simp: w_uleb_def dest: uleb_continued_consumes split: if_splits)
  with byte_shorter [OF b] show ?thesis by (auto dest: consumes_shorter)
qed

lemma sleb_shorter:
  assumes "w_sleb bits w = Inr (v, w')"
  shows "length (w_bytes w') < length (w_bytes w)"
proof -
  have "0 < (bits + 6) div 7" using assms by (auto simp: w_sleb_def sleb_groups.simps [of bits 0] split: if_splits)
  then obtain b w1 where b: "w_byte w = Inr (b, w1)"
    using assms by (auto simp: w_sleb_def sleb_groups.simps [of bits 0])
  then have "consumes w1 w'"
    using assms by (auto simp: w_sleb_def sleb_groups.simps [of bits 0] dest: sleb_groups_consumes split: if_splits)
  with byte_shorter [OF b] show ?thesis by (auto dest: consumes_shorter)
qed

lemma cycle_record_Inl:
  "snd (cycle_record types active time rank w) = More (Inl w') \<Longrightarrow>
    consumes w w' \<and> length (w_bytes w') < length (w_bytes w)"
  by (auto simp: cycle_record_def Let_def dest: uleb_consumes uleb_shorter split: if_splits prod.splits)

lemma cycle_record_Inr:
  assumes "snd (cycle_record types active time rank w) = More (Inr (rank', w'))"
  shows "consumes w w' \<and> length (w_bytes w') < length (w_bytes w)"
proof -
  obtain delta w1 n ty v where "w_uleb w = Inr (delta, w1)" "w_scalar types ty w1 = Inr (v, w')"
    using assms by (auto simp: cycle_record_def Let_def split: if_splits prod.splits)
  then have "consumes w w1" "length (w_bytes w1) < length (w_bytes w)" "consumes w1 w'"
    by (simp_all add: uleb_consumes uleb_shorter scalar_consumes)
  with consumes_trans [of w w1 w'] consumes_shorter [of w1 w'] show ?thesis by simp
qed

lemma window_shorter:
  assumes "w_window w = Inr bytes" and "0 < n" and "n \<le> length bytes"
  shows "length (w_bytes (w_consume n w)) < length (w_bytes w)"
proof -
  have "eats w (take n bytes) (w_consume n w)" using assms(1,3) by (rule eats_consume)
  then have "length (w_bytes w) = length (take n bytes @ w_bytes (w_consume n w))" by (simp only: eats_def)
  with assms(2,3) show ?thesis by simp
qed


text \<open>A value of a window is the value the checked reader reads there.\<close>

definition window_answers ::
    "(wire \<Rightarrow> error + 'a \<times> wire) \<Rightarrow> bool \<Rightarrow> 'a \<Rightarrow> string \<Rightarrow> nat \<Rightarrow> bool" where
  "window_answers reader big v bytes n \<longleftrightarrow>
    0 < n \<and> n \<le> length bytes \<and>
    (\<forall>w rest. w_bytes w = bytes @ rest \<longrightarrow> w_big w = big \<longrightarrow>
      (\<exists>w'. reader w = Inr (v, w') \<and> eats w (take n bytes) w'))"

lemma window_reads_answers: "window_reads reader v bytes 0 n \<Longrightarrow> window_answers reader big v bytes n"
  by (simp add: window_reads_def window_answers_def)

lemma window_answers_map:
  assumes "window_answers reader big v bytes n"
    and "\<And>w. reader' w = and_then (reader w) (\<lambda>(v, w'). Inr (f v, w'))"
  shows "window_answers reader' big (f v) bytes n"
proof -
  have "\<exists>w'. reader' w = Inr (f v, w') \<and> eats w (take n bytes) w'" if w: "w_bytes w = bytes @ rest" "w_big w = big" for w rest
  proof -
    obtain w' where "reader w = Inr (v, w')" "eats w (take n bytes) w'" using assms(1) w unfolding window_answers_def by blast
    then show ?thesis by (simp add: assms(2))
  qed
  with assms(1) show ?thesis unfolding window_answers_def by blast
qed

lemma window_uleb_answers: "window_uleb bytes = Some (v, n) \<Longrightarrow> window_answers w_uleb big v bytes n"
  by (intro window_reads_answers window_uleb_reads)

lemma window_value_answers:
  assumes "window_value bytes types big ty = Some (v, n)"
  shows "window_answers (w_scalar types ty) big v bytes n"
proof -
  obtain storage literals wkt where ty: "type_scalar types ty = Some (storage, literals, wkt)"
    using assms by (cases "type_scalar types ty") (auto simp: window_value_def)
  consider "storage = B2 \<or> storage = E8" | "storage = I32 \<or> storage = P32" | "storage = I64 \<or> storage = P64"
    | "storage = F64" by (cases storage) simp_all
  then show ?thesis
  proof cases
    case 1
    with assms ty obtain b bytes' where b: "bytes = b # bytes'" "\<not> length literals \<le> byte b" "v = Ordinal (byte b)" "n = 1"
      by (auto simp: window_value_def split: list.splits if_splits)
    have "\<exists>w'. w_scalar types ty w = Inr (v, w') \<and> eats w (take n bytes) w'" if "w_bytes w = bytes @ rest" for w rest
      using w_byte_Cons [of w b "bytes' @ rest"] that 1 ty b by (auto simp: w_scalar_def)
    then show ?thesis using b by (simp add: window_answers_def)
  next
    case 2
    with assms ty obtain x where x: "decode_sleb bytes 32 = Some (x, n)" "v = IntegerValue x"
      by (auto simp: window_value_def)
    have "w_scalar types ty w = and_then (w_sleb 32 w) (\<lambda>(v, w'). Inr (IntegerValue v, w'))" for w
      using 2 by (auto simp: w_scalar_def ty)
    from window_answers_map [OF window_reads_answers [OF decode_sleb_reads [OF x(1)]] this] x(2) show ?thesis by simp
  next
    case 3
    with assms ty obtain x where x: "decode_sleb bytes 64 = Some (x, n)" "v = IntegerValue x"
      by (auto simp: window_value_def)
    have "w_scalar types ty w = and_then (w_sleb 64 w) (\<lambda>(v, w'). Inr (IntegerValue v, w'))" for w
      using 3 by (auto simp: w_scalar_def ty)
    from window_answers_map [OF window_reads_answers [OF decode_sleb_reads [OF x(1)]] this] x(2) show ?thesis by simp
  next
    case 4
    with assms ty have n: "8 \<le> length bytes" "n = 8" and v: "v = RealValue (word_of_nat (from_order big (take 8 bytes)))"
      by (simp_all add: window_value_def split: if_splits)
    have "\<exists>w'. w_scalar types ty w = Inr (v, w') \<and> eats w (take n bytes) w'"
      if w: "w_bytes w = bytes @ rest" "w_big w = big" for w rest
    proof -
      have "w_bytes w = take 8 bytes @ drop 8 bytes @ rest" using w(1) by simp
      then obtain w' where "w_fixed 8 w = Inr (take 8 bytes, w')" "eats w (take 8 bytes) w'"
        using w_fixed_append n(1) by (metis length_take min.absorb2)
      then show ?thesis using 4 by (simp add: w_scalar_def ty w_real_bits_def w(2) v n(2))
    qed
    with n show ?thesis by (simp add: window_answers_def)
  qed
qed

text \<open>One step of the bulk loop, or its end.\<close>

lemma bulk_cases:
  obtains (ends) "bulk types active time big base bytes rank k = ([], rank, k)"
  | (one) delta width n ty v len evs rank' k' where "window_uleb (drop k bytes) = Some (delta, width)" "delta \<noteq> 0"
      "\<not> usize_max < rank + unat delta" "\<not> length active \<le> rank + unat delta - 1" "active ! (rank + unat delta - 1) = (n, ty)"
      "window_value (drop (k + width) bytes) types big ty = Some (v, len)"
      "bulk types active time big base bytes (rank + unat delta) (k + width + len) = (evs, rank', k')"
      "bulk types active time big base bytes rank k =
        (ScalarEvent n (rank + unat delta - 1) time (base + (k + width)) v True no_route # evs, rank', k')"
proof (cases "bulk types active time big base bytes rank k = ([], rank, k)")
  case False
  have win: "window_record \<le> length bytes - k"
    by (rule ccontr) (use False in \<open>simp add: bulk.simps [of _ _ _ _ _ _ _ k]\<close>)
  with False obtain delta width where u: "window_uleb (drop k bytes) = Some (delta, width)"
    by (cases "window_uleb (drop k bytes)") (auto simp: bulk.simps [of _ _ _ _ _ _ _ k])
  with False win have ok: "\<not> (delta = 0 \<or> usize_max < rank + unat delta \<or> length active \<le> rank + unat delta - 1)"
    by (auto simp: bulk.simps [of _ _ _ _ _ _ _ k])
  obtain n ty where a: "active ! (rank + unat delta - 1) = (n, ty)" by (cases "active ! (rank + unat delta - 1)")
  with False win u ok obtain v len where v: "window_value (drop (k + width) bytes) types big ty = Some (v, len)"
    by (cases "window_value (drop (k + width) bytes) types big ty") (auto simp: bulk.simps [of _ _ _ _ _ _ _ k] Let_def)
  obtain evs rank' k' where b: "bulk types active time big base bytes (rank + unat delta) (k + width + len) = (evs, rank', k')"
    by (cases "bulk types active time big base bytes (rank + unat delta) (k + width + len)")
  then have "bulk types active time big base bytes rank k =
      (ScalarEvent n (rank + unat delta - 1) time (base + (k + width)) v True no_route # evs, rank', k')"
    using win u ok a v by (simp add: bulk.simps [of _ _ _ _ _ _ _ k] Let_def)
  with u ok a v b show ?thesis by (intro one) simp_all
qed (rule ends)

lemma bulk_bounds:
  "bulk types active time big base bytes rank k = (evs, rank', n) \<Longrightarrow> k \<le> length bytes \<Longrightarrow> k \<le> n \<and> n \<le> length bytes"
proof (induction "length bytes - k" arbitrary: rank k evs rule: less_induct)
  case less
  show ?case
  proof (cases rule: bulk_cases [of types active time big base bytes rank k])
    case ends
    with less.prems show ?thesis by simp
  next
    case (one delta width m ty v len evs' rank1 k')
    have w: "0 < width" "width \<le> length bytes - k" using window_uleb_reads [OF one(1)] by (simp_all add: window_reads_def)
    have "len \<le> length bytes - (k + width)" using window_value_answers [OF one(6)] by (simp add: window_answers_def)
    then have "length bytes - (k + width + len) < length bytes - k" "k + width + len \<le> length bytes" using w less.prems(2) by simp_all
    moreover have "rank' = rank1" "n = k'" using one(8) less.prems(1) by simp_all
    ultimately have "k + width + len \<le> n \<and> n \<le> length bytes" using less.hyps one(7) by blast
    then show ?thesis by simp
  qed
qed

lemma bulk_shorter:
  assumes "w_window w = Inr bytes" and "(evs, p) = bulk types active time (w_big w) (w_offset w) bytes rank 0"
    and "(rank', n) = p" and "0 < n"
  shows "length (w_bytes (w_consume n w)) < length (w_bytes w)"
proof -
  have "bulk types active time (w_big w) (w_offset w) bytes rank 0 = (evs, rank', n)" using assms(2,3) by simp
  from bulk_bounds [OF this] show ?thesis using assms(1,4) by (intro window_shorter) simp_all
qed

lemma record_shorter:
  assumes "w_window w = Inr bytes" and "snd (cycle_record types active time rank (w_consume 0 w)) = More (Inr (rank', w'))"
  shows "length (w_bytes w') < length (w_bytes w)"
proof -
  have "eats w (take 0 bytes) (w_consume 0 w)" using assms(1) by (intro eats_consume) simp_all
  with cycle_record_Inr [OF assms(2)] show ?thesis by (simp add: eats_def)
qed

function cycle_list :: "types \<Rightarrow> active \<Rightarrow> time \<Rightarrow> nat \<Rightarrow> wire \<Rightarrow> wire ghw_run" where
  "cycle_list types active time rank w =
    (case w_window w of
       Inl e \<Rightarrow> ([], Failed e)
     | Inr bytes \<Rightarrow>
         (case bulk types active time (w_big w) (w_offset w) bytes rank 0 of
            (evs, rank', n) \<Rightarrow>
              proceed (evs, More ()) (\<lambda>_.
                if n \<noteq> 0 then cycle_list types active time rank' (w_consume n w)
                else
                  proceed (cycle_record types active time rank' (w_consume 0 w)) (\<lambda>r.
                    case r of
                      Inl w' \<Rightarrow> ([], More w')
                    | Inr (rank'', w') \<Rightarrow> cycle_list types active time rank'' w'))))"
  by pat_completeness auto
termination
  by (relation "measure (\<lambda>(_, _, _, _, w). length (w_bytes w))") (auto intro: bulk_shorter record_shorter)

declare cycle_list.simps [simp del]


definition shrinks :: "wire \<Rightarrow> wire \<Rightarrow> bool" where
  "shrinks w w' \<longleftrightarrow> consumes w w' \<and> length (w_bytes w') < length (w_bytes w)"

lemma shrinks_after: "consumes a b \<Longrightarrow> shrinks b c \<Longrightarrow> shrinks a c"
  using consumes_shorter [of a b] by (auto simp: shrinks_def intro: consumes_trans)

lemma shrinks_before: "shrinks a b \<Longrightarrow> consumes b c \<Longrightarrow> shrinks a c"
  using consumes_shorter [of b c] by (auto simp: shrinks_def intro: consumes_trans)

lemma cycle_list_shorter:
  "snd (cycle_list types active time rank w) = More w' \<Longrightarrow> shrinks w w'"
proof (induction types active time rank w rule: cycle_list.induct)
  case (1 types active time rank w)
  from 1(3) obtain bytes where bytes: "w_window w = Inr bytes"
    by (cases "w_window w") (auto simp: cycle_list.simps [of types])
  obtain es rank' n where b: "bulk types active time (w_big w) (w_offset w) bytes rank 0 = (es, rank', n)"
    by (cases "bulk types active time (w_big w) (w_offset w) bytes rank 0")
  have n: "n \<le> length bytes" using bulk_bounds [OF b] by simp
  have eat: "consumes w (w_consume n w)"
    unfolding consumes_def by (rule exI [of _ "take n bytes"]) (rule eats_consume [OF bytes n])
  show ?case
  proof (cases "n = 0")
    case False
    with 1(3) bytes b have "snd (cycle_list types active time rank' (w_consume n w)) = More w'"
      by (simp add: cycle_list.simps [of types _ _ rank])
    from eat 1(1) [OF bytes b [symmetric] refl _ False this] show ?thesis by (auto intro: shrinks_after)
  next
    case True
    note b0 = b [unfolded True]
    from 1(3) bytes b0 obtain r where r: "snd (cycle_record types active time rank' (w_consume 0 w)) = More r"
      "snd (case r of Inl w' \<Rightarrow> ([], More w') | Inr (rank'', w') \<Rightarrow> cycle_list types active time rank'' w') = More w'"
      by (auto simp: cycle_list.simps [of types _ _ rank])
    show ?thesis
    proof (cases r)
      case (Inl w1)
      with r cycle_record_Inl [of types active time rank' "w_consume 0 w" w'] have "shrinks (w_consume 0 w) w'"
        by (simp add: shrinks_def)
      with eat True show ?thesis by (auto intro: shrinks_after)
    next
      case (Inr p)
      obtain rank'' w1 where p: "p = (rank'', w1)" by (cases p)
      have rec: "snd (cycle_record types active time rank' (w_consume 0 w)) = More (Inr (rank'', w1))" using r Inr p by simp
      have "snd (cycle_list types active time rank'' w1) = More w'" using r Inr p by simp
      from 1(2) [OF bytes b0 [symmetric] refl _ _ rec refl refl this]
      have "shrinks w1 w'" by simp
      moreover have "consumes (w_consume 0 w) w1" using cycle_record_Inr [OF rec] by simp
      ultimately show ?thesis using eat True by (auto intro: shrinks_after)
    qed
  qed
qed

function cycle_steps :: "types \<Rightarrow> active \<Rightarrow> time \<Rightarrow> int \<Rightarrow> clock \<Rightarrow> wire \<Rightarrow> (clock \<times> wire) ghw_run" where
  "cycle_steps types active stop time c w =
    proceed (cycle_list types active (time_at time) 0 w) (\<lambda>w1.
    proceed ([ListEnd (time_at time)], More w1) (\<lambda>w1.
    proceed (reading (w_sleb 64 w1)) (\<lambda>(delta, w2).
      if delta = - 1 then proceed (reading (w_marker (section_name ''ECY'') w2)) (\<lambda>w3. ([], More (c, w3)))
      else if delta < 0 then ([], Failed (ghw_malformed w2 ''negative cycle time increment''))
      else if 2 ^ 63 \<le> time + delta then ([], Failed (ghw_malformed w2 ''cycle time overflow''))
      else
        proceed (enter (time + delta) stop w2 c) (\<lambda>c'.
          cycle_steps types active stop (time + delta) c' w2))))"
  by pat_completeness auto
termination
  by (relation "measure (\<lambda>(_, _, _, _, _, w). length (w_bytes w))")
    (auto simp: shrinks_def dest!: cycle_list_shorter sleb_shorter)

declare cycle_steps.simps [simp del]

definition cycle_section :: "types \<Rightarrow> active \<Rightarrow> time \<Rightarrow> clock \<Rightarrow> wire \<Rightarrow> (clock \<times> wire) ghw_run" where
  "cycle_section types active stop c w =
    proceed (reading (w_i64 w)) (\<lambda>(time, w1).
    proceed (enter time stop w1 c) (\<lambda>c'. cycle_steps types active stop time c' w1))"

section \<open>The footer\<close>

definition descriptor :: "wire \<Rightarrow> error + wire" where
  "descriptor w =
    and_then (w_fixed 4 w) (\<lambda>(bytes, w').
      if bytes \<noteq> [if w_big w then CHR 0x02 else CHR 0x01, CHR 0x04, CHR 0x01, nul]
      then Inl (ghw_unsupported w' ''footer size/order layout'')
      else Inr w')"

fun directory_entries :: "nat \<Rightarrow> wire \<Rightarrow> error + wire" where
  "directory_entries 0 w = Inr w"
| "directory_entries (Suc n) w =
    and_then (w_fixed 4 w) (\<lambda>(name, w1).
      if name ! 3 \<noteq> nul \<or> \<not> list_all is_ascii_uppercase (take 3 name)
      then Inl (ghw_malformed w1 ''invalid directory section name'')
      else and_then (w_u32 w1) (\<lambda>(_, w2). directory_entries n w2))"

definition directory :: "wire \<Rightarrow> error + wire" where
  "directory w =
    and_then (descriptor w) (\<lambda>w1.
    and_then (w_count ''directory entry'' w1) (\<lambda>(n, w2).
      if (w_len w2 - w_offset w2) div 8 < n
      then Inl (ghw_malformed w2 ''directory count exceeds remaining input'')
      else and_then (directory_entries n w2) (w_marker (section_name ''EOD''))))"

definition tailer :: "wire \<Rightarrow> error + wire" where
  "tailer w =
    and_then (descriptor w) (\<lambda>w1.
    and_then (w_u32 w1) (\<lambda>(_, w2).
    and_then (at_eof w2) (\<lambda>eof.
      if \<not> eof then Inl (ghw_malformed w2 ''data after tailer'') else Inr w2)))"

section \<open>The walk\<close>

text \<open>
  \<open>String::from_utf8_lossy\<close>: a maximal prefix of a character that is not completed is
  replaced by U+FFFD.
\<close>

fun utf8_broken :: "string \<Rightarrow> nat" where
  "utf8_broken (a # b # c # s) =
    (if utf8_head (a # b # CHR 0x80 # CHR 0x80 # []) = 3 then 2
     else if utf8_head (a # b # CHR 0x80 # CHR 0x80 # []) = 4 then (if continuation c then 3 else 2)
     else 1)"
| "utf8_broken [a, b] =
    (if 3 \<le> utf8_head (a # b # CHR 0x80 # CHR 0x80 # []) then 2 else 1)"
| "utf8_broken _ = 1"

lemma utf8_broken_pos: "0 < utf8_broken s"
  by (induction s rule: utf8_broken.induct) auto

function from_utf8_lossy :: "string \<Rightarrow> string" where
  "from_utf8_lossy s =
    (if s = [] then []
     else if utf8_head s = 0
     then [CHR 0xEF, CHR 0xBF, CHR 0xBD] @ from_utf8_lossy (drop (utf8_broken s) s)
     else take (utf8_head s) s @ from_utf8_lossy (drop (utf8_head s) s))"
  by pat_completeness auto
termination
  by (relation "measure length") (auto simp: utf8_broken_pos)

declare from_utf8_lossy.simps [simp del]

definition current_tick :: "clock \<Rightarrow> event list" where
  "current_tick c = (case ck_current c of None \<Rightarrow> [] | Some t \<Rightarrow> [TickEvent (time_at t)])"

text \<open>
  One section behind its tag: the clock, whether the footer has begun, the input, and whether
  the walk is over.
\<close>

definition body_section ::
    "types \<Rightarrow> active \<Rightarrow> time \<Rightarrow> string \<Rightarrow> clock \<Rightarrow> bool \<Rightarrow> wire \<Rightarrow> (clock \<times> bool \<times> wire \<times> bool) ghw_run" where
  "body_section types active stop tag c footer w =
    (if (tag = section_name ''SNP'' \<or> tag = section_name ''CYC'') \<and> footer
     then ([], Failed (ghw_malformed w ''body section after footer''))
     else if tag = section_name ''SNP''
     then proceed (snapshot_section types active stop c w) (\<lambda>(c', w'). ([], More (c', footer, w', False)))
     else if tag = section_name ''CYC''
     then proceed (cycle_section types active stop c w) (\<lambda>(c', w'). ([], More (c', footer, w', False)))
     else if tag = section_name ''DIR''
     then
       if footer then ([], Failed (ghw_malformed w ''duplicate directory''))
       else
         proceed (current_tick c, More ()) (\<lambda>_.
         proceed (reading (directory w)) (\<lambda>w'. ([], More (c, True, w', False))))
     else if tag = section_name ''TAI''
     then
       proceed (if footer then [] else current_tick c, More ()) (\<lambda>_.
       proceed (reading (tailer w)) (\<lambda>w'. ([], More (c, True, w', True))))
     else if tag ! 3 \<noteq> nul then ([], Failed (ghw_malformed w ''invalid body section marker''))
     else ([], Failed (ghw_unsupported w (''body section '' @ from_utf8_lossy (take 3 tag)))))"

definition body_end :: "clock \<Rightarrow> bool \<Rightarrow> event list \<times> (error + time_span option)" where
  "body_end c footer = (if footer then [] else current_tick c, Inr (clock_span c))"


section \<open>Progress of the walk\<close>

lemma snapshot_values_consumes:
  "snd (snapshot_values types time active rank w) = More w' \<Longrightarrow> consumes w w'"
proof (induction active arbitrary: rank w)
  case (Cons a active)
  obtain n ty where a: "a = (n, ty)" by (cases a)
  from Cons.prems a obtain v w1 where v: "w_scalar types ty w = Inr (v, w1)"
    "snd (snapshot_values types time active (rank + 1) w1) = More w'" by auto
  from scalar_consumes [OF v(1)] Cons.IH [OF v(2)] show ?case by (rule consumes_trans)
qed simp

lemma snapshot_section_consumes:
  assumes "snd (snapshot_section types active stop c w) = More (c', w')"
  shows "consumes w w'"
proof -
  obtain w1 time w2 w3 where "w_zeros w = Inr w1" "w_i64 w1 = Inr (time, w2)"
    "snd (snapshot_values types (time_at time) active 0 w2) = More w3" "w_marker (section_name ''ESN'') w3 = Inr w'"
    using assms by (auto simp: snapshot_section_def)
  then have "consumes w w1" "consumes w1 w2" "consumes w2 w3" "consumes w3 w'"
    by (auto dest: zeros_consumes i64_consumes snapshot_values_consumes marker_consumes)
  then show ?thesis by (blast intro: consumes_trans)
qed

lemma cycle_steps_consumes:
  "snd (cycle_steps types active stop time c w) = More (c', w') \<Longrightarrow> consumes w w'"
proof (induction types active stop time c w rule: cycle_steps.induct)
  case (1 types active stop time c w)
  obtain w1 delta w2 where l: "snd (cycle_list types active (time_at time) 0 w) = More w1"
    and d: "w_sleb 64 w1 = Inr (delta, w2)"
    and rest: "snd (if delta = - 1 then proceed (reading (w_marker (section_name ''ECY'') w2)) (\<lambda>w3. ([], More (c, w3)))
      else if delta < 0 then ([], Failed (ghw_malformed w2 ''negative cycle time increment''))
      else if 2 ^ 63 \<le> time + delta then ([], Failed (ghw_malformed w2 ''cycle time overflow''))
      else
        proceed (enter (time + delta) stop w2 c) (\<lambda>c'.
          cycle_steps types active stop (time + delta) c' w2)) = More (c', w')"
    using 1(2) unfolding cycle_steps.simps [of types _ _ time] by auto
  have w2: "consumes w w2"
    using cycle_list_shorter [OF l] sleb_consumes [OF d] by (auto simp: shrinks_def intro: consumes_trans)
  show ?case
  proof (cases "delta = - 1")
    case True
    then have "w_marker (section_name ''ECY'') w2 = Inr w'" using rest by auto
    with w2 show ?thesis by (auto dest: marker_consumes intro: consumes_trans)
  next
    case False
    then have ok: "\<not> delta < 0" "\<not> 2 ^ 63 \<le> time + delta" using rest by (auto split: if_splits)
    with False rest obtain c1 where e: "snd (enter (time + delta) stop w2 c) = More c1"
      "snd (cycle_steps types active stop (time + delta) c1 w2) = More (c', w')" by auto
    from 1(1) [OF l _ _ refl False ok e(1) e(2), of w1] d w2 show ?thesis by (auto intro: consumes_trans)
  qed
qed

lemma cycle_section_consumes:
  assumes "snd (cycle_section types active stop c w) = More (c', w')"
  shows "consumes w w'"
proof -
  obtain time w1 c1 where "w_i64 w = Inr (time, w1)" "snd (cycle_steps types active stop time c1 w1) = More (c', w')"
    using assms by (auto simp: cycle_section_def)
  then show ?thesis by (auto dest: i64_consumes cycle_steps_consumes intro: consumes_trans)
qed

lemma descriptor_consumes: "descriptor w = Inr w' \<Longrightarrow> consumes w w'"
  by (auto simp: descriptor_def dest: fixed_consumes split: if_splits)

lemma directory_entries_consumes: "directory_entries n w = Inr w' \<Longrightarrow> consumes w w'"
proof (induction n arbitrary: w)
  case (Suc n)
  then obtain name w1 v w2 where "w_fixed 4 w = Inr (name, w1)" "w_u32 w1 = Inr (v, w2)" "directory_entries n w2 = Inr w'"
    by (auto split: if_splits)
  then show ?case using Suc.IH by (auto dest!: fixed_consumes u32_consumes intro: consumes_trans)
qed simp

lemma directory_consumes: "directory w = Inr w' \<Longrightarrow> consumes w w'"
proof -
  assume "directory w = Inr w'"
  then obtain w1 n w2 w3 where "descriptor w = Inr w1" "w_count ''directory entry'' w1 = Inr (n, w2)"
    "directory_entries n w2 = Inr w3" "w_marker (section_name ''EOD'') w3 = Inr w'"
    by (auto simp: directory_def split: if_splits)
  then have "consumes w w1" "consumes w1 w2" "consumes w2 w3" "consumes w3 w'"
    by (auto dest: descriptor_consumes count_consumes directory_entries_consumes marker_consumes)
  then show ?thesis by (blast intro: consumes_trans)
qed

lemma tailer_consumes: "tailer w = Inr w' \<Longrightarrow> consumes w w'"
  by (auto simp: tailer_def dest!: descriptor_consumes u32_consumes intro: consumes_trans split: if_splits)

lemma body_section_consumes:
  assumes "snd (body_section types active stop tag c footer w) = More (c', footer', w', over)"
  shows "consumes w w'"
  using assms unfolding body_section_def
  by (auto split: if_splits
      dest: snapshot_section_consumes cycle_section_consumes directory_consumes tailer_consumes)

lemma fixed_shorter: "w_fixed n w = Inr (x, w') \<Longrightarrow> 0 < n \<Longrightarrow> length (w_bytes w') < length (w_bytes w)"
  by (auto simp: eats_def dest!: w_fixed_Inr)

lemma section_shorter:
  assumes "w_fixed 4 w = Inr (tag, w1)" and "(evs, More (c', footer', w', over)) = body_section types active stop tag c footer w1"
  shows "length (w_bytes w') < length (w_bytes w)"
proof -
  have "snd (body_section types active stop tag c footer w1) = More (c', footer', w', over)"
    unfolding assms(2) [symmetric] by simp
  from consumes_shorter [OF body_section_consumes [OF this]] fixed_shorter [OF assms(1)] show ?thesis by simp
qed

function body_walk ::
    "types \<Rightarrow> active \<Rightarrow> time \<Rightarrow> clock \<Rightarrow> bool \<Rightarrow> wire \<Rightarrow> event list \<times> (error + time_span option)" where
  "body_walk types active stop c footer w =
    (case at_eof w of
       Inl e \<Rightarrow> ([], Inl e)
     | Inr eof \<Rightarrow>
         if eof then body_end c footer
         else
           (case w_fixed 4 w of
              Inl e \<Rightarrow> ([], Inl e)
            | Inr (tag, w1) \<Rightarrow>
                (case body_section types active stop tag c footer w1 of
                   (evs, Failed e) \<Rightarrow> (evs, Inl e)
                 | (evs, Ended c') \<Rightarrow> (evs, Inr (clock_span c'))
                 | (evs, More (c', footer', w', over)) \<Rightarrow>
                     let (evs', out) = (if over then body_end c' footer' else body_walk types active stop c' footer' w')
                     in (evs @ evs', out))))"
  by pat_completeness auto
termination
  by (relation "measure (\<lambda>(_, _, _, _, _, w). length (w_bytes w))") (auto intro: section_shorter)

declare body_walk.simps [simp del]

definition ghw_walk :: "wire \<Rightarrow> types \<Rightarrow> active \<Rightarrow> time \<Rightarrow> event list \<times> (error + time_span option)" where
  "ghw_walk w types active stop = body_walk types active stop clock_start False w"

end
