(* ===== verification/Ondas_Ghw_Bulk.thy ===== *)
theory Ondas_Ghw_Bulk
  imports Ondas_Ghw_Body
begin

text \<open>
  The bulk loop of the cycle records is an optimisation only: \<open>cycle_checked\<close> reads every
  record with the checked readers, and the walk with the bulk loop delivers the same events,
  offsets and errors. So the walk of a file depends on its bytes and not on the buffers they
  arrive in.
\<close>

section \<open>The same run\<close>

definition same_run :: "('a \<Rightarrow> 'b \<Rightarrow> bool) \<Rightarrow> 'a ghw_run \<Rightarrow> 'b ghw_run \<Rightarrow> bool" where
  "same_run R r r' \<longleftrightarrow> fst r = fst r' \<and> rel_phase R (snd r) (snd r')"

lemma same_run_simps [simp]:
  "same_run R (evs, More x) (evs', More y) \<longleftrightarrow> evs = evs' \<and> R x y"
  "same_run R (evs, Failed e) (evs', Failed e') \<longleftrightarrow> evs = evs' \<and> e = e'"
  "same_run R (evs, Ended c) (evs', Ended c') \<longleftrightarrow> evs = evs' \<and> c = c'"
  by (simp_all add: same_run_def)

lemma same_proceed:
  assumes "same_run R r r'" and "\<And>x y. snd r = More x \<Longrightarrow> R x y \<Longrightarrow> same_run S (f x) (f' y)"
  shows "same_run S (proceed r f) (proceed r' f')"
proof -
  obtain evs p evs' p' where r: "r = (evs, p)" "r' = (evs', p')" by (cases r; cases r')
  show ?thesis
  proof (cases p)
    case (More x)
    with assms(1) r obtain y where y: "p' = More y" "R x y" "evs' = evs" by (cases p') (auto simp: same_run_def)
    with assms(2) [of x y] r More show ?thesis by (simp add: same_run_def)
  qed (use assms(1) r in \<open>cases p'; simp add: same_run_def\<close>)+
qed

lemma same_reading: "same_out R r r' \<Longrightarrow> same_run R (reading r) (reading r')"
  by (cases r; cases r') auto

lemma same_reads:
  assumes "same_read r r'"
    and "\<And>x w v. r = Inr (x, w) \<Longrightarrow> same_wire w v \<Longrightarrow> same_run S (f (x, w)) (f' (x, v))"
  shows "same_run S (proceed (reading r) f) (proceed (reading r') f')"
proof (rule same_proceed [OF same_reading [OF assms(1)]])
  fix p q
  assume "snd (reading r) = More p" "rel_prod (=) same_wire p q"
  then show "same_run S (f p) (f' q)" by (cases p; cases q) (simp add: assms(2))
qed

lemma same_more: "same_run S (f x) (f' y) \<Longrightarrow> same_run S (proceed (evs, More x) f) (proceed (evs, More y) f')"
  by (simp add: same_run_def)

lemma same_run_refl: "(\<And>x. R x x) \<Longrightarrow> same_run R r r"
  by (cases r; cases "snd r") auto

lemma same_run_trans:
  assumes "same_run R r1 r2" and "same_run S r2 r3" and "\<And>x y z. R x y \<Longrightarrow> S y z \<Longrightarrow> T x z"
  shows "same_run T r1 r3"
  using assms by (cases "snd r1"; cases "snd r2"; cases "snd r3") (auto simp: same_run_def)

section \<open>Buffers do not matter to the checked readers\<close>

lemma same_scalar: "same_wire w v \<Longrightarrow> same_read (w_scalar types n w) (w_scalar types n v)"
proof -
  assume s: "same_wire w v"
  show ?thesis
  proof (cases "type_scalar types n")
    case None
    with s show ?thesis by (simp add: w_scalar_def same_malformed)
  next
    case (Some p)
    obtain storage literals wkt where p: "p = (storage, literals, wkt)" by (cases p) auto
    show ?thesis
      by (auto simp: w_scalar_def Some p same_malformed
          intro!: same_read_then [OF same_byte [OF s]] same_read_then [OF same_sleb [OF s]] same_read_then [OF same_real_bits [OF s]])
  qed
qed

lemma same_enter: "same_wire w v \<Longrightarrow> same_run (=) (enter t stop w c) (enter t stop v c)"
  by (auto simp: enter_def same_malformed intro!: same_run_refl)

lemma same_snapshot_values:
  "same_wire w v \<Longrightarrow> same_run same_wire (snapshot_values types time active rank w) (snapshot_values types time active rank v)"
proof (induction active arbitrary: rank w v)
  case (Cons a active)
  obtain n ty where a: "a = (n, ty)" by (cases a)
  show ?case unfolding a snapshot_values.simps
  proof (rule same_reads [OF same_scalar [OF Cons.prems]], unfold prod.case)
    fix x w1 v1
    assume s: "same_wire w1 v1"
    show "same_run same_wire
        (proceed ([ScalarEvent n rank time (w_offset w) x False no_route], More w1) (snapshot_values types time active (rank + 1)))
        (proceed ([ScalarEvent n rank time (w_offset v) x False no_route], More v1) (snapshot_values types time active (rank + 1)))"
      unfolding same_wire_fields(2) [OF Cons.prems] by (rule same_more) (rule Cons.IH [OF s])
  qed
qed simp

abbreviation same_clock :: "clock \<times> wire \<Rightarrow> clock \<times> wire \<Rightarrow> bool" where
  "same_clock \<equiv> rel_prod (=) same_wire"

lemma same_snapshot_section:
  "same_wire w v \<Longrightarrow> same_run same_clock (snapshot_section types active stop c w) (snapshot_section types active stop c v)"
  unfolding snapshot_section_def
  by (auto intro!: same_proceed [OF same_reading [OF same_zeros]] same_reads [OF same_i64] same_proceed [OF same_enter]
      same_proceed [OF same_snapshot_values] same_proceed [OF same_reading [OF same_marker]])

abbreviation same_record :: "wire + nat \<times> wire \<Rightarrow> wire + nat \<times> wire \<Rightarrow> bool" where
  "same_record \<equiv> rel_sum same_wire (rel_prod (=) same_wire)"

lemma same_cycle_record:
  assumes "same_wire w v"
  shows "same_run same_record (cycle_record types active time rank w) (cycle_record types active time rank v)"
  unfolding cycle_record_def
proof (rule same_reads [OF same_uleb [OF assms]], unfold prod.case)
  fix delta w1 v1
  assume s: "same_wire w1 v1"
  obtain n ty where a: "active ! (rank + unat delta - 1) = (n, ty)" by (cases "active ! (rank + unat delta - 1)")
  have "same_run same_record
      (proceed (reading (w_scalar types ty w1)) (\<lambda>(v, w2).
        ([ScalarEvent n (rank + unat delta - 1) time (w_offset w1) v True no_route], More (Inr (rank + unat delta, w2)))))
      (proceed (reading (w_scalar types ty v1)) (\<lambda>(v, w2).
        ([ScalarEvent n (rank + unat delta - 1) time (w_offset v1) v True no_route], More (Inr (rank + unat delta, w2)))))"
    unfolding same_wire_fields(2) [OF s] by (rule same_reads [OF same_scalar [OF s]]) simp
  then show "same_run same_record
      (if delta = 0 then ([], More (Inl w1))
       else if usize_max < rank + unat delta then ([], Failed (ghw_malformed w1 ''cycle scalar rank overflow''))
       else if length active \<le> rank + unat delta - 1 then ([], Failed (ghw_malformed w1 ''cycle scalar rank exceeds active table''))
       else let rank' = rank + unat delta; (n, ty) = active ! (rank' - 1)
            in proceed (reading (w_scalar types ty w1)) (\<lambda>(v, w2).
                 ([ScalarEvent n (rank' - 1) time (w_offset w1) v True no_route], More (Inr (rank', w2)))))
      (if delta = 0 then ([], More (Inl v1))
       else if usize_max < rank + unat delta then ([], Failed (ghw_malformed v1 ''cycle scalar rank overflow''))
       else if length active \<le> rank + unat delta - 1 then ([], Failed (ghw_malformed v1 ''cycle scalar rank exceeds active table''))
       else let rank' = rank + unat delta; (n, ty) = active ! (rank' - 1)
            in proceed (reading (w_scalar types ty v1)) (\<lambda>(v, w2).
                 ([ScalarEvent n (rank' - 1) time (w_offset v1) v True no_route], More (Inr (rank', w2)))))"
    using s by (simp add: same_malformed(1) [OF s] Let_def a [simplified])
qed

section \<open>The checked loop\<close>

function cycle_checked :: "types \<Rightarrow> active \<Rightarrow> time \<Rightarrow> nat \<Rightarrow> wire \<Rightarrow> wire ghw_run" where
  "cycle_checked types active time rank w =
    proceed (cycle_record types active time rank w) (\<lambda>r.
      case r of
        Inl w' \<Rightarrow> ([], More w')
      | Inr (rank', w') \<Rightarrow> cycle_checked types active time rank' w')"
  by pat_completeness auto
termination
  by (relation "measure (\<lambda>(_, _, _, _, w). length (w_bytes w))") (auto dest: cycle_record_Inr)

declare cycle_checked.simps [simp del]

lemma same_cycle_checked:
  "same_wire w v \<Longrightarrow> same_run same_wire (cycle_checked types active time rank w) (cycle_checked types active time rank v)"
proof (induction types active time rank w arbitrary: v rule: cycle_checked.induct)
  case (1 types active time rank w)
  show ?case unfolding cycle_checked.simps [of types active time rank]
  proof (rule same_proceed [OF same_cycle_record [OF 1(2)]])
    fix x y
    assume x: "snd (cycle_record types active time rank w) = More x" and s: "same_record x y"
    from s show "same_run same_wire
        (case x of Inl w' \<Rightarrow> ([], More w') | Inr (rank', w') \<Rightarrow> cycle_checked types active time rank' w')
        (case y of Inl w' \<Rightarrow> ([], More w') | Inr (rank', w') \<Rightarrow> cycle_checked types active time rank' w')"
    proof (cases rule: rel_sum.cases)
      case (2 p q)
      obtain rank' w1 where p: "p = (rank', w1)" by (cases p)
      with 2 obtain v1 where q: "q = (rank', v1)" "same_wire w1 v1" by (cases q) auto
      from 1(1) [OF x 2(1) p [symmetric] q(2)] 2 p q(1) show ?thesis by simp
    qed simp
  qed
qed

lemma eats_drop: "eats u (take n d) u' \<Longrightarrow> w_bytes u = d @ rest \<Longrightarrow> w_bytes u' = drop n d @ rest"
proof -
  assume a: "eats u (take n d) u'" "w_bytes u = d @ rest"
  have "take n d @ drop n d @ rest = d @ rest" by simp
  also have "\<dots> = take n d @ w_bytes u'" using a by (simp only: eats_def)
  finally have "take n d @ w_bytes u' = take n d @ drop n d @ rest" by (rule sym)
  then show ?thesis by (simp only: same_append_eq)
qed

lemma take_pieces: "k + a + b \<le> n \<Longrightarrow>
  take a (drop k xs) @ take b (drop (k + a) xs) @ drop (k + a + b) (take n xs) = drop k (take n xs)"
proof -
  assume n: "k + a + b \<le> n"
  have "take a (drop k xs) = take a (drop k (take n xs))" "take b (drop (k + a) xs) = take b (drop a (drop k (take n xs)))"
    "drop (k + a + b) (take n xs) = drop b (drop a (drop k (take n xs)))"
    using n by (simp_all add: drop_take min_def add.commute add.left_commute)
  then show ?thesis by (simp only: append_take_drop_id)
qed

text \<open>What the bulk loop decodes is what the checked loop reads first.\<close>

lemma bulk_is_checked:
  "bulk types active time big base bytes rank k = (evs, rank', n) \<Longrightarrow> k \<le> length bytes \<Longrightarrow>
    w_bytes u = drop k bytes @ rest \<Longrightarrow> w_offset u = base + k \<Longrightarrow> w_big u = big \<Longrightarrow>
    \<exists>u'. eats u (drop k (take n bytes)) u' \<and>
      cycle_checked types active time rank u = proceed (evs, More ()) (\<lambda>_. cycle_checked types active time rank' u')"
proof (induction "length bytes - k" arbitrary: rank k evs u rule: less_induct)
  case less
  show ?case
  proof (cases rule: bulk_cases [of types active time big base bytes rank k])
    case ends
    with less.prems(1) have "rank' = rank" "n = k" "evs = []" by simp_all
    then show ?thesis by (intro exI [of _ u]) simp
  next
    case (one delta width m ty v len evs' rank1 k')
    have w: "0 < width" "width \<le> length bytes - k" using window_uleb_reads [OF one(1)] by (simp_all add: window_reads_def)
    have "window_answers w_uleb big delta (drop k bytes) width" using one(1) by (rule window_uleb_answers)
    then obtain u1 where u1: "w_uleb u = Inr (delta, u1)" "eats u (take width (drop k bytes)) u1"
      using less.prems(3,5) unfolding window_answers_def by blast
    have l1: "length (take width (drop k bytes)) = width" using w(2) by simp
    have b1: "w_bytes u1 = drop (k + width) bytes @ rest"
      using eats_drop [OF u1(2) less.prems(3)] by (simp add: add.commute)
    have o1: "w_offset u1 = base + (k + width)" "w_big u1 = big" using u1(2) less.prems(4,5) l1 by (simp_all add: eats_def)
    have ans: "window_answers (w_scalar types ty) big v (drop (k + width) bytes) len" using one(6) by (rule window_value_answers)
    then obtain u2 where u2: "w_scalar types ty u1 = Inr (v, u2)" "eats u1 (take len (drop (k + width) bytes)) u2"
      using b1 o1(2) unfolding window_answers_def by blast
    have len: "len \<le> length bytes - (k + width)" using ans by (simp add: window_answers_def)
    then have l2: "length (take len (drop (k + width) bytes)) = len" by simp
    have b2: "w_bytes u2 = drop (k + width + len) bytes @ rest"
      using eats_drop [OF u2(2) b1] by (simp add: add.commute)
    have o2: "w_offset u2 = base + (k + width + len)" "w_big u2 = big" using u2(2) o1 l2 by (simp_all add: eats_def)
    have rec: "cycle_record types active time rank u =
        ([ScalarEvent m (rank + unat delta - 1) time (base + (k + width)) v True no_route], More (Inr (rank + unat delta, u2)))"
      using u1(1) u2(1) one(2-5) o1(1) by (simp add: cycle_record_def Let_def)
    have k2: "length bytes - (k + width + len) < length bytes - k" "k + width + len \<le> length bytes"
      using w len less.prems(2) by simp_all
    have eqs: "rank' = rank1" "n = k'" "evs = ScalarEvent m (rank + unat delta - 1) time (base + (k + width)) v True no_route # evs'"
      using one(8) less.prems(1) by simp_all
    have more: "bulk types active time big base bytes (rank + unat delta) (k + width + len) = (evs', rank', n)"
      using one(7) eqs by simp
    from less.hyps [OF k2(1) more k2(2) b2 o2] obtain u' where
      u': "eats u2 (drop (k + width + len) (take n bytes)) u'"
        "cycle_checked types active time (rank + unat delta) u2 = proceed (evs', More ()) (\<lambda>_. cycle_checked types active time rank' u')"
      by blast
    have n: "k + width + len \<le> n" using bulk_bounds [OF more k2(2)] by simp
    have "eats u (drop k (take n bytes)) u'"
      using eats_trans [OF u1(2) eats_trans [OF u2(2) u'(1)]] unfolding take_pieces [OF n] .
    moreover have "cycle_checked types active time rank u = proceed (evs, More ()) (\<lambda>_. cycle_checked types active time rank' u')"
      by (simp add: cycle_checked.simps [of types active time rank] rec u'(2) eqs(3))
    ultimately show ?thesis by blast
  qed
qed


lemma same_wire_trans: "same_wire a b \<Longrightarrow> same_wire b c \<Longrightarrow> same_wire a c"
  by (simp add: same_wire_def same_input_def)

lemma proceed_told: "proceed (evs, More ()) (\<lambda>_. r) = (evs @ fst r, snd r)"
  by simp

lemma same_told: "same_run R r r' \<Longrightarrow> same_run R (proceed (evs, More ()) (\<lambda>_. r)) (proceed (evs, More ()) (\<lambda>_. r'))"
  by (simp add: same_run_def)

lemma cycle_list_checked:
  "same_run same_wire (cycle_list types active time rank w) (cycle_checked types active time rank w)"
proof (induction types active time rank w rule: cycle_list.induct)
  case (1 types active time rank w)
  show ?case
  proof (cases "w_window w")
    case (Inl e)
    then show ?thesis
      by (simp add: cycle_list.simps [of types _ _ rank] cycle_checked.simps [of types _ _ rank] cycle_record_def
          w_uleb_def w_byte_def)
  next
    case (Inr bytes)
    obtain rest where rest: "w_bytes w = bytes @ rest"
      using Inr by (cases rule: w_window_cases [of w]) auto
    obtain evs rank' n where b: "bulk types active time (w_big w) (w_offset w) bytes rank 0 = (evs, rank', n)"
      by (cases "bulk types active time (w_big w) (w_offset w) bytes rank 0")
    from bulk_is_checked [OF b _ _ _ refl] rest obtain u' where
      u': "eats w (take n bytes) u'"
        "cycle_checked types active time rank w = proceed (evs, More ()) (\<lambda>_. cycle_checked types active time rank' u')"
      by fastforce
    have n: "n \<le> length bytes" using bulk_bounds [OF b] by simp
    have "eats w (take n bytes) (w_consume n w)" using Inr n by (rule eats_consume)
    from same_eats [OF same_wire_refl this u'(1)] have s: "same_wire (w_consume n w) u'" .
    have checked: "same_run same_wire r (cycle_checked types active time k v)"
      if "same_run same_wire r (cycle_checked types active time k w1)" "same_wire w1 v" for r k w1 v
      using that(1) same_cycle_checked [OF that(2)] by (rule same_run_trans) (rule same_wire_trans)
    let ?rest = "\<lambda>r. case r of Inl w' \<Rightarrow> ([], More w') | Inr (rank'', w') \<Rightarrow> cycle_list types active time rank'' w'"
    have "same_run same_wire
        (if n \<noteq> 0 then cycle_list types active time rank' (w_consume n w)
         else proceed (cycle_record types active time rank' (w_consume 0 w)) ?rest)
        (cycle_checked types active time rank' u')"
    proof (cases "n = 0")
      case False
      from checked [OF 1(1) [OF Inr b [symmetric] refl _ False] s] False show ?thesis by simp
    next
      case True
      have "same_run same_wire (proceed (cycle_record types active time rank' (w_consume 0 w)) ?rest)
          (cycle_checked types active time rank' u')"
        unfolding cycle_checked.simps [of types _ _ rank']
      proof (rule same_proceed [OF same_cycle_record [OF s [unfolded True]]])
        fix x y
        assume x: "snd (cycle_record types active time rank' (w_consume 0 w)) = More x" and xy: "same_record x y"
        from xy show "same_run same_wire (?rest x)
            (case y of Inl w' \<Rightarrow> ([], More w') | Inr (rank', w') \<Rightarrow> cycle_checked types active time rank' w')"
        proof (cases rule: rel_sum.cases)
          case (2 p q)
          obtain rank'' w1 where p: "p = (rank'', w1)" by (cases p)
          with 2 obtain v1 where q: "q = (rank'', v1)" "same_wire w1 v1" by (cases q) auto
          from checked [OF 1(2) [OF Inr b [unfolded True, symmetric] refl _ _ x 2(1) p [symmetric]] q(2)] 2 p q(1)
          show ?thesis by simp
        qed simp
      qed
      with True show ?thesis by simp
    qed
    from same_told [OF this, of evs] show ?thesis
      unfolding u'(2) by (simp add: cycle_list.simps [of types _ _ rank] Inr b)
  qed
qed

text \<open>
  C29: the bulk loop over buffered records is only an optimisation: from any rank, on any input
  and however it is buffered, the records of a cycle list are the events, with their ranks,
  offsets and values, and end in the position or in the error, byte for byte, of the loop
  that reads every field with the checked readers.
\<close>

theorem cycle_list_is_checked:
  "same_run same_wire (cycle_list types active time rank w) (cycle_checked types active time rank w)"
  by (rule cycle_list_checked)

section \<open>Buffers do not matter to the walk\<close>

lemma same_wire_sym: "same_wire a b \<Longrightarrow> same_wire b a"
  by (simp add: same_wire_def same_input_def)

lemma same_run_sym:
  assumes "same_run R r r'" and "\<And>x y. R x y \<Longrightarrow> S y x"
  shows "same_run S r' r"
  using assms by (cases "snd r"; cases "snd r'") (auto simp: same_run_def)

lemma same_cycle_list:
  assumes "same_wire w v"
  shows "same_run same_wire (cycle_list types active time rank w) (cycle_list types active time rank v)"
proof -
  have "same_run same_wire (cycle_list types active time rank w) (cycle_checked types active time rank v)"
    using cycle_list_checked same_cycle_checked [OF assms] by (rule same_run_trans) (rule same_wire_trans)
  moreover have "same_run same_wire (cycle_checked types active time rank v) (cycle_list types active time rank v)"
    using cycle_list_checked by (rule same_run_sym) (rule same_wire_sym)
  ultimately show ?thesis by (rule same_run_trans) (rule same_wire_trans)
qed

lemma same_cycle_steps:
  "same_wire w v \<Longrightarrow> same_run same_clock (cycle_steps types active stop time c w) (cycle_steps types active stop time c v)"
proof (induction types active stop time c w arbitrary: v rule: cycle_steps.induct)
  case (1 types active stop time c w)
  show ?case unfolding cycle_steps.simps [of types _ _ time]
  proof (rule same_proceed [OF same_cycle_list [OF 1(2)]], rule same_more, rule same_reads [OF same_sleb], assumption, unfold prod.case)
    fix w1 v1 delta w2 v2
    assume l: "snd (cycle_list types active (time_at time) 0 w) = More w1"
      and d: "w_sleb 64 w1 = Inr (delta, w2)" and s: "same_wire w2 v2"
    show "same_run same_clock
        (if delta = - 1 then proceed (reading (w_marker (section_name ''ECY'') w2)) (\<lambda>w3. ([], More (c, w3)))
         else if delta < 0 then ([], Failed (ghw_malformed w2 ''negative cycle time increment''))
         else if 2 ^ 63 \<le> time + delta then ([], Failed (ghw_malformed w2 ''cycle time overflow''))
         else proceed (enter (time + delta) stop w2 c) (\<lambda>c'. cycle_steps types active stop (time + delta) c' w2))
        (if delta = - 1 then proceed (reading (w_marker (section_name ''ECY'') v2)) (\<lambda>w3. ([], More (c, w3)))
         else if delta < 0 then ([], Failed (ghw_malformed v2 ''negative cycle time increment''))
         else if 2 ^ 63 \<le> time + delta then ([], Failed (ghw_malformed v2 ''cycle time overflow''))
         else proceed (enter (time + delta) stop v2 c) (\<lambda>c'. cycle_steps types active stop (time + delta) c' v2))"
    proof (cases "delta = - 1 \<or> delta < 0 \<or> 2 ^ 63 \<le> time + delta")
      case True
      have "same_run same_clock (proceed (reading (w_marker (section_name ''ECY'') w2)) (\<lambda>w3. ([], More (c, w3))))
          (proceed (reading (w_marker (section_name ''ECY'') v2)) (\<lambda>w3. ([], More (c, w3))))"
        by (rule same_proceed [OF same_reading [OF same_marker [OF s]]]) simp
      with True show ?thesis by (auto simp: same_malformed(1) [OF s])
    next
      case False
      have "same_run same_clock (proceed (enter (time + delta) stop w2 c) (\<lambda>c'. cycle_steps types active stop (time + delta) c' w2))
          (proceed (enter (time + delta) stop v2 c) (\<lambda>c'. cycle_steps types active stop (time + delta) c' v2))"
      proof (rule same_proceed [OF same_enter [OF s]])
        fix c1 c2
        assume e: "snd (enter (time + delta) stop w2 c) = More c1" and "c1 = c2"
        with 1(1) [OF l _ _ refl _ _ _ e s, of w1] d False show
          "same_run same_clock (cycle_steps types active stop (time + delta) c1 w2) (cycle_steps types active stop (time + delta) c2 v2)"
          by simp
      qed
      with False show ?thesis by simp
    qed
  qed
qed

lemma same_cycle_section:
  "same_wire w v \<Longrightarrow> same_run same_clock (cycle_section types active stop c w) (cycle_section types active stop c v)"
  unfolding cycle_section_def
  by (auto intro!: same_reads [OF same_i64] same_proceed [OF same_enter] same_cycle_steps)

lemma same_descriptor: "same_wire w v \<Longrightarrow> same_out same_wire (descriptor w) (descriptor v)"
  unfolding descriptor_def
  by (rule same_read_then [OF same_fixed]) (auto simp: same_malformed same_wire_fields)

lemma same_directory_entries: "same_wire w v \<Longrightarrow> same_out same_wire (directory_entries n w) (directory_entries n v)"
proof (induction n arbitrary: w v)
  case (Suc n)
  show ?case unfolding directory_entries.simps
    by (rule same_read_then [OF same_fixed [OF Suc.prems]])
      (auto simp: same_malformed intro!: same_read_then [OF same_u32] Suc.IH)
qed simp

lemma same_directory: "same_wire w v \<Longrightarrow> same_out same_wire (directory w) (directory v)"
  unfolding directory_def
  by (auto simp: same_malformed same_wire_fields
      intro!: same_then [OF same_descriptor] same_read_then [OF same_count] same_then [OF same_directory_entries] same_marker)

lemma same_tailer: "same_wire w v \<Longrightarrow> same_out same_wire (tailer w) (tailer v)"
  unfolding tailer_def
proof (rule same_then [OF same_descriptor], assumption, rule same_read_then [OF same_u32], assumption, unfold prod.case)
  fix x w2 v2
  assume s: "same_wire w2 v2"
  show "same_out same_wire (and_then (at_eof w2) (\<lambda>eof. if \<not> eof then Inl (ghw_malformed w2 ''data after tailer'') else Inr w2))
      (and_then (at_eof v2) (\<lambda>eof. if \<not> eof then Inl (ghw_malformed v2 ''data after tailer'') else Inr v2))"
    using s by (cases "at_eof v2") (simp_all add: same_eof [OF s] same_malformed)
qed

lemma same_body_section:
  assumes "same_wire w v"
  shows "same_run (rel_prod (=) (rel_prod (=) (rel_prod same_wire (=))))
    (body_section types active stop tag c footer w) (body_section types active stop tag c footer v)"
proof -
  have A: "same_run (rel_prod (=) (rel_prod (=) (rel_prod same_wire (=))))
      (proceed r (\<lambda>(c', w'). ([], More (c', f, w', False)))) (proceed r' (\<lambda>(c', w'). ([], More (c', f, w', False))))"
    if "same_run same_clock r r'" for r r' f
    using that by (rule same_proceed) auto
  have B: "same_run (rel_prod (=) (rel_prod (=) (rel_prod same_wire (=))))
      (proceed (evs, More ()) (\<lambda>_. proceed (reading r) (\<lambda>w'. ([], More (c, True, w', over)))))
      (proceed (evs, More ()) (\<lambda>_. proceed (reading r') (\<lambda>w'. ([], More (c, True, w', over)))))"
    if "same_out same_wire r r'" for r r' evs over
    by (rule same_more, rule same_proceed [OF same_reading [OF that]]) simp
  show ?thesis
    unfolding body_section_def same_malformed [OF assms]
    by (cases footer)
      (simp_all del: proceed_simps add: A [OF same_snapshot_section [OF assms]] A [OF same_cycle_section [OF assms]]
        B [OF same_directory [OF assms]] B [OF same_tailer [OF assms]])
qed

lemma same_body_walk: "same_wire w v \<Longrightarrow> body_walk types active stop c footer w = body_walk types active stop c footer v"
proof (induction types active stop c footer w arbitrary: v rule: body_walk.induct)
  case (1 types active stop c footer w)
  note s = 1(2)
  show ?case
  proof (cases "at_eof w = Inr False")
    case False
    then show ?thesis using same_eof [OF s]
      by (cases "at_eof v") (simp_all add: body_walk.simps [of types _ _ c])
  next
    case True
    then have v: "at_eof v = Inr False" using same_eof [OF s] by simp
    from same_fixed [OF s, of 4] show ?thesis
    proof (cases rule: rel_sum.cases)
      case (1 a b)
      then show ?thesis by (simp add: body_walk.simps [of types _ _ c] True v)
    next
      case (2 x y)
      then obtain tag w1 v1 where x: "w_fixed 4 w = Inr (tag, w1)" "w_fixed 4 v = Inr (tag, v1)" "same_wire w1 v1"
        by (cases x; cases y) auto
      note sec = same_body_section [OF x(3), of types active stop tag c footer]
      obtain evs p where p: "body_section types active stop tag c footer w1 = (evs, p)"
        by (cases "body_section types active stop tag c footer w1")
      show ?thesis
      proof (cases p)
        case (More r)
        obtain c1 f1 w2 over where r: "r = (c1, f1, w2, over)" by (cases r)
        with sec p More obtain v2 where v2: "body_section types active stop tag c footer v1 = (evs, More (c1, f1, v2, over))" "same_wire w2 v2"
          by (cases "body_section types active stop tag c footer v1"; cases "snd (body_section types active stop tag c footer v1)")
            (auto simp: same_run_def)
        have "body_walk types active stop c1 f1 w2 = body_walk types active stop c1 f1 v2" if "\<not> over"
          using 1(1) [OF True _ x(1) refl p [symmetric] More r [symmetric] refl refl that v2(2)] by simp
        then show ?thesis
          by (simp add: body_walk.simps [of types _ _ c] True v x(1,2) p More r v2(1))
      qed (use sec p in \<open>cases "body_section types active stop tag c footer v1"; cases "snd (body_section types active stop tag c footer v1)";
          simp add: same_run_def body_walk.simps [of types _ _ c] True v x(1,2)\<close>)+
    qed
  qed
qed

text \<open>
  C28: the walk of a body depends on the bytes of the file only: the events it delivers, the
  error it ends in and the span it answers are the same however the input is buffered, in
  particular with buffers too short for the bulk loop to run at all.
\<close>

theorem walk_ignores_buffers:
  assumes "same_wire w v"
  shows "ghw_walk w types active stop = ghw_walk v types active stop"
  unfolding ghw_walk_def using assms by (rule same_body_walk)

end
