(* ===== verification/Ondas_Ghw_Reader.thy ===== *)
theory Ondas_Ghw_Reader
  imports Ondas_Ghw_Bulk Ondas_Vcd_Reader
begin

text \<open>
  Reading signals of a GHW file (\<open>Reader::read\<close> and \<open>Buffer\<close> of
  \<^verbatim>\<open>src/src/backends/ghw/mod.rs\<close>): a signal is assembled from the source scalars its recipe
  names. The read is modelled for a source without a position index (\<open>validated.index\<close> is
  \<open>None\<close>, as after the index gave up on its budget): every read walks the body.
\<close>

section \<open>The source\<close>

record recipe =
  rc_ids :: "nat list"
  rc_encoding :: encoding
  rc_scalar_type :: nat
  rc_vector :: bool

record ghw = vcd_input +
  gr_types :: types
  gr_recipes :: "recipe list"
  gr_active :: active
  gr_body :: nat
  gr_version :: nat
  gr_big :: bool

definition ghw_wire :: "ghw \<Rightarrow> wire" where
  "ghw_wire r =
    \<lparr>w_tokens = seek_input r (gr_body r), w_len = length (vr_bytes r), w_big = gr_big r,
     w_version = gr_version r\<rparr>"

record buffer =
  bf_index :: nat
  bf_digits :: string
  bf_real :: u64
  bf_required :: nat
  bf_known :: nat
  bf_wkt :: nat
  bf_vector :: bool

record dependency =
  dp_id :: nat
  dp_slot :: nat
  dp_position :: nat
  dp_seen :: bool

section \<open>Assembly\<close>

definition ghw_alphabet :: "nat \<Rightarrow> string" where
  "ghw_alphabet wkt = (if wkt = 3 then ''ux01zwlh-'' else ''01'')"

text \<open>The digits of a number, least significant last; a shift by 64 or more overflows.\<close>

definition number_digits :: "u64 \<Rightarrow> buffer \<Rightarrow> error + buffer" where
  "number_digits bits b =
    (let n = length (bf_digits b)
     in if 64 < n then Inl (Panic ''shift right with overflow'')
        else
          Inr (b\<lparr>bf_digits := map (\<lambda>i. if bit bits (n - 1 - i) then CHR ''1'' else CHR ''0'') [0..<n]\<rparr>))"

definition buffer_update :: "nat \<Rightarrow> scalar_value \<Rightarrow> bool \<Rightarrow> buffer \<Rightarrow> error + buffer" where
  "buffer_update position v first b =
    (let b = (if first then b\<lparr>bf_known := bf_known b + 1\<rparr> else b)
     in case v of
          RealValue bits \<Rightarrow> Inr (b\<lparr>bf_real := bits\<rparr>)
        | Ordinal n \<Rightarrow>
            if bf_wkt b \<noteq> 0 then
              (let i = (if bf_vector b then position else 0)
               in if length (ghw_alphabet (bf_wkt b)) \<le> n \<or> length (bf_digits b) \<le> i
                  then Inl (Panic ''index out of bounds'')
                  else Inr (b\<lparr>bf_digits := (bf_digits b)[i := ghw_alphabet (bf_wkt b) ! n]\<rparr>))
            else number_digits (word_of_nat n) b
        | IntegerValue n \<Rightarrow> number_digits (word_of_int n) b)"

definition buffer_value :: "buffer \<Rightarrow> wave_value" where
  "buffer_value b = (if bf_digits b = [] then VReal (bf_real b) else VBits (bf_digits b))"

section \<open>Dependencies\<close>

definition dependency_range :: "dependency list \<Rightarrow> nat \<Rightarrow> nat \<times> nat" where
  "dependency_range deps n =
    (let start = partition_point (\<lambda>d. dp_id d < n) deps
     in (start, start + length (takeWhile (\<lambda>d. dp_id d = n) (drop start deps))))"

fun dependency_ranges :: "active \<Rightarrow> dependency list \<Rightarrow> nat \<Rightarrow> (nat \<times> nat) list" where
  "dependency_ranges [] deps cursor = []"
| "dependency_ranges ((n, _) # active) deps cursor =
    (let cursor' = cursor + length (takeWhile (\<lambda>d. dp_id d = n) (drop cursor deps))
     in (cursor, cursor') # dependency_ranges active deps cursor')"

text \<open>The range of a scalar event: by its rank where the read is broad, else searched.\<close>

definition event_range ::
    "nat \<Rightarrow> nat \<Rightarrow> (nat \<times> nat) list option \<Rightarrow> dependency list \<Rightarrow> nat \<times> nat" where
  "event_range n rank broad deps =
    (case broad of
       Some routes \<Rightarrow> if rank < length routes then routes ! rank else dependency_range deps n
     | None \<Rightarrow> dependency_range deps n)"

section \<open>The events of a walk\<close>

record assembly =
  as_buffers :: "buffer list"
  as_deps :: "dependency list"
  as_marks :: "bool list"
  as_touched :: "nat list"

definition apply_dependency ::
    "scalar_value \<Rightarrow> bool \<Rightarrow> dependency \<Rightarrow> assembly \<Rightarrow> error + assembly" where
  "apply_dependency v first d a =
    and_then (buffer_update (dp_position d) v first (as_buffers a ! dp_slot d)) (\<lambda>b.
      let a = a\<lparr>as_buffers := (as_buffers a)[dp_slot d := b]\<rparr>
      in Inr (if as_marks a ! dp_slot d then a
              else a\<lparr>as_marks := (as_marks a)[dp_slot d := True], as_touched := as_touched a @ [dp_slot d]\<rparr>))"

fun apply_dependencies ::
    "scalar_value \<Rightarrow> bool \<Rightarrow> dependency list \<Rightarrow> assembly \<Rightarrow> error + assembly" where
  "apply_dependencies v first [] a = Inr a"
| "apply_dependencies v first (d # ds) a =
    and_then (apply_dependency v first d a) (apply_dependencies v first ds)"

definition consume_scalar ::
    "(nat \<times> nat) list option \<Rightarrow> nat \<Rightarrow> nat \<Rightarrow> scalar_value \<Rightarrow> assembly \<Rightarrow> error + assembly" where
  "consume_scalar broad n rank v a =
    (let (start, stop) = event_range n rank broad (as_deps a)
     in if stop \<le> start then Inr a
        else
          (let first = \<not> dp_seen (as_deps a ! start);
               a' = (if first
                     then a\<lparr>as_deps := (as_deps a)[start := (as_deps a ! start)\<lparr>dp_seen := True\<rparr>]\<rparr>
                     else a)
           in apply_dependencies v first (take (stop - start) (drop start (as_deps a'))) a'))"

text \<open>The end of a list: the touched slots that know all their scalars are notified.\<close>

definition consume_list_end :: "time \<Rightarrow> assembly \<Rightarrow> notification list \<times> assembly" where
  "consume_list_end time a =
    (map (\<lambda>slot. Observed (bf_index (as_buffers a ! slot)) (Inr (buffer_value (as_buffers a ! slot))) time None)
       (filter (\<lambda>slot. bf_known (as_buffers a ! slot) = bf_required (as_buffers a ! slot)) (as_touched a)),
     a\<lparr>as_marks := fold (\<lambda>slot marks. marks[slot := False]) (as_touched a) (as_marks a), as_touched := []\<rparr>)"

definition ghw_consume ::
    "(nat \<times> nat) list option \<Rightarrow> event \<Rightarrow> assembly \<Rightarrow> error + notification list \<times> assembly" where
  "ghw_consume broad e a =
    (case e of
       ScalarEvent n rank _ _ v _ _ \<Rightarrow> and_then (consume_scalar broad n rank v a) (\<lambda>a'. Inr ([], a'))
     | ListEnd time \<Rightarrow> Inr (consume_list_end time a)
     | TickEvent time \<Rightarrow> Inr ([TickDone time], a))"

fun consume_all ::
    "(nat \<times> nat) list option \<Rightarrow> event list \<Rightarrow> assembly \<Rightarrow> notification list \<times> (error + assembly)" where
  "consume_all broad [] a = ([], Inr a)"
| "consume_all broad (e # es) a =
    (case ghw_consume broad e a of
       Inl err \<Rightarrow> ([], Inl err)
     | Inr (ns, a') \<Rightarrow> (case consume_all broad es a' of (ns', out) \<Rightarrow> (ns @ ns', out)))"

section \<open>A read\<close>

definition new_dependencies :: "nat \<Rightarrow> nat list \<Rightarrow> dependency list" where
  "new_dependencies slot ids =
    map (\<lambda>(position, n). \<lparr>dp_id = n, dp_slot = slot, dp_position = position, dp_seen = False\<rparr>)
      (enumerate 0 ids)"

fun prepare ::
    "ghw \<Rightarrow> signal list \<Rightarrow> buffer list \<Rightarrow> dependency list \<Rightarrow> error + buffer list \<times> dependency list" where
  "prepare r [] buffers deps = Inr (buffers, deps)"
| "prepare r (s # signals) buffers deps =
    and_then
      (ok_or (ghw_malformed (ghw_wire r) ''invalid private recipe index'')
        (if sig_index s < length (gr_recipes r) then Some (gr_recipes r ! sig_index s) else None)) (\<lambda>recipe.
    and_then
      (ok_or (ghw_malformed (ghw_wire r) ''non-scalar recipe encoding'')
        (type_scalar (gr_types r) (rc_scalar_type recipe))) (\<lambda>(_, _, wkt).
    and_then
      (case rc_encoding recipe of
         Bits width \<Rightarrow> Inr (unat width)
       | Real \<Rightarrow> Inr 0
       | _ \<Rightarrow> Inl (ghw_unsupported (ghw_wire r) ''recipe value class'')) (\<lambda>width.
      prepare r signals
        (buffers @ [\<lparr>bf_index = sig_index s, bf_digits = replicate width (CHR ''0''), bf_real = 0,
           bf_required = length (rc_ids recipe), bf_known = 0, bf_wkt = wkt, bf_vector = rc_vector recipe\<rparr>])
        (deps @ new_dependencies (length buffers) (rc_ids recipe)))))"

text \<open>\<open>Vec::dedup\<close>.\<close>

fun dedup :: "'a list \<Rightarrow> 'a list" where
  "dedup (x # y # xs) = (if x = y then dedup (y # xs) else x # dedup (y # xs))"
| "dedup xs = xs"

definition broad_routes :: "ghw \<Rightarrow> dependency list \<Rightarrow> (nat \<times> nat) list option" where
  "broad_routes r deps =
    (if (length (gr_active r) + 1) div 2 \<le> length (dedup (map dp_id deps))
     then Some (dependency_ranges (gr_active r) deps 0) else None)"

definition first_assembly :: "buffer list \<Rightarrow> dependency list \<Rightarrow> assembly" where
  "first_assembly buffers deps =
    \<lparr>as_buffers = buffers, as_deps = deps, as_marks = replicate (length buffers) False, as_touched = []\<rparr>"

definition ghw_read ::
    "((dependency \<Rightarrow> nat) \<Rightarrow> dependency list \<Rightarrow> dependency list) \<Rightarrow> ghw \<Rightarrow> signal list \<Rightarrow> time \<Rightarrow>
     position option \<Rightarrow> notification list \<times> (error + position option)" where
  "ghw_read sort_by r signals stop position =
    (if signals = [] then ([], Inr None)
     else case prepare r signals [] [] of
         Inl e \<Rightarrow> ([], Inl e)
       | Inr (buffers, unsorted) \<Rightarrow>
           (let deps = sort_by dp_id unsorted;
                (events, out) = ghw_walk (ghw_wire r) (gr_types r) (gr_active r) stop;
                (notes, final) = consume_all (broad_routes r deps) events (first_assembly buffers deps)
            in (notes, and_then final (\<lambda>_. and_then out (\<lambda>_. Inr None)))))"

end
