(* ===== verification/Ondas_Ghw_Contract.thy ===== *)
theory Ondas_Ghw_Contract
  imports Ondas_Ghw_Reader
begin

text \<open>
  The GHW reader keeps the contract \<open>tick_reader\<close> for every file and every buffering: the
  events of a walk come in time order and not behind the end of the read, a tick event closes
  its time, and a walk to an earlier end delivers the events up to it.
\<close>

section \<open>Times\<close>

lemma time_at_mono:
  assumes "0 \<le> a" and "a < 2 ^ 63" and "0 \<le> b" and "b < 2 ^ 63"
  shows "time_at a \<le> time_at b \<longleftrightarrow> a \<le> b" "time_at a < time_at b \<longleftrightarrow> a < b"
proof -
  have "uint (word_of_int a :: u64) = a" "uint (word_of_int b :: u64) = b"
    using assms by (simp_all add: uint_word_of_int take_bit_int_eq_self_iff)
  then show "time_at a \<le> time_at b \<longleftrightarrow> a \<le> b" "time_at a < time_at b \<longleftrightarrow> a < b"
    by (simp_all add: time_at_def word_le_def word_less_def)
qed

fun event_time :: "event \<Rightarrow> time" where
  "event_time (ScalarEvent n rank t offset v cyclic route) = t"
| "event_time (ListEnd t) = t"
| "event_time (TickEvent t) = t"

fun is_tick_event :: "event \<Rightarrow> bool" where
  "is_tick_event (TickEvent t) = True"
| "is_tick_event _ = False"

definition before_event :: "event \<Rightarrow> event \<Rightarrow> bool" where
  "before_event e f \<longleftrightarrow> event_time e \<le> event_time f \<and> (is_tick_event e \<longrightarrow> event_time e < event_time f)"

definition clock_ok :: "time \<Rightarrow> clock \<Rightarrow> bool" where
  "clock_ok stop c \<longleftrightarrow> (\<forall>p. ck_current c = Some p \<longrightarrow> 0 \<le> p \<and> p < 2 ^ 63 \<and> time_at p \<le> stop)"

definition after :: "clock \<Rightarrow> time \<Rightarrow> bool" where
  "after c t \<longleftrightarrow> (\<forall>p. ck_current c = Some p \<longrightarrow> time_at p \<le> t)"

definition reaches :: "clock \<Rightarrow> clock \<Rightarrow> bool" where
  "reaches c c' \<longleftrightarrow> (\<forall>p. ck_current c = Some p \<longrightarrow> (\<exists>q. ck_current c' = Some q \<and> time_at p \<le> time_at q))"

definition closed_by :: "event \<Rightarrow> clock \<Rightarrow> bool" where
  "closed_by e c \<longleftrightarrow>
    (\<exists>p. ck_current c = Some p \<and> event_time e \<le> time_at p \<and> (is_tick_event e \<longrightarrow> event_time e < time_at p))"

lemma reaches_refl [simp]: "reaches c c"
  by (simp add: reaches_def)

lemma reaches_trans: "reaches a b \<Longrightarrow> reaches b c \<Longrightarrow> reaches a c"
  by (fastforce simp: reaches_def intro: order.trans)

lemma after_reaches: "reaches a b \<Longrightarrow> after b t \<Longrightarrow> after a t"
  by (fastforce simp: reaches_def after_def intro: order.trans)

lemma closed_reaches: "closed_by e a \<Longrightarrow> reaches a b \<Longrightarrow> closed_by e b"
  by (fastforce simp: closed_by_def reaches_def intro: order.trans less_le_trans)

lemma closed_after: "closed_by e c \<Longrightarrow> after c (event_time f) \<Longrightarrow> before_event e f"
  by (fastforce simp: closed_by_def after_def before_event_def intro: order.trans less_le_trans)

section \<open>Runs in time order\<close>

definition timed_events :: "time \<Rightarrow> clock \<Rightarrow> event list \<Rightarrow> bool" where
  "timed_events stop c es \<longleftrightarrow>
    sorted_wrt before_event es \<and> (\<forall>e \<in> set es. after c (event_time e) \<and> event_time e \<le> stop)"

definition timed :: "time \<Rightarrow> clock \<Rightarrow> ('a \<Rightarrow> clock) \<Rightarrow> 'a ghw_run \<Rightarrow> bool" where
  "timed stop c clk r \<longleftrightarrow>
    timed_events stop c (fst r) \<and>
    (\<forall>x. snd r = More x \<longrightarrow>
      reaches c (clk x) \<and> clock_ok stop (clk x) \<and> (\<forall>e \<in> set (fst r). closed_by e (clk x)))"

lemma timed_events_append:
  assumes "timed_events stop c es" and "timed_events stop c' es'" and "reaches c c'"
    and "\<forall>e \<in> set es. closed_by e c'"
  shows "timed_events stop c (es @ es')"
  using assms by (auto simp: timed_events_def sorted_wrt_append intro: closed_after after_reaches)

lemma timed_proceed:
  assumes "timed stop c clk r" and "\<And>x. snd r = More x \<Longrightarrow> clock_ok stop (clk x) \<Longrightarrow> timed stop (clk x) clk' (f x)"
  shows "timed stop c clk' (proceed r f)"
proof -
  obtain es p where r: "r = (es, p)" by (cases r)
  show ?thesis
  proof (cases p)
    case (More x)
    with assms(1) r have x: "timed_events stop c es" "reaches c (clk x)" "\<forall>e \<in> set es. closed_by e (clk x)"
      "clock_ok stop (clk x)" by (simp_all add: timed_def)
    with assms(2) [of x] r More have f: "timed stop (clk x) clk' (f x)" by simp
    with x timed_events_append [OF x(1) _ x(2,3), of "fst (f x)"] show ?thesis
      by (auto simp: r More timed_def intro: reaches_trans closed_reaches)
  qed (use assms(1) r in \<open>simp_all add: timed_def\<close>)
qed

lemma timed_reading: "clock_ok stop c \<Longrightarrow> timed stop c (\<lambda>_. c) (reading r)"
  by (cases r) (simp_all add: timed_def timed_events_def)

lemma timed_failed [simp]: "timed stop c clk ([], Failed e)"
  by (simp add: timed_def timed_events_def)

lemma timed_more: "clock_ok stop (clk x) \<Longrightarrow> reaches c (clk x) \<Longrightarrow> timed stop c clk ([], More x)"
  by (simp add: timed_def timed_events_def)

text \<open>The events of one list: all at the time of the clock.\<close>

definition at_time :: "time \<Rightarrow> 'a ghw_run \<Rightarrow> bool" where
  "at_time t r \<longleftrightarrow> list_all (\<lambda>e. event_time e = t \<and> \<not> is_tick_event e) (fst r)"

lemma at_time_proceed:
  "at_time t r \<Longrightarrow> (\<And>x. snd r = More x \<Longrightarrow> at_time t (f x)) \<Longrightarrow> at_time t (proceed r f)"
  by (cases r; cases "snd r") (auto simp: at_time_def)

lemma at_time_reading [simp]: "at_time t (reading r)"
  by (cases r) (simp_all add: at_time_def)

lemma at_time_simps [simp]:
  "at_time t ([], p)"
  "at_time t (e # es, p) \<longleftrightarrow> event_time e = t \<and> \<not> is_tick_event e \<and> at_time t (es, p)"
  by (simp_all add: at_time_def)

lemma at_time_timed:
  assumes "at_time t r" and "clock_ok stop c" and "ck_current c = Some p" and "t = time_at p"
  shows "timed stop c (\<lambda>_. c) r"
proof -
  obtain es q where r: "r = (es, q)" by (cases r)
  have e: "event_time e = time_at p \<and> \<not> is_tick_event e" if "e \<in> set es" for e
    using assms(1,4) that by (auto simp: at_time_def r list_all_iff)
  have "sorted_wrt before_event es" by (rule sorted_wrt_mono_rel [of _ "\<lambda>_ _. True"]) (auto simp: before_event_def e)
  moreover have "\<forall>e \<in> set es. after c (event_time e) \<and> event_time e \<le> stop \<and> closed_by e c"
    using assms(2,3) by (auto simp: after_def closed_by_def clock_ok_def e)
  ultimately show ?thesis using assms(2) by (simp add: timed_def timed_events_def r)
qed

lemma at_time_snapshot: "at_time t (snapshot_values types t active rank w)"
proof (induction active arbitrary: rank w)
  case (Cons a active)
  then show ?case by (cases a) (auto intro!: at_time_proceed)
qed simp

lemma at_time_record: "at_time t (cycle_record types active t rank w)"
  by (auto simp: cycle_record_def Let_def intro!: at_time_proceed split: prod.split)

lemma at_time_bulk: "bulk types active t big base bytes rank k = (es, rank', n) \<Longrightarrow> at_time t (es, p)"
proof (induction "length bytes - k" arbitrary: rank k es rule: less_induct)
  case less
  show ?case
  proof (cases rule: bulk_cases [of types active t big base bytes rank k])
    case ends
    with less.prems show ?thesis by simp
  next
    case (one delta width m ty v len es' rank1 k')
    have w: "0 < width" "width \<le> length bytes - k" using window_uleb_reads [OF one(1)] by (simp_all add: window_reads_def)
    then have "length bytes - (k + width + len) < length bytes - k" by simp
    from less.hyps [OF this] one(7,8) less.prems show ?thesis by auto
  qed
qed

lemma at_time_list: "at_time t (cycle_list types active t rank w)"
proof (induction types active t rank w rule: cycle_list.induct)
  case (1 types active t rank w)
  show ?case
  proof (cases "w_window w")
    case (Inl e)
    then show ?thesis by (simp add: cycle_list.simps [of types _ _ rank])
  next
    case (Inr bytes)
    obtain es rank' n where b: "bulk types active t (w_big w) (w_offset w) bytes rank 0 = (es, rank', n)"
      by (cases "bulk types active t (w_big w) (w_offset w) bytes rank 0")
    have "at_time t (if n \<noteq> 0 then cycle_list types active t rank' (w_consume n w)
        else proceed (cycle_record types active t rank' (w_consume 0 w)) (\<lambda>r.
          case r of Inl w' \<Rightarrow> ([], More w') | Inr (rank'', w') \<Rightarrow> cycle_list types active t rank'' w'))"
    proof (cases "n = 0")
      case True
      show ?thesis unfolding True
      proof (simp, rule at_time_proceed [OF at_time_record])
        fix x
        assume "snd (cycle_record types active t rank' (w_consume 0 w)) = More x"
        with 1(2) [OF Inr b [unfolded True, symmetric] refl _ _ this] show
          "at_time t (case x of Inl w' \<Rightarrow> ([], More w') | Inr (rank'', w') \<Rightarrow> cycle_list types active t rank'' w')"
          by (cases x) auto
      qed
    qed (use 1(1) [OF Inr b [symmetric] refl] in simp)
    then have "at_time t (proceed (es, More ()) (\<lambda>_. if n \<noteq> 0 then cycle_list types active t rank' (w_consume n w)
        else proceed (cycle_record types active t rank' (w_consume 0 w)) (\<lambda>r.
          case r of Inl w' \<Rightarrow> ([], More w') | Inr (rank'', w') \<Rightarrow> cycle_list types active t rank'' w')))"
      by (rule at_time_proceed [OF at_time_bulk [OF b]])
    then show ?thesis by (simp only: cycle_list.simps [of types _ _ rank] Inr b sum.case prod.case)
  qed
qed

lemma enter_More:
  assumes "snd (enter next stop w c) = More c'"
  shows "ck_current c' = Some next \<and> 0 \<le> next \<and> time_at next \<le> stop"
  using assms by (auto simp: enter_def less_eq_time_def not_less split: if_splits)

lemma timed_enter:
  assumes "clock_ok stop c" and "next < 2 ^ 63"
  shows "timed stop c (\<lambda>c. c) (enter next stop w c)"
proof (cases "next < 0 \<or> (case ck_current c of None \<Rightarrow> False | Some previous \<Rightarrow> next < previous)")
  case True
  then show ?thesis by (simp add: enter_def)
next
  case False
  then have n: "0 \<le> next" by simp
  show ?thesis
  proof (cases "ck_current c")
    case None
    with n assms(2) show ?thesis
      by (auto simp: enter_def timed_def timed_events_def reaches_def clock_ok_def less_eq_time_def not_less)
  next
    case (Some p)
    with False assms(1) have p: "0 \<le> p" "p < 2 ^ 63" "time_at p \<le> stop" "p \<le> next" by (auto simp: clock_ok_def)
    note mono = time_at_mono [OF p(1,2) n assms(2)]
    show ?thesis
      using Some p n assms(2) mono
      by (auto simp: enter_def timed_def timed_events_def reaches_def clock_ok_def closed_by_def after_def less_eq_time_def not_less)
  qed
qed


lemma i64_range: "w_i64 w = Inr (t, w') \<Longrightarrow> t < 2 ^ 63"
proof -
  assume "w_i64 w = Inr (t, w')"
  then obtain x :: u64 where "t = sint x" by (auto simp: w_i64_def)
  then show ?thesis using sint_lt [of x] by simp
qed

definition snapshot_list :: "types \<Rightarrow> active \<Rightarrow> int \<Rightarrow> wire \<Rightarrow> clock \<Rightarrow> (clock \<times> wire) ghw_run" where
  "snapshot_list types active t w c =
    proceed (snapshot_values types (time_at t) active 0 w) (\<lambda>w1.
    proceed (reading (w_marker (section_name ''ESN'') w1)) (\<lambda>w2. ([ListEnd (time_at t)], More (c, w2))))"

lemma snapshot_section_list:
  "snapshot_section types active stop c w =
    proceed (reading (w_zeros w)) (\<lambda>w1.
    proceed (reading (w_i64 w1)) (\<lambda>(t, w2).
    proceed (enter t stop w2 c) (snapshot_list types active t w2)))"
  by (simp add: snapshot_section_def snapshot_list_def [abs_def])

lemma at_time_snapshot_list: "at_time (time_at t) (snapshot_list types active t w c)"
  unfolding snapshot_list_def by (auto intro!: at_time_proceed at_time_snapshot)

lemma snapshot_list_clock: "snd (snapshot_list types active t w c) = More x \<Longrightarrow> fst x = c"
  by (auto simp: snapshot_list_def)

lemma timed_snapshot_list:
  assumes "clock_ok stop c" and "ck_current c = Some t"
  shows "timed stop c fst (snapshot_list types active t w c)"
  using at_time_timed [OF at_time_snapshot_list assms refl, of types active w] snapshot_list_clock [of types active t w c]
  by (auto simp: timed_def)

lemma timed_snapshot_section:
  assumes "clock_ok stop c"
  shows "timed stop c fst (snapshot_section types active stop c w)"
  unfolding snapshot_section_list
proof (rule timed_proceed [OF timed_reading [OF assms]], rule timed_proceed [OF timed_reading [OF assms]], clarify)
  fix w1 t w2
  assume "snd (reading (w_i64 w1)) = More (t, w2)"
  then have t: "t < 2 ^ 63" by (auto dest: i64_range)
  show "timed stop c fst (proceed (enter t stop w2 c) (snapshot_list types active t w2))"
    by (rule timed_proceed [OF timed_enter [OF assms t]])
      (use enter_More in \<open>auto intro!: timed_snapshot_list\<close>)
qed

lemma timed_cycle_steps:
  "clock_ok stop c \<Longrightarrow> ck_current c = Some t \<Longrightarrow> timed stop c fst (cycle_steps types active stop t c w)"
proof (induction types active stop t c w rule: cycle_steps.induct)
  case (1 types active stop t c w)
  note ok = 1(2) and c = 1(3)
  have l: "timed stop c (\<lambda>_. c) ([ListEnd (time_at t)], More w1)" for w1 :: wire
    by (rule at_time_timed [OF _ ok c refl]) simp
  show ?case unfolding cycle_steps.simps [of types _ _ t]
  proof (rule timed_proceed [OF at_time_timed [OF at_time_list ok c refl]], rule timed_proceed [OF l],
      rule timed_proceed [OF timed_reading [OF ok]], clarify)
    fix w0 w1 delta w2
    assume a: "snd (cycle_list types active (time_at t) 0 w) = More w0" "snd ([ListEnd (time_at t)], More w0) = More w1"
      and d: "snd (reading (w_sleb 64 w1)) = More (delta, w2)"
    show "timed stop c fst
        (if delta = - 1 then proceed (reading (w_marker (section_name ''ECY'') w2)) (\<lambda>w3. ([], More (c, w3)))
         else if delta < 0 then ([], Failed (ghw_malformed w2 ''negative cycle time increment''))
         else if 2 ^ 63 \<le> t + delta then ([], Failed (ghw_malformed w2 ''cycle time overflow''))
         else proceed (enter (t + delta) stop w2 c) (\<lambda>c'. cycle_steps types active stop (t + delta) c' w2))"
    proof (cases "delta = - 1 \<or> delta < 0 \<or> 2 ^ 63 \<le> t + delta")
      case True
      have "timed stop c fst (proceed (reading (w_marker (section_name ''ECY'') w2)) (\<lambda>w3. ([], More (c, w3))))"
        by (rule timed_proceed [OF timed_reading [OF ok]]) (simp add: timed_more)
      with True show ?thesis by auto
    next
      case False
      then have n: "\<not> delta = - 1" "\<not> delta < 0" "\<not> 2 ^ 63 \<le> t + delta" by simp_all
      have "timed stop c fst (proceed (enter (t + delta) stop w2 c) (\<lambda>c'. cycle_steps types active stop (t + delta) c' w2))"
      proof (rule timed_proceed [OF timed_enter [OF ok]])
        fix c'
        assume e: "snd (enter (t + delta) stop w2 c) = More c'" and ok': "clock_ok stop c'"
        have "ck_current c' = Some (t + delta)" using enter_More [OF e] by simp
        from 1(1) [OF a d refl n e ok' this]
        show "timed stop c' fst (cycle_steps types active stop (t + delta) c' w2)" by simp
      qed (use n in simp)
      with n show ?thesis by simp
    qed
  qed
qed

lemma timed_cycle_section:
  assumes "clock_ok stop c"
  shows "timed stop c fst (cycle_section types active stop c w)"
  unfolding cycle_section_def
proof (rule timed_proceed [OF timed_reading [OF assms]], clarify)
  fix t w1
  assume "snd (reading (w_i64 w)) = More (t, w1)"
  then have t: "t < 2 ^ 63" by (auto dest: i64_range)
  show "timed stop c fst (proceed (enter t stop w1 c) (\<lambda>c'. cycle_steps types active stop t c' w1))"
  proof (rule timed_proceed [OF timed_enter [OF assms t]])
    fix c'
    assume e: "snd (enter t stop w1 c) = More c'" and ok: "clock_ok stop c'"
    show "timed stop c' fst (cycle_steps types active stop t c' w1)"
      by (rule timed_cycle_steps [OF ok]) (use enter_More [OF e] in simp)
  qed
qed

section \<open>An earlier end\<close>

text \<open>
  \<open>r\<close> runs to the end of the read and \<open>r'\<close> to an earlier end: they are the same, or \<open>r'\<close> ends
  in front of the first event behind its end.
\<close>

definition within :: "time \<Rightarrow> clock \<Rightarrow> bool" where
  "within earlier c \<longleftrightarrow> (\<forall>p. ck_current c = Some p \<longrightarrow> time_at p \<le> earlier)"

definition past :: "time \<Rightarrow> clock \<Rightarrow> bool" where
  "past earlier c \<longleftrightarrow> (\<exists>p. ck_current c = Some p \<and> earlier < time_at p)"

definition cut_short :: "time \<Rightarrow> event list \<Rightarrow> event list \<Rightarrow> bool" where
  "cut_short earlier es es' \<longleftrightarrow>
    (\<exists>late. es = es' @ late \<and> (\<forall>e \<in> set es'. event_time e \<le> earlier) \<and> (\<forall>e \<in> set late. earlier < event_time e))"

definition cut :: "time \<Rightarrow> ('a \<Rightarrow> clock) \<Rightarrow> 'a ghw_run \<Rightarrow> 'a ghw_run \<Rightarrow> bool" where
  "cut earlier clk r r' \<longleftrightarrow>
    (r' = r \<and> (\<forall>e \<in> set (fst r). event_time e \<le> earlier) \<and> (\<forall>x. snd r = More x \<longrightarrow> within earlier (clk x))) \<or>
    ((\<exists>c. snd r' = Ended c) \<and> cut_short earlier (fst r) (fst r') \<and> (\<forall>x. snd r = More x \<longrightarrow> past earlier (clk x)))"

lemma cut_same:
  "(\<And>e. e \<in> set (fst r) \<Longrightarrow> event_time e \<le> earlier) \<Longrightarrow> (\<And>x. snd r = More x \<Longrightarrow> within earlier (clk x)) \<Longrightarrow>
    cut earlier clk r r"
  by (simp add: cut_def)

lemma cut_proceed:
  assumes "cut earlier clk r r'"
    and same: "\<And>x. snd r = More x \<Longrightarrow> within earlier (clk x) \<Longrightarrow> cut earlier clk' (f x) (f' x)"
    and timed: "\<And>x. snd r = More x \<Longrightarrow> timed stop (clk x) clk' (f x)"
  shows "cut earlier clk' (proceed r f) (proceed r' f')"
  using assms(1) unfolding cut_def [of _ clk]
proof (elim disjE conjE exE)
  assume r: "r' = r" and early: "\<forall>e \<in> set (fst r). event_time e \<le> earlier"
    and clk: "\<forall>x. snd r = More x \<longrightarrow> within earlier (clk x)"
  obtain es p where p: "r = (es, p)" by (cases r)
  show ?thesis
  proof (cases p)
    case (More x)
    then have "cut earlier clk' (f x) (f' x)" using same clk p by simp
    then show ?thesis using early by (cases "f' x") (auto simp: r p More cut_def cut_short_def prod_eq_iff)
  qed (use early in \<open>simp_all add: r p cut_def\<close>)
next
  fix c
  assume r': "snd r' = Ended c" and es: "cut_short earlier (fst r) (fst r')"
    and clk: "\<forall>x. snd r = More x \<longrightarrow> past earlier (clk x)"
  obtain es p where p: "r = (es, p)" by (cases r)
  have pr': "proceed r' f' = (fst r', Ended c)" using r' by (cases r') simp
  show ?thesis
  proof (cases p)
    case (More x)
    have "past earlier (clk x)" using clk p More by simp
    moreover have "timed stop (clk x) clk' (f x)" using timed p More by simp
    ultimately have "\<forall>e \<in> set (fst (f x)). earlier < event_time e" "\<forall>y. snd (f x) = More y \<longrightarrow> past earlier (clk' y)"
      by (auto simp: past_def timed_def timed_events_def after_def reaches_def intro: less_le_trans)
    with es show ?thesis unfolding cut_def pr' by (auto simp: p More cut_short_def)
  qed (use es in \<open>simp_all add: p cut_def pr'\<close>)
qed

lemma cut_quiet:
  assumes "at_time t r" and "t \<le> earlier" and "within earlier c"
  shows "cut earlier (\<lambda>_. c) r r"
  using assms by (auto simp: at_time_def list_all_iff intro!: cut_same)

lemma cut_reading: "within earlier c \<Longrightarrow> cut earlier (\<lambda>_. c) (reading r) (reading r)"
  by (cases r) (auto intro: cut_same)

lemma cut_failed [simp]: "cut earlier clk ([], Failed e) ([], Failed e)"
  by (simp add: cut_def)

lemma cut_enter:
  assumes "within earlier c" and "earlier \<le> stop"
  shows "cut earlier (\<lambda>c. c) (enter t stop w c) (enter t earlier w c)"
proof (cases "t < 0 \<or> (case ck_current c of None \<Rightarrow> False | Some previous \<Rightarrow> t < previous)")
  case True
  then show ?thesis by (simp add: enter_def)
next
  case False
  let ?es = "case ck_current c of None \<Rightarrow> [] | Some previous \<Rightarrow> if previous < t then [TickEvent (time_at previous)] else []"
  have es: "\<forall>e \<in> set ?es. event_time e \<le> earlier" using assms(1) by (auto simp: within_def split: option.split)
  have "ticks earlier \<le> ticks stop" using assms(2) by (simp add: less_eq_time_def)
  consider "ticks stop < ticks (time_at t)" | "\<not> ticks stop < ticks (time_at t)" "ticks earlier < ticks (time_at t)"
    | "\<not> ticks earlier < ticks (time_at t)" by blast
  then show ?thesis
  proof cases
    case 1
    then have "ticks earlier < ticks (time_at t)" using \<open>ticks earlier \<le> ticks stop\<close> by simp
    with 1 False es show ?thesis by (simp add: enter_def cut_def)
  next
    case 2
    with False es show ?thesis by (simp add: enter_def cut_def cut_short_def past_def less_time_def)
  next
    case 3
    then have "\<not> ticks stop < ticks (time_at t)" using \<open>ticks earlier \<le> ticks stop\<close> by simp
    with 3 False es show ?thesis by (simp add: enter_def cut_def within_def less_eq_time_def)
  qed
qed


lemma cut_proceed_same:
  assumes "\<forall>e \<in> set (fst r). event_time e \<le> earlier" and "\<And>x. snd r = More x \<Longrightarrow> cut earlier clk (f x) (f' x)"
  shows "cut earlier clk (proceed r f) (proceed r f')"
proof -
  obtain es p where p: "r = (es, p)" by (cases r)
  show ?thesis
  proof (cases p)
    case (More x)
    then have "cut earlier clk (f x) (f' x)" using assms(2) p by simp
    then show ?thesis using assms(1) by (cases "f' x") (auto simp: p More cut_def cut_short_def prod_eq_iff)
  qed (use assms(1) in \<open>simp_all add: p cut_def\<close>)
qed

lemma early_reading [simp]: "\<forall>e \<in> set (fst (reading r)). event_time e \<le> earlier"
  by (cases r) simp_all

lemma early_list: "at_time t r \<Longrightarrow> t \<le> earlier \<Longrightarrow> \<forall>e \<in> set (fst r). event_time e \<le> earlier"
  by (auto simp: at_time_def list_all_iff)

lemma cut_snapshot_section:
  assumes "clock_ok stop c" and "within earlier c" and "earlier \<le> stop"
  shows "cut earlier fst (snapshot_section types active stop c w) (snapshot_section types active earlier c w)"
  unfolding snapshot_section_list
proof (rule cut_proceed_same [OF early_reading], rule cut_proceed_same [OF early_reading], clarify)
  fix w1 t w2
  assume "snd (reading (w_i64 w1)) = More (t, w2)"
  then have t: "t < 2 ^ 63" by (auto dest: i64_range)
  show "cut earlier fst (proceed (enter t stop w2 c) (snapshot_list types active t w2))
      (proceed (enter t earlier w2 c) (snapshot_list types active t w2))"
  proof (rule cut_proceed [OF cut_enter [OF assms(2,3)]])
    fix c'
    assume e: "snd (enter t stop w2 c) = More c'"
    then have c': "ck_current c' = Some t" using enter_More [OF e] by simp
    have "clock_ok stop c'" using timed_enter [OF assms(1) t, of w2] e by (simp add: timed_def)
    then show "timed stop c' fst (snapshot_list types active t w2 c')" using c' by (rule timed_snapshot_list)
    assume "within earlier c'"
    then show "cut earlier fst (snapshot_list types active t w2 c') (snapshot_list types active t w2 c')"
      using early_list [OF at_time_snapshot_list, of t earlier types active w2 c'] snapshot_list_clock [of types active t w2 c']
      by (intro cut_same) (auto simp: within_def c')
  qed
qed

lemma cut_cycle_steps:
  "clock_ok stop c \<Longrightarrow> ck_current c = Some t \<Longrightarrow> within earlier c \<Longrightarrow> earlier \<le> stop \<Longrightarrow>
    cut earlier fst (cycle_steps types active stop t c w) (cycle_steps types active earlier t c w)"
proof (induction types active stop t c w rule: cycle_steps.induct)
  case (1 types active stop t c w)
  note ok = 1(2) and c = 1(3) and early = 1(4) and stop = 1(5)
  have t: "time_at t \<le> earlier" using early c by (simp add: within_def)
  then have l: "\<forall>e \<in> set (fst ([ListEnd (time_at t)], More w1)). event_time e \<le> earlier" for w1 :: wire by simp
  show ?case unfolding cycle_steps.simps [of types _ _ t]
  proof (rule cut_proceed_same [OF early_list [OF at_time_list t]], rule cut_proceed_same [OF l],
      rule cut_proceed_same [OF early_reading], clarify)
    fix w0 w1 delta w2
    assume a: "snd (cycle_list types active (time_at t) 0 w) = More w0" "snd ([ListEnd (time_at t)], More w0) = More w1"
      and d: "snd (reading (w_sleb 64 w1)) = More (delta, w2)"
    show "cut earlier fst
        (if delta = - 1 then proceed (reading (w_marker (section_name ''ECY'') w2)) (\<lambda>w3. ([], More (c, w3)))
         else if delta < 0 then ([], Failed (ghw_malformed w2 ''negative cycle time increment''))
         else if 2 ^ 63 \<le> t + delta then ([], Failed (ghw_malformed w2 ''cycle time overflow''))
         else proceed (enter (t + delta) stop w2 c) (\<lambda>c'. cycle_steps types active stop (t + delta) c' w2))
        (if delta = - 1 then proceed (reading (w_marker (section_name ''ECY'') w2)) (\<lambda>w3. ([], More (c, w3)))
         else if delta < 0 then ([], Failed (ghw_malformed w2 ''negative cycle time increment''))
         else if 2 ^ 63 \<le> t + delta then ([], Failed (ghw_malformed w2 ''cycle time overflow''))
         else proceed (enter (t + delta) earlier w2 c) (\<lambda>c'. cycle_steps types active earlier (t + delta) c' w2))"
    proof (cases "delta = - 1 \<or> delta < 0 \<or> 2 ^ 63 \<le> t + delta")
      case True
      have "cut earlier fst (proceed (reading (w_marker (section_name ''ECY'') w2)) (\<lambda>w3. ([], More (c, w3))))
          (proceed (reading (w_marker (section_name ''ECY'') w2)) (\<lambda>w3. ([], More (c, w3))))"
        by (rule cut_proceed_same [OF early_reading]) (use early in \<open>simp add: cut_def\<close>)
      with True show ?thesis by auto
    next
      case False
      then have n: "\<not> delta = - 1" "\<not> delta < 0" "\<not> 2 ^ 63 \<le> t + delta" by simp_all
      have "cut earlier fst (proceed (enter (t + delta) stop w2 c) (\<lambda>c'. cycle_steps types active stop (t + delta) c' w2))
          (proceed (enter (t + delta) earlier w2 c) (\<lambda>c'. cycle_steps types active earlier (t + delta) c' w2))"
      proof (rule cut_proceed [OF cut_enter [OF early stop]])
        fix c'
        assume e: "snd (enter (t + delta) stop w2 c) = More c'"
        then have c': "ck_current c' = Some (t + delta)" using enter_More [OF e] by simp
        have ok': "clock_ok stop c'" using timed_enter [OF ok, of "t + delta" w2] n e by (simp add: timed_def)
        then show "timed stop c' fst (cycle_steps types active stop (t + delta) c' w2)" using c' by (rule timed_cycle_steps)
        assume "within earlier c'"
        from 1(1) [OF a d refl n e ok' c' this stop]
        show "cut earlier fst (cycle_steps types active stop (t + delta) c' w2) (cycle_steps types active earlier (t + delta) c' w2)"
          by simp
      qed
      with n show ?thesis by simp
    qed
  qed
qed

lemma cut_cycle_section:
  assumes "clock_ok stop c" and "within earlier c" and "earlier \<le> stop"
  shows "cut earlier fst (cycle_section types active stop c w) (cycle_section types active earlier c w)"
  unfolding cycle_section_def
proof (rule cut_proceed_same [OF early_reading], clarify)
  fix t w1
  assume "snd (reading (w_i64 w)) = More (t, w1)"
  then have t: "t < 2 ^ 63" by (auto dest: i64_range)
  show "cut earlier fst (proceed (enter t stop w1 c) (\<lambda>c'. cycle_steps types active stop t c' w1))
      (proceed (enter t earlier w1 c) (\<lambda>c'. cycle_steps types active earlier t c' w1))"
  proof (rule cut_proceed [OF cut_enter [OF assms(2,3)]])
    fix c'
    assume e: "snd (enter t stop w1 c) = More c'"
    then have c': "ck_current c' = Some t" using enter_More [OF e] by simp
    have ok: "clock_ok stop c'" using timed_enter [OF assms(1) t, of w1] e by (simp add: timed_def)
    then show "timed stop c' fst (cycle_steps types active stop t c' w1)" using c' by (rule timed_cycle_steps)
    assume "within earlier c'"
    from cut_cycle_steps [OF ok c' this assms(3)]
    show "cut earlier fst (cycle_steps types active stop t c' w1) (cycle_steps types active earlier t c' w1)" .
  qed
qed

section \<open>The walk\<close>

lemma cut_project:
  "cut earlier fst r r' \<Longrightarrow>
    cut earlier fst (proceed r (\<lambda>(c', w'). ([], More (c', f, w', o')))) (proceed r' (\<lambda>(c', w'). ([], More (c', f, w', o'))))"
  by (cases r; cases r'; cases "snd r"; cases "snd r'") (auto simp: cut_def)

lemma timed_project:
  "timed stop c fst r \<Longrightarrow> timed stop c fst (proceed r (\<lambda>(c', w'). ([], More (c', f, w', o'))))"
  by (cases r; cases "snd r") (auto simp: timed_def)

text \<open>Behind the footer nothing is delivered.\<close>

lemma footer_quiet: "fst (body_walk types active stop c True w) = []"
proof (induction "length (w_bytes w)" arbitrary: c w rule: less_induct)
  case less
  show ?case
  proof (cases "at_eof w = Inr False")
    case False
    then show ?thesis by (cases "at_eof w") (simp_all add: body_walk.simps [of _ _ _ c] body_end_def)
  next
    case eof: True
    show ?thesis
    proof (cases "w_fixed 4 w")
      case (Inl e)
      then show ?thesis by (simp add: body_walk.simps [of _ _ _ c] eof)
    next
      case (Inr p)
      obtain tag w1 where p: "p = (tag, w1)" by (cases p)
      have "fst (body_section types active stop tag c True w1) = []"
        by (cases "tailer w1") (auto simp: body_section_def)
      moreover have "footer' \<and> over" if "snd (body_section types active stop tag c True w1) = More (c', footer', w', over)" for c' footer' w' over
        using that by (auto simp: body_section_def split: if_splits)
      ultimately show ?thesis
        by (cases "body_section types active stop tag c True w1"; cases "snd (body_section types active stop tag c True w1)")
          (auto simp: body_walk.simps [of _ _ _ c] eof Inr p body_end_def split: prod.split)
    qed
  qed
qed


lemma timed_tick: "clock_ok stop c \<Longrightarrow> timed_events stop c (current_tick c)"
  by (auto simp: current_tick_def timed_events_def clock_ok_def after_def split: option.split)

lemma early_tick: "within earlier c \<Longrightarrow> e \<in> set (current_tick c) \<Longrightarrow> event_time e \<le> earlier"
  by (auto simp: current_tick_def within_def split: option.splits)

text \<open>A section in front of the footer: a list of values, or the last events of the walk.\<close>

lemma section_cases:
  obtains (listed) "tag = section_name ''SNP'' \<or> tag = section_name ''CYC''"
  | (other) "\<And>types active stop c w. fst (body_section types active stop tag c False w) \<in> {[], current_tick c}"
      "\<And>types active stop c w c' footer w' over.
        snd (body_section types active stop tag c False w) = More (c', footer, w', over) \<Longrightarrow> footer \<and> c' = c"
      "\<And>types active stop stop' c w. body_section types active stop tag c False w = body_section types active stop' tag c False w"
      "\<And>types active stop c w k. snd (body_section types active stop tag c False w) \<noteq> Ended k"
proof -
  consider "tag = section_name ''SNP'' \<or> tag = section_name ''CYC''"
    | "tag \<noteq> section_name ''SNP''" "tag \<noteq> section_name ''CYC''" by blast
  then show thesis
  proof cases
    case 1
    then show ?thesis by (rule listed)
  next
    case 2
    show ?thesis
    proof (rule other)
      show "fst (body_section types active stop tag c False w) \<in> {[], current_tick c}" for types active stop c w
        using 2 by (cases "directory w"; cases "tailer w") (simp_all add: body_section_def)
      show "footer \<and> c' = c" if "snd (body_section types active stop tag c False w) = More (c', footer, w', over)"
        for types active stop c w c' footer w' over
        using 2 that by (auto simp: body_section_def split: if_splits)
      show "body_section types active stop tag c False w = body_section types active stop' tag c False w" for types active stop stop' c w
        using 2 by (simp add: body_section_def)
      show "snd (body_section types active stop tag c False w) \<noteq> Ended k" for types active stop c w k
        using 2 by (cases "directory w"; cases "tailer w") (simp_all add: body_section_def)
    qed
  qed
qed

lemma section_lists:
  "body_section types active stop (section_name ''SNP'') c False w =
    proceed (snapshot_section types active stop c w) (\<lambda>(c', w'). ([], More (c', False, w', False)))"
  "tag = section_name ''CYC'' \<Longrightarrow> tag \<noteq> section_name ''SNP'' \<Longrightarrow> body_section types active stop tag c False w =
    proceed (cycle_section types active stop c w) (\<lambda>(c', w'). ([], More (c', False, w', False)))"
  by (simp_all add: body_section_def)

lemma timed_section:
  assumes "clock_ok stop c" and "tag = section_name ''SNP'' \<or> tag = section_name ''CYC''"
  shows "timed stop c fst (body_section types active stop tag c False w)"
  using assms section_lists timed_project [OF timed_snapshot_section [OF assms(1)]] timed_project [OF timed_cycle_section [OF assms(1)]]
  by metis

lemma section_footer:
  "tag = section_name ''SNP'' \<or> tag = section_name ''CYC'' \<Longrightarrow>
    snd (body_section types active stop tag c False w) = More (c', footer, w', over) \<Longrightarrow> \<not> footer \<and> \<not> over"
  by (auto simp: body_section_def split: if_splits)

lemma body_end_events: "fst (body_end c footer) = (if footer then [] else current_tick c)"
  by (simp add: body_end_def)

lemma body_walk_section:
  assumes "at_eof w = Inr False" and "w_fixed 4 w = Inr (tag, w1)" and "body_section types active stop tag c f w1 = (es, q)"
  shows "q = Failed e \<Longrightarrow> body_walk types active stop c f w = (es, Inl e)"
    "q = Ended k \<Longrightarrow> body_walk types active stop c f w = (es, Inr (clock_span k))"
    "q = More (c', f', w', over) \<Longrightarrow> body_walk types active stop c f w =
      (es @ fst (if over then body_end c' f' else body_walk types active stop c' f' w'),
       snd (if over then body_end c' f' else body_walk types active stop c' f' w'))"
  using assms by (simp_all add: body_walk.simps [of _ _ _ c] split: prod.split)

lemma walk_timed:
  "clock_ok stop c \<Longrightarrow> timed_events stop c (fst (body_walk types active stop c False w))"
proof (induction "length (w_bytes w)" arbitrary: c w rule: less_induct)
  case less
  note ok = less.prems
  show ?case
  proof (cases "at_eof w = Inr False")
    case False
    then show ?thesis
      using timed_tick [OF ok] by (cases "at_eof w") (simp_all add: body_walk.simps [of _ _ _ c] body_end_events timed_events_def)
  next
    case eof: True
    show ?thesis
    proof (cases "w_fixed 4 w")
      case (Inl e)
      then show ?thesis by (simp add: body_walk.simps [of _ _ _ c] eof timed_events_def)
    next
      case (Inr p)
      obtain tag w1 where p: "p = (tag, w1)" by (cases p)
      obtain es q where q: "body_section types active stop tag c False w1 = (es, q)"
        by (cases "body_section types active stop tag c False w1")
      note step = body_walk_section [OF eof Inr [unfolded p] q]
      show ?thesis
      proof (cases rule: section_cases [of tag])
        case other
        have es: "es \<in> {[], current_tick c}" using other(1) [of types active stop c w1] q by simp
        have quiet: "fst (body_walk types active stop c False w) = es"
        proof (cases q)
          case (More x)
          obtain c' f w' o' where x: "x = (c', f, w', o')" by (cases x)
          have "f" using other(2) [of types active stop c w1] q More x by simp
          with x More have "q = More (c', True, w', o')" by simp
          from step(3) [OF this] show ?thesis by (simp add: footer_quiet body_end_events)
        qed (simp_all add: step(1,2))
        with es timed_tick [OF ok] show ?thesis by (auto simp: timed_events_def)
      next
        case listed
        note t = timed_section [OF ok listed, of types active w1]
        show ?thesis
        proof (cases q)
          case (More x)
          obtain c' f w' o' where x: "x = (c', f, w', o')" by (cases x)
          have "\<not> f \<and> \<not> o'" using section_footer [OF listed, of types active stop c w1] q More x by simp
          then have x: "x = (c', False, w', False)" using x by simp
          have t': "timed_events stop c es" "reaches c c'" "clock_ok stop c'" "\<forall>e \<in> set es. closed_by e c'"
            using t q More x by (simp_all add: timed_def)
          have "length (w_bytes w') < length (w_bytes w)"
            using section_shorter [of w tag w1 es c' False w' False types active stop c False] Inr p q More x by simp
          from less.hyps [OF this t'(3)] timed_events_append [OF t'(1) _ t'(2,4)] show ?thesis
            by (simp add: step(3) [OF More [unfolded x]])
        qed (use t q in \<open>simp_all add: step(1,2) timed_def\<close>)
      qed
    qed
  qed
qed

text \<open>Two walks with different ends.\<close>

lemma footer_outcome: "body_walk types active stop c True w = body_walk types active stop' c True w"
proof (induction "length (w_bytes w)" arbitrary: c w rule: less_induct)
  case less
  have sec: "body_section types active stop tag c True w1 = body_section types active stop' tag c True w1" for tag w1
    by (simp add: body_section_def)
  have over: "over" if "body_section types active stop' tag c True w1 = (es, More (c', f, w', over))" for tag w1 es c' f w' over
  proof -
    have "snd (body_section types active stop' tag c True w1) = More (c', f, w', over)" using that by simp
    then show ?thesis by (auto simp: body_section_def split: if_splits)
  qed
  show ?case
    by (auto simp: body_walk.simps [of _ _ _ c] sec split: sum.split prod.split phase.split dest: over)
qed

lemma walk_cut:
  "clock_ok stop c \<Longrightarrow> within earlier c \<Longrightarrow> earlier \<le> stop \<Longrightarrow>
    body_walk types active stop c False w = (es, Inr span) \<Longrightarrow>
    \<exists>es' span'. body_walk types active earlier c False w = (es', Inr span') \<and> cut_short earlier es es'"
proof (induction "length (w_bytes w)" arbitrary: c w es span rule: less_induct)
  case less
  note ok = less.prems(1) and early = less.prems(2) and stop = less.prems(3) and walk = less.prems(4)
  have same: "cut_short earlier (current_tick c) (current_tick c)" "cut_short earlier [] []"
    using early_tick [OF early] by (auto simp: cut_short_def)
  show ?case
  proof (cases "at_eof w = Inr False")
    case False
    then show ?thesis
      using walk same by (cases "at_eof w") (auto simp: body_walk.simps [of _ _ _ c] body_end_def)
  next
    case eof: True
    show ?thesis
    proof (cases "w_fixed 4 w")
      case (Inl e)
      then show ?thesis using walk by (simp add: body_walk.simps [of _ _ _ c] eof)
    next
      case (Inr p)
      obtain tag w1 where p: "p = (tag, w1)" by (cases p)
      obtain es1 q where q: "body_section types active stop tag c False w1 = (es1, q)"
        by (cases "body_section types active stop tag c False w1")
      obtain es2 q2 where q2: "body_section types active earlier tag c False w1 = (es2, q2)"
        by (cases "body_section types active earlier tag c False w1")
      note step = body_walk_section [OF eof Inr [unfolded p] q]
      note step2 = body_walk_section [OF eof Inr [unfolded p] q2]
      show ?thesis
      proof (cases rule: section_cases [of tag])
        case other
        have eq: "es2 = es1" "q2 = q" using other(3) [of types active stop c w1 earlier] q q2 by simp_all
        have es: "es1 \<in> {[], current_tick c}" using other(1) [of types active stop c w1] q by simp
        then have cut1: "cut_short earlier es1 es1" using same by auto
        show ?thesis
        proof (cases q)
          case (Failed e)
          with walk step(1) show ?thesis by simp
        next
          case (Ended k)
          with other(4) [of types active stop c w1 k] q show ?thesis by simp
        next
          case (More x)
          obtain c' f w' o' where x: "x = (c', f, w', o')" by (cases x)
          have "f" using other(2) [of types active stop c w1] q More x by simp
          with x More have m: "q = More (c', True, w', o')" by simp
          have "es = es1" using walk step(3) [OF m] by (auto simp: footer_quiet body_end_events)
          moreover have "\<exists>span'. body_walk types active earlier c False w = (es1, Inr span')"
          proof -
            have "snd (if o' then body_end c' True else body_walk types active stop c' True w') = Inr span"
              using walk step(3) [OF m] by simp
            then have "\<exists>span'. snd (if o' then body_end c' True else body_walk types active earlier c' True w') = Inr span'"
              using footer_outcome [of types active stop c' w' earlier] by (auto simp: body_end_def)
            then show ?thesis using step2(3) eq m by (auto simp: footer_quiet body_end_events)
          qed
          ultimately show ?thesis using cut1 by blast
        qed
      next
        case listed
        note t = timed_section [OF ok listed, of types active w1]
        have cut1: "cut earlier fst (body_section types active stop tag c False w1) (body_section types active earlier tag c False w1)"
          using listed section_lists cut_project [OF cut_snapshot_section [OF ok early stop]] cut_project [OF cut_cycle_section [OF ok early stop]]
          by metis
        show ?thesis
        proof (cases q)
          case (Failed e)
          with walk step(1) show ?thesis by simp
        next
          case (Ended k)
          with walk step(2) have "es = es1" by simp
          with cut1 q q2 Ended step2(2) show ?thesis by (auto simp: cut_def cut_short_def)
        next
          case (More x)
          obtain c' f w' o' where x: "x = (c', f, w', o')" by (cases x)
          have "\<not> f \<and> \<not> o'" using section_footer [OF listed, of types active stop c w1] q More x by simp
          then have m: "q = More (c', False, w', False)" using x More by simp
          have t': "reaches c c'" "clock_ok stop c'" using t q m by (simp_all add: timed_def)
          obtain es3 where es3: "body_walk types active stop c' False w' = (es3, Inr span)" "es = es1 @ es3"
            using walk step(3) [OF m] by (cases "body_walk types active stop c' False w'") auto
          have less: "length (w_bytes w') < length (w_bytes w)"
            using section_shorter [of w tag w1 es1 c' False w' False types active stop c False] Inr p q m by simp
          from cut1 q q2 m consider
              (same) "es2 = es1" "q2 = q" "\<forall>e \<in> set es1. event_time e \<le> earlier" "within earlier c'"
            | (ends) k where "q2 = Ended k" "cut_short earlier es1 es2" "past earlier c'"
            by (auto simp: cut_def)
          then show ?thesis
          proof cases
            case same
            from less.hyps [OF less t'(2) same(4) stop es3(1)] obtain es' span' where
              w': "body_walk types active earlier c' False w' = (es', Inr span')" "cut_short earlier es3 es'" by blast
            have "body_walk types active earlier c False w = (es1 @ es', Inr span')"
              using step2(3) [OF same(2) [unfolded m]] same(1) w'(1) by simp
            then show ?thesis using w'(2) same(3) es3(2) by (auto simp: cut_short_def)
          next
            case ends
            have "\<forall>e \<in> set es3. earlier < event_time e"
              using walk_timed [OF t'(2), of types active w'] es3(1) ends(3)
              by (auto simp: timed_events_def past_def after_def intro: less_le_trans)
            then have "cut_short earlier es es2" using ends(2) es3(2) by (auto simp: cut_short_def)
            with step2(2) [OF ends(1)] show ?thesis by blast
          qed
        qed
      qed
    qed
  qed
qed


section \<open>Notifications\<close>

lemma consume_notes:
  assumes "ghw_consume broad e a = Inr (ns, a')" and "n \<in> set ns"
  shows "note_time n = event_time e \<and> (is_tick_done n \<longleftrightarrow> is_tick_event e) \<and>
    (\<forall>b v t q. n = Observed b v t q \<longrightarrow> q = None)"
  using assms by (cases e) (auto simp: ghw_consume_def consume_list_end_def)

lemma consume_single:
  assumes "ghw_consume broad e a = Inr (ns, a')"
  shows "ordered_notes ns"
proof (cases e)
  case (TickEvent t)
  with assms have "ns = [TickDone t]" by (simp add: ghw_consume_def)
  then show ?thesis by simp
next
  case (ListEnd t)
  then have pair: "before_note m n" if "m \<in> set ns" "n \<in> set ns" for m n
    using consume_notes [OF assms that(1)] consume_notes [OF assms that(2)] by (simp add: before_note_def)
  show ?thesis
    unfolding ordered_notes_def sorted_wrt_iff_nth_less by (intro allI impI pair) auto
next
  case (ScalarEvent n rank t offset v cyclic route)
  with assms have "ns = []" by (auto simp: ghw_consume_def)
  then show ?thesis by simp
qed

lemma consume_all_notes:
  "n \<in> set (fst (consume_all broad es a)) \<Longrightarrow>
    \<exists>e \<in> set es. note_time n = event_time e \<and> (is_tick_done n \<longleftrightarrow> is_tick_event e) \<and>
      (\<forall>b v t q. n = Observed b v t q \<longrightarrow> q = None)"
proof (induction es arbitrary: a)
  case (Cons e es)
  show ?case
  proof (cases "ghw_consume broad e a")
    case (Inr p)
    obtain ns a' where p: "p = (ns, a')" by (cases p)
    with Cons.prems Inr have "n \<in> set ns \<or> n \<in> set (fst (consume_all broad es a'))" by (auto split: prod.splits)
    with consume_notes [OF Inr [unfolded p]] Cons.IH show ?thesis by auto
  qed (use Cons.prems in simp)
qed simp

lemma consume_all_ordered: "sorted_wrt before_event es \<Longrightarrow> ordered_notes (fst (consume_all broad es a))"
proof (induction es arbitrary: a)
  case (Cons e es)
  show ?case
  proof (cases "ghw_consume broad e a")
    case (Inr p)
    obtain ns a' where p: "p = (ns, a')" by (cases p)
    have "before_note m n" if m: "m \<in> set ns" and n: "n \<in> set (fst (consume_all broad es a'))" for m n
    proof -
      obtain f where "f \<in> set es" "note_time n = event_time f" using consume_all_notes [OF n] by blast
      with consume_notes [OF Inr [unfolded p] m] Cons.prems show ?thesis by (auto simp: before_note_def before_event_def)
    qed
    with consume_single [OF Inr [unfolded p]] Cons.IH [of a'] Cons.prems show ?thesis
      by (simp add: Inr p split: prod.split) (metis fst_conv)
  qed simp
qed simp

lemma consume_all_append:
  "consume_all broad (es @ es') a =
    (case consume_all broad es a of
       (ns, Inl e) \<Rightarrow> (ns, Inl e)
     | (ns, Inr a') \<Rightarrow> (case consume_all broad es' a' of (ns', out) \<Rightarrow> (ns @ ns', out)))"
  by (induction es arbitrary: a) (auto split: sum.splits prod.splits)

lemma consume_all_cut:
  assumes "consume_all broad es a = (ns, Inr final)" and "cut_short earlier es es'"
  shows "\<exists>final'. consume_all broad es' a = (filter (\<lambda>n. note_time n \<le> earlier) ns, Inr final')"
proof -
  obtain late where es: "es = es' @ late" and early: "\<forall>e \<in> set es'. event_time e \<le> earlier"
    and late: "\<forall>e \<in> set late. earlier < event_time e" using assms(2) by (auto simp: cut_short_def)
  obtain ns1 final1 where c1: "consume_all broad es' a = (ns1, Inr final1)"
    using assms(1) by (auto simp: es consume_all_append split: prod.splits sum.splits)
  obtain ns2 where c2: "consume_all broad late final1 = (ns2, Inr final)" and ns: "ns = ns1 @ ns2"
    using assms(1) c1 by (auto simp: es consume_all_append split: prod.splits)
  have "filter (\<lambda>n. note_time n \<le> earlier) ns1 = ns1"
    using consume_all_notes [of _ broad es' a] early c1 by (fastforce simp: filter_id_conv)
  moreover have "filter (\<lambda>n. note_time n \<le> earlier) ns2 = []"
    using consume_all_notes [of _ broad late final1] late c2 by (fastforce simp: filter_empty_conv)
  ultimately show ?thesis using c1 ns by simp
qed

section \<open>The contract\<close>

lemma ghw_walk_timed: "timed_events stop clock_start (fst (ghw_walk w types active stop))"
  unfolding ghw_walk_def by (rule walk_timed) (simp add: clock_ok_def clock_start_def)

lemma ghw_read_parts:
  fixes sort_by :: "(dependency \<Rightarrow> nat) \<Rightarrow> dependency list \<Rightarrow> dependency list"
  assumes "signals \<noteq> []" and "prepare r signals [] [] = Inr (buffers, unsorted)"
  defines "deps \<equiv> sort_by dp_id unsorted"
  defines "walked \<equiv> \<lambda>stop. ghw_walk (ghw_wire r) (gr_types r) (gr_active r) stop"
  defines "consumed \<equiv> \<lambda>stop. consume_all (broad_routes r deps) (fst (walked stop)) (first_assembly buffers deps)"
  shows "ghw_read sort_by r signals stop position =
    (fst (consumed stop), and_then (snd (consumed stop)) (\<lambda>_. and_then (snd (walked stop)) (\<lambda>_. Inr None)))"
  using assms(1,2) by (simp add: ghw_read_def deps_def walked_def consumed_def Let_def case_prod_beta)

lemma ghw_read_trivial:
  "signals = [] \<Longrightarrow> ghw_read sort_by r signals stop position = ([], Inr None)"
  "signals \<noteq> [] \<Longrightarrow> prepare r signals [] [] = Inl e \<Longrightarrow> ghw_read sort_by r signals stop position = ([], Inl e)"
  by (simp_all add: ghw_read_def)

lemma ghw_read_cases:
  obtains (nothing) e where "\<And>stop position. ghw_read sort_by r signals stop position = ([], e)" "e = Inr None \<or> isl e"
  | (walked) buffers unsorted where "signals \<noteq> []" "prepare r signals [] [] = Inr (buffers, unsorted)"
proof (cases "signals = [] \<or> isl (prepare r signals [] [])")
  case True
  then show ?thesis
  proof
    assume s: "signals = []"
    show ?thesis by (rule nothing [of "Inr None"]) (rule ghw_read_trivial(1) [OF s], simp)
  next
    assume "isl (prepare r signals [] [])"
    then obtain e where e: "prepare r signals [] [] = Inl e" by (auto simp: isl_def)
    then have ne: "signals \<noteq> []" by auto
    show ?thesis by (rule nothing [of "Inl e"]) (rule ghw_read_trivial(2) [OF ne e], simp)
  qed
next
  case False
  then show ?thesis by (cases "prepare r signals [] []") (auto intro: walked)
qed

lemma ghw_read_note:
  assumes "n \<in> set (fst (ghw_read sort_by r signals stop position))"
  shows "note_time n \<le> stop \<and> (\<forall>b v t q. n = Observed b v t q \<longrightarrow> q = None)"
proof (cases rule: ghw_read_cases [of sort_by r signals])
  case nothing
  with assms show ?thesis by simp
next
  case (walked buffers unsorted)
  have "\<exists>e \<in> set (fst (ghw_walk (ghw_wire r) (gr_types r) (gr_active r) stop)). note_time n = event_time e \<and>
      (\<forall>b v t q. n = Observed b v t q \<longrightarrow> q = None)"
    using consume_all_notes [OF assms [unfolded ghw_read_parts [OF walked] fst_conv]] by blast
  then show ?thesis using ghw_walk_timed [of stop "ghw_wire r" "gr_types r" "gr_active r"] by (auto simp: timed_events_def)
qed

lemma ghw_read_ordered: "ordered_notes (fst (ghw_read sort_by r signals stop position))"
proof (cases rule: ghw_read_cases [of sort_by r signals])
  case nothing
  then show ?thesis by simp
next
  case (walked buffers unsorted)
  show ?thesis unfolding ghw_read_parts [OF walked] fst_conv
    by (rule consume_all_ordered) (use ghw_walk_timed in \<open>simp add: timed_events_def\<close>)
qed

lemma ghw_read_prefix:
  assumes "ghw_read sort_by r signals stop position = (ns, Inr q)" and "earlier \<le> stop"
  shows "\<exists>q'. ghw_read sort_by r signals earlier position = (filter (\<lambda>n. note_time n \<le> earlier) ns, Inr q')"
proof (cases rule: ghw_read_cases [of sort_by r signals])
  case nothing
  with assms(1) show ?thesis by auto
next
  case (walked buffers unsorted)
  let ?deps = "sort_by dp_id unsorted"
  let ?walk = "ghw_walk (ghw_wire r) (gr_types r) (gr_active r)"
  let ?consume = "\<lambda>es. consume_all (broad_routes r ?deps) es (first_assembly buffers ?deps)"
  note parts = ghw_read_parts [OF walked, of sort_by]
  obtain es span where es: "?walk stop = (es, Inr span)" using assms(1) unfolding parts by (cases "?walk stop") auto
  obtain final where final: "?consume es = (ns, Inr final)"
    using assms(1) es unfolding parts by (cases "?consume es") auto
  obtain es' span' where es': "?walk earlier = (es', Inr span')" "cut_short earlier es es'"
    using walk_cut [OF _ _ assms(2), of clock_start "gr_types r" "gr_active r" "ghw_wire r" es span] es
    by (auto simp: ghw_walk_def clock_ok_def within_def clock_start_def)
  from consume_all_cut [OF final es'(2)] obtain final' where
    "?consume es' = (filter (\<lambda>n. note_time n \<le> earlier) ns, Inr final')" by blast
  then show ?thesis unfolding parts es'(1) by simp
qed

lemma ghw_read_position: "ghw_read sort_by r signals stop position = (ns, Inr q) \<Longrightarrow> q = None"
proof (cases rule: ghw_read_cases [of sort_by r signals])
  case (walked buffers unsorted)
  assume "ghw_read sort_by r signals stop position = (ns, Inr q)"
  then show ?thesis unfolding ghw_read_parts [OF walked] by auto
qed auto

interpretation ghw: tick_reader "ghw_read sort_by r" for sort_by r
proof unfold_locales
  fix bases stop
  show "ordered_notes (fst (ghw_read sort_by r bases stop None))" by (rule ghw_read_ordered)
next
  fix n bases stop
  assume "n \<in> set (fst (ghw_read sort_by r bases stop None))"
  then show "note_time n \<le> stop" using ghw_read_note by blast
next
  fix bases stop xs q and earlier :: time
  assume "ghw_read sort_by r bases stop None = (xs, Inr q)" and "earlier \<le> stop"
  then show "\<exists>q'. ghw_read sort_by r bases earlier None = (filter (\<lambda>n. note_time n \<le> earlier) xs, Inr q')"
    by (rule ghw_read_prefix)
next
  fix b v t p bases stop
  assume "Observed b v t (Some p) \<in> set (fst (ghw_read sort_by r bases stop None))"
  then show "position_time p = t" using ghw_read_note by blast
next
  fix bases stop xs b v t p ys out and stop' :: time
  assume "ghw_read sort_by r bases stop None = (xs @ Observed b v t (Some p) # ys, out)"
  then have "Observed b v t (Some p) \<in> set (fst (ghw_read sort_by r bases stop None))" by simp
  then have False using ghw_read_note by blast
  then show "\<exists>ys' out'. ghw_read sort_by r bases stop' None = (xs @ Observed b v t (Some p) # ys', out') \<and>
      ghw_read sort_by r bases stop' (Some p) = (Observed b v t (Some p) # ys', out')" by simp
next
  fix bases stop xs p and stop' :: time
  assume "ghw_read sort_by r bases stop None = (xs, Inr (Some p))"
  then have False using ghw_read_position by blast
  then show "\<exists>ys' out'. ghw_read sort_by r bases stop' None = (xs @ ys', out') \<and>
      ghw_read sort_by r bases stop' (Some p) = (ys', out')" by simp
next
  fix bases stop xs p t
  assume "ghw_read sort_by r bases stop None = (xs, Inr (Some p))"
  then have False using ghw_read_position by blast
  then show "TickDone t \<notin> set xs" by simp
next
  fix b v t p bases stop u
  assume "Observed b v t (Some p) \<in> set (fst (ghw_read sort_by r bases stop None))"
  then have False using ghw_read_note by blast
  then show "TickDone u \<notin> set (fst (ghw_read sort_by r bases stop None))" by simp
qed


end
