(* ===== verification/Ondas_Ghw_Demo.thy ===== *)
theory Ondas_Ghw_Demo
  imports Ondas_Ghw_Contract
begin

text \<open>Small GHW inputs at which the hypotheses of the GHW theorems hold.\<close>

definition demo_wire :: "string list \<Rightarrow> wire" where
  "demo_wire chunks =
    \<lparr>w_tokens = \<lparr>tk_chunks = chunks, tk_fail = None, tk_offset = 0\<rparr>, w_len = length (concat chunks),
     w_big = False, w_version = 1\<rparr>"

lemma demo_wire_simps [simp]:
  "w_bytes (demo_wire chunks) = concat chunks" "w_offset (demo_wire chunks) = 0"
  "w_len (demo_wire chunks) = length (concat chunks)" "w_big (demo_wire chunks) = False"
  by (simp_all add: demo_wire_def w_bytes_def w_offset_def tk_bytes_def)

lemma demo_wire_same: "concat chunks = concat chunks' \<Longrightarrow> same_wire (demo_wire chunks) (demo_wire chunks')"
  by (simp add: demo_wire_def same_wire_def same_input_def tk_bytes_def)

lemma demo_sleb: "sleb128 (- 300) = [CHR 0xD4, CHR 0x7D]"
  by code_simp

theorem sleb_round_trip_witness:
  "\<exists>w'. w_sleb 32 (demo_wire [[CHR 0xD4], [CHR 0x7D, CHR ''!'']]) = Inr (- 300, w') \<and> w_bytes w' = ''!'' \<and>
    w_offset w' = 2"
  using sleb_round_trip [of "demo_wire [[CHR 0xD4], [CHR 0x7D, CHR ''!'']]" "- 300" "''!''" 32]
  by (simp add: demo_sleb numeral_2_eq_2)

definition demo_strings :: "string list" where
  "demo_strings = [''clk'', ''clk_en'', ''q'']"

theorem string_table_round_trip_witness:
  "\<exists>w'. w_strings (demo_wire [encoded_strings False demo_strings @ ''TYP'']) = Inr ([] # demo_strings, w') \<and>
    w_bytes w' = ''TYP''"
proof -
  have "list_all (\<lambda>s. list_all (\<lambda>c. printable c \<and> latin1 c = [c]) s) demo_strings" by code_simp
  then have p: "\<forall>s \<in> set demo_strings. list_all printable s" and l: "map (\<lambda>s. concat (map latin1 s)) demo_strings = demo_strings"
    by (auto simp: list_all_iff demo_strings_def)
  show ?thesis
    using string_table_round_trip [of "demo_wire [encoded_strings False demo_strings @ ''TYP'']" demo_strings "''TYP''", OF _ _ p]
    by (simp add: l) (simp add: demo_strings_def)
qed

text \<open>An integer type, an unbounded array of it, and an unbounded array of that array.\<close>

definition demo_types :: types where
  "demo_types =
    \<lparr>ts_strings = [[], ''integer'', ''rows''],
     ts_nodes =
       [\<lparr>ty_name = 1, ty_base = None, ty_shape = ScalarShape I32 [] [] 0, ty_scalars = Some 1\<rparr>,
        \<lparr>ty_name = 2, ty_base = None, ty_shape = ArrayShape 0 [0] None, ty_scalars = None\<rparr>,
        \<lparr>ty_name = 2, ty_base = None, ty_shape = ArrayShape 1 [0] None, ty_scalars = None\<rparr>],
     ts_source_ids = [0, 1, 2]\<rparr>"

lemma demo_types_ok: "types_ok demo_types"
proof -
  have "\<forall>n < 3. node_ok 3 n (ts_nodes demo_types ! n)"
    by (simp add: demo_types_def node_ok_def numeral_3_eq_3 less_Suc_eq all_conj_distrib)
  then show ?thesis by (simp add: types_ok_def demo_types_def numeral_3_eq_3)
qed

definition demo_bounds :: "string list" where
  "demo_bounds = [[CHR 0x19, CHR 0x00], [CHR 0x03, CHR 0x19, CHR 0x00, CHR 0x01]]"

theorem constrain_is_descent_witness:
  "constrain 2 demo_types (demo_wire demo_bounds) = Some (constrained 3 demo_types 2 (demo_wire demo_bounds))"
  using constrain_is_descent [OF demo_types_ok, of 2 "demo_wire demo_bounds"]
  by (simp add: demo_types_def numeral_3_eq_3 del: constrained.simps)

text \<open>One snapshot of two integers, in one buffer and in buffers of one byte.\<close>

definition demo_body :: string where
  "demo_body = section_name ''SNP'' @ replicate 12 nul @ [CHR 0x05, CHR 0x7F] @ section_name ''ESN''"

theorem walk_ignores_buffers_witness:
  "ghw_walk (demo_wire [demo_body]) demo_types [(1, 0), (2, 0)] time_max =
    ghw_walk (demo_wire (map (\<lambda>c. [c]) demo_body)) demo_types [(1, 0), (2, 0)] time_max"
  by (rule walk_ignores_buffers) (rule demo_wire_same, simp)

end
