(* ===== verification/Spec2Isabelle.thy ===== *)
theory Spec2Isabelle
  imports Ondas_Waveform Ondas_Lookup Ondas_Vcd_Demo Ondas_Ghw_Demo
begin

text \<open>
  A verification library for \<^verbatim>\<open>ondas\<close>, a reader of digital waveform files with one
  query interface over several formats.

  The program. A \<^verbatim>\<open>Waveform\<close> owns one reader and the hierarchy of its signals. A client
  selects signals and asks for point samples, traces, scans and queries. A selection keeps
  one slot per distinct signal and runs one traversal per request: the reader notifies
  recorded values in time order, the engine collects the values of a tick in the slots,
  derives the computed slots, shows the completed tick to the visitor of the operation and
  commits it. Between requests a selection retains two snapshots from which the next
  traversal may resume.

  Theories, in the order of the code:
    \<^item> \<open>Ondas_Prelude\<close>, \<open>Ondas_Text\<close>: checked integers, results and control flow, byte and
      text functions of the standard library, binary search, the contract of an unstable sort.
    \<^item> \<open>Ondas_Time\<close> (src/time.rs), \<open>Ondas_Value\<close> (src/value.rs), \<open>Ondas_Signal\<close>
      (handles, slices and ranges of src/hierarchy.rs), \<open>Ondas_Error\<close> (src/error.rs).
    \<^item> \<open>Ondas_Slot\<close>: slots, computations and the completion of a tick (src/query/engine.rs,
      src/query/engine/composition.rs).
    \<^item> \<open>Ondas_Engine\<close>: \<open>read_ticks_from\<close> with its \<open>consume\<close> closure, replay and checkpoint.
    \<^item> \<open>Ondas_Selection\<close>: the operations of src/query.rs and of the rest of the engine;
      \<open>Ondas_Trace\<close>: sampling of saved traces.
    \<^item> \<open>Ondas_Memory\<close>: the in-memory reader of src/backends/mod.rs.
    \<^item> \<open>Ondas_Hierarchy\<close>, \<open>Ondas_Names\<close>: declarations, the lists of children, the name
      index and the lookups (src/hierarchy.rs); \<open>Ondas_Path\<close>: the path grammar, its
      printers and selectors (src/hierarchy/path.rs).
    \<^item> \<open>Ondas_Plan\<close>: compositions and the plan of a selection (src/waveform/composition.rs,
      src/query/engine/composition.rs); \<open>Ondas_Waveform\<close>: the one-shot operations of
      src/waveform.rs.
    \<^item> The VCD reader (src/backends/vcd.rs): \<open>Ondas_Vcd_Tokens\<close> the buffered tokenizer,
      \<open>Ondas_Vcd_Lex\<close> numbers, escapes, timescales, identifier codes and ranges,
      \<open>Ondas_Vcd_Body\<close> the walk of the body, \<open>Ondas_Vcd_Reader\<close> a read from any position,
      \<open>Ondas_Vcd_Header\<close> the header commands and \<open>Reader::open\<close>, \<open>Ondas_Vcd_Parallel\<close> the
      opening by threads over chunks, \<open>Ondas_Vcd_Full\<close> the read of all of a file by threads.
    \<^item> The GHW reader (src/backends/ghw): \<open>Ondas_Ghw_Wire\<close> the checked fields of wire.rs,
      \<open>Ondas_Ghw_Strings\<close> the string table, \<open>Ondas_Ghw_Types\<close> the type table of types.rs
      with composite constraints and well-known markers, \<open>Ondas_Ghw_Body\<close> the walk of
      body.rs with the bulk decoding of buffered records, \<open>Ondas_Ghw_Reader\<close> the assembly of
      signals by \<open>Reader::read\<close> of mod.rs.

  The proofs. \<open>Ondas_Traversal\<close>, \<open>Ondas_Replay\<close> and \<open>Ondas_ReadTicks\<close> prove that a traversal
  refines one reference read from the beginning, for every reader that satisfies the locale
  \<open>tick_reader\<close> and every pair of valid retained snapshots. \<open>Ondas_History\<close> defines the
  recorded history of an entry and what a point sample means; \<open>Ondas_Scan\<close>,
  \<open>Ondas_Entries\<close>, \<open>Ondas_Trace\<close>, \<open>Ondas_Agreement\<close> and \<open>Ondas_Query\<close> prove each operation
  against it; \<open>Ondas_Session\<close> proves that requests on one selection do not influence each
  other; \<open>Ondas_Observed\<close> has exact event counts, candidate times and failing reads.
  \<open>Ondas_Demo\<close> is a concrete session at which the properties are evaluated.
  \<open>Ondas_Lookup\<close> has what a client relies on in the hierarchy: children, exact lookups,
  round trips of paths. \<open>Ondas_Typed\<close> shows that a planned selection over typed records
  never fails.

  The readers meet the locale: \<open>Ondas_Memory\<close>, \<open>Ondas_Vcd_Reader\<close> and
  \<open>Ondas_Ghw_Contract\<close> interpret \<open>tick_reader\<close> on the in-memory, the VCD and the GHW reader.
  \<open>Ondas_Vcd_Open\<close> shows what an opened VCD file guarantees to every later read, and
  \<open>Ondas_Vcd_Session\<close> joins opening, reader and engine. \<open>Ondas_Vcd_Chunks\<close>,
  \<open>Ondas_Vcd_Parallel\<close> and \<open>Ondas_Vcd_Full\<close> show that threads over chunks change nothing.
  \<open>Ondas_Ghw_Leb\<close> and \<open>Ondas_Ghw_Strings\<close> have the round trips of the wire encodings,
  \<open>Ondas_Ghw_Graph\<close> the well-formed type graph and the work stack as a recursive descent,
  \<open>Ondas_Ghw_Bulk\<close> that buffers and bulk decoding do not show in what a walk delivers.
  \<open>Ondas_Vcd_Demo\<close> and \<open>Ondas_Ghw_Demo\<close> are concrete files for the witnesses.

  Modelling choices. A panic of the Rust code is a value of its own (\<open>None\<close> or the error
  \<open>Panic\<close>). Borrowed and owned values are one type, \<open>wave_value\<close>. A callback is a function
  that threads a state. An input is the list of the buffers it delivers, and the readers are
  proved independent of how a file is cut into them. The default build is modelled: the
  readers behind the features \<^verbatim>\<open>fsdb-lib\<close>, \<^verbatim>\<open>shm-lib\<close>, \<^verbatim>\<open>wlf-lib\<close> and \<^verbatim>\<open>wdb-lib\<close> bind
  proprietary libraries. The hash map of groups is a partial function. The unstable sorts,
  the parser of decimal reals and the JSON string codec are parameters with the documented
  behaviour as hypotheses. A loop is structural, has a termination proof, or is a partial
  function whose result is proved to exist (the chains of children, the paths of scopes, the
  plan of a selection, the constraints of a type table); no fuel is used.

  Not modelled:
    \<^item> the FST reader, an adapter over a package that is not in the repository, and the
      native FSDB, SHM, WDB and WLF readers, bindings to libraries that are not either;
    \<^item> VCD: sampling by threads (\<open>parallel_prefix\<close>); a file answers no prefix, which the
      engine treats as an ordinary read;
    \<^item> GHW: the hierarchy section, the position index (a read walks the body, as the code does
      when the index gave up), the content identity and the cache of validated sources, the
      joined opening of a file. That the node of \<open>effective\<close> and \<open>type_name\<close> is in range is a
      guard of the models; it never decides on a table that \<open>types_read\<close> returns;
    \<^item> format detection, the counting of retained bytes, the effect of progress callbacks, the
      generated reader of the test-suite, the display texts of errors.
\<close>

section \<open>The queries of a selection\<close>

text \<open>
  C1: a trace answers like a fresh read: after \<open>traces\<close> over a range, \<open>Trace::sample\<close> at a
  covered tick up to the end of the scan gives for every entry what \<open>samples\<close> at that tick
  gives on the same selection, whatever the two leave in its retained snapshots.
\<close>

theorem traces_agree_with_samples:
  assumes ok: "session_ok src sel" and idx: "slots_in_range sel"
    and rec: "recording src sel (scan_end src rng) = Some ss"
    and typed: "\<And>j. j < length (sel_signals sel) \<Longrightarrow>
      entry_typed (sel_signals sel ! j) (entry_history sel ss j)"
    and covered: "covers rng t" "t \<le> scan_end src rng" and i: "i < length (sel_signals sel)"
  shows "\<exists>trs row. snd (traces src sel rng) = Inr trs \<and>
    snd (samples src (fst (traces src sel rng)) t) = Inr row \<and>
    length trs = length (sel_signals sel) \<and> length row = length (sel_signals sel) \<and>
    trace_sample (trs ! i) t = Inr (row ! i)"
proof -
  let ?ss = "filter (\<lambda>x. fst x \<le> t) ss"
  obtain trs where trs: "snd (traces src sel rng) = Inr trs"
    "trs = map (\<lambda>i. trace_of (sel_signals sel ! i) rng (entry_history sel ss i)) [0..<length (sel_signals sel)]"
    using traces_spec [OF ok idx rec] by auto
  have fit: "fit src sel sel" using ok by (simp add: fit_def)
  then have "fit src sel (fst (traces src sel rng))"
    using traces_alike [OF fit fit] by (simp add: alike_def)
  from samples_alike [OF this fit] have
    "snd (samples src (fst (traces src sel rng)) t) = snd (samples src sel t)" by (simp add: alike_def)
  moreover have "recording src sel t = Some ?ss" by (rule recording_prefix [OF ok rec covered(2)])
  from samples_spec [OF ok idx this] have "snd (samples src sel t) =
      Inr (map (\<lambda>i. point_sample (sel_signals sel ! i) (entry_history sel ?ss i) t)
        [0..<length (sel_signals sel)])" by auto
  moreover have "trace_sample (trs ! i) t =
      Inr (point_sample (sel_signals sel ! i) (entry_history sel ss i) t)"
    unfolding trs(2) using i typed [OF i] covered(1) recording_increasing [OF ok rec]
    by (simp add: trace_sample_point increasing_def entry_history_def)
  ultimately show ?thesis
    using trs i by (simp add: entry_history_filter point_sample_filter)
qed

theorem traces_agree_with_samples_witness:
  "\<exists>trs row. snd (traces (demo_source None) demo_selection (time_range_closed (Time 3) (Time 9))) = Inr trs \<and>
    snd (samples (demo_source None)
      (fst (traces (demo_source None) demo_selection (time_range_closed (Time 3) (Time 9)))) (Time 5)) = Inr row \<and>
    trace_sample (trs ! 2) (Time 5) = Inr (row ! 2)"
proof -
  let ?r = "time_range_closed (Time 3) (Time 9)"
  have stop: "scan_end (demo_source None) ?r = Time 9" by (simp add: scan_end_def)
  have rec: "recording (demo_source None) demo_selection (scan_end (demo_source None) ?r) = Some demo_ticks"
    unfolding stop by (rule demo_recording)
  have typed: "entry_typed (sel_signals demo_selection ! j) (entry_history demo_selection demo_ticks j)"
    if "j < length (sel_signals demo_selection)" for j
  proof -
    have "j = 0 \<or> j = Suc 0 \<or> j = 2" using that by (auto simp: demo_fields)
    then show ?thesis
      by (elim disjE) (simp_all add: demo_fields demo_histories demo_history_def entry_typed_def demo_encodings)
  qed
  have cov: "covers ?r (Time 5)" by (simp add: covers_def)
  show ?thesis
    using traces_agree_with_samples [OF demo_session demo_slots rec typed cov, where i = 2]
    by (auto simp: stop demo_fields)
qed

text \<open>
  C3: a point sample is what the recorded history of its entry says: the value of the last
  write at or before the tick with the tick of its last change (unknown for the first
  known value), or the exact number of event occurrences at the tick itself. It holds for
  every reader that keeps the reader contract and for a selection in any state of its
  retained snapshots.
\<close>

theorem samples_are_point_samples:
  assumes "session_ok src sel" and "slots_in_range sel" and "recording src sel t = Some ss"
  shows "snd (samples src sel t) =
    Inr (map (\<lambda>i. point_sample (sel_signals sel ! i) (entry_history sel ss i) t)
      [0..<length (sel_signals sel)])"
  using samples_spec [OF assms] by auto

theorem samples_are_point_samples_witness:
  "snd (samples (demo_source None) demo_selection (Time 7)) =
    Inr [SampleValue demo_cat (VBits ''110111'') (Some (Time 6)), SampleEvent demo_event 0,
         SampleValue demo_low (VBits ''11'') (Some (Time 6))]"
proof -
  have t: "Time 7 \<le> Time 9" by simp
  show ?thesis
    unfolding samples_are_point_samples [OF demo_session demo_slots demo_recording_at [OF t]] demo_row [OF t]
    by (simp add: demo_point)
qed

text \<open>
  C2: the answers of a session do not depend on its past: a list of samples, batches,
  traces, scans, candidate-time scans and queries, any of them stopped early by its
  callback, is answered on one selection as each request is on a fresh one. It covers
  every outcome, read failures and invalid requests included.
\<close>

theorem session_is_memoryless:
  assumes "session_ok src sel"
  shows "run_requests sort_by src sel rs =
    map (\<lambda>r. snd (run_request sort_by src (drop_caches sel) r)) rs"
proof (rule run_requests_alike)
  show "fit src sel sel" using assms by (simp add: fit_def)
  then show "fit src sel (drop_caches sel)" by (rule fit_drop)
qed

theorem session_is_memoryless_witness:
  "run_requests sort_key (demo_source (Some 5)) demo_selection
     [AskScan time_range_all 2, AskSamples (Time 4), AskBatch [Time 6, Time 0],
      AskQuery (time_range_from (Time 1)) [1] 1, AskTimes time_range_all 0] =
   map (\<lambda>r. snd (run_request sort_key (demo_source (Some 5)) (drop_caches demo_selection) r))
     [AskScan time_range_all 2, AskSamples (Time 4), AskBatch [Time 6, Time 0],
      AskQuery (time_range_from (Time 1)) [1] 1, AskTimes time_range_all 0]"
  by (rule session_is_memoryless [OF demo_session])

text \<open>
  C5: a scan runs its callback over one list of records until it stops: the records of each
  entry are its state strictly before the range, if known, then one net change per tick
  whose final value differs from the entering one, and its event counts; the change times
  of the whole list never decrease.
\<close>

theorem scan_delivers_net_changes:
  assumes "session_ok src sel" and "slots_in_range sel"
    and "recording src sel (scan_end src rng) = Some ss"
  shows "snd (scan_each src sel rng visitor s) =
      (case run_records visitor (scan_spec sel rng ss) s of (s', flow) \<Rightarrow> (s', Inr flow)) \<and>
    (\<forall>i < length (sel_signals sel). at_entry i (scan_spec sel rng ss) =
      entry_records (sel_signals sel ! i) rng (entry_history sel ss i)) \<and>
    sorted (change_times (scan_spec sel rng ss))"
proof -
  have inc: "sorted_wrt (<) (map fst ss)" using recording_increasing [OF assms(1,3)] by simp
  obtain sel' s' flow where run: "scan_each src sel rng visitor s = (sel', s', flow)"
    by (rule prod_cases3)
  from scan_each_records [OF assms run] have "snd (scan_each src sel rng visitor s) =
      (case run_records visitor (scan_spec sel rng ss) s of (s', flow) \<Rightarrow> (s', Inr flow))"
    by (simp add: run)
  then show ?thesis
    using scan_spec_at_entry [OF recording_chain [OF assms(1,3)] inc assms(2)] scan_spec_sorted [OF inc]
    by blast
qed

theorem scan_delivers_net_changes_witness:
  "snd (scan_each (demo_source None) demo_selection (time_range_closed (Time 3) (Time 9))
      (\<lambda>out i r. (out @ [i], if i = 1 then Break r else Continue)) []) =
    ([0, 2, 0, 1], Inr (Break (ScanChange demo_event (Time 6) (VEvent 3))))"
proof -
  let ?r = "time_range_closed (Time 3) (Time 9)"
  have rec: "recording (demo_source None) demo_selection (scan_end (demo_source None) ?r) = Some demo_ticks"
    by (simp add: scan_end_def demo_recording)
  show ?thesis
    unfolding conjunct1 [OF scan_delivers_net_changes [OF demo_session demo_slots rec]]
    by (simp add: scan_spec_def range_is_empty_def scan_records_def demo_ticks_def demo_fields
        chain_end.simps demo_slots_2_def demo_slots_6_def commit_slot_def slot_changes_def)
qed

text \<open>
  C6: a batch of point samples is the point samples: one traversal serves any list of ticks,
  unsorted and with repetitions, and gives at each what \<open>samples\<close> gives there. The order in
  which an unstable sort leaves equal ticks does not matter.
\<close>

theorem samples_at_are_samples:
  assumes sort: "unstable_sort sort_by" and ok: "session_ok src sel" and idx: "slots_in_range sel"
    and "sel_signals sel \<noteq> []" and "asked \<noteq> []"
    and rec: "recording src sel (Max (set asked)) = Some ss"
  shows "\<exists>rows. snd (samples_at sort_by src sel asked) = Inr rows \<and> map fst rows = asked \<and>
    (\<forall>(t, row) \<in> set rows. snd (samples src sel t) = Inr row)"
proof -
  have "snd (samples_at sort_by src sel asked) = Inr (map (\<lambda>t. (t, point_row sel ss t)) asked)"
    using samples_at_spec [OF assms] by auto
  moreover have "snd (samples src sel t) = Inr (point_row sel ss t)" if "t \<in> set asked" for t
  proof -
    have "recording src sel t = Some (filter (\<lambda>x. fst x \<le> t) ss)"
      using that by (intro recording_prefix [OF ok rec]) simp
    from samples_spec [OF ok idx this] show ?thesis
      by (auto simp: point_row_def entry_history_filter point_sample_filter)
  qed
  ultimately show ?thesis by (auto simp: o_def)
qed

theorem samples_at_are_samples_witness:
  "\<exists>rows. snd (samples_at sort_key (demo_source None) demo_selection [Time 9, Time 2, Time 9]) = Inr rows \<and>
    map fst rows = [Time 9, Time 2, Time 9] \<and>
    (\<forall>(t, row) \<in> set rows. snd (samples (demo_source None) demo_selection t) = Inr row)"
proof -
  have m: "Max (set [Time 9, Time 2, Time 9]) = Time 9"
    by (rule Max_eqI) auto
  show ?thesis
    by (rule samples_at_are_samples [OF stable_sort.unstable_sort_axioms demo_session demo_slots])
      (simp_all only: m demo_recording demo_fields, simp_all)
qed

text \<open>
  C7: a query runs its callback once per completed tick of its range at which a driver entry
  has a record, in increasing order; the context answers for every entry with the point
  sample of that tick and of the tick just before it, the latter also where it precedes
  the range.
\<close>

theorem query_contexts_answer_points:
  fixes visitor :: "'s \<Rightarrow> query_context \<Rightarrow> 's \<times> (error + 'b flow)"
  assumes ok: "session_ok src sel" and idx: "slots_in_range sel"
    and drivers: "\<forall>i \<in> set drivers. i < length (sel_signals sel)" "drivers \<noteq> []"
    and range: "\<not> range_is_empty rng" "range_start rng \<le> query_end src rng"
    and rec: "recording src sel (query_end src rng) = Some ss"
  shows "snd (query src sel rng drivers visitor s) = run_contexts visitor (query_contexts sel rng drivers ss) s \<and>
    sorted_wrt (<) (map ctx_time (query_contexts sel rng drivers ss)) \<and>
    (\<forall>ctx \<in> set (query_contexts sel rng drivers ss). \<forall>i < length (sel_signals sel). \<forall>t.
      t = ctx_time ctx \<or> time_pred (ctx_time ctx) = Some t \<longrightarrow>
      context_sample ctx t i = point_sample (sel_signals sel ! i) (entry_history sel ss i) t)"
proof (intro conjI ballI allI impI)
  have inc: "sorted_wrt (<) (map fst ss)" using recording_increasing [OF ok rec] by simp
  show "snd (query src sel rng drivers visitor s) = run_contexts visitor (query_contexts sel rng drivers ss) s"
    using query_runs_contexts [OF ok drivers(1) range drivers(2) rec, of visitor s]
    by (auto split: prod.splits)
  have "sorted_wrt (<) (map fst (from_pred rng ss))"
    using inc by (simp add: from_pred_def sorted_wrt_map sorted_wrt_filter)
  then show "sorted_wrt (<) (map ctx_time (query_contexts sel rng drivers ss))"
    unfolding query_contexts_def by (rule contexts_increase)
  fix ctx i t
  assume "ctx \<in> set (query_contexts sel rng drivers ss)" "i < length (sel_signals sel)"
    "t = ctx_time ctx \<or> time_pred (ctx_time ctx) = Some t"
  then show "context_sample ctx t i = point_sample (sel_signals sel ! i) (entry_history sel ss i) t"
    by (rule context_samples [OF recording_chain [OF ok rec] inc idx])
qed

theorem query_contexts_answer_points_witness:
  "snd (query (demo_source None) demo_selection (time_range_closed (Time 3) (Time 9)) [1]
      (\<lambda>out ctx. (out @ [ctx_time ctx], Inr (Continue :: unit flow))) []) = ([Time 6], Inr Continue)"
proof -
  let ?r = "time_range_closed (Time 3) (Time 9)"
  have p: "time_pred (Time 3) = Some (Time 2)" by (simp add: time_pred_def checked_sub_def)
  have stop: "query_end (demo_source None) ?r = Time 9" by (simp add: query_end_def)
  have r: "\<not> range_is_empty ?r" "range_start ?r \<le> query_end (demo_source None) ?r"
    by (simp_all add: range_is_empty_def stop)
  have d: "\<forall>i \<in> set [1]. i < length (sel_signals demo_selection)" "[1 :: nat] \<noteq> []"
    by (simp_all add: demo_fields)
  have rec: "recording (demo_source None) demo_selection (query_end (demo_source None) ?r) = Some demo_ticks"
    unfolding stop by (rule demo_recording)
  show ?thesis
    unfolding conjunct1 [OF query_contexts_answer_points [OF demo_session demo_slots d r rec]]
    by (simp add: query_contexts_def from_pred_def shown_from_def p demo_ticks_def driven_def demo_fields
        demo_slots_2_def demo_slots_6_def)
qed





text \<open>
  C4: one traversal refines the reference read: resumed from whatever valid snapshots the
  selection retains, incrementally, with its list of active slots and its early exits,
  \<open>read_ticks_from\<close> shows the visitor what one read from the beginning shows tick by tick,
  ends with the same outcome, and leaves valid snapshots behind.
\<close>

theorem read_ticks_refines_reference:
  fixes visitor :: "('s, 'b) tick_visitor"
  assumes "session_ok src sel"
    and "read_ticks_from src sel start stop (default_slots sel) visitor s = (sel', slots', s', flow)"
  shows "(s', flow) = reference_traversal src sel start stop visitor s \<and> session_ok src sel' \<and>
    recached sel sel' \<and> (flow = Inr Continue \<longrightarrow> slots' = reference_slots src sel stop)"
  by (rule session_ok_read [OF assms])

theorem read_ticks_refines_reference_witness:
  "\<exists>sel' slots' s' flow. read_ticks_from (demo_source None) demo_selection (Some (Time 3)) (Time 9)
      (default_slots demo_selection) (\<lambda>s t m. (s @ [t], Inr (Continue :: unit flow))) [] =
      (sel', slots', s', flow) \<and>
    (s', flow) = reference_traversal (demo_source None) demo_selection (Some (Time 3)) (Time 9)
      (\<lambda>s t m. (s @ [t], Inr Continue)) []"
  using read_ticks_refines_reference [OF demo_session] by (metis prod_cases4)

section \<open>Errors and bounds\<close>

text \<open>
  C10: owned results are complete or an error: when the read up to the tick, or the storing
  of its records, fails, then \<open>samples\<close> and \<open>traces\<close> return an error and no partial result.
\<close>

theorem failed_reads_are_errors:
  assumes "session_ok src sel" and "sel_signals sel \<noteq> []" and "\<not> range_is_empty rng"
    and "recording src sel (scan_end src rng) = None" and "recording src sel t = None"
  shows "(\<exists>e. snd (traces src sel rng) = Inl e) \<and> (\<exists>e. snd (samples src sel t) = Inl e)"
  using traces_failed [OF assms(1,4,3,2)] samples_failed [OF assms(1,5,2)] by blast

theorem failed_reads_are_errors_witness:
  "\<exists>e. snd (samples (demo_source (Some 2)) demo_selection (Time 9)) = Inl e"
proof -
  let ?r = "time_range_closed (Time 3) (Time 9)"
  have "scan_end (demo_source (Some 2)) ?r = Time 9" by (simp add: scan_end_def)
  moreover have "\<not> range_is_empty ?r" by (simp add: range_is_empty_def)
  moreover have "sel_signals demo_selection \<noteq> []" by (simp add: demo_fields)
  ultimately show ?thesis
    using failed_reads_are_errors [OF demo_session [of "Some 2"], where rng = ?r and t = "Time 9"]
      demo_failing by simp
qed

text \<open>
  C11: event counts are exact and never wrap: where the records of a tick are stored, the
  count of a slot grows by the sum of the recorded counts, as a natural number; a sum that
  leaves \<open>u64\<close> is an error.
\<close>

theorem event_counts_exact:
  assumes "own_slot sel b i" and "i < length slots"
  shows "(\<forall>slots'. store_all sel backend rs slots = Inr slots' \<longrightarrow>
      unat (slot_events (slots' ! i)) = unat (slot_events (slots ! i)) + recorded_events b rs) \<and>
    (2 ^ 64 \<le> unat (slot_events (slots ! i)) + recorded_events b rs \<longrightarrow>
      (\<exists>e. store_all sel backend rs slots = Inl e))"
proof (intro conjI allI impI)
  show exact: "unat (slot_events (slots' ! i)) = unat (slot_events (slots ! i)) + recorded_events b rs"
    if "store_all sel backend rs slots = Inr slots'" for slots'
    by (rule store_all_events [OF that assms])
  assume large: "2 ^ 64 \<le> unat (slot_events (slots ! i)) + recorded_events b rs"
  show "\<exists>e. store_all sel backend rs slots = Inl e"
  proof (cases "store_all sel backend rs slots")
    case (Inr slots')
    have "unat (slot_events (slots' ! i)) < 2 ^ 64" using unsigned_less [of "slot_events (slots' ! i)"] by simp
    with exact [OF Inr] large show ?thesis by linarith
  qed simp
qed

theorem event_counts_exact_witness:
  "own_slot demo_selection 1 3 \<and>
   (\<exists>e. store_all demo_selection ''memory'' [(1, VEvent 2), (1, VEvent (- 1))]
      (default_slots demo_selection) = Inl e)"
proof -
  have own: "own_slot demo_selection 1 3"
    by (auto simp: own_slot_def demo_selection_def split: if_splits)
  have len: "3 < length (default_slots demo_selection)" by (simp add: default_slots_def demo_fields)
  have "unat (- 1 :: u64) = 2 ^ 64 - 1" by (simp add: unsigned_minus_1_eq_mask mask_eq_exp_minus_1)
  then have "2 ^ 64 \<le> unat (slot_events (default_slots demo_selection ! 3)) +
      recorded_events 1 [(1, VEvent 2), (1, VEvent (- 1))]"
    by simp
  then show ?thesis
    using own event_counts_exact [OF own len, of "''memory''" "[(1, VEvent 2), (1, VEvent (- 1))]"] by blast
qed

text \<open>
  A saved trace answers only for its range: sampling it outside is the coverage error that
  names the tick and the range, inside it is never an error.
\<close>

theorem trace_coverage:
  "trace_sample tr t = Inl e \<longleftrightarrow> \<not> covers (tr_range tr) t \<and> e = TraceCoverage t (tr_range tr)"
  using trace_sample_inside [of tr t] trace_sample_outside [of tr t] by (cases "covers (tr_range tr) t") auto

end
